(* ===== verification/Prelude.thy ===== *)
theory Prelude
  imports Main "HOL-Library.Word"
begin

text \<open>
  What every component of the development shares: the machine types of the C code, the
  outcome of a call (a value, a reported failure, or a fault such as an out-of-bounds access
  or a failed \<open>assert\<close>), the little-endian loops that occur several times in the storage
  layer, and the collections of simplification rules the component theories extend.
\<close>

unbundle bit_operations_syntax

section \<open>Machine types\<close>

type_synonym byte = "8 word"
type_synonym u32 = "32 word"
type_synonym u64 = "64 word"

text \<open>
  \<open>storage_simps\<close> holds the facts about the byte-level operations, \<open>lock_simps\<close> those about
  the versioned locks, \<open>pool_simps\<close> those about the allocators and containers.
\<close>

named_theorems storage_simps \<open>effects of the storage layer's operations\<close>
named_theorems lock_simps \<open>facts about versioned locks\<close>
named_theorems pool_simps \<open>facts about containers and allocators\<close>

section \<open>Outcomes of calls\<close>

text \<open>
  \<open>Done\<close> carries the result, \<open>Failed\<close> is the failure the caller tests for (a function
  returning \<open>false\<close>), \<open>Fault\<close> is what the caller cannot see: a violated \<open>assert\<close>,
  \<open>utilDie\<close>, or an access outside the memory an object owns.
\<close>

datatype 'a outcome = Done 'a | Failed | Fault

fun obind :: "'a outcome \<Rightarrow> ('a \<Rightarrow> 'b outcome) \<Rightarrow> 'b outcome" where
  "obind (Done x) f = f x"
| "obind Failed f = Failed"
| "obind Fault f = Fault"

definition c_assert :: "bool \<Rightarrow> unit outcome" where
  "c_assert b = (if b then Done () else Fault)"

definition check :: "bool \<Rightarrow> unit outcome" where
  "check b = (if b then Done () else Failed)"

lemma c_assert_simps [simp]:
  "c_assert True = Done ()"
  "c_assert False = Fault"
  by (simp_all add: c_assert_def)

lemma check_simps [simp]:
  "check True = Done ()"
  "check False = Failed"
  by (simp_all add: check_def)

lemma obind_cong [fundef_cong]:
  "m = m' \<Longrightarrow> (\<And>x. m' = Done x \<Longrightarrow> f x = g x) \<Longrightarrow> obind m f = obind m' g"
  by (cases m') auto

lemma obind_assoc: "obind (obind m f) g = obind m (\<lambda>x. obind (f x) g)"
  by (cases m) auto

lemma obind_eq_Done: "obind m f = Done y \<longleftrightarrow> (\<exists>x. m = Done x \<and> f x = Done y)"
  by (cases m) auto

lemma obind_eq_Fault: "obind m f = Fault \<longleftrightarrow> m = Fault \<or> (\<exists>x. m = Done x \<and> f x = Fault)"
  by (cases m) auto

lemma check_eq_Done [simp]: "check b = Done u \<longleftrightarrow> b"
  by (simp add: check_def)

lemma c_assert_eq_Done [simp]: "c_assert b = Done u \<longleftrightarrow> b"
  by (simp add: c_assert_def)

lemma check_neq_Fault [simp]: "check b \<noteq> Fault"
  by (simp add: check_def)

lemma c_assert_eq_Fault [simp]: "c_assert b = Fault \<longleftrightarrow> \<not> b"
  by (simp add: c_assert_def)

lemma obind_check: "obind (check b) f = (if b then f () else Failed)"
  by simp

lemma obind_c_assert: "obind (c_assert b) f = (if b then f () else Fault)"
  by simp

section \<open>Lists\<close>

lemma map_nth_upt_append:
  "i \<le> j \<Longrightarrow> j \<le> k \<Longrightarrow> map f [i..<j] @ map f [j..<k] = map f [i..<k]"
  by (metis le_Suc_ex map_append upt_add_eq_append)

lemma map_upt_upd_outside:
  "p \<notin> {i..<j} \<Longrightarrow> map (f(p := v)) [i..<j] = map f [i..<j]"
  by auto

lemma drop_eq_appendD:
  "drop k xs = ys @ zs \<Longrightarrow> k \<le> length xs \<Longrightarrow> k + length ys \<le> length xs"
  by (metis add_le_cancel_left append_take_drop_id le_add1 length_append length_take min.absorb2)

lemma drop_eq_append_nth:
  "drop k xs = ys @ zs \<Longrightarrow> i < length ys \<Longrightarrow> xs ! (k + i) = ys ! i"
  by (metis append_take_drop_id drop_eq_Nil append_is_Nil_conv length_0_conv
      nth_drop nth_append not_less_zero nat_le_linear)

section \<open>Words\<close>

lemma word_and_0xFF: "x AND 0xFF = take_bit 8 (x :: 'a::len word)"
proof -
  have "(0xFF :: 'a word) = mask 8" by (simp add: mask_eq_exp_minus_1)
  then show ?thesis by (simp add: take_bit_eq_mask)
qed

lemma unat_of_nat_small: "n < 2 ^ LENGTH('a) \<Longrightarrow> unat (of_nat n :: 'a::len word) = n"
  by (simp add: unsigned_of_nat take_bit_nat_eq_self)

lemma unat_ucast_byte:
  "8 \<le> LENGTH('a) \<Longrightarrow> unat (ucast (b :: byte) :: 'a::len word) = unat b"
proof -
  assume "8 \<le> LENGTH('a)"
  then have "(2 :: nat) ^ 8 \<le> 2 ^ LENGTH('a)" by (intro power_increasing) simp_all
  moreover have "unat b < 2 ^ 8" using unsigned_less [of b] by simp
  ultimately show ?thesis
    by (simp add: unsigned_ucast_eq take_bit_nat_eq_self)
qed

section \<open>Little-endian loops\<close>

text \<open>
  \<open>for (i = l - 1; i >= 0; i--) acc = (acc << 8) | ptr[i]\<close>: the loop shared by
  \<open>read_string\<close>, \<open>read_number\<close>, \<open>read_header\<close> and \<open>reader_finish\<close>.
\<close>

definition read_le :: "'a::len word \<Rightarrow> byte list \<Rightarrow> 'a word" where
  "read_le acc bs = fold (\<lambda>b acc. push_bit 8 acc OR ucast b) (rev bs) acc"

text \<open>\<open>for (i = 0; i < k; i++, n >>= 8) ptr[i] = n & 0xFF\<close>.\<close>

primrec write_le :: "nat \<Rightarrow> 'a::len word \<Rightarrow> byte list" where
  "write_le 0 n = []"
| "write_le (Suc k) n = ucast n # write_le k (drop_bit 8 n)"

lemma write_le_numeral:
  "write_le (numeral k) n = ucast n # write_le (pred_numeral k) (drop_bit 8 n)"
  by (simp add: numeral_eq_Suc)

lemma read_le_Nil [simp]: "read_le acc [] = acc"
  by (simp add: read_le_def)

lemma read_le_Cons [simp]: "read_le acc (b # bs) = push_bit 8 (read_le acc bs) OR ucast b"
  by (simp add: read_le_def)

lemma length_write_le [simp]: "length (write_le k n) = k"
  by (induction k arbitrary: n) auto

lemma word_split_byte: "push_bit 8 (drop_bit 8 n) OR ucast (ucast n :: byte) = (n :: 'a::len word)"
  by (rule bit_word_eqI) (auto simp: bit_simps)

lemma read_le_write_le:
  "drop_bit (8 * k) n = acc \<Longrightarrow> read_le acc (write_le k n) = (n :: 'a::len word)"
proof (induction k arbitrary: n)
  case 0
  then show ?case by simp
next
  case (Suc k)
  then have "drop_bit (8 * k) (drop_bit 8 n) = acc"
    by (simp add: algebra_simps)
  then have "read_le acc (write_le k (drop_bit 8 n)) = drop_bit 8 n"
    by (rule Suc.IH)
  then show ?case by (simp add: word_split_byte)
qed

lemma read_le_write_le_full:
  assumes "LENGTH('a) \<le> 8 * k"
  shows "read_le 0 (write_le k n) = (n :: 'a::len word)"
proof (rule read_le_write_le)
  show "drop_bit (8 * k) n = 0"
    by (rule bit_word_eqI) (use assms in \<open>auto simp: bit_simps dest: bit_imp_le_length\<close>)
qed

lemma bit_read_le_high: "8 * length bs \<le> k \<Longrightarrow> \<not> bit (read_le 0 bs :: 'a::len word) k"
proof (induction bs arbitrary: k)
  case (Cons b bs)
  then have "\<not> bit (read_le 0 bs :: 'a word) (k - 8)" "8 \<le> k" by simp_all
  then show ?case by (auto simp: bit_simps dest: bit_imp_le_length)
qed simp

lemma write_le_read_le:
  "8 * length bs \<le> LENGTH('a) \<Longrightarrow> write_le (length bs) (read_le 0 bs :: 'a::len word) = bs"
proof (induction bs)
  case (Cons b bs)
  let ?r = "read_le 0 bs :: 'a word"
  have "drop_bit 8 (push_bit 8 ?r OR ucast b) = ?r"
  proof (rule bit_word_eqI)
    fix k assume "k < LENGTH('a)"
    then show "bit (drop_bit 8 (push_bit 8 ?r OR ucast b)) k = bit ?r k"
      using bit_read_le_high [of bs k, where 'a = 'a] Cons.prems
      by (cases "k + 8 < LENGTH('a)") (auto simp: bit_simps dest: bit_imp_le_length)
  qed
  moreover have "ucast (push_bit 8 ?r OR ucast b) = b"
  proof (rule bit_word_eqI)
    fix k assume "k < LENGTH(8)"
    then show "bit (ucast (push_bit 8 ?r OR ucast b) :: byte) k = bit b k"
      using Cons.prems by (auto simp: bit_simps)
  qed
  ultimately show ?case using Cons by simp
qed simp

end
