(* ===== verification/Crc.thy ===== *)
theory Crc
  imports Prelude
begin

text \<open>
  \<open>storage/storage.include/crc.c\<close>: the table-driven checksum of the storage layer. The
  reference is the bit-serial division by the Castagnoli polynomial, most significant bit
  first. The main results: the table is the reference's, the loop computes the reference,
  and the checksum tells apart any two messages that differ in at most four adjacent bytes.
\<close>

section \<open>The code\<close>

definition CRC32_C :: "u32 list" where
  "CRC32_C = [
   0x00000000, 0x1EDC6F41, 0x3DB8DE82, 0x2364B1C3, 0x7B71BD04, 0x65ADD245,
   0x46C96386, 0x58150CC7, 0xF6E37A08, 0xE83F1549, 0xCB5BA48A, 0xD587CBCB,
   0x8D92C70C, 0x934EA84D, 0xB02A198E, 0xAEF676CF, 0xF31A9B51, 0xEDC6F410,
   0xCEA245D3, 0xD07E2A92, 0x886B2655, 0x96B74914, 0xB5D3F8D7, 0xAB0F9796,
   0x05F9E159, 0x1B258E18, 0x38413FDB, 0x269D509A, 0x7E885C5D, 0x6054331C,
   0x433082DF, 0x5DECED9E, 0xF8E959E3, 0xE63536A2, 0xC5518761, 0xDB8DE820,
   0x8398E4E7, 0x9D448BA6, 0xBE203A65, 0xA0FC5524, 0x0E0A23EB, 0x10D64CAA,
   0x33B2FD69, 0x2D6E9228, 0x757B9EEF, 0x6BA7F1AE, 0x48C3406D, 0x561F2F2C,
   0x0BF3C2B2, 0x152FADF3, 0x364B1C30, 0x28977371, 0x70827FB6, 0x6E5E10F7,
   0x4D3AA134, 0x53E6CE75, 0xFD10B8BA, 0xE3CCD7FB, 0xC0A86638, 0xDE740979,
   0x866105BE, 0x98BD6AFF, 0xBBD9DB3C, 0xA505B47D, 0xEF0EDC87, 0xF1D2B3C6,
   0xD2B60205, 0xCC6A6D44, 0x947F6183, 0x8AA30EC2, 0xA9C7BF01, 0xB71BD040,
   0x19EDA68F, 0x0731C9CE, 0x2455780D, 0x3A89174C, 0x629C1B8B, 0x7C4074CA,
   0x5F24C509, 0x41F8AA48, 0x1C1447D6, 0x02C82897, 0x21AC9954, 0x3F70F615,
   0x6765FAD2, 0x79B99593, 0x5ADD2450, 0x44014B11, 0xEAF73DDE, 0xF42B529F,
   0xD74FE35C, 0xC9938C1D, 0x918680DA, 0x8F5AEF9B, 0xAC3E5E58, 0xB2E23119,
   0x17E78564, 0x093BEA25, 0x2A5F5BE6, 0x348334A7, 0x6C963860, 0x724A5721,
   0x512EE6E2, 0x4FF289A3, 0xE104FF6C, 0xFFD8902D, 0xDCBC21EE, 0xC2604EAF,
   0x9A754268, 0x84A92D29, 0xA7CD9CEA, 0xB911F3AB, 0xE4FD1E35, 0xFA217174,
   0xD945C0B7, 0xC799AFF6, 0x9F8CA331, 0x8150CC70, 0xA2347DB3, 0xBCE812F2,
   0x121E643D, 0x0CC20B7C, 0x2FA6BABF, 0x317AD5FE, 0x696FD939, 0x77B3B678,
   0x54D707BB, 0x4A0B68FA, 0xC0C1D64F, 0xDE1DB90E, 0xFD7908CD, 0xE3A5678C,
   0xBBB06B4B, 0xA56C040A, 0x8608B5C9, 0x98D4DA88, 0x3622AC47, 0x28FEC306,
   0x0B9A72C5, 0x15461D84, 0x4D531143, 0x538F7E02, 0x70EBCFC1, 0x6E37A080,
   0x33DB4D1E, 0x2D07225F, 0x0E63939C, 0x10BFFCDD, 0x48AAF01A, 0x56769F5B,
   0x75122E98, 0x6BCE41D9, 0xC5383716, 0xDBE45857, 0xF880E994, 0xE65C86D5,
   0xBE498A12, 0xA095E553, 0x83F15490, 0x9D2D3BD1, 0x38288FAC, 0x26F4E0ED,
   0x0590512E, 0x1B4C3E6F, 0x435932A8, 0x5D855DE9, 0x7EE1EC2A, 0x603D836B,
   0xCECBF5A4, 0xD0179AE5, 0xF3732B26, 0xEDAF4467, 0xB5BA48A0, 0xAB6627E1,
   0x88029622, 0x96DEF963, 0xCB3214FD, 0xD5EE7BBC, 0xF68ACA7F, 0xE856A53E,
   0xB043A9F9, 0xAE9FC6B8, 0x8DFB777B, 0x9327183A, 0x3DD16EF5, 0x230D01B4,
   0x0069B077, 0x1EB5DF36, 0x46A0D3F1, 0x587CBCB0, 0x7B180D73, 0x65C46232,
   0x2FCF0AC8, 0x31136589, 0x1277D44A, 0x0CABBB0B, 0x54BEB7CC, 0x4A62D88D,
   0x6906694E, 0x77DA060F, 0xD92C70C0, 0xC7F01F81, 0xE494AE42, 0xFA48C103,
   0xA25DCDC4, 0xBC81A285, 0x9FE51346, 0x81397C07, 0xDCD59199, 0xC209FED8,
   0xE16D4F1B, 0xFFB1205A, 0xA7A42C9D, 0xB97843DC, 0x9A1CF21F, 0x84C09D5E,
   0x2A36EB91, 0x34EA84D0, 0x178E3513, 0x09525A52, 0x51475695, 0x4F9B39D4,
   0x6CFF8817, 0x7223E756, 0xD726532B, 0xC9FA3C6A, 0xEA9E8DA9, 0xF442E2E8,
   0xAC57EE2F, 0xB28B816E, 0x91EF30AD, 0x8F335FEC, 0x21C52923, 0x3F194662,
   0x1C7DF7A1, 0x02A198E0, 0x5AB49427, 0x4468FB66, 0x670C4AA5, 0x79D025E4,
   0x243CC87A, 0x3AE0A73B, 0x198416F8, 0x075879B9, 0x5F4D757E, 0x41911A3F,
   0x62F5ABFC, 0x7C29C4BD, 0xD2DFB272, 0xCC03DD33, 0xEF676CF0, 0xF1BB03B1,
   0xA9AE0F76, 0xB7726037, 0x9416D1F4, 0x8ACABEB5]"

text \<open>One iteration: \<open>x = (x << 8) ^ CRC32_C[((x >> 24) ^ *b++) & 0xFF]\<close>.\<close>

definition crc32_step :: "u32 \<Rightarrow> byte \<Rightarrow> u32" where
  "crc32_step x b = push_bit 8 x XOR CRC32_C ! unat ((drop_bit 24 x XOR ucast b) AND 0xFF)"

definition crc32_c :: "byte list \<Rightarrow> u32 \<Rightarrow> u32" where
  "crc32_c bs x = foldl crc32_step x bs AND 0xFFFFFFFF"

section \<open>The bit-serial reference\<close>

definition crc_poly :: u32 where
  "crc_poly = 0x1EDC6F41"

definition crc_bit :: "u32 \<Rightarrow> u32" where
  "crc_bit x = (if bit x 31 then push_bit 1 x XOR crc_poly else push_bit 1 x)"

definition crc_byte :: "u32 \<Rightarrow> byte \<Rightarrow> u32" where
  "crc_byte x b = (crc_bit ^^ 8) (x XOR push_bit 24 (ucast b))"

definition crc32_ref :: "byte list \<Rightarrow> u32 \<Rightarrow> u32" where
  "crc32_ref bs x = foldl crc_byte x bs"

section \<open>Linearity of the division step\<close>

lemma bit_crc_bit:
  "bit (crc_bit x) k \<longleftrightarrow>
    k < 32 \<and> ((0 < k \<and> bit x (k - 1)) \<noteq> (bit x 31 \<and> bit crc_poly k))"
  unfolding crc_bit_def
  by (auto simp: bit_simps simp del: push_bit_Suc One_nat_def dest: bit_imp_le_length)

lemma crc_bit_xor: "crc_bit (x XOR y) = crc_bit x XOR crc_bit y"
  by (rule bit_word_eqI) (auto simp: bit_crc_bit bit_xor_iff)

lemma crc_bits_xor: "(crc_bit ^^ n) (x XOR y) = (crc_bit ^^ n) x XOR (crc_bit ^^ n) y"
  by (induction n) (auto simp: crc_bit_xor)

lemma crc_bits_0 [simp]: "(crc_bit ^^ n) 0 = 0"
  by (induction n) (auto simp: crc_bit_def)

text \<open>A value that stays below bit 31 is only shifted.\<close>

lemma crc_bits_shift:
  "drop_bit (32 - n) x = 0 \<Longrightarrow> n \<le> 32 \<Longrightarrow> (crc_bit ^^ n) x = push_bit n x"
proof (induction n arbitrary: x)
  case 0
  then show ?case by simp
next
  case (Suc n)
  have hi: "\<not> bit x k" if "32 - Suc n \<le> k" for k
    using arg_cong [OF Suc.prems(1), of "\<lambda>w. bit w (k - (32 - Suc n))"] that
    by (simp add: bit_drop_bit_eq)
  then have "crc_bit x = push_bit 1 x"
    using Suc.prems(2) by (simp add: crc_bit_def)
  moreover have "drop_bit (32 - n) (push_bit 1 x) = 0"
  proof (rule bit_word_eqI)
    fix k assume "k < LENGTH(32)"
    have "\<not> bit x (32 - n + k - 1)"
      using Suc.prems(2) by (intro hi) simp
    then show "bit (drop_bit (32 - n) (push_bit 1 x)) k = bit 0 k"
      by (simp add: bit_simps del: push_bit_Suc One_nat_def)
  qed
  then have "(crc_bit ^^ n) (push_bit 1 x) = push_bit n (push_bit 1 x)"
    using Suc.IH Suc.prems(2) by simp
  ultimately show ?case
    by (simp add: funpow_swap1 add.commute)
qed

text \<open>The polynomial has a constant term, so no step loses information.\<close>

lemma crc_bit_eq_0: "crc_bit x = 0 \<longleftrightarrow> x = 0"
proof
  assume eq: "crc_bit x = 0"
  have "\<not> bit x 31"
  proof
    assume "bit x 31"
    then have "bit (crc_bit x) 0"
      by (simp add: bit_crc_bit) (simp add: crc_poly_def)
    with eq show False by simp
  qed
  show "x = 0"
  proof (rule bit_word_eqI)
    fix k assume "k < LENGTH(32)"
    then consider "k = 31" | "k < 31" by fastforce
    then show "bit x k = bit 0 k"
    proof cases
      case 1
      with \<open>\<not> bit x 31\<close> show ?thesis by simp
    next
      case 2
      have "bit (crc_bit x) (Suc k) = bit x k"
        using 2 \<open>\<not> bit x 31\<close> by (simp add: bit_crc_bit)
      with eq show ?thesis by simp
    qed
  qed
qed (simp add: crc_bit_def)

lemma crc_bits_eq_0: "(crc_bit ^^ n) x = 0 \<longleftrightarrow> x = 0"
  by (induction n) (auto simp: crc_bit_eq_0)

lemma word_xor_eq_0: "x XOR y = 0 \<longleftrightarrow> x = (y :: 'a::len word)"
  by (metis xor_self_eq xor.assoc xor.right_neutral xor.left_neutral)

lemma word_xor_right_inj: "x XOR z = y XOR z \<longleftrightarrow> x = (y :: 'a::len word)"
  by (metis xor_self_eq xor.assoc xor.right_neutral)

lemma word_xor_left_inj: "z XOR x = z XOR y \<longleftrightarrow> x = (y :: 'a::len word)"
  by (metis xor_self_eq xor.assoc xor.left_neutral)

lemma crc_bits_inj: "(crc_bit ^^ n) x = (crc_bit ^^ n) y \<longleftrightarrow> x = y"
  by (metis crc_bits_eq_0 crc_bits_xor word_xor_eq_0)

section \<open>The table\<close>

definition crc_double :: "u32 list \<Rightarrow> u32 list" where
  "crc_double xs = concat (map (\<lambda>x. [crc_bit x, crc_bit x XOR crc_poly]) xs)"

text \<open>Each half of the table determines the whole: row \<open>i\<close> gives rows \<open>2i\<close> and \<open>2i + 1\<close>.\<close>

lemma crc_table_doubles: "crc_double (take 128 CRC32_C) = CRC32_C"
  unfolding CRC32_C_def crc_double_def crc_bit_def crc_poly_def
  by simp

lemma length_CRC32_C: "length CRC32_C = 256"
  by (simp add: CRC32_C_def)

lemma nth_crc_double:
  "i < length xs \<Longrightarrow> crc_double xs ! (2 * i) = crc_bit (xs ! i)
    \<and> crc_double xs ! Suc (2 * i) = crc_bit (xs ! i) XOR crc_poly"
proof (induction xs arbitrary: i)
  case Nil
  then show ?case by simp
next
  case (Cons x xs)
  then show ?case by (cases i) (auto simp: crc_double_def)
qed

lemma crc_table_row:
  assumes "i < 128"
  shows "CRC32_C ! (2 * i) = crc_bit (CRC32_C ! i)"
    and "CRC32_C ! Suc (2 * i) = crc_bit (CRC32_C ! i) XOR crc_poly"
proof -
  have "i < length (take 128 CRC32_C)" using assms by (simp add: length_CRC32_C)
  from nth_crc_double [OF this] assms
  show "CRC32_C ! (2 * i) = crc_bit (CRC32_C ! i)"
    and "CRC32_C ! Suc (2 * i) = crc_bit (CRC32_C ! i) XOR crc_poly"
    by (simp_all add: crc_table_doubles)
qed

lemma crc_top_byte_double:
  assumes "i < 128"
  shows "push_bit 24 (word_of_nat (2 * i) :: u32) = crc_bit (push_bit 24 (word_of_nat i))"
proof -
  have "\<not> bit i 7"
    using assms by (simp add: bit_iff_odd)
  then have "\<not> bit (word_of_nat i :: u32) 7"
    by (simp add: bit_of_nat_iff)
  then have "\<not> bit (push_bit 24 (word_of_nat i :: u32)) 31"
    by (simp only: bit_push_bit_iff) simp
  then have "crc_bit (push_bit 24 (word_of_nat i)) = push_bit 1 (push_bit 24 (word_of_nat i))"
    by (simp only: crc_bit_def if_False)
  then show ?thesis by (simp add: push_bit_eq_mult)
qed

lemma crc_table_correct:
  "i < 256 \<Longrightarrow> CRC32_C ! i = (crc_bit ^^ 8) (push_bit 24 (word_of_nat i))"
proof (induction i rule: less_induct)
  case (less i)
  show ?case
  proof (cases "i = 0")
    case True
    then show ?thesis by (simp add: CRC32_C_def)
  next
    case False
    define j where "j = i div 2"
    have j: "j < i" "j < 128" using False less.prems by (auto simp: j_def)
    then have IH: "CRC32_C ! j = (crc_bit ^^ 8) (push_bit 24 (word_of_nat j))"
      by (intro less.IH) auto
    have even: "(crc_bit ^^ 8) (push_bit 24 (word_of_nat (2 * j))) = crc_bit (CRC32_C ! j)"
      by (simp only: crc_top_byte_double [OF j(2)] IH funpow_swap1)
    have one: "(crc_bit ^^ 8) (push_bit 24 1) = crc_poly"
      unfolding numeral_nat funpow.simps comp_def id_def crc_bit_def crc_poly_def
      by simp
    show ?thesis
    proof (cases "even i")
      case True
      then have "i = 2 * j" by (simp add: j_def)
      with crc_table_row(1) [OF j(2)] even show ?thesis by simp
    next
      case False
      then have i: "i = Suc (2 * j)" by (simp add: j_def)
      have "i = 2 * j XOR 1"
        by (simp add: i xor_Suc_0_eq)
      then have "(word_of_nat i :: u32) = word_of_nat (2 * j) XOR 1"
        by (simp add: of_nat_xor_eq)
      then have "(crc_bit ^^ 8) (push_bit 24 (word_of_nat i)) = crc_bit (CRC32_C ! j) XOR crc_poly"
        by (simp only: push_bit_xor crc_bits_xor even one)
      with crc_table_row(2) [OF j(2)] i show ?thesis by simp
    qed
  qed
qed

section \<open>The loop computes the reference\<close>

lemma crc32_step_eq_crc_byte: "crc32_step x b = crc_byte x b"
proof -
  define t :: u32 where "t = (drop_bit 24 x XOR ucast b) AND 0xFF"
  have t: "bit t k \<longleftrightarrow> k < 8 \<and> (bit x (24 + k) \<noteq> bit b k)" for k
    unfolding t_def
    by (auto simp: word_and_0xFF bit_simps)
  have "t = take_bit 8 t"
    by (rule bit_word_eqI) (auto simp: t bit_simps)
  then have "unat t = take_bit 8 (unat t)"
    by (metis unsigned_take_bit_eq)
  then have "unat t < 256"
    using take_bit_nat_less_exp [of 8 "unat t"] by simp
  then have row: "CRC32_C ! unat t = (crc_bit ^^ 8) (push_bit 24 t)"
    using crc_table_correct [of "unat t"] by simp
  have split: "x XOR push_bit 24 (ucast b) = take_bit 24 x XOR push_bit 24 t"
    by (rule bit_word_eqI) (auto simp: bit_simps t)
  have "(crc_bit ^^ 8) (take_bit 24 x) = push_bit 8 (take_bit 24 x)"
    by (rule crc_bits_shift) (auto intro!: bit_word_eqI simp: bit_simps)
  also have "\<dots> = push_bit 8 x"
    by (rule bit_word_eqI) (auto simp: bit_simps)
  finally show ?thesis
    unfolding crc32_step_def crc_byte_def split crc_bits_xor t_def [symmetric] row by simp
qed

lemma crc32_c_eq_foldl: "crc32_c bs x = foldl crc_byte x bs"
proof -
  have "(0xFFFFFFFF :: u32) = - 1" by simp
  then have "y AND 0xFFFFFFFF = y" for y :: u32
    by (simp only: and.right_neutral)
  moreover have "crc32_step = crc_byte"
    by (intro ext) (rule crc32_step_eq_crc_byte)
  ultimately show ?thesis
    by (simp only: crc32_c_def)
qed

text \<open>C14: the table-driven checksum is the bit-serial Castagnoli division.\<close>

theorem crc32_c_is_reference: "crc32_c bs x = crc32_ref bs x"
  by (simp add: crc32_c_eq_foldl crc32_ref_def)

section \<open>Error detection\<close>

lemma crc_byte_inj: "crc_byte x b = crc_byte y b \<longleftrightarrow> x = y"
  by (simp only: crc_byte_def crc_bits_inj word_xor_right_inj)

lemma crc_foldl_inj: "foldl crc_byte x bs = foldl crc_byte y bs \<longleftrightarrow> x = y"
  by (induction bs arbitrary: x y) (auto simp: crc_byte_inj)

text \<open>Up to four bytes, placed at the top of the register.\<close>

primrec top_bytes :: "byte list \<Rightarrow> u32" where
  "top_bytes [] = 0"
| "top_bytes (b # bs) = push_bit 24 (ucast b) XOR drop_bit 8 (top_bytes bs)"

lemma bit_top_bytes_Cons:
  "bit (top_bytes (b # bs)) k \<longleftrightarrow>
    (if 24 \<le> k then bit b (k - 24) else bit (top_bytes bs) (k + 8))"
  by (auto simp: bit_simps add.commute simp del: push_bit_numeral dest: bit_imp_le_length)

lemma top_bytes_low: "8 * length bs + k < 32 \<Longrightarrow> \<not> bit (top_bytes bs) k"
proof (induction bs arbitrary: k)
  case (Cons b bs)
  then show ?case by (simp only: bit_top_bytes_Cons) simp
qed simp

lemma crc_foldl_top_bytes:
  "length bs \<le> 4 \<Longrightarrow> foldl crc_byte x bs = (crc_bit ^^ (8 * length bs)) (x XOR top_bytes bs)"
proof (induction bs arbitrary: x)
  case Nil
  then show ?case by simp
next
  case (Cons b bs)
  have "(crc_bit ^^ 8) (drop_bit 8 (top_bytes bs)) = push_bit 8 (drop_bit 8 (top_bytes bs))"
    by (rule crc_bits_shift) (auto intro!: bit_word_eqI simp: bit_simps)
  also have "\<dots> = top_bytes bs"
  proof (rule bit_word_eqI)
    fix k assume "k < LENGTH(32)"
    have "\<not> bit (top_bytes bs) k" if "k < 8"
      using that Cons.prems by (intro top_bytes_low) simp
    then show "bit (push_bit 8 (drop_bit 8 (top_bytes bs))) k = bit (top_bytes bs) k"
      using \<open>k < LENGTH(32)\<close> by (cases "k < 8") (simp_all add: bit_simps)
  qed
  finally have tail: "(crc_bit ^^ 8) (drop_bit 8 (top_bytes bs)) = top_bytes bs" .
  have "foldl crc_byte x (b # bs)
      = (crc_bit ^^ (8 * length bs)) (crc_byte x b XOR top_bytes bs)"
    using Cons by simp
  also have "crc_byte x b XOR top_bytes bs = (crc_bit ^^ 8) (x XOR top_bytes (b # bs))"
    by (simp only: crc_byte_def top_bytes.simps crc_bits_xor tail xor.assoc)
  also have "(crc_bit ^^ (8 * length bs)) ((crc_bit ^^ 8) y)
      = (crc_bit ^^ (8 * length (b # bs))) y" for y
  proof -
    have "8 * length (b # bs) = 8 * length bs + 8" by simp
    then show ?thesis by (simp only: funpow_add comp_apply)
  qed
  finally show ?case .
qed

lemma top_bytes_inj:
  "length bs = length cs \<Longrightarrow> length cs \<le> 4 \<Longrightarrow> top_bytes bs = top_bytes cs \<Longrightarrow> bs = cs"
proof (induction bs cs rule: list_induct2)
  case (Cons b bs c cs)
  have bits: "bit (top_bytes (b # bs)) k = bit (top_bytes (c # cs)) k" for k
    using Cons.prems by simp
  have "b = c"
  proof (rule bit_word_eqI)
    fix k
    from bits [of "k + 24"] show "bit b k = bit c k"
      by (simp only: bit_top_bytes_Cons) simp
  qed
  moreover have "top_bytes bs = top_bytes cs"
  proof (rule bit_word_eqI)
    fix k
    show "bit (top_bytes bs) k = bit (top_bytes cs) k"
    proof (cases "k < 8")
      case True
      then show ?thesis using Cons.hyps Cons.prems by (simp add: top_bytes_low)
    next
      case False
      show ?thesis
      proof (cases "k < 32")
        case True
        then have "\<not> 24 \<le> k - 8" "k - 8 + 8 = k" using False by auto
        with bits [of "k - 8"] show ?thesis by (simp only: bit_top_bytes_Cons if_False)
      next
        case False
        then show ?thesis by (auto dest: bit_imp_le_length)
      qed
    qed
  qed
  ultimately show ?case using Cons by simp
qed simp

lemma crc32_c_burst:
  assumes "length bs = length cs" and "length bs \<le> 4" and "bs \<noteq> cs"
  shows "crc32_c (pre @ bs @ post) x \<noteq> crc32_c (pre @ cs @ post) x"
proof
  assume "crc32_c (pre @ bs @ post) x = crc32_c (pre @ cs @ post) x"
  then have "foldl crc_byte (foldl crc_byte x pre) bs = foldl crc_byte (foldl crc_byte x pre) cs"
    by (simp add: crc32_c_eq_foldl crc_foldl_inj)
  then have "foldl crc_byte x pre XOR top_bytes bs = foldl crc_byte x pre XOR top_bytes cs"
    using assms(1,2) by (simp add: crc_foldl_top_bytes crc_bits_inj)
  then have "top_bytes bs = top_bytes cs"
    by (simp only: word_xor_left_inj)
  with assms top_bytes_inj show False by auto
qed

text \<open>
  A corruption confined to four adjacent bytes (a burst of at most 32 bits) always
  changes the checksum, wherever it is and whatever the initial value.
\<close>

theorem crc32_c_detects_burst:
  assumes "length bs = length cs" and "length bs \<le> 4" and "bs \<noteq> cs"
  shows "crc32_c (pre @ bs @ post) x \<noteq> crc32_c (pre @ cs @ post) x"
  by (rule crc32_c_burst [OF assms])

theorem crc32_c_detects_burst_witness:
  "crc32_c ([1, 3] @ [16, 0] @ [2]) 0 \<noteq> crc32_c ([1, 3] @ [17, 7] @ [2]) 0"
proof (rule crc32_c_detects_burst)
  show "length [16, 0 :: byte] = length [17, 7 :: byte]" by simp
  show "length [16, 0 :: byte] \<le> 4" by simp
  show "[16, 0] \<noteq> [17, 7 :: byte]" by simp
qed

end
