(* ===== verification/Writer.thy ===== *)
theory Writer
  imports Crc
begin

text \<open>
  The serialising half of the storage layer: \<open>storage/storage.include/writer.c\<close> and the
  \<open>write_*\<close> functions of \<open>storage/storage.include/inline.h\<close>. Pointers into the buffer are
  offsets from \<open>real_begin\<close>; the memory is a function, so that the unspecified contents of
  fresh memory are an arbitrary part of the state, and every store is checked against the
  end of the allocated block. The abstract writer the operations refine is the pair of the
  finished root elements and the bytes of the current one.
\<close>

section \<open>Control bytes\<close>

definition ST_ARRAY_BEGIN :: byte where "ST_ARRAY_BEGIN = 0x01"
definition ST_ARRAY_END :: byte where "ST_ARRAY_END = 0x03"
definition ST_DOT :: byte where "ST_DOT = 0x02"
definition ST_LEN_BEGIN :: byte where "ST_LEN_BEGIN = 0x07"
definition ST_LEN_END :: byte where "ST_LEN_END = 0x09"
definition ST_CRC :: byte where "ST_CRC = 0x04"
definition ST_STRING :: nat where "ST_STRING = 16"

lemmas st_defs =
  ST_ARRAY_BEGIN_def ST_ARRAY_END_def ST_DOT_def ST_LEN_BEGIN_def ST_LEN_END_def
  ST_CRC_def ST_STRING_def

section \<open>State\<close>

record Writer =
  w_mem :: "nat \<Rightarrow> byte"
  w_begin :: nat
  w_ptr :: nat
  w_end :: nat
  w_depth :: int

record WriterPosition =
  begin_offset :: nat
  ptr_offset :: nat
  pos_depth :: int

section \<open>Operations\<close>

definition writer_init :: "(nat \<Rightarrow> byte) \<Rightarrow> Writer" where
  "writer_init mem = (let default_size = 4000 in
     \<lparr>w_mem = mem, w_begin = 10, w_ptr = 10, w_end = 10 + default_size, w_depth = 0\<rparr>)"

definition writer_get_space :: "Writer \<Rightarrow> nat \<Rightarrow> Writer" where
  "writer_get_space W sz = (let
     cur_size = w_end W;
     new_size = cur_size + sz;
     new_size = (if new_size < (cur_size * 3) div 2 then (cur_size * 3) div 2 else new_size)
   in W\<lparr>w_end := new_size\<rparr>)"

definition writer_ensure_space :: "Writer \<Rightarrow> nat \<Rightarrow> Writer" where
  "writer_ensure_space W sz =
    (if w_ptr W + sz > w_end W then writer_get_space W ((w_ptr W + sz) - w_end W) else W)"

text \<open>A store through a pointer into the buffer, and the idiom \<open>*W->ptr++ = b\<close>.\<close>

definition poke :: "Writer \<Rightarrow> nat \<Rightarrow> byte \<Rightarrow> Writer outcome" where
  "poke W i b = (if i < w_end W then Done (W\<lparr>w_mem := (w_mem W)(i := b)\<rparr>) else Fault)"

definition emit :: "Writer \<Rightarrow> byte \<Rightarrow> Writer outcome" where
  "emit W b = obind (poke W (w_ptr W) b) (\<lambda>W. Done (W\<lparr>w_ptr := w_ptr W + 1\<rparr>))"

text \<open>\<open>memcpy\<close> into the buffer, and the loops that store the bytes of an integer.\<close>

primrec poke_all :: "Writer \<Rightarrow> nat \<Rightarrow> byte list \<Rightarrow> Writer outcome" where
  "poke_all W i [] = Done W"
| "poke_all W i (b # bs) = obind (poke W i b) (\<lambda>W. poke_all W (Suc i) bs)"

primrec poke_le :: "Writer \<Rightarrow> nat \<Rightarrow> nat \<Rightarrow> u64 \<Rightarrow> Writer outcome" where
  "poke_le W i 0 n = Done W"
| "poke_le W i (Suc k) n = obind (poke W i (ucast (n AND 0xFF)))
     (\<lambda>W. poke_le W (Suc i) k (drop_bit 8 n))"

primrec emit_le :: "Writer \<Rightarrow> nat \<Rightarrow> u32 \<Rightarrow> Writer outcome" where
  "emit_le W 0 n = Done W"
| "emit_le W (Suc k) n = obind (emit W (ucast (n AND 0xFF)))
     (\<lambda>W. emit_le W k (drop_bit 8 n))"

text \<open>
  \<open>while (max <= n) { W->ptr[++i] = n & 0xFF; n >>= 8; max >>= 1; }\<close>. \<open>max\<close> is an
  \<open>unsigned char\<close>; once it is 0 the condition holds for every \<open>n\<close>, and only the end of the
  buffer stops the loop.
\<close>

function write_number_loop ::
    "Writer \<Rightarrow> nat \<Rightarrow> byte \<Rightarrow> u64 \<Rightarrow> (Writer \<times> nat \<times> u64) outcome" where
  "write_number_loop W i mx n =
    (if ucast mx \<le> n
     then obind (poke W (w_ptr W + Suc i) (ucast (n AND 0xFF)))
       (\<lambda>W'. write_number_loop W' (Suc i) (drop_bit 1 mx) (drop_bit 8 n))
     else Done (W, i, n))"
  by pat_completeness auto
termination
  by (relation "measure (\<lambda>(W, i, _). w_end W - (w_ptr W + i))")
    (auto simp: poke_def split: if_splits)

declare write_number_loop.simps [simp del]

definition write_number_code :: "Writer \<Rightarrow> u64 \<Rightarrow> Writer outcome" where
  "write_number_code W n =
    (if n AND NOT 0x7F = 0 then emit W (ucast (n AND 0x7F))
     else if n AND push_bit 56 0xFF \<noteq> 0 then
       obind (emit W 0xFF) (\<lambda>W.
       obind (poke_le W (w_ptr W) 8 n) (\<lambda>W.
       Done (W\<lparr>w_ptr := w_ptr W + 8\<rparr>)))
     else
       obind (write_number_loop W 0 0x80 n) (\<lambda>(W, i, n).
       obind (poke W (w_ptr W) (ucast ((NOT (drop_bit i (0xFF :: u64)) OR n) AND 0xFF))) (\<lambda>W.
       Done (W\<lparr>w_ptr := w_ptr W + i + 1\<rparr>))))"

definition write_array :: "Writer \<Rightarrow> Writer outcome" where
  "write_array W = (let W = writer_ensure_space W 1 in
     obind (emit W ST_ARRAY_BEGIN) (\<lambda>W. Done (W\<lparr>w_depth := w_depth W + 1\<rparr>)))"

definition write_array_end :: "Writer \<Rightarrow> Writer outcome" where
  "write_array_end W = (let W = writer_ensure_space W 1 in
     obind (c_assert (w_depth W > 0)) (\<lambda>_.
     emit (W\<lparr>w_depth := w_depth W - 1\<rparr>) ST_ARRAY_END))"

text \<open>The result of \<open>write_string\<close> is the offset the caller stores the contents at.\<close>

definition write_string :: "Writer \<Rightarrow> u64 \<Rightarrow> (Writer \<times> nat) outcome" where
  "write_string W len = (let W = writer_ensure_space W (unat (len + 9)) in
     obind (if len + of_nat ST_STRING < 128 then emit W (ucast (len + of_nat ST_STRING))
            else write_number_code W (len + of_nat ST_STRING)) (\<lambda>W.
     Done (W\<lparr>w_ptr := w_ptr W + unat len\<rparr>, w_ptr W)))"

text \<open>\<open>memcpy(write_string(W, length), bytes, length)\<close>, the way every caller uses it.\<close>

definition write_bytes :: "Writer \<Rightarrow> byte list \<Rightarrow> Writer outcome" where
  "write_bytes W bs = obind (write_string W (of_nat (length bs))) (\<lambda>(W, p). poke_all W p bs)"

lemma unat_drop_8_less:
  fixes n :: "'a::len word"
  assumes "n \<noteq> 0"
  shows "unat (drop_bit 8 n) < unat n"
proof -
  have "unat n div 2 ^ 8 < unat n"
    by (rule div_less_dividend) (use assms in \<open>simp_all add: unat_gt_0\<close>)
  also have "unat n div 2 ^ 8 = unat (drop_bit 8 n)"
    by (simp only: unat_drop_bit_eq) (simp only: drop_bit_eq_div)
  finally show ?thesis .
qed

function write_number_bytes :: "Writer \<Rightarrow> u64 \<Rightarrow> Writer outcome" where
  "write_number_bytes W n =
    (if n \<noteq> 0 then obind (emit W (ucast (n AND 0xFF))) (\<lambda>W. write_number_bytes W (drop_bit 8 n))
     else Done W)"
  by pat_completeness auto

termination
  by (relation "measure (\<lambda>(W, n). unat n)") (auto simp: unat_drop_8_less)

declare write_number_bytes.simps [simp del]

definition write_number :: "Writer \<Rightarrow> u64 \<Rightarrow> Writer outcome" where
  "write_number W number = (let
     W = writer_ensure_space W 9;
     W = W\<lparr>w_ptr := w_ptr W + 1\<rparr>;
     ptr = w_ptr W
   in obind (write_number_bytes W number) (\<lambda>W.
      poke W (ptr - 1) (of_nat (ST_STRING + (w_ptr W - ptr)))))"

definition writer_finish :: "Writer \<Rightarrow> bool \<Rightarrow> Writer outcome" where
  "writer_finish W checksum =
    obind (c_assert (w_depth W = 0)) (\<lambda>_.
    let W = writer_ensure_space W 16 in
    obind (if checksum then
             let crc = crc32_c (map (w_mem W) [w_begin W..<w_ptr W]) 0 in
             obind (emit W ST_CRC) (\<lambda>W. emit_le W 4 crc)
           else Done W) (\<lambda>W.
    obind (emit W ST_DOT) (\<lambda>W.
    let len = of_nat (w_ptr W - w_begin W) in
    obind (poke W (w_begin W - 10) ST_LEN_BEGIN) (\<lambda>W.
    obind (poke_le W (w_begin W - 9) 8 len) (\<lambda>W.
    obind (poke W (w_begin W - 1) ST_LEN_END) (\<lambda>W.
    Done (W\<lparr>w_ptr := w_ptr W + 10, w_begin := w_ptr W + 10\<rparr>)))))))"

definition writer_discart :: "Writer \<Rightarrow> Writer" where
  "writer_discart W = W\<lparr>w_ptr := 10, w_begin := 10\<rparr>"

definition writer_length :: "Writer \<Rightarrow> nat outcome" where
  "writer_length W = obind (c_assert (w_begin W = w_ptr W)) (\<lambda>_. Done (w_ptr W - 10))"

text \<open>\<open>writer_ptr\<close> returns \<open>real_begin\<close>; its callers read \<open>writer_length\<close> bytes there.\<close>

definition writer_contents :: "Writer \<Rightarrow> byte list outcome" where
  "writer_contents W = obind (c_assert (w_begin W = w_ptr W)) (\<lambda>_.
     obind (writer_length W) (\<lambda>len. Done (map (w_mem W) [0..<len])))"

definition writer_get_position :: "Writer \<Rightarrow> WriterPosition" where
  "writer_get_position W =
    \<lparr>begin_offset = w_begin W, ptr_offset = w_ptr W, pos_depth = w_depth W\<rparr>"

definition writer_set_position :: "Writer \<Rightarrow> WriterPosition \<Rightarrow> Writer outcome" where
  "writer_set_position W pos =
    obind (c_assert (begin_offset pos \<le> ptr_offset pos)) (\<lambda>_.
    obind (c_assert (ptr_offset pos \<le> w_ptr W)) (\<lambda>_.
    Done (W\<lparr>w_begin := begin_offset pos, w_ptr := ptr_offset pos, w_depth := pos_depth pos\<rparr>)))"

definition writer_direct_write :: "Writer \<Rightarrow> byte list \<Rightarrow> Writer outcome" where
  "writer_direct_write W bs =
    obind (c_assert (w_depth W = 0)) (\<lambda>_.
    obind (c_assert (w_begin W = w_ptr W)) (\<lambda>_.
    let W = writer_ensure_space W (length bs) in
    obind (poke_all W (w_ptr W - 10) bs) (\<lambda>W.
    Done (W\<lparr>w_ptr := w_ptr W + length bs, w_begin := w_begin W + length bs\<rparr>))))"

section \<open>The documented encoding\<close>

text \<open>
  Lengths are stored \<open>UTF-8\<close> style: the number of leading one bits of the first byte is the
  number of bytes that follow it, the first byte holds the highest bits, the others the
  rest in little-endian order.
\<close>

definition len_extra :: "nat \<Rightarrow> nat" where
  "len_extra v = length (takeWhile (\<lambda>k. 2 ^ (7 + 7 * k) \<le> v) [0..<8])"

definition len_code :: "u64 \<Rightarrow> byte list" where
  "len_code v = (let k = len_extra (unat v) in
     if k = 8 then 0xFF # write_le 8 v
     else (ucast (NOT (drop_bit k (0xFF :: u64)) OR drop_bit (8 * k) v)) # write_le k v)"

definition enc_string :: "byte list \<Rightarrow> byte list" where
  "enc_string bs = len_code (of_nat (length bs + ST_STRING)) @ bs"

function num_bytes :: "u64 \<Rightarrow> byte list" where
  "num_bytes n = (if n = 0 then [] else ucast n # num_bytes (drop_bit 8 n))"
  by pat_completeness auto
termination
  by (relation "measure unat") (auto simp: unat_drop_8_less)

declare num_bytes.simps [simp del]

definition enc_number :: "u64 \<Rightarrow> byte list" where
  "enc_number n = of_nat (ST_STRING + length (num_bytes n)) # num_bytes n"

definition crc_part :: "bool \<Rightarrow> byte list \<Rightarrow> byte list" where
  "crc_part cs bs = (if cs then ST_CRC # write_le 4 (crc32_c bs 0) else [])"

definition element_body :: "bool \<Rightarrow> byte list \<Rightarrow> byte list" where
  "element_body cs bs = bs @ crc_part cs bs @ [ST_DOT]"

definition header_of :: "nat \<Rightarrow> byte list" where
  "header_of len = ST_LEN_BEGIN # write_le 8 (of_nat len :: u64) @ [ST_LEN_END]"

definition root_element :: "bool \<Rightarrow> byte list \<Rightarrow> byte list" where
  "root_element cs bs = header_of (length (element_body cs bs)) @ element_body cs bs"

section \<open>The abstract writer\<close>

definition w_inv :: "Writer \<Rightarrow> bool" where
  "w_inv W \<longleftrightarrow> 10 \<le> w_begin W \<and> w_begin W \<le> w_ptr W \<and> w_ptr W \<le> w_end W \<and> 0 \<le> w_depth W"

definition w_cur :: "Writer \<Rightarrow> byte list" where
  "w_cur W = map (w_mem W) [w_begin W..<w_ptr W]"

definition w_out :: "Writer \<Rightarrow> byte list" where
  "w_out W = map (w_mem W) [0..<w_begin W - 10]"

text \<open>\<open>W'\<close> is the writer \<open>W\<close> after \<open>bs\<close> was appended to the current root element.\<close>

definition w_appends :: "Writer \<Rightarrow> byte list \<Rightarrow> int \<Rightarrow> Writer \<Rightarrow> bool" where
  "w_appends W bs d W' \<longleftrightarrow> w_inv W' \<and> w_out W' = w_out W \<and> w_cur W' = w_cur W @ bs
     \<and> w_depth W' = w_depth W + d \<and> w_begin W' = w_begin W"

section \<open>Effects of the primitive stores\<close>

definition w_put :: "(nat \<Rightarrow> byte) \<Rightarrow> nat \<Rightarrow> byte list \<Rightarrow> nat \<Rightarrow> byte" where
  "w_put m p bs = (\<lambda>i. if p \<le> i \<and> i < p + length bs then bs ! (i - p) else m i)"

lemma w_put_Nil [simp]: "w_put m p [] = m"
  by (rule ext) (auto simp: w_put_def)

lemma w_put_below [simp]: "i < p \<Longrightarrow> w_put m p bs i = m i"
  by (simp add: w_put_def)

lemma w_put_Cons: "w_put (m(p := b)) (Suc p) bs = w_put m p (b # bs)"
  by (auto simp: w_put_def nth_Cons' fun_eq_iff)

lemma w_put_Cons' [simp]: "w_put (w_put m p [b]) (Suc p) bs = w_put m p (b # bs)"
  by (auto simp: w_put_def nth_Cons' fun_eq_iff)

lemma w_put_append: "w_put (w_put m p bs) (p + length bs) cs = w_put m p (bs @ cs)"
  by (auto simp: w_put_def nth_append fun_eq_iff)

lemma map_w_put [simp]: "map (w_put m p bs) [p..<p + length bs] = bs"
  by (rule nth_equalityI) (auto simp: w_put_def)

lemma map_w_put_below: "j \<le> p \<Longrightarrow> map (w_put m p bs) [i..<j] = map m [i..<j]"
  by auto

lemma map_w_put_above: "p + length bs \<le> i \<Longrightarrow> map (w_put m p bs) [i..<j] = map m [i..<j]"
  by (simp add: w_put_def)

lemma map_w_put_extend:
  "i \<le> p \<Longrightarrow> map (w_put m p bs) [i..<p + length bs] = map m [i..<p] @ bs"
  using map_nth_upt_append [of i p "p + length bs" "w_put m p bs"]
  by (simp add: map_w_put_below)

lemma poke_all_ok [storage_simps]:
  "p + length bs \<le> w_end W \<Longrightarrow> poke_all W p bs = Done (W\<lparr>w_mem := w_put (w_mem W) p bs\<rparr>)"
  by (induction bs arbitrary: W p) (auto simp: poke_def w_put_Cons)

lemma ucast_and_0xFF [simp]: "(ucast ((n :: 'a::len word) AND 0xFF) :: byte) = ucast n"
  by (rule bit_word_eqI) (auto simp: word_and_0xFF bit_simps)

lemma poke_le_eq [storage_simps]: "poke_le W p k n = poke_all W p (write_le k n)"
  by (induction k arbitrary: W p n) simp_all

text \<open>The state after \<open>bs\<close> was stored through the moving \<open>ptr\<close>.\<close>

definition w_emitted :: "Writer \<Rightarrow> byte list \<Rightarrow> Writer" where
  "w_emitted W bs = W\<lparr>w_mem := w_put (w_mem W) (w_ptr W) bs, w_ptr := w_ptr W + length bs\<rparr>"

lemma w_emitted_sel [simp]:
  "w_begin (w_emitted W bs) = w_begin W"
  "w_end (w_emitted W bs) = w_end W"
  "w_depth (w_emitted W bs) = w_depth W"
  "w_ptr (w_emitted W bs) = w_ptr W + length bs"
  "w_mem (w_emitted W bs) = w_put (w_mem W) (w_ptr W) bs"
  by (simp_all add: w_emitted_def)

lemma w_emitted_append: "w_emitted (w_emitted W bs) cs = w_emitted W (bs @ cs)"
  by (simp add: w_emitted_def w_put_append add.assoc)

lemma w_emitted_Nil [simp]: "w_emitted W [] = W"
  by (simp add: w_emitted_def)

lemma emit_ok [storage_simps]: "w_ptr W < w_end W \<Longrightarrow> emit W b = Done (w_emitted W [b])"
  using w_put_Cons [of "w_mem W" "w_ptr W" b "[]"]
  by (simp add: emit_def poke_def w_emitted_def)

lemma emit_le_ok [storage_simps]:
  "w_ptr W + k \<le> w_end W \<Longrightarrow> emit_le W k n = Done (w_emitted W (write_le k n))"
  by (induction k arbitrary: W n) (auto simp: emit_ok w_emitted_append)

lemma w_emitted_appends:
  assumes "w_inv W" and "w_ptr W + length bs \<le> w_end W" and "0 \<le> w_depth W + d"
  shows "w_appends W bs d ((w_emitted W bs)\<lparr>w_depth := w_depth W + d\<rparr>)"
  using assms
  by (auto simp: w_appends_def w_inv_def w_cur_def w_out_def map_w_put_extend map_w_put_below)

lemma writer_ensure_space_sel [simp]:
  "w_begin (writer_ensure_space W n) = w_begin W"
  "w_ptr (writer_ensure_space W n) = w_ptr W"
  "w_mem (writer_ensure_space W n) = w_mem W"
  "w_depth (writer_ensure_space W n) = w_depth W"
  by (auto simp: writer_ensure_space_def writer_get_space_def Let_def)

lemma writer_ensure_space_end:
  "w_ptr W + n \<le> w_end (writer_ensure_space W n)"
  "w_end W \<le> w_end (writer_ensure_space W n)"
  by (auto simp: writer_ensure_space_def writer_get_space_def Let_def)

lemma writer_ensure_space_abs [simp]:
  "w_inv W \<Longrightarrow> w_inv (writer_ensure_space W n)"
  "w_out (writer_ensure_space W n) = w_out W"
  "w_cur (writer_ensure_space W n) = w_cur W"
  using writer_ensure_space_end(2) [of W n]
  by (auto simp: w_inv_def w_out_def w_cur_def)

lemma w_appends_ensure_space:
  "w_appends (writer_ensure_space W n) bs d W' \<longleftrightarrow> w_appends W bs d W'"
  by (simp add: w_appends_def)

section \<open>The length code\<close>

lemma len_extra_le: "len_extra v \<le> 8"
  unfolding len_extra_def by (rule order_trans [OF length_takeWhile_le]) simp

lemma len_extra_below: "j < len_extra v \<Longrightarrow> 2 ^ (7 + 7 * j) \<le> v"
proof -
  assume j: "j < len_extra v"
  define xs where "xs = takeWhile (\<lambda>k. 2 ^ (7 + 7 * k) \<le> v) [0..<8]"
  from j have "xs ! j \<in> set xs" by (simp add: xs_def len_extra_def)
  then have "2 ^ (7 + 7 * (xs ! j)) \<le> v" by (auto simp: xs_def dest: set_takeWhileD)
  moreover from j len_extra_le [of v] have "xs ! j = j"
    by (simp add: xs_def len_extra_def takeWhile_nth)
  ultimately show ?thesis by simp
qed

lemma len_extra_bound: "len_extra v < 8 \<Longrightarrow> v < 2 ^ (7 + 7 * len_extra v)"
  using nth_length_takeWhile [of "\<lambda>k. 2 ^ (7 + 7 * k) \<le> v" "[0..<8]"]
  by (simp add: len_extra_def)

lemma len_extra_less_iff: "j < 8 \<Longrightarrow> j < len_extra v \<longleftrightarrow> 2 ^ (7 + 7 * j) \<le> v"
proof
  assume "j < 8" and big: "2 ^ (7 + 7 * j) \<le> v"
  show "j < len_extra v"
  proof (rule ccontr)
    assume "\<not> j < len_extra v"
    then have "len_extra v \<le> j" and "len_extra v < 8" using \<open>j < 8\<close> by auto
    then have "v < 2 ^ (7 + 7 * len_extra v)" by (intro len_extra_bound)
    also have "\<dots> \<le> (2 :: nat) ^ (7 + 7 * j)"
      by (rule power_increasing) (use \<open>len_extra v \<le> j\<close> in simp_all)
    finally show False using big by simp
  qed
qed (rule len_extra_below)

lemma len_extra_0: "len_extra v = 0 \<longleftrightarrow> v < 128"
  using len_extra_less_iff [of 0 v] by auto

lemma len_extra_8: "len_extra v = 8 \<longleftrightarrow> 2 ^ 56 \<le> v"
  using len_extra_less_iff [of 7 v] len_extra_le [of v] by auto

text \<open>The loop condition at the \<open>i\<close>-th round.\<close>

lemma write_number_loop_cond:
  assumes "i < 8"
  shows "(ucast (drop_bit i (0x80 :: byte)) \<le> drop_bit (8 * i) (v :: u64))
    \<longleftrightarrow> i < len_extra (unat v)"
proof -
  have "unat (ucast (drop_bit i (0x80 :: byte)) :: u64) = unat (drop_bit i (0x80 :: byte))"
    by (rule unat_ucast_byte) simp
  also have "\<dots> = 2 ^ 7 div 2 ^ i"
    by (simp only: unat_drop_bit_eq) (simp add: drop_bit_eq_div)
  also have "\<dots> = 2 ^ (7 - i)"
    using assms by (simp add: power_diff flip: less_Suc_eq_le)
  finally have "(ucast (drop_bit i (0x80 :: byte)) \<le> drop_bit (8 * i) v)
      \<longleftrightarrow> 2 ^ (7 - i) \<le> unat v div 2 ^ (8 * i)"
    by (simp only: word_le_nat_alt unat_drop_bit_eq) (simp only: drop_bit_eq_div)
  also have "\<dots> \<longleftrightarrow> 2 ^ (7 - i) * 2 ^ (8 * i) \<le> unat v"
    by (simp add: less_eq_div_iff_mult_less_eq)
  also have "(2 :: nat) ^ (7 - i) * 2 ^ (8 * i) = 2 ^ (7 + 7 * i)"
    using assms by (simp flip: power_add)
  also have "2 ^ (7 + 7 * i) \<le> unat v \<longleftrightarrow> i < len_extra (unat v)"
    using assms by (simp only: len_extra_less_iff)
  finally show ?thesis .
qed

lemma write_number_loop_ok:
  assumes "i \<le> len_extra (unat v)" and "len_extra (unat v) < 8"
    and "w_ptr W + len_extra (unat v) < w_end W"
  shows "write_number_loop W i (drop_bit i 0x80) (drop_bit (8 * i) v) =
    Done (W\<lparr>w_mem := w_put (w_mem W) (w_ptr W + Suc i)
      (write_le (len_extra (unat v) - i) (drop_bit (8 * i) v))\<rparr>,
      len_extra (unat v), drop_bit (8 * len_extra (unat v)) v)"
  using assms
proof (induction "len_extra (unat v) - i" arbitrary: i W)
  case 0
  then have "i = len_extra (unat v)" "i < 8" by auto
  then show ?case
    by (subst write_number_loop.simps) (simp add: write_number_loop_cond)
next
  case (Suc d)
  then have i: "i < len_extra (unat v)" "i < 8" by auto
  let ?n = "drop_bit (8 * i) v"
  define W' where "W' = W\<lparr>w_mem := (w_mem W)(w_ptr W + Suc i := ucast ?n)\<rparr>"
  have "write_number_loop W i (drop_bit i 0x80) ?n
      = write_number_loop W' (Suc i) (drop_bit 1 (drop_bit i 0x80)) (drop_bit 8 ?n)"
    using i Suc.prems
    by (subst write_number_loop.simps) (simp add: write_number_loop_cond poke_def W'_def)
  also have "\<dots> = write_number_loop W' (Suc i) (drop_bit (Suc i) 0x80) (drop_bit (8 * Suc i) v)"
    by (simp only: drop_bit_drop_bit mult_Suc_right plus_1_eq_Suc add.commute)
  also have "\<dots> = Done (W'\<lparr>w_mem := w_put (w_mem W') (w_ptr W' + Suc (Suc i))
      (write_le (len_extra (unat v) - Suc i) (drop_bit (8 * Suc i) v))\<rparr>,
      len_extra (unat v), drop_bit (8 * len_extra (unat v)) v)"
    by (rule Suc.hyps(1)) (use Suc i in \<open>simp_all add: W'_def\<close>)
  also have "len_extra (unat v) - i = Suc (len_extra (unat v) - Suc i)"
    using i by simp
  then have "w_put (w_mem W') (w_ptr W' + Suc (Suc i))
      (write_le (len_extra (unat v) - Suc i) (drop_bit (8 * Suc i) v))
      = w_put (w_mem W) (w_ptr W + Suc i) (write_le (len_extra (unat v) - i) ?n)"
    by (simp add: W'_def w_put_Cons add.commute)
  finally show ?case by (simp add: W'_def)
qed

lemma word_take_bit_eq_self_iff: "take_bit n v = v \<longleftrightarrow> unat (v :: 'a::len word) < 2 ^ n"
  by (metis take_bit_nat_eq_self_iff unsigned_take_bit_eq unsigned_word_eqI)

lemma word_and_not_mask_eq_0:
  "v AND NOT (mask n) = 0 \<longleftrightarrow> unat (v :: 'a::len word) < 2 ^ n"
proof -
  have "v AND NOT (mask n) = 0 \<longleftrightarrow> take_bit n v = v"
    by (auto simp: bit_eq_iff bit_simps)
  then show ?thesis by (simp only: word_take_bit_eq_self_iff)
qed

lemma one_byte_iff: "v AND NOT 0x7F = 0 \<longleftrightarrow> unat (v :: u64) < 128"
  using word_and_not_mask_eq_0 [of v 7] by (simp add: mask_eq_exp_minus_1)

lemma top_byte_iff: "v AND push_bit 56 0xFF \<noteq> 0 \<longleftrightarrow> 2 ^ 56 \<le> unat (v :: u64)"
proof -
  have "push_bit 56 0xFF = NOT (mask 56 :: u64)"
    by (simp add: mask_eq_exp_minus_1)
  then show ?thesis
    using word_and_not_mask_eq_0 [of v 56] by (simp only: not_less [symmetric])
qed

lemma len_code_small: "unat v < 128 \<Longrightarrow> len_code v = [ucast v]"
proof -
  assume "unat v < 128"
  then have "len_extra (unat v) = 0" by (simp add: len_extra_0)
  moreover have "(ucast (NOT (0xFF :: u64) OR v) :: byte) = ucast v"
  proof -
    have "(0xFF :: u64) = mask 8" by (simp add: mask_eq_exp_minus_1)
    moreover have "(ucast (NOT (mask 8 :: u64) OR v) :: byte) = ucast v"
      by (rule bit_word_eqI) (auto simp: bit_simps)
    ultimately show ?thesis by (simp only:)
  qed
  ultimately show ?thesis by (simp add: len_code_def)
qed

lemma write_number_code_ok [storage_simps]:
  assumes "w_ptr W + 9 \<le> w_end W"
  shows "write_number_code W v = Done (w_emitted W (len_code v))"
proof -
  consider "unat v < 128" | "128 \<le> unat v" "2 ^ 56 \<le> unat v"
    | "128 \<le> unat v" "unat v < 2 ^ 56" by linarith
  then show ?thesis
  proof cases
    case 1
    then have "v AND NOT 0x7F = 0" by (simp only: one_byte_iff)
    moreover have "(ucast (v AND 0x7F) :: byte) = ucast v"
    proof -
      from 1 have "take_bit 7 v = v"
        by (simp add: word_take_bit_eq_self_iff)
      then show ?thesis by (simp add: take_bit_eq_mask mask_eq_exp_minus_1)
    qed
    ultimately show ?thesis
      using assms 1 unfolding write_number_code_def
      by (simp only: if_True) (simp add: storage_simps len_code_small)
  next
    case 2
    then have "v AND NOT 0x7F \<noteq> 0" "v AND push_bit 56 0xFF \<noteq> 0" "len_extra (unat v) = 8"
      by (simp_all only: one_byte_iff top_byte_iff len_extra_8 not_less)
    with assms show ?thesis
      unfolding write_number_code_def
      by (simp only: if_False if_True not_False_eq_True)
        (simp add: storage_simps len_code_def w_emitted_def)
  next
    case 3
    let ?k = "len_extra (unat v)"
    have k: "?k < 8"
      using 3 len_extra_8 [of "unat v"] len_extra_le [of "unat v"] by linarith
    have "v AND NOT 0x7F \<noteq> 0" "\<not> v AND push_bit 56 0xFF \<noteq> 0"
      using 3 by (simp_all only: one_byte_iff top_byte_iff not_less not_le)
    moreover have "write_number_loop W 0 0x80 v =
        Done (W\<lparr>w_mem := w_put (w_mem W) (w_ptr W + 1) (write_le ?k v)\<rparr>, ?k, drop_bit (8 * ?k) v)"
      using write_number_loop_ok [of 0 v W] k assms by simp
    moreover have "(w_put m (Suc p) bs)(p := b) = w_put m p (b # bs)" for m p b and bs :: "byte list"
      by (auto simp: w_put_def nth_Cons' fun_eq_iff)
    ultimately show ?thesis
      using assms k unfolding write_number_code_def
      by (simp only: if_False not_False_eq_True)
        (simp add: poke_def len_code_def Let_def w_emitted_def)
  qed
qed

section \<open>The operations refine the abstract writer\<close>

lemma length_len_code: "length (len_code v) \<le> 9"
  using len_extra_le [of "unat v"] by (simp add: len_code_def Let_def)

lemma w_appends_emitted:
  assumes "w_inv W" and "w_ptr W + length bs \<le> w_end W"
  shows "w_appends W bs 0 (w_emitted W bs)"
proof -
  have "(w_emitted W bs)\<lparr>w_depth := w_depth W\<rparr> = w_emitted W bs"
    by (simp add: w_emitted_def)
  with w_emitted_appends [of W bs 0] assms show ?thesis by (simp add: w_inv_def)
qed

lemma write_array_ok:
  assumes "w_inv W"
  shows "\<exists>W'. write_array W = Done W' \<and> w_appends W [ST_ARRAY_BEGIN] 1 W'"
proof -
  let ?W = "writer_ensure_space W 1"
  have "w_ptr ?W + 1 \<le> w_end ?W" by (metis writer_ensure_space_end(1) writer_ensure_space_sel(2))
  moreover have "w_inv ?W" using assms by simp
  ultimately have "w_appends ?W [ST_ARRAY_BEGIN] 1 ((w_emitted ?W [ST_ARRAY_BEGIN])\<lparr>w_depth := w_depth ?W + 1\<rparr>)"
    by (intro w_emitted_appends) (simp_all add: w_inv_def)
  then show ?thesis
    using \<open>w_ptr ?W + 1 \<le> w_end ?W\<close>
    by (simp add: write_array_def Let_def storage_simps w_appends_ensure_space)
qed

lemma write_array_end_ok:
  assumes "w_inv W" and "0 < w_depth W"
  shows "\<exists>W'. write_array_end W = Done W' \<and> w_appends W [ST_ARRAY_END] (- 1) W'"
proof -
  let ?W = "writer_ensure_space W 1"
  have sp: "w_ptr ?W + 1 \<le> w_end ?W" by (metis writer_ensure_space_end(1) writer_ensure_space_sel(2))
  have "w_inv ?W" using assms by simp
  then have "w_appends ?W [ST_ARRAY_END] (- 1) ((w_emitted ?W [ST_ARRAY_END])\<lparr>w_depth := w_depth ?W + - 1\<rparr>)"
    using assms sp by (intro w_emitted_appends) (simp_all add: w_inv_def)
  moreover have "emit (?W\<lparr>w_depth := w_depth ?W - 1\<rparr>) ST_ARRAY_END
      = Done ((w_emitted ?W [ST_ARRAY_END])\<lparr>w_depth := w_depth ?W + - 1\<rparr>)"
    using sp by (simp add: storage_simps w_emitted_def)
  ultimately show ?thesis
    using assms by (simp add: write_array_end_def Let_def w_appends_ensure_space)
qed

text \<open>Copying a string of a representable length appends its encoding.\<close>

lemma write_bytes_ok:
  assumes "w_inv W" and "length bs + 16 < 2 ^ 64"
  shows "\<exists>W'. write_bytes W bs = Done W' \<and> w_appends W (enc_string bs) 0 W'"
proof -
  let ?len = "of_nat (length bs) :: u64"
  let ?W = "writer_ensure_space W (unat (?len + 9))"
  let ?c = "of_nat (length bs + ST_STRING) :: u64"
  have len: "unat ?len = length bs" "unat (?len + 9) = length bs + 9"
    and c: "unat ?c = length bs + 16" "?len + of_nat ST_STRING = ?c"
  proof -
    have "unat ?len = take_bit 64 (length bs)" by (simp add: unsigned_of_nat)
    then show "unat ?len = length bs" using assms(2) by (simp add: take_bit_nat_eq_self)
    have "?len + 9 = of_nat (length bs + 9)" by simp
    then have "unat (?len + 9) = take_bit 64 (length bs + 9)" by (simp only: unsigned_of_nat) simp
    then show "unat (?len + 9) = length bs + 9" using assms(2) by (simp add: take_bit_nat_eq_self)
    have "unat ?c = take_bit 64 (length bs + 16)"
      by (simp only: unsigned_of_nat ST_STRING_def) simp
    then show "unat ?c = length bs + 16" using assms(2) by (simp add: take_bit_nat_eq_self)
    show "?len + of_nat ST_STRING = ?c" by simp
  qed
  have sp: "w_ptr ?W + (length bs + 9) \<le> w_end ?W"
    by (metis writer_ensure_space_end(1) writer_ensure_space_sel(2) len(2))
  have code: "(if ?c < 128 then emit ?W (ucast ?c) else write_number_code ?W ?c)
      = Done (w_emitted ?W (len_code ?c))"
    using sp by (auto simp: storage_simps len_code_small word_less_nat_alt c(1))
  let ?W1 = "w_emitted ?W (len_code ?c)"
  have sp1: "w_ptr ?W1 + length bs \<le> w_end ?W1"
    using sp length_len_code [of ?c] by simp
  then have "poke_all (?W1\<lparr>w_ptr := w_ptr ?W1 + length bs\<rparr>) (w_ptr ?W1) bs = Done (w_emitted ?W1 bs)"
    by (subst poke_all_ok) (simp_all add: w_emitted_def)
  then have "write_bytes W bs = Done (w_emitted ?W1 bs)"
    unfolding write_bytes_def write_string_def Let_def c(2) code
    by (simp add: len)
  also have "w_emitted ?W1 bs = w_emitted ?W (enc_string bs)"
    by (simp add: w_emitted_append enc_string_def)
  finally have "write_bytes W bs = Done (w_emitted ?W (enc_string bs))" .
  moreover have "w_appends ?W (enc_string bs) 0 (w_emitted ?W (enc_string bs))"
    using assms(1) sp length_len_code [of ?c]
    by (intro w_appends_emitted) (simp_all add: enc_string_def)
  ultimately show ?thesis by (simp add: w_appends_ensure_space)
qed

text \<open>Numbers.\<close>

lemma length_num_bytes: "unat n < 2 ^ (8 * k) \<Longrightarrow> length (num_bytes n) \<le> k"
proof (induction k arbitrary: n)
  case 0
  then have "n = 0" by (simp add: unat_eq_zero)
  then show ?case by (simp add: num_bytes.simps)
next
  case (Suc k)
  have "unat (drop_bit 8 n) = unat n div 2 ^ 8"
    by (simp only: unat_drop_bit_eq) (simp only: drop_bit_eq_div)
  also have "\<dots> < 2 ^ (8 * k)"
    using Suc.prems by (intro less_mult_imp_div_less) (simp add: power_add mult.commute)
  finally show ?case
    using Suc.IH by (subst num_bytes.simps) simp
qed

lemma length_num_bytes_le: "length (num_bytes n) \<le> 8"
  using length_num_bytes [of n 8] unsigned_less [of n] by simp

lemma write_number_bytes_ok [storage_simps]:
  "w_ptr W + length (num_bytes n) \<le> w_end W
    \<Longrightarrow> write_number_bytes W n = Done (w_emitted W (num_bytes n))"
proof (induction n arbitrary: W rule: num_bytes.induct)
  case (1 n)
  show ?case
  proof (cases "n = 0")
    case True
    then show ?thesis by (simp add: write_number_bytes.simps num_bytes.simps)
  next
    case False
    then have nb: "num_bytes n = ucast n # num_bytes (drop_bit 8 n)"
      by (subst num_bytes.simps) simp
    with 1(2) have "write_number_bytes (w_emitted W [ucast n]) (drop_bit 8 n)
        = Done (w_emitted (w_emitted W [ucast n]) (num_bytes (drop_bit 8 n)))"
      by (intro 1(1) False) simp
    with False 1(2) nb show ?thesis
      by (subst write_number_bytes.simps) (simp add: storage_simps w_emitted_append)
  qed
qed

lemma write_number_ok:
  assumes "w_inv W"
  shows "\<exists>W'. write_number W n = Done W' \<and> w_appends W (enc_number n) 0 W'"
proof -
  let ?W = "writer_ensure_space W 9"
  let ?b = "of_nat (ST_STRING + length (num_bytes n)) :: byte"
  have sp: "w_ptr ?W + 9 \<le> w_end ?W"
    by (metis writer_ensure_space_end(1) writer_ensure_space_sel(2))
  then have "write_number_bytes (?W\<lparr>w_ptr := w_ptr ?W + 1\<rparr>) n
      = Done (w_emitted (?W\<lparr>w_ptr := w_ptr ?W + 1\<rparr>) (num_bytes n))"
    using length_num_bytes_le [of n] by (intro write_number_bytes_ok) simp
  moreover have "(w_put m (Suc p) bs)(p := b) = w_put m p (b # bs)" for m p b and bs :: "byte list"
    by (auto simp: w_put_def nth_Cons' fun_eq_iff)
  ultimately have "write_number W n = Done (w_emitted ?W (enc_number n))"
    using sp
    by (simp add: write_number_def Let_def poke_def w_emitted_def enc_number_def)
  moreover have "w_appends ?W (enc_number n) 0 (w_emitted ?W (enc_number n))"
    using assms sp length_num_bytes_le [of n]
    by (intro w_appends_emitted) (simp_all add: enc_number_def)
  ultimately show ?thesis by (simp add: w_appends_ensure_space)
qed

section \<open>Closing a root element\<close>

lemma length_header_of [simp]: "length (header_of len) = 10"
  by (simp add: header_of_def)

lemma length_element_body: "length (element_body cs bs) \<le> length bs + 6"
  by (simp add: element_body_def crc_part_def)

lemma w_put_header:
  assumes "10 \<le> b"
  shows "(w_put (m(b - 10 := ST_LEN_BEGIN)) (b - 9) (write_le 8 (of_nat len :: u64)))(b - 1 := ST_LEN_END)
    = w_put m (b - 10) (header_of len)"
proof -
  obtain d where "b = 10 + d" using assms le_Suc_ex by blast
  then have b: "b = Suc d + 9" by simp
  have "(w_put m' q ws)(q + length ws := e) = w_put m' q (ws @ [e])" for m' q e and ws :: "byte list"
    by (auto simp: w_put_def nth_append fun_eq_iff)
  from this [of "m(d := ST_LEN_BEGIN)" "Suc d" "write_le 8 (of_nat len :: u64)" ST_LEN_END]
  show ?thesis by (simp add: b header_of_def w_put_Cons)
qed

lemma writer_finish_eq:
  fixes cs :: bool
  assumes "w_inv W" and "w_depth W = 0"
  defines "W1 \<equiv> w_emitted (writer_ensure_space W 16) (crc_part cs (w_cur W) @ [ST_DOT])"
  shows "writer_finish W cs = Done (W1\<lparr>
    w_mem := w_put (w_mem W1) (w_begin W1 - 10) (header_of (length (element_body cs (w_cur W)))),
    w_ptr := w_ptr W1 + 10, w_begin := w_ptr W1 + 10\<rparr>)"
proof -
  let ?W = "writer_ensure_space W 16"
  have sp: "w_ptr ?W + 16 \<le> w_end ?W"
    by (metis writer_ensure_space_end(1) writer_ensure_space_sel(2))
  have cur: "map (w_mem W) [w_begin W..<w_ptr W] = w_cur W" by (simp add: w_cur_def)
  have crc: "(if cs then let crc = crc32_c (map (w_mem ?W) [w_begin ?W..<w_ptr ?W]) 0 in
      obind (emit ?W ST_CRC) (\<lambda>W. emit_le W 4 crc) else Done ?W)
      = Done (w_emitted ?W (crc_part cs (w_cur W)))"
    using sp by (simp add: cur storage_simps crc_part_def Let_def w_emitted_append)
  have dot: "emit (w_emitted ?W (crc_part cs (w_cur W))) ST_DOT = Done W1"
    using sp by (simp add: storage_simps crc_part_def W1_def w_emitted_append)
  have len: "w_ptr W1 - w_begin W1 = length (element_body cs (w_cur W))"
    using assms(1) by (simp add: W1_def element_body_def w_cur_def w_inv_def Suc_diff_le)
  have b: "10 \<le> w_begin W1" "w_begin W1 \<le> w_end W1"
    using assms(1) sp by (simp_all add: W1_def w_inv_def)
  then have "w_begin W1 - 10 < w_end W1" "w_begin W1 - 1 < w_end W1" by simp_all
  with b show ?thesis
    unfolding writer_finish_def Let_def
    using assms(2) crc [unfolded Let_def] dot len
    by (simp add: poke_def poke_le_eq poke_all_ok w_put_header [unfolded One_nat_def])
qed

text \<open>The abstract effect of closing: the framed element joins the finished ones.\<close>

definition w_closed :: "Writer \<Rightarrow> byte list \<Rightarrow> Writer \<Rightarrow> bool" where
  "w_closed W bs W' \<longleftrightarrow> w_inv W' \<and> w_out W' = w_out W @ bs \<and> w_cur W' = [] \<and> w_depth W' = 0
     \<and> w_begin W' = w_ptr W'"

lemma writer_finish_ok:
  assumes "w_inv W" and "w_depth W = 0"
  shows "\<exists>W'. writer_finish W cs = Done W' \<and> w_closed W (root_element cs (w_cur W)) W'"
proof -
  let ?W = "writer_ensure_space W 16"
  let ?bs = "crc_part cs (w_cur W) @ [ST_DOT]"
  let ?W1 = "w_emitted ?W ?bs"
  let ?h = "header_of (length (element_body cs (w_cur W)))"
  let ?m = "w_put (w_mem ?W1) (w_begin ?W1 - 10) ?h"
  let ?W' = "?W1\<lparr>w_mem := ?m, w_ptr := w_ptr ?W1 + 10, w_begin := w_ptr ?W1 + 10\<rparr>"
  have sp: "w_ptr W + 16 \<le> w_end ?W"
    by (metis writer_ensure_space_end(1))
  have len: "length ?bs \<le> 6" by (simp add: crc_part_def)
  have W: "10 \<le> w_begin W" "w_begin W \<le> w_ptr W" using assms(1) by (simp_all add: w_inv_def)
  obtain b where b: "w_begin W = b + 10" using W(1) by (metis add.commute le_Suc_ex)
  have hd: "map ?m [0..<b + 10] = w_out W @ ?h"
    using map_w_put_extend [of 0 b "w_mem ?W1" ?h] W(2)
    by (simp add: w_out_def b map_w_put_below)
  have "map ?m [b + 10..<w_ptr ?W1] = map (w_mem ?W1) [b + 10..<w_ptr ?W1]"
    by (intro map_w_put_above) (simp add: b)
  also have "\<dots> = element_body cs (w_cur W)"
    using map_w_put_extend [of "b + 10" "w_ptr W" "w_mem W" ?bs] W(2) b
    by (simp add: element_body_def w_cur_def)
  finally have bd: "map ?m [b + 10..<w_ptr ?W1] = element_body cs (w_cur W)" .
  have "map ?m [0..<w_ptr ?W1] = map ?m [0..<b + 10] @ map ?m [b + 10..<w_ptr ?W1]"
    by (rule map_nth_upt_append [symmetric]) (use W(2) b in simp_all)
  also have "\<dots> = w_out W @ root_element cs (w_cur W)"
    by (simp only: hd bd root_element_def append_assoc)
  finally have "map ?m [0..<w_ptr ?W1] = w_out W @ root_element cs (w_cur W)" .
  then have "w_closed W (root_element cs (w_cur W)) ?W'"
    using assms W sp len by (simp add: w_closed_def w_inv_def w_out_def w_cur_def)
  with writer_finish_eq [OF assms, of cs] show ?thesis by blast
qed

lemma w_inv_writer_init [simp]: "w_inv (writer_init mem)"
  by (simp add: writer_init_def w_inv_def Let_def)

lemma writer_init_abs [simp]:
  "w_out (writer_init mem) = []" "w_cur (writer_init mem) = []" "w_depth (writer_init mem) = 0"
  by (simp_all add: writer_init_def w_out_def w_cur_def Let_def)

lemma writer_discart_abs [simp]:
  "w_inv W \<Longrightarrow> w_inv (writer_discart W)"
  "w_out (writer_discart W) = []" "w_cur (writer_discart W) = []"
  "w_depth (writer_discart W) = w_depth W"
  by (auto simp: writer_discart_def w_inv_def w_out_def w_cur_def)

lemma writer_length_ok: "w_begin W = w_ptr W \<Longrightarrow> writer_length W = Done (length (w_out W))"
  by (simp add: writer_length_def w_out_def)

lemma writer_contents_ok: "w_begin W = w_ptr W \<Longrightarrow> writer_contents W = Done (w_out W)"
  by (simp add: writer_contents_def writer_length_def w_out_def)

text \<open>\<open>writer_direct_write\<close> appends finished root elements; its bytes start in the header gap.\<close>

lemma writer_direct_write_ok:
  assumes "w_inv W" and "w_depth W = 0" and "w_begin W = w_ptr W"
  shows "\<exists>W'. writer_direct_write W bs = Done W' \<and> w_closed W bs W'"
proof -
  let ?W = "writer_ensure_space W (length bs)"
  let ?m = "w_put (w_mem W) (w_ptr W - 10) bs"
  let ?W' = "?W\<lparr>w_mem := ?m, w_ptr := w_ptr W + length bs, w_begin := w_begin W + length bs\<rparr>"
  have sp: "w_ptr W + length bs \<le> w_end ?W" by (metis writer_ensure_space_end(1))
  have "10 \<le> w_ptr W" using assms by (simp add: w_inv_def)
  then have "map ?m [0..<w_ptr W + length bs - 10] = w_out W @ bs"
    using map_w_put_extend [of 0 "w_ptr W - 10" "w_mem W" bs]
    by (simp add: w_out_def assms(3))
  then have "w_closed W bs ?W'"
    using assms sp \<open>10 \<le> w_ptr W\<close> by (simp add: w_closed_def w_inv_def w_out_def w_cur_def)
  moreover have "writer_direct_write W bs = Done ?W'"
    using sp assms by (simp add: writer_direct_write_def Let_def poke_all_ok)
  ultimately show ?thesis by blast
qed

section \<open>Sequences of calls\<close>

text \<open>The calls a client makes between two \<open>writer_discart\<close>s.\<close>

datatype w_call =
    Call_array
  | Call_array_end
  | Call_bytes "byte list"
  | Call_number u64
  | Call_finish bool
  | Call_direct "byte list"

fun w_exec :: "w_call \<Rightarrow> Writer \<Rightarrow> Writer outcome" where
  "w_exec Call_array W = write_array W"
| "w_exec Call_array_end W = write_array_end W"
| "w_exec (Call_bytes bs) W = write_bytes W bs"
| "w_exec (Call_number n) W = write_number W n"
| "w_exec (Call_finish cs) W = writer_finish W cs"
| "w_exec (Call_direct bs) W = writer_direct_write W bs"

fun w_execs :: "w_call list \<Rightarrow> Writer \<Rightarrow> Writer outcome" where
  "w_execs [] W = Done W"
| "w_execs (c # cs) W = obind (w_exec c W) (w_execs cs)"

text \<open>The abstract writer: the finished bytes, the current element, the nesting depth.\<close>

record writer_spec =
  ws_out :: "byte list"
  ws_cur :: "byte list"
  ws_depth :: int

definition w_abs :: "Writer \<Rightarrow> writer_spec" where
  "w_abs W = \<lparr>ws_out = w_out W, ws_cur = w_cur W, ws_depth = w_depth W\<rparr>"

text \<open>What each call does to it, and when the contract allows the call.\<close>

fun ws_call :: "w_call \<Rightarrow> writer_spec \<Rightarrow> writer_spec option" where
  "ws_call Call_array s =
     Some (s\<lparr>ws_cur := ws_cur s @ [ST_ARRAY_BEGIN], ws_depth := ws_depth s + 1\<rparr>)"
| "ws_call Call_array_end s =
     (if 0 < ws_depth s
      then Some (s\<lparr>ws_cur := ws_cur s @ [ST_ARRAY_END], ws_depth := ws_depth s - 1\<rparr>) else None)"
| "ws_call (Call_bytes bs) s =
     (if length bs + 16 < 2 ^ 64 then Some (s\<lparr>ws_cur := ws_cur s @ enc_string bs\<rparr>) else None)"
| "ws_call (Call_number n) s = Some (s\<lparr>ws_cur := ws_cur s @ enc_number n\<rparr>)"
| "ws_call (Call_finish cs) s =
     (if ws_depth s = 0
      then Some (s\<lparr>ws_out := ws_out s @ root_element cs (ws_cur s), ws_cur := []\<rparr>) else None)"
| "ws_call (Call_direct bs) s =
     (if ws_depth s = 0 \<and> ws_cur s = [] then Some (s\<lparr>ws_out := ws_out s @ bs\<rparr>) else None)"

fun ws_calls :: "w_call list \<Rightarrow> writer_spec \<Rightarrow> writer_spec option" where
  "ws_calls [] s = Some s"
| "ws_calls (c # cs) s = Option.bind (ws_call c s) (ws_calls cs)"

lemma w_appends_abs:
  "w_appends W bs d W' \<Longrightarrow> w_inv W' \<and> w_abs W' = (w_abs W)\<lparr>ws_cur := w_cur W @ bs, ws_depth := w_depth W + d\<rparr>"
  by (simp add: w_appends_def w_abs_def)

lemma w_closed_abs:
  "w_closed W bs W' \<Longrightarrow> w_inv W' \<and> w_abs W' = \<lparr>ws_out = w_out W @ bs, ws_cur = [], ws_depth = 0\<rparr>"
  by (simp add: w_closed_def w_abs_def)

lemma w_abs_sel [simp]:
  "ws_out (w_abs W) = w_out W" "ws_cur (w_abs W) = w_cur W" "ws_depth (w_abs W) = w_depth W"
  by (simp_all add: w_abs_def)

lemma w_cur_empty_iff: "w_inv W \<Longrightarrow> w_cur W = [] \<longleftrightarrow> w_begin W = w_ptr W"
  by (auto simp: w_cur_def w_inv_def)

lemma w_exec_refines:
  assumes "w_inv W" and "ws_call c (w_abs W) = Some s"
  shows "\<exists>W'. w_exec c W = Done W' \<and> w_inv W' \<and> w_abs W' = s"
proof (cases c)
  case Call_array
  with write_array_ok [OF assms(1)] assms(2) show ?thesis
    by (auto dest: w_appends_abs simp: w_abs_def)
next
  case Call_array_end
  with assms(2) have "0 < w_depth W" by (auto split: if_splits)
  with write_array_end_ok [OF assms(1)] assms(2) Call_array_end show ?thesis
    by (auto dest: w_appends_abs simp: w_abs_def)
next
  case (Call_bytes bs)
  with assms(2) have "length bs + 16 < 2 ^ 64" by (auto split: if_splits)
  with write_bytes_ok [OF assms(1) this] assms(2) Call_bytes show ?thesis
    by (auto dest!: w_appends_abs simp: w_abs_def)
next
  case (Call_number n)
  with write_number_ok [OF assms(1), of n] assms(2) show ?thesis
    by (auto dest: w_appends_abs simp: w_abs_def)
next
  case (Call_finish cs)
  with assms(2) have "w_depth W = 0" by (auto split: if_splits)
  with writer_finish_ok [OF assms(1), of cs] assms(2) Call_finish show ?thesis
    by (auto dest: w_closed_abs simp: w_abs_def)
next
  case (Call_direct bs)
  with assms have "w_depth W = 0" "w_begin W = w_ptr W"
    by (auto simp: w_cur_empty_iff split: if_splits)
  with writer_direct_write_ok [OF assms(1), of bs] assms(2) Call_direct show ?thesis
    by (auto dest: w_closed_abs simp: w_abs_def w_cur_def)
qed

text \<open>
  C5: any sequence of calls the contract allows runs without a fault (no store outside the
  buffer, however often it had to grow) and leaves exactly the bytes the format prescribes.
\<close>

theorem writer_refines_spec:
  assumes "w_inv W" and "ws_calls cs (w_abs W) = Some s"
  shows "\<exists>W'. w_execs cs W = Done W' \<and> w_inv W' \<and> w_abs W' = s"
  using assms
proof (induction cs arbitrary: W)
  case Nil
  then show ?case by simp
next
  case (Cons c cs)
  then obtain s1 where s1: "ws_call c (w_abs W) = Some s1" "ws_calls cs s1 = Some s"
    by (auto simp: bind_eq_Some_conv)
  with w_exec_refines [OF Cons.prems(1)] obtain W1
    where "w_exec c W = Done W1" "w_inv W1" "w_abs W1 = s1" by blast
  with Cons.IH [of W1] s1 show ?case by auto
qed

theorem writer_refines_spec_witness:
  "\<exists>W'. w_execs [Call_array, Call_number 5, Call_array_end, Call_finish False]
      (writer_init (\<lambda>_. 0)) = Done W'
    \<and> w_inv W' \<and> w_out W' = [7, 5, 0, 0, 0, 0, 0, 0, 0, 9, 1, 17, 5, 3, 2]"
proof -
  have "num_bytes 5 = [5]"
    by (subst num_bytes.simps, simp add: drop_bit_eq_div, subst num_bytes.simps) simp
  then have "ws_calls [Call_array, Call_number 5, Call_array_end, Call_finish False]
      (w_abs (writer_init (\<lambda>_. 0)))
    = Some \<lparr>ws_out = [7, 5, 0, 0, 0, 0, 0, 0, 0, 9, 1, 17, 5, 3, 2], ws_cur = [], ws_depth = 0\<rparr>"
    by (simp add: w_abs_def enc_number_def root_element_def element_body_def crc_part_def
        header_of_def st_defs write_le_numeral drop_bit_eq_div)
  from writer_refines_spec [OF w_inv_writer_init this]
  show ?thesis by (auto simp: w_abs_def)
qed

section \<open>Undoing writes\<close>

text \<open>
  What a saved position relies on: the finished elements and the current one are still where
  they were. The ten bytes before the current element may have been overwritten, they hold no
  data while the element is open.
\<close>

definition w_live :: "Writer \<Rightarrow> nat set" where
  "w_live W = {i. i < w_begin W - 10 \<or> w_begin W \<le> i \<and> i < w_ptr W}"

definition w_kept :: "Writer \<Rightarrow> Writer \<Rightarrow> bool" where
  "w_kept W W' \<longleftrightarrow> w_inv W' \<and> w_ptr W \<le> w_ptr W' \<and> w_live W \<subseteq> w_live W'
     \<and> (\<forall>i \<in> w_live W. w_mem W' i = w_mem W i)"

lemma w_kept_refl: "w_inv W \<Longrightarrow> w_kept W W"
  by (simp add: w_kept_def)

lemma w_kept_trans: "w_kept W W1 \<Longrightarrow> w_kept W1 W2 \<Longrightarrow> w_kept W W2"
  unfolding w_kept_def by (metis order_trans subsetD)

lemma map_upt_prefixD:
  assumes "map f [a..<b] = map g [a..<c] @ xs" and "a \<le> i" and "i < c"
  shows "f i = g i"
proof -
  from arg_cong [OF assms(1), of length] have "b - a = c - a + length xs" by simp
  then have "i < b" using assms(2,3) by simp
  have lt: "i - a < length (map g [a..<c])" using assms by simp
  have "f i = map f [a..<b] ! (i - a)" using assms(2) \<open>i < b\<close> by simp
  also have "\<dots> = map g [a..<c] ! (i - a)"
    using lt by (simp only: assms(1) nth_append if_True)
  also have "\<dots> = g i" using assms(2,3) by simp
  finally show ?thesis .
qed

lemma w_appends_kept:
  assumes "w_inv W" and "w_appends W bs d W'"
  shows "w_kept W W'"
proof -
  have b: "w_begin W' = w_begin W" using assms(2) by (simp add: w_appends_def)
  have cur: "map (w_mem W') [w_begin W..<w_ptr W'] = map (w_mem W) [w_begin W..<w_ptr W] @ bs"
    and out: "map (w_mem W') [0..<w_begin W - 10] = map (w_mem W) [0..<w_begin W - 10] @ []"
    using assms(2) unfolding w_appends_def w_cur_def w_out_def append_Nil2 by metis+
  from arg_cong [OF cur, of length] assms have "w_ptr W \<le> w_ptr W'"
    by (auto simp: w_appends_def w_inv_def)
  with assms b show ?thesis
    by (auto simp: w_kept_def w_appends_def w_live_def
        intro: map_upt_prefixD [OF cur] map_upt_prefixD [OF out])
qed

text \<open>Closing an element: the new finished bytes start with the old ones and the header.\<close>

lemma w_closed_kept:
  assumes "w_inv W" and "w_closed W bs W'"
    and "(\<exists>h rest. length h = 10 \<and> bs = h @ w_cur W @ rest) \<or> w_cur W = []"
  shows "w_kept W W'"
proof -
  have W: "10 \<le> w_begin W" "w_begin W \<le> w_ptr W" using assms(1) by (simp_all add: w_inv_def)
  have W': "w_inv W'" "w_begin W' = w_ptr W'" "10 \<le> w_begin W'"
    using assms(2) by (simp_all add: w_closed_def w_inv_def)
  have out: "map (w_mem W') [0..<w_begin W' - 10] = map (w_mem W) [0..<w_begin W - 10] @ bs"
    using assms(2) unfolding w_closed_def w_out_def by blast
  from arg_cong [OF out, of length] have len: "w_begin W' - 10 = w_begin W - 10 + length bs"
    by simp
  from assms(3) show ?thesis
  proof
    assume "w_cur W = []"
    then have "w_begin W = w_ptr W" using assms(1) by (simp add: w_cur_empty_iff)
    with W W' len show ?thesis
      by (auto simp: w_kept_def w_live_def intro: map_upt_prefixD [OF out])
  next
    assume "\<exists>h rest. length h = 10 \<and> bs = h @ w_cur W @ rest"
    then obtain h rest where bs: "length h = 10" "bs = h @ w_cur W @ rest" by blast
    then have len_bs: "10 + (w_ptr W - w_begin W) \<le> length bs" by (simp add: w_cur_def)
    have cur: "w_mem W' i = w_mem W i" if "w_begin W \<le> i" "i < w_ptr W" for i
    proof -
      have "map (w_mem W') [0..<w_begin W' - 10] ! i = bs ! (i - (w_begin W - 10))"
        unfolding out using that W by (auto simp: nth_append)
      also have "i - (w_begin W - 10) = 10 + (i - w_begin W)" using that W by simp
      also have "bs ! (10 + (i - w_begin W)) = w_cur W ! (i - w_begin W)"
      proof -
        have "i - w_begin W < length (w_cur W)" using that by (simp add: w_cur_def)
        moreover have "bs ! (10 + (i - w_begin W)) = (w_cur W @ rest) ! (i - w_begin W)"
          using nth_append_length_plus [of h "w_cur W @ rest" "i - w_begin W"] bs by simp
        ultimately show ?thesis by (simp only: nth_append if_True)
      qed
      also have "\<dots> = w_mem W i" using that by (simp add: w_cur_def)
      finally show ?thesis using that len len_bs W by simp
    qed
    with W W' len len_bs show ?thesis
      by (auto simp: w_kept_def w_live_def intro: map_upt_prefixD [OF out])
  qed
qed

lemma w_exec_kept:
  assumes "w_inv W" and "ws_call c (w_abs W) \<noteq> None"
  shows "\<exists>W'. w_exec c W = Done W' \<and> w_kept W W'"
proof (cases c)
  case Call_array
  with write_array_ok [OF assms(1)] w_appends_kept [OF assms(1)] show ?thesis by auto
next
  case Call_array_end
  with assms(2) have "0 < w_depth W" by (auto split: if_splits)
  with write_array_end_ok [OF assms(1)] w_appends_kept [OF assms(1)] Call_array_end
  show ?thesis by auto
next
  case (Call_bytes bs)
  with assms(2) have "length bs + 16 < 2 ^ 64" by (auto split: if_splits)
  with write_bytes_ok [OF assms(1) this] w_appends_kept [OF assms(1)] Call_bytes
  show ?thesis by auto
next
  case (Call_number n)
  with write_number_ok [OF assms(1), of n] w_appends_kept [OF assms(1)] show ?thesis by auto
next
  case (Call_finish cs)
  with assms(2) have "w_depth W = 0" by (auto split: if_splits)
  with writer_finish_ok [OF assms(1), of cs] obtain W'
    where "writer_finish W cs = Done W'" "w_closed W (root_element cs (w_cur W)) W'" by blast
  moreover have "w_kept W W'"
    by (rule w_closed_kept [OF assms(1) calculation(2)])
      (metis root_element_def element_body_def length_header_of)
  ultimately show ?thesis using Call_finish by auto
next
  case (Call_direct bs)
  with assms have "w_depth W = 0" "w_cur W = []" by (auto split: if_splits)
  with writer_direct_write_ok [OF assms(1), of bs] w_closed_kept [OF assms(1)] Call_direct
  show ?thesis using assms(1) by (auto simp: w_cur_empty_iff)
qed

lemma w_execs_kept:
  assumes "w_inv W" and "ws_calls cs (w_abs W) \<noteq> None"
  shows "\<exists>W'. w_execs cs W = Done W' \<and> w_kept W W'"
  using assms
proof (induction cs arbitrary: W)
  case Nil
  then show ?case by (simp add: w_kept_refl)
next
  case (Cons c cs)
  then obtain s1 where s1: "ws_call c (w_abs W) = Some s1" "ws_calls cs s1 \<noteq> None"
    by (auto simp: bind_eq_Some_conv)
  with w_exec_refines [OF Cons.prems(1)] w_exec_kept [OF Cons.prems(1), of c] obtain W1
    where W1: "w_exec c W = Done W1" "w_inv W1" "w_abs W1 = s1" "w_kept W W1" by force
  with Cons.IH [of W1] s1 show ?case by (auto intro: w_kept_trans)
qed

text \<open>
  A saved position undoes every call made after it, closed root elements included: the
  writer's contents are those at the time the position was taken.
\<close>

theorem writer_set_position_undoes:
  assumes "w_inv W" and "ws_calls cs (w_abs W) \<noteq> None"
  shows "\<exists>W' W''. w_execs cs W = Done W' \<and> writer_set_position W' (writer_get_position W) = Done W''
    \<and> w_inv W'' \<and> w_abs W'' = w_abs W"
proof -
  obtain W' where W': "w_execs cs W = Done W'" "w_kept W W'"
    using w_execs_kept [OF assms] by blast
  let ?W'' = "W'\<lparr>w_begin := w_begin W, w_ptr := w_ptr W, w_depth := w_depth W\<rparr>"
  have "writer_set_position W' (writer_get_position W) = Done ?W''"
    using assms(1) W'(2)
    by (simp add: writer_set_position_def writer_get_position_def w_kept_def w_inv_def)
  moreover have "w_inv ?W''"
    using assms(1) W'(2) by (auto simp: w_inv_def w_kept_def)
  moreover have "w_abs ?W'' = w_abs W"
    using W'(2) by (auto simp: w_abs_def w_out_def w_cur_def w_kept_def w_live_def)
  ultimately show ?thesis using W'(1) by blast
qed

theorem writer_set_position_undoes_witness:
  "\<exists>W' W''. w_execs [Call_finish True, Call_array] (writer_init (\<lambda>_. 0)) = Done W'
    \<and> writer_set_position W' (writer_get_position (writer_init (\<lambda>_. 0))) = Done W''
    \<and> w_inv W'' \<and> w_abs W'' = w_abs (writer_init (\<lambda>_. 0))"
  by (rule writer_set_position_undoes) (simp_all add: w_abs_def)

end
