(* ===== verification/Reader.thy ===== *)
theory Reader
  imports Writer
begin

text \<open>
  The parsing half of the storage layer: \<open>storage/storage.include/reader.c\<close> and the
  \<open>read_*\<close> functions of \<open>storage/storage.include/inline.h\<close>, over the file callback
  \<open>file_reader_read\<close>. The buffer of the current root element is a list, \<open>ptr\<close> an offset
  into it, and \<open>r_addr\<close> its address: a bounds check computes \<open>R->ptr + size\<close> in the 64-bit
  address space, and a wrapped sum is a fault, as is a load outside the buffer.
  A \<open>false\<close> result is \<open>Failed\<close>; every caller gives the reader up then, so its state is
  not kept.
\<close>

section \<open>State\<close>

datatype read_status = ST_READ_FAIL | ST_READ_SUCCESS | ST_READ_END_OF_FILE

text \<open>
  \<open>r_malloc\<close> answers the requests of \<open>xmalloc\<close>: the address of the block, or \<open>None\<close> when
  memory is exhausted (\<open>xmalloc\<close> then dies). \<open>r_buf_size\<close> is the context's \<open>buf_size\<close>.
\<close>

record Reader =
  r_malloc :: "nat \<Rightarrow> nat option"
  r_file :: "byte list"
  r_buf :: nat
  r_buf_size :: nat
  r_addr :: nat
  r_data :: "byte list"
  r_ptr :: nat
  r_depth :: int

definition file_reader_init :: "(nat \<Rightarrow> nat option) \<Rightarrow> byte list \<Rightarrow> Reader" where
  "file_reader_init malloc file =
    \<lparr>r_malloc = malloc, r_file = file, r_buf = 0, r_buf_size = 0,
     r_addr = 0, r_data = [], r_ptr = 0, r_depth = 0\<rparr>"

section \<open>The file callback\<close>

text \<open>
  \<open>fread\<close> delivers the next bytes of the file, fewer at its end. The result is the status,
  the bytes now in the buffer, and the context; \<open>buf_size\<close> keeps its value.
\<close>

definition file_reader_read :: "Reader \<Rightarrow> nat \<Rightarrow> (read_status \<times> byte list \<times> Reader) outcome" where
  "file_reader_read R len =
    obind (if r_buf_size R < len
           then (case r_malloc R len of None \<Rightarrow> Fault | Some a \<Rightarrow> Done (R\<lparr>r_buf := a\<rparr>))
           else Done R) (\<lambda>R.
    let bytes = take len (r_file R); R = R\<lparr>r_file := drop len (r_file R)\<rparr> in
    Done (if length bytes = len then ST_READ_SUCCESS
          else if length bytes = 0 then ST_READ_END_OF_FILE
          else ST_READ_FAIL, bytes, R))"

section \<open>Primitive accesses\<close>

definition reader_ensure_space :: "Reader \<Rightarrow> nat \<Rightarrow> unit outcome" where
  "reader_ensure_space R sz =
    (if r_addr R + r_ptr R + sz \<ge> 2 ^ 64 then Fault
     else if r_ptr R + sz > length (r_data R) then Failed
     else Done ())"

definition reader_bytes :: "Reader \<Rightarrow> nat \<Rightarrow> byte list outcome" where
  "reader_bytes R n =
    (if r_ptr R + n \<le> length (r_data R) then Done (take n (drop (r_ptr R) (r_data R))) else Fault)"

text \<open>\<open>*R->ptr++\<close>.\<close>

definition next_byte :: "Reader \<Rightarrow> (byte \<times> Reader) outcome" where
  "next_byte R =
    (if r_ptr R < length (r_data R) then Done (r_data R ! r_ptr R, R\<lparr>r_ptr := r_ptr R + 1\<rparr>)
     else Fault)"

definition ST_ERROR :: byte where "ST_ERROR = 15"

section \<open>Operations\<close>

definition reader_next :: "Reader \<Rightarrow> byte" where
  "reader_next R =
    (if r_ptr R \<ge> length (r_data R) then ST_ERROR
     else let b = r_data R ! r_ptr R in
       if b = ST_ARRAY_BEGIN \<or> b = ST_ARRAY_END \<or> b = ST_CRC \<or> b = ST_DOT then b
       else if unat b \<ge> ST_STRING then of_nat ST_STRING
       else ST_ERROR)"

definition read_array :: "Reader \<Rightarrow> Reader outcome" where
  "read_array R =
    obind (reader_ensure_space R 1) (\<lambda>_.
    obind (next_byte (R\<lparr>r_depth := r_depth R + 1\<rparr>)) (\<lambda>(b, R).
    obind (check (b = ST_ARRAY_BEGIN)) (\<lambda>_. Done R)))"

definition read_array_end :: "Reader \<Rightarrow> Reader outcome" where
  "read_array_end R =
    obind (reader_ensure_space R 1) (\<lambda>_.
    obind (c_assert (r_depth R > 0)) (\<lambda>_.
    obind (next_byte (R\<lparr>r_depth := r_depth R - 1\<rparr>)) (\<lambda>(b, R).
    obind (check (b = ST_ARRAY_END)) (\<lambda>_. Done R))))"

lemma and_0x80: "(i :: u32) AND 0x80 \<noteq> 0 \<longleftrightarrow> bit i 7"
  using and_exp_eq_0_iff_not_bit [of i 7] by simp

lemma double_mod_256_less:
  assumes "odd (n div 128)"
  shows "2 * n mod 256 < n mod (256 :: nat)"
proof -
  have "n mod (128 * 2) = 128 * (n div 128 mod 2) + n mod 128" by (rule mod_mult2_eq)
  with assms have "n mod 256 = 128 + n mod 128" by (simp add: odd_iff_mod_2_eq_one)
  moreover have "2 * n mod (2 * 128) = 2 * (n mod 128)" by (rule mult_mod_right [symmetric])
  then have "2 * n mod 256 = 2 * (n mod 128)" by simp
  moreover have "n mod 128 < 128" by simp
  ultimately show ?thesis by linarith
qed

lemma shift_out_bit_7:
  assumes "bit (i :: u32) 7"
  shows "unat (take_bit 8 (push_bit 1 i)) < unat (take_bit 8 i)"
proof -
  have 1: "unat (take_bit 8 i) = unat i mod 256"
    by (simp only: unsigned_take_bit_eq) (simp add: take_bit_eq_mod)
  have "unat (take_bit 8 (push_bit 1 i)) = take_bit 8 (take_bit 32 (push_bit 1 (unat i)))"
    by (simp only: unsigned_take_bit_eq unsigned_push_bit_eq) simp
  also have "\<dots> = 2 * unat i mod 256"
    by (simp only: take_bit_take_bit) (simp add: take_bit_eq_mod mult.commute)
  finally have 2: "unat (take_bit 8 (push_bit 1 i)) = 2 * unat i mod 256" .
  have "bit (unat i) 7" using assms by (simp add: bit_unsigned_iff)
  then have "odd (unat i div 2 ^ 7)" by (simp only: bit_iff_odd not_False_eq_True)
  moreover have "(2 :: nat) ^ 7 = 128" by simp
  ultimately have "odd (unat i div 128)" by (simp only: not_False_eq_True)
  then have "2 * unat i mod 256 < unat i mod 256" by (rule double_mod_256_less)
  with 1 2 show ?thesis by simp
qed

text \<open>\<open>for (unsigned i = first; i & 0x80; i <<= 1) l++\<close>.\<close>

function lead_ones :: "u32 \<Rightarrow> nat \<Rightarrow> nat" where
  "lead_ones i l = (if i AND 0x80 \<noteq> 0 then lead_ones (push_bit 1 i) (l + 1) else l)"
  by pat_completeness auto

termination
  by (relation "measure (\<lambda>(i, l). unat (take_bit 8 i))")
    (simp_all only: in_measure case_prod_conv and_0x80 shift_out_bit_7 wf_measure)

declare lead_ones.simps [simp del]

text \<open>The three ways \<open>read_string\<close> decodes the length, \<open>first\<close> being already consumed.\<close>

definition read_string_len :: "byte \<Rightarrow> Reader \<Rightarrow> (u64 \<times> Reader) outcome" where
  "read_string_len first R =
    (if first < 0x80 then Done (ucast first, R)
     else if first = 0xFF then
       obind (reader_ensure_space R 8) (\<lambda>_.
       obind (reader_bytes R 8) (\<lambda>bs.
       Done (read_le 0 bs, R\<lparr>r_ptr := r_ptr R + 8\<rparr>)))
     else
       let l = lead_ones (ucast first) 0 in
       obind (reader_bytes R l) (\<lambda>bs.
       Done (read_le (ucast first AND drop_bit l 0xFF) bs, R\<lparr>r_ptr := r_ptr R + l\<rparr>)))"

definition read_string :: "Reader \<Rightarrow> (byte list \<times> Reader) outcome" where
  "read_string R =
    obind (reader_ensure_space R 1) (\<lambda>_.
    obind (next_byte R) (\<lambda>(first, R).
    obind (check (unat first \<ge> ST_STRING)) (\<lambda>_.
    obind (read_string_len first R) (\<lambda>(len, R).
    let len = len - of_nat ST_STRING in
    obind (reader_ensure_space R (unat len)) (\<lambda>_.
    obind (reader_bytes R (unat len)) (\<lambda>bs.
    Done (bs, R\<lparr>r_ptr := r_ptr R + unat len\<rparr>)))))))"

definition read_number :: "Reader \<Rightarrow> (u64 \<times> Reader) outcome" where
  "read_number R =
    obind (reader_ensure_space R 1) (\<lambda>_.
    obind (next_byte R) (\<lambda>(b, R).
    let l = unat b in
    obind (check (\<not> (l < ST_STRING \<or> l > ST_STRING + 8))) (\<lambda>_.
    let l = l - ST_STRING in
    obind (reader_ensure_space R l) (\<lambda>_.
    obind (reader_bytes R l) (\<lambda>bs.
    Done (read_le 0 bs, R\<lparr>r_ptr := r_ptr R + l\<rparr>))))))"

definition reader_get_pos :: "Reader \<Rightarrow> nat" where
  "reader_get_pos R = r_ptr R"

definition reader_set_pos :: "Reader \<Rightarrow> nat \<Rightarrow> Reader" where
  "reader_set_pos R pos = R\<lparr>r_ptr := pos\<rparr>"

definition read_header :: "byte list \<Rightarrow> u64 option" where
  "read_header header =
    (if header ! 0 \<noteq> ST_LEN_BEGIN \<or> header ! 9 \<noteq> ST_LEN_END then None
     else Some (read_le 0 (map (nth header) [1..<9])))"

definition reader_begin :: "Reader \<Rightarrow> (read_status \<times> Reader) outcome" where
  "reader_begin R =
    obind (file_reader_read R 10) (\<lambda>(st, header, R).
    case st of
      ST_READ_END_OF_FILE \<Rightarrow> Done (ST_READ_END_OF_FILE, R)
    | ST_READ_FAIL \<Rightarrow> Done (ST_READ_FAIL, R)
    | ST_READ_SUCCESS \<Rightarrow>
       (case read_header header of
          None \<Rightarrow> Done (ST_READ_FAIL, R)
        | Some len \<Rightarrow>
           obind (file_reader_read R (unat len)) (\<lambda>(st, bytes, R).
           if st \<noteq> ST_READ_SUCCESS then Done (ST_READ_FAIL, R)
           else Done (ST_READ_SUCCESS,
             R\<lparr>r_addr := r_buf R, r_data := bytes, r_ptr := 0, r_depth := 0\<rparr>))))"

definition reader_finish :: "Reader \<Rightarrow> bool \<Rightarrow> Reader outcome" where
  "reader_finish R checksum =
    obind (c_assert (r_depth R = 0)) (\<lambda>_.
    obind (reader_ensure_space R 1) (\<lambda>_.
    obind (reader_bytes R 1) (\<lambda>bs.
    if bs ! 0 = ST_CRC then
      obind (reader_ensure_space R 6) (\<lambda>_.
      let crc = crc32_c (take (r_ptr R) (r_data R)) 0 in
      obind (reader_bytes R 6) (\<lambda>bs.
      let orig_crc = read_le 0 (map (nth bs) [1..<5]); R = R\<lparr>r_ptr := r_ptr R + 6\<rparr> in
      obind (check (r_ptr R = length (r_data R) \<and> bs ! 0 = ST_CRC \<and> bs ! 5 = ST_DOT
        \<and> crc = orig_crc)) (\<lambda>_. Done R)))
    else
      let R = R\<lparr>r_ptr := r_ptr R + 1\<rparr> in
      obind (check (r_ptr R = length (r_data R) \<and> bs ! 0 = ST_DOT \<and> \<not> checksum)) (\<lambda>_.
      Done R))))"

section \<open>Placement and progress\<close>

text \<open>
  The buffer lies inside the address space, with room for the largest constant the bounds
  checks add to a pointer into it.
\<close>

definition r_ok :: "Reader \<Rightarrow> bool" where
  "r_ok R \<longleftrightarrow> r_ptr R \<le> length (r_data R) \<and> r_addr R + length (r_data R) + 16 < 2 ^ 64"

definition r_rest :: "Reader \<Rightarrow> byte list" where
  "r_rest R = drop (r_ptr R) (r_data R)"

text \<open>The reader after \<open>n\<close> bytes were read and \<open>d\<close> brackets opened.\<close>

definition r_advance :: "Reader \<Rightarrow> nat \<Rightarrow> int \<Rightarrow> Reader" where
  "r_advance R n d = R\<lparr>r_ptr := r_ptr R + n, r_depth := r_depth R + d\<rparr>"

lemma r_advance_sel [simp]:
  "r_ptr (r_advance R n d) = r_ptr R + n"
  "r_depth (r_advance R n d) = r_depth R + d"
  "r_data (r_advance R n d) = r_data R"
  "r_addr (r_advance R n d) = r_addr R"
  "r_file (r_advance R n d) = r_file R"
  "r_malloc (r_advance R n d) = r_malloc R"
  by (simp_all add: r_advance_def)

lemma r_advance_advance [simp]: "r_advance (r_advance R m c) n d = r_advance R (m + n) (c + d)"
  by (simp add: r_advance_def add.assoc)

lemma r_advance_0 [simp]: "r_advance R 0 0 = R"
  by (simp add: r_advance_def)

lemma r_upd_advance:
  "R\<lparr>r_ptr := r_ptr R + n\<rparr> = r_advance R n 0"
  "R\<lparr>r_depth := r_depth R + d\<rparr> = r_advance R 0 d"
  "R\<lparr>r_ptr := Suc (r_ptr R)\<rparr> = r_advance R 1 0"
  "R\<lparr>r_depth := r_depth R - 1\<rparr> = r_advance R 0 (- 1)"
  by (simp_all add: r_advance_def)

lemma r_rest_advance:
  "r_rest R = bs @ cs \<Longrightarrow> n = length bs \<Longrightarrow> r_rest (r_advance R n d) = cs"
  by (simp add: r_rest_def add.commute flip: drop_drop)

lemma r_ok_advance:
  assumes "r_ok R" and "r_rest R = bs @ cs" and "n \<le> length bs"
  shows "r_ok (r_advance R n d)"
proof -
  have "r_ptr R + length bs \<le> length (r_data R)"
    using assms by (intro drop_eq_appendD) (auto simp: r_ok_def r_rest_def)
  with assms show ?thesis by (simp add: r_ok_def)
qed

lemma r_rest_length: "r_ok R \<Longrightarrow> r_rest R = bs @ cs \<Longrightarrow> r_ptr R + length bs \<le> length (r_data R)"
  by (rule drop_eq_appendD) (auto simp: r_ok_def r_rest_def)

lemma reader_ensure_space_ok:
  assumes "r_ok R" and "r_rest R = bs @ cs" and "n \<le> length bs"
  shows "reader_ensure_space R n = Done ()"
  using r_rest_length [OF assms(1,2)] assms(1,3)
  by (simp add: reader_ensure_space_def r_ok_def)

lemma reader_bytes_ok:
  assumes "r_ok R" and "r_rest R = bs @ cs" and "n = length bs"
  shows "reader_bytes R n = Done bs"
  using r_rest_length [OF assms(1,2)] assms
  by (simp add: reader_bytes_def r_rest_def)

lemma next_byte_ok:
  assumes "r_ok R" and "r_rest R = b # cs"
  shows "next_byte R = Done (b, r_advance R 1 0)"
proof -
  have "r_rest R = [b] @ cs" using assms(2) by simp
  from r_rest_length [OF assms(1) this] have "r_ptr R < length (r_data R)" by simp
  moreover from this assms(2) have "r_data R ! r_ptr R = b"
    by (simp add: r_rest_def nth_via_drop)
  ultimately show ?thesis by (simp add: next_byte_def r_upd_advance)
qed

lemma next_byte_depth: "next_byte (r_advance R n d) = obind (next_byte (r_advance R n 0))
    (\<lambda>(b, R'). Done (b, r_advance R' 0 d))"
  by (simp add: next_byte_def r_advance_def)

section \<open>Reading what the writer wrote\<close>

lemma read_array_ok:
  assumes "r_ok R" and "r_rest R = ST_ARRAY_BEGIN # cs"
  shows "read_array R = Done (r_advance R 1 1)"
proof -
  have "r_ok (r_advance R 0 1)" "r_rest (r_advance R 0 1) = ST_ARRAY_BEGIN # cs"
    using assms by (simp_all add: r_ok_def r_rest_def)
  from next_byte_ok [OF this] reader_ensure_space_ok [of R "[ST_ARRAY_BEGIN]" cs 1] assms
  show ?thesis by (simp add: read_array_def r_upd_advance)
qed

lemma read_array_end_ok:
  assumes "r_ok R" and "r_rest R = ST_ARRAY_END # cs" and "0 < r_depth R"
  shows "read_array_end R = Done (r_advance R 1 (- 1))"
proof -
  have "r_ok (r_advance R 0 (- 1))" "r_rest (r_advance R 0 (- 1)) = ST_ARRAY_END # cs"
    using assms by (simp_all add: r_ok_def r_rest_def)
  from next_byte_ok [OF this] reader_ensure_space_ok [of R "[ST_ARRAY_END]" cs 1] assms
  show ?thesis by (simp add: read_array_end_def r_upd_advance)
qed

lemma read_le_num_bytes: "read_le 0 (num_bytes n) = n"
proof (induction n rule: num_bytes.induct)
  case (1 n)
  then show ?case
    by (cases "n = 0") (subst num_bytes.simps, simp add: word_split_byte)+
qed

lemma read_number_ok:
  assumes "r_ok R" and "r_rest R = enc_number n @ cs"
  shows "read_number R = Done (n, r_advance R (length (enc_number n)) 0)"
proof -
  let ?k = "length (num_bytes n)"
  define b :: byte where "b = of_nat (ST_STRING + ?k)"
  have b: "unat b = 16 + ?k"
    using length_num_bytes_le [of n] unat_of_nat_small [of "16 + ?k", where 'a = 8]
    by (simp add: b_def ST_STRING_def)
  have enc: "enc_number n = b # num_bytes n"
    by (simp only: enc_number_def b_def)
  have r: "r_rest R = b # num_bytes n @ cs" "r_rest R = [b] @ num_bytes n @ cs"
    using assms(2) by (simp_all add: enc)
  let ?R = "r_advance R 1 0"
  have R: "r_ok ?R" "r_rest ?R = num_bytes n @ cs"
    using r_ok_advance [OF assms(1) r(2)] r_rest_advance [OF r(2)] by simp_all
  have "unat b - ST_STRING = ?k" "\<not> (unat b < ST_STRING \<or> unat b > ST_STRING + 8)"
    using length_num_bytes_le [of n] by (simp_all add: b ST_STRING_def)
  then show ?thesis
    using reader_ensure_space_ok [OF assms(1) r(2), of 1] next_byte_ok [OF assms(1) r(1)]
      reader_ensure_space_ok [OF R, of ?k] reader_bytes_ok [OF R, of ?k]
    by (simp add: read_number_def Let_def r_upd_advance read_le_num_bytes enc)
qed

text \<open>The leading ones of the first byte count the bytes that follow.\<close>

lemma lead_ones_eq:
  "(\<forall>j < k. bit i (7 - j)) \<Longrightarrow> \<not> bit i (7 - k) \<Longrightarrow> k \<le> 7 \<Longrightarrow> lead_ones i l = l + k"
proof (induction k arbitrary: i l)
  case 0
  then show ?case by (subst lead_ones.simps) (simp only: and_0x80, simp)
next
  case (Suc k)
  have "bit i 7" using Suc.prems(1) by force
  have sh: "bit (push_bit 1 i) (7 - j) \<longleftrightarrow> bit i (7 - Suc j)" if "j \<le> k" for j
  proof -
    have "7 - j - 1 = 7 - Suc j" "1 \<le> 7 - j" "7 - j < 32" using that Suc.prems(3) by simp_all
    then show ?thesis by (simp only: bit_push_bit_iff possible_bit_word) simp
  qed
  have "lead_ones i l = lead_ones (push_bit 1 i) (l + 1)"
    using \<open>bit i 7\<close> by (subst lead_ones.simps) (simp only: and_0x80 if_True)
  also have "\<dots> = l + 1 + k"
  proof (rule Suc.IH)
    show "\<forall>j < k. bit (push_bit 1 i) (7 - j)"
    proof (intro allI impI)
      fix j assume "j < k"
      then show "bit (push_bit 1 i) (7 - j)"
        using sh [of j] Suc.prems(1) by (simp only: Suc_less_eq less_imp_le_nat)
    qed
    show "\<not> bit (push_bit 1 i) (7 - k)" using sh [of k] Suc.prems(2) by (simp only: order_refl not_False_eq_True)
    show "k \<le> 7" using Suc.prems(3) by simp
  qed
  finally show ?case by simp
qed

text \<open>The first byte of a multi-byte code of \<open>k\<close> further bytes.\<close>

definition len_head :: "nat \<Rightarrow> u64 \<Rightarrow> byte" where
  "len_head k v = ucast (NOT (drop_bit k (0xFF :: u64)) OR drop_bit (8 * k) v)"

lemma drop_bit_0xFF: "drop_bit k (0xFF :: u64) = mask (8 - k)"
proof -
  have "(0xFF :: u64) = mask 8" by (simp add: mask_eq_exp_minus_1)
  moreover have "drop_bit k (mask 8 :: u64) = mask (8 - k)"
    by (rule bit_word_eqI) (auto simp: bit_simps)
  ultimately show ?thesis by (simp only:)
qed

lemma bit_len_head:
  "bit (len_head k v) j \<longleftrightarrow> j < 8 \<and> (8 - k \<le> j \<or> bit v (8 * k + j))"
  unfolding len_head_def drop_bit_0xFF by (auto simp: bit_simps)

lemma len_head_bits:
  assumes "k = len_extra (unat v)" and "k < 8" and "7 - k \<le> j"
  shows "\<not> bit v (8 * k + j)"
proof -
  have "unat v < 2 ^ (7 + 7 * k)" using len_extra_bound assms by simp
  also have "\<dots> \<le> 2 ^ (8 * k + j)"
    by (rule power_increasing) (use assms in simp_all)
  finally have "unat v div 2 ^ (8 * k + j) = 0" by simp
  then have "\<not> bit (unat v) (8 * k + j)" by (simp only: bit_iff_odd) simp
  then show ?thesis by (auto simp: bit_unsigned_iff dest: bit_imp_le_length)
qed

lemma lead_ones_len_head:
  assumes "k = len_extra (unat v)" and "k < 8"
  shows "lead_ones (ucast (len_head k v)) 0 = k"
proof -
  have "lead_ones (ucast (len_head k v)) 0 = 0 + k"
    using assms(2) len_head_bits [OF assms, of "7 - k"]
    by (intro lead_ones_eq) (auto simp: bit_ucast_iff bit_len_head)
  then show ?thesis by simp
qed

lemma len_head_value:
  assumes "k = len_extra (unat v)" and "k < 8"
  shows "ucast (len_head k v) AND drop_bit k (0xFF :: u64) = drop_bit (8 * k) v"
  unfolding drop_bit_0xFF
proof (rule bit_word_eqI)
  fix j assume "j < LENGTH(64)"
  then show "bit (ucast (len_head k v) AND mask (8 - k) :: u64) j = bit (drop_bit (8 * k) v) j"
    using len_head_bits [OF assms, of j] assms(2)
    by (cases "7 - k \<le> j") (auto simp: bit_simps bit_len_head)
qed

lemma bit_7_not_ascii: "bit (b :: byte) 7 \<Longrightarrow> \<not> b < 0x80"
proof
  assume "bit b 7" and "b < 0x80"
  then have "take_bit 7 b = b" by (simp add: word_take_bit_eq_self_iff word_less_nat_alt)
  then have "bit (take_bit 7 b) 7" using \<open>bit b 7\<close> by simp
  then show False by (simp add: bit_take_bit_iff)
qed

lemma not_bit_not_0xFF: "\<not> bit (b :: byte) n \<Longrightarrow> n < 8 \<Longrightarrow> b \<noteq> 0xFF"
proof
  assume "\<not> bit b n" "n < 8" "b = 0xFF"
  moreover have "(0xFF :: byte) = mask 8" by (simp add: mask_eq_exp_minus_1)
  ultimately show False by (simp only: bit_mask_iff) simp
qed

lemma read_string_len_ok:
  assumes "r_ok R" and "len_code v = first # codes" and "r_rest R = codes @ cs"
  shows "read_string_len first R = Done (v, r_advance R (length codes) 0)"
proof -
  define k where "k = len_extra (unat v)"
  consider "unat v < 128" | "k = 8" | "\<not> unat v < 128" "0 < k" "k < 8"
    using len_extra_le [of "unat v"] len_extra_0 [of "unat v"] unfolding k_def by linarith
  then show ?thesis
  proof cases
    case 1
    with assms(2) have f: "first = ucast v" "codes = []" by (simp_all add: len_code_small)
    have "unat (ucast v :: byte) = unat v"
      using 1 by (simp add: unsigned_ucast_eq take_bit_nat_eq_self)
    moreover from this have "unat (ucast (ucast v :: byte) :: u64) = unat v"
      by (simp add: unat_ucast_byte)
    then have "ucast (ucast v :: byte) = v" by (rule unsigned_word_eqI)
    ultimately have "ucast (ucast v :: byte) = v" "(ucast v :: byte) < 0x80"
      using 1 by (simp_all only: word_less_nat_alt) simp
    with f show ?thesis by (simp add: read_string_len_def)
  next
    case 2
    with assms(2) have f: "first = 0xFF" "codes = write_le 8 v"
      by (simp_all add: len_code_def k_def)
    with reader_ensure_space_ok [OF assms(1,3), of 8] reader_bytes_ok [OF assms(1,3), of 8]
    show ?thesis by (simp add: read_string_len_def r_upd_advance read_le_write_le_full)
  next
    case 3
    with assms(2) have f: "first = len_head k v" "codes = write_le k v"
      by (simp_all add: len_code_def k_def Let_def len_head_def)
    have "8 - k \<le> 7" using 3 by simp
    then have "bit first 7" using f by (simp add: bit_len_head)
    then have "\<not> first < 0x80" by (rule bit_7_not_ascii)
    moreover have "\<not> bit first (7 - k)"
    proof -
      have "\<not> bit v (8 * k + (7 - k))" using len_head_bits [of k v "7 - k"] 3 by (simp add: k_def)
      moreover have "\<not> 8 - k \<le> 7 - k" using 3 by simp
      ultimately show ?thesis by (simp only: f bit_len_head) simp
    qed
    then have "first \<noteq> 0xFF" by (rule not_bit_not_0xFF) simp
    moreover have "lead_ones (ucast first) 0 = k"
      using lead_ones_len_head [of k v] 3 f by (simp add: k_def)
    moreover have "read_le (ucast first AND drop_bit k 0xFF) codes = v"
      using len_head_value [of k v] 3 f by (simp only: k_def) (simp add: read_le_write_le)
    ultimately show ?thesis
      using reader_bytes_ok [OF assms(1,3), of k] f
      unfolding read_string_len_def by (simp add: r_upd_advance)
  qed
qed

lemma len_code_head:
  assumes "16 \<le> unat v"
  shows "\<exists>first codes. len_code v = first # codes \<and> 16 \<le> unat first"
proof (cases "unat v < 128")
  case True
  then have "unat (ucast v :: byte) = unat v"
    by (simp add: unsigned_ucast_eq take_bit_nat_eq_self)
  with True assms show ?thesis by (simp add: len_code_small)
next
  case False
  define k where "k = len_extra (unat v)"
  have "0 < k" using False len_extra_0 [of "unat v"] by (simp add: k_def)
  show ?thesis
  proof (cases "k = 8")
    case True
    then show ?thesis by (simp add: len_code_def k_def)
  next
    case False
    have "8 - k \<le> 7" using \<open>0 < k\<close> by simp
    then have "bit (len_head k v) 7" by (simp add: bit_len_head)
    then have "\<not> len_head k v < 0x80" by (rule bit_7_not_ascii)
    with False show ?thesis
      by (simp add: len_code_def k_def Let_def len_head_def word_less_nat_alt)
  qed
qed

lemma read_string_ok:
  assumes "r_ok R" and "r_rest R = enc_string bs @ cs"
  shows "read_string R = Done (bs, r_advance R (length (enc_string bs)) 0)"
proof -
  let ?v = "of_nat (length bs + ST_STRING) :: u64"
  have "length (enc_string bs) \<le> length (r_data R)"
    using r_rest_length [OF assms] by simp
  with assms(1) have small: "length bs + 16 < 2 ^ 64"
    by (simp add: enc_string_def r_ok_def)
  then have v: "unat ?v = length bs + 16"
    using unat_of_nat_small [of "length bs + ST_STRING", where 'a = 64]
    by (simp add: ST_STRING_def)
  then obtain first codes where code: "len_code ?v = first # codes" and f: "16 \<le> unat first"
    using len_code_head [of ?v] by auto
  have enc: "enc_string bs = first # codes @ bs" using code by (simp add: enc_string_def)
  then have r: "r_rest R = [first] @ codes @ bs @ cs" using assms(2) by simp
  let ?R1 = "r_advance R 1 0"
  have R1: "r_ok ?R1" "r_rest ?R1 = codes @ bs @ cs"
    using r_ok_advance [OF assms(1) r] r_rest_advance [OF r] by simp_all
  let ?R2 = "r_advance ?R1 (length codes) 0"
  have R2: "r_ok ?R2" "r_rest ?R2 = bs @ cs"
    using r_ok_advance [OF R1] r_rest_advance [OF R1(2)] by blast+
  have "?v - of_nat ST_STRING = of_nat (length bs)" by simp
  moreover have "unat (of_nat (length bs) :: u64) = length bs"
    using small by (simp add: unat_of_nat_small)
  ultimately have len: "unat (?v - of_nat ST_STRING) = length bs" by (simp only:)
  have next1: "next_byte R = Done (first, ?R1)"
    using next_byte_ok [OF assms(1)] r by simp
  have check1: "check (unat first \<ge> ST_STRING) = Done ()" using f by (simp add: ST_STRING_def)
  have space1: "reader_ensure_space R 1 = Done ()"
    by (rule reader_ensure_space_ok [OF assms(1) r]) simp
  show ?thesis
    using space1 next1 check1 read_string_len_ok [OF R1(1) code R1(2)] len
      reader_ensure_space_ok [OF R2 order_refl] reader_bytes_ok [OF R2 refl]
    by (simp add: read_string_def Let_def r_upd_advance enc)
qed

section \<open>Root elements\<close>

lemma read_header_of: "read_header (header_of len) = Some (of_nat len)"
proof -
  let ?w = "write_le 8 (of_nat len :: u64)"
  have "map (nth (header_of len)) [1..<9] = ?w"
    by (rule nth_equalityI) (simp_all add: header_of_def nth_append)
  moreover have "header_of len ! 9 = ST_LEN_END"
    by (simp add: header_of_def nth_append)
  moreover have "header_of len ! 0 = ST_LEN_BEGIN"
    by (simp add: header_of_def)
  ultimately show ?thesis
    by (simp add: read_header_def read_le_write_le_full)
qed

text \<open>What \<open>malloc\<close> promises: the block it grants lies inside the address space.\<close>

definition malloc_ok :: "(nat \<Rightarrow> nat option) \<Rightarrow> bool" where
  "malloc_ok malloc \<longleftrightarrow> (\<forall>n < 2 ^ 63. \<exists>a. malloc n = Some a \<and> a + n + 16 < 2 ^ 64)"

text \<open>The reader between two root elements, \<open>buf_size\<close> still being 0.\<close>

definition r_idle :: "Reader \<Rightarrow> bool" where
  "r_idle R \<longleftrightarrow> r_buf_size R = 0 \<and> malloc_ok (r_malloc R)"

lemma file_reader_read_ok:
  assumes "r_idle R" and "r_file R = bs @ rest" and "length bs < 2 ^ 63" and "bs \<noteq> []"
  shows "\<exists>a. file_reader_read R (length bs) = Done (ST_READ_SUCCESS, bs, R\<lparr>r_buf := a, r_file := rest\<rparr>)
    \<and> a + length bs + 16 < 2 ^ 64"
proof -
  obtain a where "r_malloc R (length bs) = Some a" "a + length bs + 16 < 2 ^ 64"
    using assms(1,3) by (auto simp: r_idle_def malloc_ok_def)
  with assms show ?thesis
    by (auto simp: file_reader_read_def r_idle_def Let_def)
qed

lemma reader_begin_ok:
  assumes "r_idle R" and "r_file R = header_of (length body) @ body @ rest"
    and "body \<noteq> []" and "length body < 2 ^ 63"
  shows "\<exists>R'. reader_begin R = Done (ST_READ_SUCCESS, R') \<and> r_ok R' \<and> r_data R' = body
    \<and> r_rest R' = body \<and> r_ptr R' = 0 \<and> r_depth R' = 0 \<and> r_file R' = rest \<and> r_idle R'"
proof -
  obtain a where 1: "file_reader_read R (length (header_of (length body)))
      = Done (ST_READ_SUCCESS, header_of (length body), R\<lparr>r_buf := a, r_file := body @ rest\<rparr>)"
    using file_reader_read_ok [OF assms(1,2)] by (auto simp: header_of_def)
  let ?R = "R\<lparr>r_buf := a, r_file := body @ rest\<rparr>"
  have "r_idle ?R" "r_file ?R = body @ rest" using assms(1) by (simp_all add: r_idle_def)
  from file_reader_read_ok [OF this assms(4,3)] obtain b where
    2: "file_reader_read ?R (length body) = Done (ST_READ_SUCCESS, body, ?R\<lparr>r_buf := b, r_file := rest\<rparr>)"
    and b: "b + length body + 16 < 2 ^ 64" by blast
  have "unat (of_nat (length body) :: u64) = length body"
    using assms(4) by (intro unat_of_nat_small) simp
  with 1 2 b assms(1) show ?thesis
    by (auto simp: reader_begin_def read_header_of r_ok_def r_rest_def r_idle_def)
qed

lemma reader_begin_eof:
  assumes "r_idle R" and "r_file R = []"
  shows "\<exists>R'. reader_begin R = Done (ST_READ_END_OF_FILE, R')"
proof -
  obtain a where "r_malloc R 10 = Some a"
    using assms(1) by (auto simp: r_idle_def malloc_ok_def dest!: spec [of _ 10])
  with assms show ?thesis
    by (simp add: reader_begin_def file_reader_read_def Let_def r_idle_def)
qed

text \<open>
  Closing: at the end of the element's contents \<open>reader_finish\<close> accepts exactly what
  \<open>writer_finish\<close> appended, and insists on the checksum only when asked to.
\<close>

lemma reader_finish_crc:
  assumes "r_ok R" and "r_depth R = 0" and "r_data R = bs @ ST_CRC # write_le 4 c @ [ST_DOT]"
    and "r_ptr R = length bs"
  shows "reader_finish R cs = (if crc32_c bs 0 = c then Done (r_advance R 6 0) else Failed)"
proof -
  let ?t = "ST_CRC # write_le 4 c @ [ST_DOT]"
  have r: "r_rest R = ?t @ []" "r_rest R = [ST_CRC] @ write_le 4 c @ [ST_DOT]"
    using assms(3,4) by (simp_all add: r_rest_def)
  have "map (nth ?t) [1..<5] = write_le 4 c"
    by (rule nth_equalityI) (simp_all add: nth_append)
  then have "read_le 0 (map (nth ?t) [1..<5]) = c"
    by (simp add: read_le_write_le_full)
  then show ?thesis
    using reader_ensure_space_ok [OF assms(1) r(1), of 6] reader_ensure_space_ok [OF assms(1) r(2), of 1]
      reader_bytes_ok [OF assms(1) r(2), of 1] reader_bytes_ok [OF assms(1) r(1), of 6] assms(2,3,4)
    by (simp add: reader_finish_def Let_def r_advance_def nth_append obind_check)
qed

text \<open>Closing an element never goes astray, and when a checksum is insisted on it succeeds only
  on contents followed by their own checksum.\<close>

lemma reader_finish_no_fault: "r_ok R \<Longrightarrow> r_depth R = 0 \<Longrightarrow> reader_finish R cs \<noteq> Fault"
  by (auto simp: reader_finish_def r_ok_def reader_ensure_space_def reader_bytes_def obind_eq_Fault
      obind_check Let_def split: if_splits)

lemma reader_finish_insisting:
  assumes "r_ok R" and "reader_finish R True = Done R'"
  shows "\<exists>bs. r_data R = element_body True bs"
proof -
  let ?t = "drop (r_ptr R) (r_data R)"
  from assms have p: "length (r_data R) = r_ptr R + 6" and t: "?t ! 0 = ST_CRC" "?t ! 5 = ST_DOT"
    "crc32_c (take (r_ptr R) (r_data R)) 0 = read_le 0 (map (nth ?t) [1..<5])"
    by (auto simp: reader_finish_def obind_eq_Done obind_check obind_c_assert reader_bytes_def Let_def
        reader_ensure_space_def r_ok_def split: if_splits)
  have len: "length ?t = 6" using p by simp
  have "\<exists>b0 b1 b2 b3 b4 b5. t = [b0, b1, b2, b3, b4, b5]" if "length t = 6" for t :: "byte list"
    using that by (auto simp: length_Suc_conv numeral_eq_Suc)
  from this [OF len] obtain b0 b1 b2 b3 b4 b5 where bs: "?t = [b0, b1, b2, b3, b4, b5]" by blast
  have "[1..<5] = [1, 2, 3, 4 :: nat]" by (simp add: upt_rec)
  with t bs have c: "crc32_c (take (r_ptr R) (r_data R)) 0 = read_le 0 [b1, b2, b3, b4]"
    by (simp del: read_le_Cons)
  have len4: "length [b1, b2, b3, b4] = 4" and fits: "8 * length [b1, b2, b3, b4] \<le> LENGTH(32)"
    by simp_all
  have "write_le 4 (crc32_c (take (r_ptr R) (r_data R)) 0) = [b1, b2, b3, b4]"
    unfolding c using write_le_read_le [OF fits] by (simp only: len4)
  with bs t(1,2) have "?t = crc_part True (take (r_ptr R) (r_data R)) @ [ST_DOT]"
    by (simp add: crc_part_def)
  then have "r_data R = element_body True (take (r_ptr R) (r_data R))"
    unfolding element_body_def by (metis append_take_drop_id)
  then show ?thesis by blast
qed
lemma reader_finish_dot:
  assumes "r_ok R" and "r_depth R = 0" and "r_data R = bs @ [ST_DOT]" and "r_ptr R = length bs"
  shows "reader_finish R cs = (if cs then Failed else Done (r_advance R 1 0))"
proof -
  have r: "r_rest R = [ST_DOT] @ []" using assms(3,4) by (simp add: r_rest_def)
  show ?thesis
    using reader_ensure_space_ok [OF assms(1) r, of 1] reader_bytes_ok [OF assms(1) r, of 1] assms(2,3,4)
    by (simp add: reader_finish_def Let_def r_advance_def obind_check st_defs)
qed

section \<open>Every read makes progress inside the buffer\<close>

definition r_progress :: "Reader \<Rightarrow> Reader \<Rightarrow> bool" where
  "r_progress R R' \<longleftrightarrow> r_data R' = r_data R \<and> r_addr R' = r_addr R \<and> r_file R' = r_file R
     \<and> r_ptr R < r_ptr R' \<and> r_ptr R' \<le> length (r_data R)"

lemma reader_ensure_space_Done:
  "reader_ensure_space R n = Done u \<Longrightarrow> r_ptr R + n \<le> length (r_data R)"
  by (auto simp: reader_ensure_space_def split: if_splits)

lemma read_array_progress: "read_array R = Done R' \<Longrightarrow> r_progress R R'"
  by (auto simp: read_array_def obind_eq_Done next_byte_def r_progress_def split: if_splits)

lemma read_array_end_progress: "read_array_end R = Done R' \<Longrightarrow> r_progress R R'"
  by (auto simp: read_array_end_def obind_eq_Done next_byte_def r_progress_def split: if_splits)

lemma read_string_len_keeps:
  "read_string_len first R = Done (len, R') \<Longrightarrow> r_data R' = r_data R \<and> r_addr R' = r_addr R
    \<and> r_file R' = r_file R \<and> r_ptr R \<le> r_ptr R'"
  by (auto simp: read_string_len_def Let_def obind_eq_Done split: if_splits)

lemma read_string_progress: "read_string R = Done (bs, R') \<Longrightarrow> r_progress R R'"
  by (auto simp: read_string_def Let_def obind_eq_Done next_byte_def r_progress_def
      dest!: reader_ensure_space_Done read_string_len_keeps split: if_splits)

lemma read_number_progress: "read_number R = Done (n, R') \<Longrightarrow> r_progress R R'"
  by (auto simp: read_number_def Let_def obind_eq_Done next_byte_def r_progress_def
      dest!: reader_ensure_space_Done split: if_splits)

section \<open>Skipping\<close>

function reader_skip_loop :: "Reader \<Rightarrow> int \<Rightarrow> Reader outcome" where
  "reader_skip_loop R depth =
    (if reader_next R = ST_ARRAY_BEGIN then
       obind (read_array R) (\<lambda>R'. reader_skip_loop R' (depth + 1))
     else if reader_next R = of_nat ST_STRING then
       obind (read_string R) (\<lambda>(_, R'). reader_skip_loop R' depth)
     else if reader_next R = ST_ARRAY_END then
       (if depth = 0 then Done R
        else obind (read_array_end R) (\<lambda>R'. reader_skip_loop R' (depth - 1)))
     else Failed)"
  by pat_completeness auto
termination
  by (relation "measure (\<lambda>(R, d). length (r_data R) - r_ptr R)")
    (auto dest!: read_array_progress read_string_progress read_array_end_progress
      simp: r_progress_def)

declare reader_skip_loop.simps [simp del]

definition reader_skip :: "Reader \<Rightarrow> Reader outcome" where
  "reader_skip R = reader_skip_loop R 0"

section \<open>Elements\<close>

text \<open>The format's \<open>element := array | string\<close>.\<close>

datatype element = Str "byte list" | Arr "element list"

fun enc_element :: "element \<Rightarrow> byte list"
  and enc_elements :: "element list \<Rightarrow> byte list" where
  "enc_element (Str bs) = enc_string bs"
| "enc_element (Arr es) = ST_ARRAY_BEGIN # enc_elements es @ [ST_ARRAY_END]"
| "enc_elements [] = []"
| "enc_elements (e # es) = enc_element e @ enc_elements es"

lemma enc_string_head:
  assumes "length bs + 16 < 2 ^ 64"
  shows "\<exists>b cs. enc_string bs = b # cs \<and> 16 \<le> unat b"
proof -
  have "unat (of_nat (length bs + ST_STRING) :: u64) = length bs + 16"
    using assms by (subst unat_of_nat_small) (simp_all add: ST_STRING_def)
  with len_code_head [of "of_nat (length bs + ST_STRING)"] show ?thesis
    by (auto simp: enc_string_def)
qed

lemma reader_next_Cons:
  assumes "r_ok R" and "r_rest R = b # cs"
  shows "reader_next R = (if b = ST_ARRAY_BEGIN \<or> b = ST_ARRAY_END \<or> b = ST_CRC \<or> b = ST_DOT then b
    else if unat b \<ge> ST_STRING then of_nat ST_STRING else ST_ERROR)"
proof -
  have "r_rest R = [b] @ cs" using assms(2) by simp
  from r_rest_length [OF assms(1) this] have "r_ptr R < length (r_data R)" by simp
  moreover from this assms(2) have "r_data R ! r_ptr R = b"
    by (simp add: r_rest_def nth_via_drop)
  ultimately show ?thesis by (simp add: reader_next_def Let_def)
qed

lemma r_rest_string_small:
  assumes "r_ok R" and "r_rest R = enc_string bs @ cs"
  shows "length bs + 16 < 2 ^ 64"
proof -
  have "length (enc_string bs) \<le> length (r_data R)"
    using r_rest_length [OF assms] by simp
  with assms(1) show ?thesis by (simp add: enc_string_def r_ok_def)
qed

lemma reader_next_string:
  assumes "r_ok R" and "r_rest R = enc_string bs @ cs"
  shows "reader_next R = of_nat ST_STRING"
proof -
  obtain b ds where b: "enc_string bs = b # ds" "16 \<le> unat b"
    using enc_string_head [OF r_rest_string_small [OF assms]] by blast
  then have "b \<noteq> ST_ARRAY_BEGIN \<and> b \<noteq> ST_ARRAY_END \<and> b \<noteq> ST_CRC \<and> b \<noteq> ST_DOT"
    by (auto simp: st_defs)
  with b reader_next_Cons [OF assms(1), of b "ds @ cs"] assms(2) show ?thesis
    by (simp add: ST_STRING_def)
qed

lemma reader_skip_element:
  "r_ok R \<Longrightarrow> 0 \<le> r_depth R \<Longrightarrow> 0 \<le> d \<Longrightarrow> r_rest R = enc_element e @ cs \<Longrightarrow>
    reader_skip_loop R d = reader_skip_loop (r_advance R (length (enc_element e)) 0) d"
  "r_ok R \<Longrightarrow> 0 \<le> r_depth R \<Longrightarrow> 0 \<le> d \<Longrightarrow> r_rest R = enc_elements es @ cs \<Longrightarrow>
    reader_skip_loop R d = reader_skip_loop (r_advance R (length (enc_elements es)) 0) d"
proof (induction e and es arbitrary: R d cs and R d cs rule: enc_element_enc_elements.induct)
  case (1 bs)
  then show ?case
    using reader_next_string [OF 1(1), of bs cs] read_string_ok [OF 1(1), of bs cs]
    by (subst reader_skip_loop.simps) (simp add: st_defs)
next
  case (2 es)
  have r: "r_rest R = [ST_ARRAY_BEGIN] @ enc_elements es @ ST_ARRAY_END # cs"
    using 2(5) by simp
  let ?R1 = "r_advance R 1 1"
  let ?R2 = "r_advance ?R1 (length (enc_elements es)) 0"
  have R1: "r_ok ?R1" "r_rest ?R1 = enc_elements es @ ST_ARRAY_END # cs"
    using r_ok_advance [OF 2(2) r] r_rest_advance [OF r] by simp_all
  have R2: "r_ok ?R2" "r_rest ?R2 = ST_ARRAY_END # cs"
    using r_ok_advance [OF R1] r_rest_advance [OF R1(2)] by blast+
  have "reader_skip_loop R d = reader_skip_loop ?R1 (d + 1)"
    using reader_next_Cons [OF 2(2)] read_array_ok [OF 2(2)] r
    by (subst reader_skip_loop.simps) simp
  also have "\<dots> = reader_skip_loop ?R2 (d + 1)"
    by (rule 2(1) [OF R1(1) _ _ R1(2)]) (use 2 in simp_all)
  also have "\<dots> = reader_skip_loop (r_advance ?R2 1 (- 1)) d"
    using reader_next_Cons [OF R2] read_array_end_ok [OF R2] 2(3,4)
    by (subst reader_skip_loop.simps) (simp add: st_defs)
  finally show ?case by (simp add: add.commute)
next
  case 3
  then show ?case by simp
next
  case (4 e es)
  have r: "r_rest R = enc_element e @ enc_elements es @ cs" using 4(6) by simp
  let ?R1 = "r_advance R (length (enc_element e)) 0"
  have R1: "r_ok ?R1" "r_rest ?R1 = enc_elements es @ cs"
    using r_ok_advance [OF 4(3) r] r_rest_advance [OF r] by blast+
  have "reader_skip_loop R d = reader_skip_loop ?R1 d"
    by (rule 4(1) [OF 4(3,4,5) r])
  also have "\<dots> = reader_skip_loop (r_advance ?R1 (length (enc_elements es)) 0) d"
    by (rule 4(2) [OF R1(1) _ _ R1(2)]) (use 4 in simp_all)
  finally show ?case by simp
qed

lemma reader_skip_to_bracket_lemma:
  assumes "r_ok R" and "0 \<le> r_depth R" and "r_rest R = enc_elements es @ ST_ARRAY_END # cs"
  shows "reader_skip R = Done (r_advance R (length (enc_elements es)) 0)"
proof -
  let ?R = "r_advance R (length (enc_elements es)) 0"
  have R: "r_ok ?R" "r_rest ?R = ST_ARRAY_END # cs"
    using r_ok_advance [OF assms(1,3)] r_rest_advance [OF assms(3)] by blast+
  have "reader_skip R = reader_skip_loop ?R 0"
    unfolding reader_skip_def by (rule reader_skip_element(2) [OF assms(1,2) _ assms(3)]) simp
  also have "\<dots> = Done ?R"
    using reader_next_Cons [OF R] by (subst reader_skip_loop.simps) (simp add: st_defs)
  finally show ?thesis .
qed

text \<open>
  C19: \<open>reader_skip\<close> stops right before the bracket that closes the current array, whatever
  elements the rest of the array consists of and however deeply they are nested.
\<close>

theorem reader_skip_to_bracket:
  assumes "r_ok R" and "0 \<le> r_depth R" and "r_rest R = enc_elements es @ ST_ARRAY_END # cs"
  shows "reader_skip R = Done (r_advance R (length (enc_elements es)) 0)"
  by (rule reader_skip_to_bracket_lemma [OF assms])

theorem reader_skip_to_bracket_witness:
  defines "R \<equiv> \<lparr>r_malloc = Some, r_file = [], r_buf = 0, r_buf_size = 0, r_addr = 4096,
    r_data = [1, 1, 18, 7, 8, 3, 16, 3, 2], r_ptr = 1, r_depth = 1\<rparr>"
  shows "reader_skip R = Done (R\<lparr>r_ptr := 7\<rparr>)"
proof -
  have "len_code 18 = [18]" "len_code 16 = [16]"
    by (simp_all add: len_code_small)
  then have e: "enc_elements [Arr [Str [7, 8]], Str []] = [1, 18, 7, 8, 3, 16]"
    by (simp add: enc_string_def st_defs)
  have "r_ok R" "0 \<le> r_depth R" by (simp_all add: R_def r_ok_def)
  moreover have "r_rest R = enc_elements [Arr [Str [7, 8]], Str []] @ ST_ARRAY_END # [2]"
    unfolding e by (simp add: R_def r_rest_def st_defs)
  ultimately have "reader_skip R = Done (r_advance R (length (enc_elements [Arr [Str [7, 8]], Str []])) 0)"
    by (rule reader_skip_to_bracket)
  then show ?thesis unfolding e by (simp add: R_def r_advance_def)
qed

section \<open>Faults\<close>

lemma next_byte_eq: "next_byte R = (case r_rest R of [] \<Rightarrow> Fault | b # _ \<Rightarrow> Done (b, r_advance R 1 0))"
  by (auto simp: next_byte_def r_rest_def r_upd_advance Cons_nth_drop_Suc [symmetric] not_less
      split: list.split)

text \<open>
  C15: \<open>read_string\<close> on arbitrary bytes. It goes wrong (a load behind the buffer, or a pointer
  sum that leaves the address space) exactly when a multi-byte length is cut off by the end of
  the element, or when the declared length, from which 16 is subtracted without a check,
  drives \<open>R->ptr + len\<close> past the address space; the smallest of these are the declared
  lengths 0 to 15.
\<close>

theorem read_string_fault_iff:
  assumes "r_ok R"
  shows "read_string R = Fault \<longleftrightarrow> (\<exists>first codes. r_rest R = first # codes \<and> 16 \<le> unat first
    \<and> (128 \<le> unat first \<and> first \<noteq> 0xFF \<and> length codes < lead_ones (ucast first) 0
       \<or> (\<exists>len R'. read_string_len first (r_advance R 1 0) = Done (len, R')
           \<and> 2 ^ 64 \<le> r_addr R + r_ptr R' + unat (len - 16))))"
proof (cases "r_rest R")
  case Nil
  then have "reader_ensure_space R 1 = Failed"
    using assms by (simp add: reader_ensure_space_def r_ok_def r_rest_def)
  then show ?thesis using Nil by (simp add: read_string_def)
next
  case (Cons first codes)
  let ?R = "r_advance R 1 0"
  have r: "r_rest R = [first] @ codes" using Cons by simp
  have sp: "reader_ensure_space R 1 = Done ()"
    by (rule reader_ensure_space_ok [OF assms r]) simp
  have R: "r_ok ?R" "r_rest ?R = codes"
    using r_ok_advance [OF assms r] r_rest_advance [OF r] by simp_all
  have codes: "length codes = length (r_data R) - (r_ptr R + 1)"
    using R(2) by (auto simp: r_rest_def)
  have lenF: "read_string_len first ?R = Fault
      \<longleftrightarrow> 128 \<le> unat first \<and> first \<noteq> 0xFF \<and> length codes < lead_ones (ucast first) 0"
    using R(1) codes
    by (auto simp: read_string_len_def Let_def obind_eq_Fault word_less_nat_alt reader_bytes_def
        reader_ensure_space_def r_ok_def split: if_splits)
  have tailF: "obind (reader_ensure_space R' (unat n)) (\<lambda>_. obind (reader_bytes R' (unat n))
        (\<lambda>bs. Done (bs, R'\<lparr>r_ptr := r_ptr R' + unat n\<rparr>))) = Fault
      \<longleftrightarrow> 2 ^ 64 \<le> r_addr R' + r_ptr R' + unat n" for R' and n :: u64
    by (auto simp: obind_eq_Fault reader_bytes_def reader_ensure_space_def split: if_splits)
  have keep: "r_addr R' = r_addr R" if "read_string_len first ?R = Done (len, R')" for len R'
    using read_string_len_keeps [OF that] by simp
  have "next_byte R = Done (first, ?R)" using Cons by (simp add: next_byte_eq)
  then have eq: "read_string R = (if 16 \<le> unat first then obind (read_string_len first ?R) (\<lambda>(len, R').
      obind (reader_ensure_space R' (unat (len - 16))) (\<lambda>_.
      obind (reader_bytes R' (unat (len - 16))) (\<lambda>bs.
      Done (bs, R'\<lparr>r_ptr := r_ptr R' + unat (len - 16)\<rparr>)))) else Failed)"
    using sp by (simp add: read_string_def Let_def ST_STRING_def obind_check)
  show ?thesis
  proof (cases "read_string_len first ?R")
    case (Done p)
    moreover obtain len R' where "p = (len, R')" by force
    ultimately show ?thesis
      using Cons keep lenF tailF [of R' len] unfolding eq by (auto simp: tailF)
  next
    case Failed
    then show ?thesis using Cons lenF unfolding eq by auto
  next
    case Fault
    then show ?thesis using Cons lenF unfolding eq by auto
  qed
qed

theorem read_string_fault_iff_witness:
  defines "R \<equiv> \<lparr>r_malloc = Some, r_file = [], r_buf = 0, r_buf_size = 0, r_addr = 4096,
    r_data = [0xFF, 0, 0, 0, 0, 0, 0, 0, 0, 2], r_ptr = 0, r_depth = 0\<rparr>"
  shows "read_string R = Fault"
proof -
  have "r_ok R" by (simp add: R_def r_ok_def)
  have "read_string_len 0xFF (r_advance R 1 0) = Done (0, R\<lparr>r_ptr := 9\<rparr>)"
    by (simp add: read_string_len_def R_def r_advance_def reader_ensure_space_def
        reader_bytes_def)
  then show ?thesis
    unfolding read_string_fault_iff [OF \<open>r_ok R\<close>]
    by (auto simp: R_def r_rest_def)
qed

end
