(* ===== verification/Storage.thy ===== *)
theory Storage
  imports Reader
begin

text \<open>
  The storage layer as its clients see it: a contract between a writing and a reading
  function (the locale \<open>codec\<close>), discharged for numbers and strings; damage to a file and
  what the reader makes of it; and \<open>storage/rescuer.c\<close>, which copies the readable prefix of a
  damaged file.
\<close>

section \<open>Codecs\<close>

locale codec =
  fixes enc :: "'a \<Rightarrow> byte list"
    and wr :: "Writer \<Rightarrow> 'a \<Rightarrow> Writer outcome"
    and rd :: "Reader \<Rightarrow> ('a \<times> Reader) outcome"
    and ok :: "'a \<Rightarrow> bool"
  assumes wr_ok: "w_inv W \<Longrightarrow> ok x \<Longrightarrow> \<exists>W'. wr W x = Done W' \<and> w_appends W (enc x) 0 W'"
    and rd_ok: "r_ok R \<Longrightarrow> ok x \<Longrightarrow> r_rest R = enc x @ cs \<Longrightarrow>
      rd R = Done (x, r_advance R (length (enc x)) 0)"
begin

text \<open>A value is unambiguous in front of whatever follows it.\<close>

lemma enc_prefix_free:
  assumes "ok x" and "ok y" and "enc x @ cs = enc y @ ds" and "length (enc x @ cs) < 2 ^ 60"
  shows "x = y \<and> cs = ds"
proof -
  define R where "R = \<lparr>r_malloc = Some, r_file = [], r_buf = 0, r_buf_size = 0, r_addr = 0,
    r_data = enc x @ cs, r_ptr = 0, r_depth = 0\<rparr>"
  have R: "r_ok R" "r_rest R = enc x @ cs" "r_rest R = enc y @ ds"
    using assms(3,4) by (simp_all add: R_def r_ok_def r_rest_def)
  from rd_ok [OF R(1) assms(1) R(2)] rd_ok [OF R(1) assms(2) R(3)] have "x = y" by simp
  with assms(3) show ?thesis by simp
qed

text \<open>Through a file: write one root element holding \<open>x\<close>, load it, read \<open>x\<close> back.\<close>

lemma file_roundtrip:
  assumes "ok x" and "length (enc x) < 2 ^ 60" and "malloc_ok malloc"
    and "w_inv W" and "w_out W = []" and "w_cur W = []" and "w_depth W = 0"
  shows "\<exists>W1 W2 file R1 R2 R3. wr W x = Done W1 \<and> writer_finish W1 cs = Done W2
    \<and> writer_contents W2 = Done file
    \<and> reader_begin (file_reader_init malloc file) = Done (ST_READ_SUCCESS, R1)
    \<and> rd R1 = Done (x, R2) \<and> reader_finish R2 cs = Done R3 \<and> r_file R3 = []"
proof -
  obtain W1 where W1: "wr W x = Done W1" "w_appends W (enc x) 0 W1"
    using wr_ok [OF assms(4,1)] by blast
  then have "w_inv W1" "w_depth W1 = 0" and cur: "w_cur W1 = enc x" and out: "w_out W1 = []"
    using assms(5-7) by (simp_all add: w_appends_def)
  from writer_finish_ok [OF this(1,2), of cs] obtain W2 where
    W2: "writer_finish W1 cs = Done W2" "w_closed W1 (root_element cs (w_cur W1)) W2" by blast
  let ?body = "element_body cs (enc x)"
  have cont: "writer_contents W2 = Done (header_of (length ?body) @ ?body)"
    using W2(2) out cur by (simp add: writer_contents_ok w_closed_def root_element_def)
  let ?R0 = "file_reader_init malloc (header_of (length ?body) @ ?body)"
  have "r_idle ?R0" "r_file ?R0 = header_of (length ?body) @ ?body @ []"
    using assms(3) by (simp_all add: file_reader_init_def r_idle_def)
  moreover have "?body \<noteq> []" "length ?body < 2 ^ 63"
    using assms(2) length_element_body [of cs "enc x"] by (simp_all add: element_body_def)
  ultimately obtain R1 where R1: "reader_begin ?R0 = Done (ST_READ_SUCCESS, R1)" "r_ok R1"
      "r_data R1 = ?body" "r_rest R1 = ?body" "r_ptr R1 = 0" "r_depth R1 = 0" "r_file R1 = []"
    using reader_begin_ok by blast
  have rest: "r_rest R1 = enc x @ crc_part cs (enc x) @ [ST_DOT]"
    using R1(4) by (simp add: element_body_def)
  let ?R2 = "r_advance R1 (length (enc x)) 0"
  have R2: "rd R1 = Done (x, ?R2)" by (rule rd_ok [OF R1(2) assms(1) rest])
  have "\<exists>n. reader_finish ?R2 cs = Done (r_advance ?R2 n 0)"
  proof (cases cs)
    case True
    have "reader_finish ?R2 cs = Done (r_advance ?R2 6 0)"
      using reader_finish_crc [of ?R2 "enc x" "crc32_c (enc x) 0" cs] r_ok_advance [OF R1(2) rest]
        R1(3,5,6) True
      by (simp add: element_body_def crc_part_def)
    then show ?thesis by blast
  next
    case False
    have "reader_finish ?R2 cs = Done (r_advance ?R2 1 0)"
      using reader_finish_dot [of ?R2 "enc x" cs] r_ok_advance [OF R1(2) rest] R1(3,5,6) False
      by (simp add: element_body_def crc_part_def)
    then show ?thesis by blast
  qed
  with W1(1) W2(1) cont R1(1,7) R2 show ?thesis by fastforce
qed

end

interpretation number: codec enc_number write_number read_number "\<lambda>_. True"
  by unfold_locales (auto intro: write_number_ok read_number_ok)

interpretation string: codec enc_string write_bytes read_string "\<lambda>bs. length bs + 16 < 2 ^ 64"
  by unfold_locales (auto intro: write_bytes_ok read_string_ok)

section \<open>One codec after another\<close>

definition wr_pair :: "(Writer \<Rightarrow> 'a \<Rightarrow> Writer outcome) \<Rightarrow> (Writer \<Rightarrow> 'b \<Rightarrow> Writer outcome)
    \<Rightarrow> Writer \<Rightarrow> 'a \<times> 'b \<Rightarrow> Writer outcome" where
  "wr_pair f g W p = obind (f W (fst p)) (\<lambda>W. g W (snd p))"

definition rd_pair :: "(Reader \<Rightarrow> ('a \<times> Reader) outcome) \<Rightarrow> (Reader \<Rightarrow> ('b \<times> Reader) outcome)
    \<Rightarrow> Reader \<Rightarrow> (('a \<times> 'b) \<times> Reader) outcome" where
  "rd_pair f g R = obind (f R) (\<lambda>(x, R). obind (g R) (\<lambda>(y, R). Done ((x, y), R)))"

lemma w_appends_trans:
  "w_appends W bs c W1 \<Longrightarrow> w_appends W1 cs d W2 \<Longrightarrow> w_appends W (bs @ cs) (c + d) W2"
  by (simp add: w_appends_def)

locale codec_pair = a: codec enc_a wr_a rd_a ok_a + b: codec enc_b wr_b rd_b ok_b
  for enc_a :: "'a \<Rightarrow> byte list" and wr_a rd_a ok_a
    and enc_b :: "'b \<Rightarrow> byte list" and wr_b rd_b ok_b

sublocale codec_pair \<subseteq> pair: codec "\<lambda>p. enc_a (fst p) @ enc_b (snd p)" "wr_pair wr_a wr_b"
  "rd_pair rd_a rd_b" "\<lambda>p. ok_a (fst p) \<and> ok_b (snd p)"
proof unfold_locales
  fix W and p :: "'a \<times> 'b" assume W: "w_inv W" and p: "ok_a (fst p) \<and> ok_b (snd p)"
  obtain W1 where W1: "wr_a W (fst p) = Done W1" "w_appends W (enc_a (fst p)) 0 W1"
    using a.wr_ok W p by blast
  then obtain W2 where W2: "wr_b W1 (snd p) = Done W2" "w_appends W1 (enc_b (snd p)) 0 W2"
    using b.wr_ok p by (meson w_appends_def)
  show "\<exists>W'. wr_pair wr_a wr_b W p = Done W' \<and> w_appends W (enc_a (fst p) @ enc_b (snd p)) 0 W'"
    using W1 W2 w_appends_trans [OF W1(2) W2(2)] by (simp add: wr_pair_def)
next
  fix R and p :: "'a \<times> 'b" and cs
  assume R: "r_ok R" and p: "ok_a (fst p) \<and> ok_b (snd p)"
    and rest: "r_rest R = (enc_a (fst p) @ enc_b (snd p)) @ cs"
  then have rest': "r_rest R = enc_a (fst p) @ enc_b (snd p) @ cs" by simp
  let ?R1 = "r_advance R (length (enc_a (fst p))) 0"
  have "rd_a R = Done (fst p, ?R1)" by (rule a.rd_ok [OF R _ rest']) (use p in simp)
  moreover have "rd_b ?R1 = Done (snd p, r_advance ?R1 (length (enc_b (snd p))) 0)"
    by (rule b.rd_ok [OF r_ok_advance [OF R rest' order_refl] _ r_rest_advance [OF rest' refl]])
      (use p in simp)
  ultimately show "rd_pair rd_a rd_b R
      = Done (p, r_advance R (length (enc_a (fst p) @ enc_b (snd p))) 0)"
    by (simp add: rd_pair_def)
qed

interpretation number_string: codec_pair enc_number write_number read_number "\<lambda>_. True"
    enc_string write_bytes read_string "\<lambda>bs. length bs + 16 < 2 ^ 64"
  by unfold_locales

section \<open>The file level\<close>

lemma malloc_ok_const: "malloc_ok (\<lambda>_. Some 4096)"
  by (simp add: malloc_ok_def)

text \<open>
  C6: a number and a string written as one root element, with or without a checksum, are read
  back from the file unchanged, and the file is used up.
\<close>

theorem number_string_file_roundtrip:
  assumes "malloc_ok malloc" and "length bs < 2 ^ 59"
  shows "\<exists>W1 W2 W3 file R1 R2 R3 R4. write_number (writer_init mem) n = Done W1
    \<and> write_bytes W1 bs = Done W2 \<and> writer_finish W2 cs = Done W3
    \<and> writer_contents W3 = Done file
    \<and> reader_begin (file_reader_init malloc file) = Done (ST_READ_SUCCESS, R1)
    \<and> read_number R1 = Done (n, R2) \<and> read_string R2 = Done (bs, R3)
    \<and> reader_finish R3 cs = Done R4 \<and> r_file R4 = []"
proof -
  have "length (enc_number n @ enc_string bs) < 2 ^ 60"
    using assms(2) length_num_bytes_le [of n] length_len_code [of "of_nat (length bs + ST_STRING)"]
    by (simp add: enc_number_def enc_string_def)
  with number_string.pair.file_roundtrip [of "(n, bs)" malloc "writer_init mem" cs] assms
  show ?thesis
    by (auto simp: wr_pair_def rd_pair_def obind_eq_Done)
qed

theorem number_string_file_roundtrip_witness:
  "\<exists>W1 W2 W3 file R1 R2 R3 R4. write_number (writer_init (\<lambda>_. 0xAA)) 70000 = Done W1
    \<and> write_bytes W1 [1, 2, 3] = Done W2 \<and> writer_finish W2 True = Done W3
    \<and> writer_contents W3 = Done file
    \<and> reader_begin (file_reader_init (\<lambda>_. Some 4096) file) = Done (ST_READ_SUCCESS, R1)
    \<and> read_number R1 = Done (70000, R2) \<and> read_string R2 = Done ([1, 2, 3], R3)
    \<and> reader_finish R3 True = Done R4 \<and> r_file R4 = []"
  by (rule number_string_file_roundtrip [OF malloc_ok_const]) simp

text \<open>
  The buffer of a root element as damage left it: \<open>data\<close> has the length of the element written
  for the contents \<open>bs\<close>, and differs from it either in up to four adjacent bytes of the contents
  or, in any way at all, in the six bytes of the trailer (the CRC mark, the sum and the dot).
\<close>

definition damaged_element :: "byte list \<Rightarrow> byte list \<Rightarrow> bool" where
  "damaged_element bs data \<longleftrightarrow> data \<noteq> element_body True bs \<and>
    ((\<exists>pre good bad post. bs = pre @ good @ post \<and> length bad = length good \<and> length good \<le> 4
        \<and> data = (pre @ bad @ post) @ crc_part True bs @ [ST_DOT])
     \<or> (\<exists>trailer. length trailer = 6 \<and> data = bs @ trailer))"

lemma damaged_element_length: "damaged_element bs data \<Longrightarrow> length data = length bs + 6"
  by (auto simp: damaged_element_def crc_part_def)

lemma damaged_element_invalid:
  assumes "damaged_element bs data"
  shows "data \<noteq> element_body True cs"
proof
  assume data: "data = element_body True cs"
  with damaged_element_length [OF assms] have len: "length cs = length bs"
    by (simp add: element_body_def crc_part_def)
  from assms have ne: "data \<noteq> element_body True bs" by (simp add: damaged_element_def)
  from assms consider
      (contents) pre good bad post where "bs = pre @ good @ post" "length bad = length good"
        "length good \<le> 4" "data = (pre @ bad @ post) @ crc_part True bs @ [ST_DOT]"
    | (trailer) trailer where "data = bs @ trailer"
    unfolding damaged_element_def by blast
  then show False
  proof cases
    case contents
    have "length (pre @ bad @ post) = length cs" using contents(1,2) len by simp
    moreover have "(pre @ bad @ post) @ crc_part True bs @ [ST_DOT] = cs @ crc_part True cs @ [ST_DOT]"
      using data contents(4) by (simp only: element_body_def)
    ultimately have cs: "pre @ bad @ post = cs" and "crc_part True bs @ [ST_DOT] = crc_part True cs @ [ST_DOT]"
      using append_eq_append_conv by blast+
    then have "write_le 4 (crc32_c cs 0) = write_le 4 (crc32_c bs 0)" by (simp add: crc_part_def)
    then have "(read_le 0 (write_le 4 (crc32_c cs 0)) :: u32) = read_le 0 (write_le 4 (crc32_c bs 0))"
      by (rule arg_cong)
    moreover have "read_le 0 (write_le 4 c) = (c :: u32)" for c by (rule read_le_write_le_full) simp
    ultimately have "crc32_c cs 0 = crc32_c bs 0" by (simp only:)
    then have "crc32_c (pre @ bad @ post) 0 = crc32_c (pre @ good @ post) 0"
      by (simp only: cs contents(1))
    with crc32_c_burst [OF contents(2)] contents(2,3) have "bad = good" by auto
    with contents ne show False by (simp add: element_body_def)
  next
    case trailer
    with data len have "cs = bs" by (auto simp: element_body_def append_eq_append_conv)
    with data ne show False by simp
  qed
qed

text \<open>Six bytes before the end, a caller that does not insist gets the same answer.\<close>

lemma reader_finish_at_mark:
  "r_ok R \<Longrightarrow> r_ptr R + 6 = length (r_data R) \<Longrightarrow> reader_finish R cs = reader_finish R True"
  by (auto simp: reader_finish_def obind_check obind_c_assert reader_bytes_def reader_ensure_space_def
      r_ok_def Let_def)

lemma reader_finish_damaged:
  assumes "damaged_element bs (r_data R)" and "r_ok R"
  shows "reader_finish R True = (if r_depth R = 0 then Failed else Fault)"
proof (cases "r_depth R = 0")
  case True
  have "reader_finish R True \<noteq> Done R'" for R'
    using reader_finish_insisting [OF assms(2)] damaged_element_invalid [OF assms(1)] by blast
  with reader_finish_no_fault [OF assms(2) True, of True] True show ?thesis
    by (cases "reader_finish R True") auto
qed (simp add: reader_finish_def obind_c_assert)

text \<open>
  C7: a root element written with a checksum and damaged since, in up to four adjacent bytes of
  its contents or in its trailer, is never accepted by a caller that insists on the checksum,
  as the readers of the schema, of the data file's first element and of the commits do: wherever the reads of the
  damaged contents left the reader, \<open>reader_finish\<close> fails, or stops at its assertion inside an
  open bracket. A caller that does not insist notices the damage to the contents when it stands
  at the CRC mark; elsewhere it may not, as \<open>swallowed_checksum\<close> below shows. Damage
  to both the contents and the trailer and damage to the length header are not covered.
\<close>

theorem reader_finish_detects_damage:
  assumes "damaged_element bs (r_data R)" and "r_ok R"
  shows "reader_finish R True = (if r_depth R = 0 then Failed else Fault)
    \<and> (r_depth R = 0 \<and> r_ptr R = length bs \<longrightarrow> reader_finish R False = Failed)"
proof (intro conjI impI)
  show "reader_finish R True = (if r_depth R = 0 then Failed else Fault)"
    by (rule reader_finish_damaged [OF assms])
  assume "r_depth R = 0 \<and> r_ptr R = length bs"
  with reader_finish_damaged [OF assms] damaged_element_length [OF assms(1)]
    reader_finish_at_mark [OF assms(2), of False]
  show "reader_finish R False = Failed" by simp
qed

text \<open>
  The number 5 written with its checksum, its length byte damaged so that a string of six bytes
  begins there, and the reader after reading that string: it stands at the final dot.
\<close>

definition swallowing :: Reader where
  "swallowing = \<lparr>r_malloc = Some, r_file = [], r_buf = 0, r_buf_size = 0, r_addr = 4096,
    r_data = [22, 5] @ crc_part True [17, 5] @ [ST_DOT], r_ptr = 0, r_depth = 0\<rparr>"

lemma damaged_swallowing: "damaged_element [17, 5] (r_data swallowing)"
proof -
  have "[17, 5] = [] @ [17] @ [5 :: byte]" "r_data swallowing = ([] @ [22] @ [5]) @ crc_part True [17, 5] @ [ST_DOT]"
    by (simp_all add: swallowing_def)
  moreover have "r_data swallowing \<noteq> element_body True [17, 5]"
    by (simp add: swallowing_def element_body_def)
  moreover have "length [22 :: byte] = length [17 :: byte]" "length [17 :: byte] \<le> 4" by simp_all
  ultimately show ?thesis unfolding damaged_element_def by blast
qed

lemma swallowed_checksum:
  "\<exists>s R. read_string swallowing = Done (s, R) \<and> r_ok R \<and> r_data R = r_data swallowing
    \<and> r_depth R = 0 \<and> (\<exists>R'. reader_finish R False = Done R')"
  by (simp add: swallowing_def read_string_def reader_ensure_space_def next_byte_def check_def
      read_string_len_def reader_bytes_def Let_def ST_STRING_def crc_part_def write_le_numeral
      reader_finish_def c_assert_def r_ok_def st_defs)

theorem reader_finish_detects_damage_witness:
  "\<exists>s R. read_string swallowing = Done (s, R) \<and> reader_finish R True = Failed
    \<and> reader_finish (swallowing\<lparr>r_ptr := 2\<rparr>) False = Failed"
proof -
  obtain s R where R: "read_string swallowing = Done (s, R)" "r_ok R" "r_data R = r_data swallowing" "r_depth R = 0"
    using swallowed_checksum by blast
  show ?thesis
    using R reader_finish_detects_damage [of "[17, 5]" R] damaged_swallowing
      reader_finish_detects_damage [of "[17, 5]" "swallowing\<lparr>r_ptr := 2\<rparr>"]
    by (simp add: swallowing_def r_ok_def crc_part_def)
qed

lemma reader_begin_torn_lemma:
  assumes "r_idle R" and "root_element cs bs = r_file R @ missing" and "missing \<noteq> []"
    and "length bs < 2 ^ 60"
  shows "\<exists>R'. reader_begin R = Done (if r_file R = [] then ST_READ_END_OF_FILE else ST_READ_FAIL, R')"
proof -
  let ?body = "element_body cs bs" and ?f = "r_file R"
  obtain a where a: "r_malloc R 10 = Some a"
    using assms(1) by (auto simp: r_idle_def malloc_ok_def dest!: spec [of _ 10])
  have body: "length ?body < 2 ^ 63"
    using length_element_body [of cs bs] assms(4) by simp
  show ?thesis
  proof (cases "length ?f < 10")
    case True
    with a assms(1) show ?thesis
      by (simp add: reader_begin_def file_reader_read_def r_idle_def Let_def)
  next
    case False
    then have "take 10 ?f = take 10 (?f @ missing)" by simp
    also have "\<dots> = header_of (length ?body)"
      by (simp add: root_element_def flip: assms(2))
    finally have hd: "take 10 ?f = header_of (length ?body)" .
    have "length (?f @ missing) = 10 + length ?body"
      by (simp add: root_element_def flip: assms(2))
    then have short: "length (drop 10 ?f) < length ?body" using assms(3) False by (cases missing) auto
    have un: "unat (of_nat (length ?body) :: u64) = length ?body"
      using body by (intro unat_of_nat_small) simp
    obtain b where "r_malloc R (length ?body) = Some b"
      using assms(1) body by (auto simp: r_idle_def malloc_ok_def)
    with a hd short un False assms(1) show ?thesis
      by (auto simp: reader_begin_def file_reader_read_def r_idle_def Let_def read_header_of)
  qed
qed

text \<open>
  C8: a root element whose tail is missing (the last write before a crash) is never taken
  for a complete one: \<open>reader_begin\<close> reports a failed read, and an end of file only when
  nothing at all was written.
\<close>

theorem reader_begin_torn:
  assumes "r_idle R" and "root_element cs bs = r_file R @ missing" and "missing \<noteq> []"
    and "length bs < 2 ^ 60"
  shows "\<exists>R'. reader_begin R = Done (if r_file R = [] then ST_READ_END_OF_FILE else ST_READ_FAIL, R')"
  by (rule reader_begin_torn_lemma [OF assms])

theorem reader_begin_torn_witness:
  defines "R \<equiv> file_reader_init (\<lambda>_. Some 4096) [7, 2, 0, 0]"
  shows "\<exists>R'. reader_begin R = Done (ST_READ_FAIL, R')"
proof -
  have "\<exists>R'. reader_begin R
      = Done (if r_file R = [] then ST_READ_END_OF_FILE else ST_READ_FAIL, R')"
    by (rule reader_begin_torn [of R False "[16]" "[0, 0, 0, 0, 0, 9, 16, 2]"])
      (simp_all add: R_def r_idle_def file_reader_init_def malloc_ok_def root_element_def
        element_body_def crc_part_def header_of_def st_defs write_le_numeral drop_bit_eq_div)
  then show ?thesis by (simp add: R_def file_reader_init_def)
qed

end
