(* ===== verification/Rescuer.thy ===== *)
theory Rescuer
  imports Storage
begin

text \<open>
  \<open>storage/rescuer.c\<close>: it copies root elements from its input to its output, re-serialising
  each one, until the input ends or is found damaged. The loop of \<open>process_element\<close> ends
  because each round consumes input; the main loop because each root element consumes a
  header.
\<close>

section \<open>The program\<close>

text \<open>One round of the \<open>do ... while (indent != 0)\<close> loop.\<close>

definition rescue_step :: "Reader \<Rightarrow> Writer \<Rightarrow> int \<Rightarrow> (Reader \<times> Writer \<times> int) outcome" where
  "rescue_step R W indent =
    (if reader_next R = ST_ARRAY_BEGIN then
       obind (write_array W) (\<lambda>W.
       obind (read_array R) (\<lambda>R. Done (R, W, indent + 1)))
     else if reader_next R = ST_ARRAY_END then
       obind (write_array_end W) (\<lambda>W.
       obind (read_array_end R) (\<lambda>R. Done (R, W, indent - 1)))
     else if reader_next R = of_nat ST_STRING then
       obind (read_string R) (\<lambda>(str, R).
       obind (write_bytes W str) (\<lambda>W. Done (R, W, indent)))
     else Failed)"

lemma rescue_step_progress: "rescue_step R W i = Done (R', W', i') \<Longrightarrow> r_progress R R'"
  by (auto simp: rescue_step_def obind_eq_Done split: if_splits
      dest: read_array_progress read_array_end_progress read_string_progress)

function rescue_loop :: "Reader \<Rightarrow> Writer \<Rightarrow> int \<Rightarrow> (Reader \<times> Writer) outcome" where
  "rescue_loop R W indent = obind (rescue_step R W indent) (\<lambda>(R, W, indent).
     if indent \<noteq> 0 then rescue_loop R W indent else Done (R, W))"
  by pat_completeness auto
termination
  by (relation "measure (\<lambda>(R, W, i). length (r_data R) - r_ptr R)")
    (auto dest!: rescue_step_progress simp: r_progress_def)

declare rescue_loop.simps [simp del]

definition process_element :: "Reader \<Rightarrow> Writer \<Rightarrow> (Reader \<times> Writer) outcome" where
  "process_element R W = obind (rescue_loop R W 0) (\<lambda>(R, W).
     if reader_next R = ST_DOT then
       obind (reader_finish R False) (\<lambda>R.
       obind (writer_finish W False) (\<lambda>W. Done (R, W)))
     else if reader_next R = ST_CRC then
       obind (reader_finish R True) (\<lambda>R.
       obind (writer_finish W True) (\<lambda>W. Done (R, W)))
     else Failed)"

lemma rescue_loop_file: "rescue_loop R W i = Done (R', W') \<Longrightarrow> r_file R' = r_file R"
proof (induction R W i rule: rescue_loop.induct)
  case (1 R W i)
  from 1(2) obtain R1 W1 i1 where st: "rescue_step R W i = Done (R1, W1, i1)"
    and rest: "(if i1 \<noteq> 0 then rescue_loop R1 W1 i1 else Done (R1, W1)) = Done (R', W')"
    by (subst (asm) rescue_loop.simps) (auto simp: obind_eq_Done)
  have "r_file R1 = r_file R" using rescue_step_progress [OF st] by (simp add: r_progress_def)
  with rest 1(1) [OF st refl refl] show ?case by (auto split: if_splits)
qed

lemma reader_finish_file: "reader_finish R cs = Done R' \<Longrightarrow> r_file R' = r_file R"
  by (auto simp: reader_finish_def Let_def obind_eq_Done split: if_splits)

lemma process_element_file: "process_element R W = Done (R', W') \<Longrightarrow> r_file R' = r_file R"
  by (auto simp: process_element_def obind_eq_Done split: if_splits
      dest!: rescue_loop_file reader_finish_file)

lemma file_reader_read_shorter:
  "file_reader_read R n = Done (st, bs, R') \<Longrightarrow> length (r_file R') \<le> length (r_file R)"
  "file_reader_read R n = Done (ST_READ_SUCCESS, bs, R') \<Longrightarrow>
    length (r_file R) = n + length (r_file R')"
  by (auto simp: file_reader_read_def Let_def split: if_splits option.splits)

lemma reader_begin_shorter:
  assumes "reader_begin R = Done (ST_READ_SUCCESS, R')"
  shows "length (r_file R') < length (r_file R)"
proof -
  from assms obtain st h R1 where 1: "file_reader_read R 10 = Done (st, h, R1)"
    and 2: "(case st of ST_READ_END_OF_FILE \<Rightarrow> Done (ST_READ_END_OF_FILE, R1)
      | ST_READ_FAIL \<Rightarrow> Done (ST_READ_FAIL, R1)
      | ST_READ_SUCCESS \<Rightarrow> (case read_header h of None \<Rightarrow> Done (ST_READ_FAIL, R1)
        | Some len \<Rightarrow> obind (file_reader_read R1 (unat len)) (\<lambda>(st, bytes, R).
           if st \<noteq> ST_READ_SUCCESS then Done (ST_READ_FAIL, R)
           else Done (ST_READ_SUCCESS,
             R\<lparr>r_addr := r_buf R, r_data := bytes, r_ptr := 0, r_depth := 0\<rparr>))))
      = Done (ST_READ_SUCCESS, R')"
    by (force simp: reader_begin_def obind_eq_Done)
  then show ?thesis
    using file_reader_read_shorter(2) [of R 10 h R1]
    by (cases st) (auto simp: obind_eq_Done split: option.splits if_splits
      dest: file_reader_read_shorter(1))
qed

datatype rescue_end = Rescue_success | Rescue_read_failed | Rescue_element_failed

text \<open>
  \<open>main\<close>: \<open>out\<close> is what was written to the standard output, which is assumed to take
  everything (\<open>fwrite\<close> is not the subject here).
\<close>

function rescue_main :: "Reader \<Rightarrow> Writer \<Rightarrow> byte list \<Rightarrow> (byte list \<times> rescue_end) outcome" where
  "rescue_main R W out = obind (reader_begin R) (\<lambda>(st, R1).
     if st = ST_READ_FAIL then Done (out, Rescue_read_failed)
     else if st = ST_READ_END_OF_FILE then Done (out, Rescue_success)
     else (case process_element R1 W of
         Failed \<Rightarrow> Done (out, Rescue_element_failed)
       | Fault \<Rightarrow> Fault
       | Done RW \<Rightarrow> obind (writer_contents (snd RW)) (\<lambda>bs.
           rescue_main (fst RW) (writer_discart (snd RW)) (out @ bs))))"
  by pat_completeness auto
termination
proof (relation "measure (\<lambda>(R, W, out). length (r_file R))")
  fix R :: Reader and W :: Writer and out :: "byte list" and p st R1 RW bs
  assume "reader_begin R = Done p" "(st, R1) = p" "st \<noteq> ST_READ_FAIL" "st \<noteq> ST_READ_END_OF_FILE"
    "process_element R1 W = Done RW"
  moreover from this have "st = ST_READ_SUCCESS" by (cases st) auto
  ultimately show "((fst RW, writer_discart (snd RW), out @ bs), R, W, out)
      \<in> measure (\<lambda>(R, W, out). length (r_file R))"
    using reader_begin_shorter [of R R1] process_element_file [of R1 W "fst RW" "snd RW"] by auto
qed simp

declare rescue_main.simps [simp del]

section \<open>Copying one element\<close>

lemma w_appends_inv: "w_appends W bs d W' \<Longrightarrow> w_inv W'"
  by (simp add: w_appends_def)

text \<open>
  What one call of the loop on an encoded element amounts to: the element is consumed, its
  encoding appended, and the loop goes on exactly when it is inside an array.
\<close>

definition rescue_after :: "Reader \<Rightarrow> Writer \<Rightarrow> int \<Rightarrow> (Reader \<times> Writer) outcome" where
  "rescue_after R W i = (if i \<noteq> 0 then rescue_loop R W i else Done (R, W))"

lemma rescue_loop_element:
  "r_ok R \<Longrightarrow> w_inv W \<Longrightarrow> r_depth R = i \<Longrightarrow> w_depth W = i \<Longrightarrow> 0 \<le> i \<Longrightarrow>
    r_rest R = enc_element e @ cs \<Longrightarrow>
    \<exists>W'. w_appends W (enc_element e) 0 W' \<and>
      rescue_loop R W i = rescue_after (r_advance R (length (enc_element e)) 0) W' i"
  "r_ok R \<Longrightarrow> w_inv W \<Longrightarrow> r_depth R = i \<Longrightarrow> w_depth W = i \<Longrightarrow> 0 < i \<Longrightarrow>
    r_rest R = enc_elements es @ cs \<Longrightarrow>
    \<exists>W'. w_appends W (enc_elements es) 0 W' \<and>
      rescue_loop R W i = rescue_loop (r_advance R (length (enc_elements es)) 0) W' i"
proof (induction e and es arbitrary: R W i cs and R W i cs
    rule: enc_element_enc_elements.induct)
  case (1 bs)
  then have "length bs + 16 < 2 ^ 64" using r_rest_string_small [of R bs cs] by simp
  with 1 obtain W' where "write_bytes W bs = Done W'" "w_appends W (enc_string bs) 0 W'"
    using write_bytes_ok by blast
  with 1 reader_next_string [of R bs cs] read_string_ok [of R bs cs] show ?case
    by (subst rescue_loop.simps) (auto simp: rescue_step_def rescue_after_def st_defs)
next
  case (2 es)
  have r: "r_rest R = [ST_ARRAY_BEGIN] @ enc_elements es @ ST_ARRAY_END # cs" using 2 by simp
  let ?R1 = "r_advance R 1 1"
  let ?R2 = "r_advance ?R1 (length (enc_elements es)) 0"
  have R1: "r_ok ?R1" "r_rest ?R1 = enc_elements es @ ST_ARRAY_END # cs"
    using r_ok_advance [OF 2(2) r] r_rest_advance [OF r] by simp_all
  have R2: "r_ok ?R2" "r_rest ?R2 = ST_ARRAY_END # cs"
    using r_ok_advance [OF R1] r_rest_advance [OF R1(2)] by blast+
  obtain W1 where W1: "write_array W = Done W1" "w_appends W [ST_ARRAY_BEGIN] 1 W1"
    using write_array_ok [OF 2(3)] by blast
  have l1: "rescue_loop R W i = rescue_loop ?R1 W1 (i + 1)"
    using reader_next_Cons [OF 2(2)] read_array_ok [OF 2(2)] r W1(1) 2(6)
    by (subst rescue_loop.simps) (simp add: rescue_step_def)
  have "\<exists>W2. w_appends W1 (enc_elements es) 0 W2 \<and> rescue_loop ?R1 W1 (i + 1) = rescue_loop ?R2 W2 (i + 1)"
    by (rule 2(1) [OF R1(1) _ _ _ _ R1(2)]) (use W1(2) 2 in \<open>simp_all add: w_appends_def\<close>)
  then obtain W2 where W2: "w_appends W1 (enc_elements es) 0 W2"
      "rescue_loop ?R1 W1 (i + 1) = rescue_loop ?R2 W2 (i + 1)" by blast
  have "0 < w_depth W2" using W1(2) W2(1) 2 by (simp add: w_appends_def)
  then obtain W3 where W3: "write_array_end W2 = Done W3" "w_appends W2 [ST_ARRAY_END] (- 1) W3"
    using write_array_end_ok [OF w_appends_inv [OF W2(1)]] by blast
  have "rescue_loop ?R2 W2 (i + 1) = rescue_after (r_advance ?R2 1 (- 1)) W3 i"
    using reader_next_Cons [OF R2] read_array_end_ok [OF R2] W3(1) 2(4,6)
    by (subst rescue_loop.simps) (simp add: rescue_step_def rescue_after_def st_defs)
  moreover have "w_appends W (enc_element (Arr es)) 0 W3"
    using w_appends_trans [OF w_appends_trans [OF W1(2) W2(1)] W3(2)] by simp
  ultimately show ?case using l1 W2(2) by (auto simp: add.commute)
next
  case 3
  then show ?case by (auto simp: w_appends_def)
next
  case (4 e es)
  have r: "r_rest R = enc_element e @ enc_elements es @ cs" using 4 by simp
  let ?R1 = "r_advance R (length (enc_element e)) 0"
  have R1: "r_ok ?R1" "r_rest ?R1 = enc_elements es @ cs"
    using r_ok_advance [OF 4(3) r] r_rest_advance [OF r] by blast+
  obtain W1 where W1: "w_appends W (enc_element e) 0 W1" "rescue_loop R W i = rescue_after ?R1 W1 i"
    using 4(1) [OF 4(3,4,5,6) _ r] 4(7) by auto
  have "\<exists>W2. w_appends W1 (enc_elements es) 0 W2 \<and>
      rescue_loop ?R1 W1 i = rescue_loop (r_advance ?R1 (length (enc_elements es)) 0) W2 i"
    by (rule 4(2) [OF R1(1) _ _ _ _ R1(2)]) (use W1(1) 4 in \<open>simp_all add: w_appends_def\<close>)
  with W1 4(7) w_appends_trans [OF W1(1)] show ?case
    by (force simp: rescue_after_def)
qed

text \<open>A well-formed root element is copied byte for byte.\<close>

lemma process_element_ok:
  assumes "r_ok R" and "r_depth R = 0" and "r_ptr R = 0"
    and "r_data R = element_body cs (enc_element e)"
    and "w_inv W" and "w_depth W = 0" and "w_cur W = []"
  shows "\<exists>R' W'. process_element R W = Done (R', W') \<and> r_file R' = r_file R
    \<and> r_buf_size R' = r_buf_size R \<and> r_malloc R' = r_malloc R
    \<and> w_closed W (root_element cs (enc_element e)) W'"
proof -
  let ?c = "enc_element e"
  have r: "r_rest R = ?c @ crc_part cs ?c @ [ST_DOT]"
    using assms(3,4) by (simp add: r_rest_def element_body_def)
  let ?R1 = "r_advance R (length ?c) 0"
  have R1: "r_ok ?R1" "r_rest ?R1 = crc_part cs ?c @ [ST_DOT]"
    using r_ok_advance [OF assms(1) r] r_rest_advance [OF r] by blast+
  obtain W1 where W1: "w_appends W ?c 0 W1" "rescue_loop R W 0 = Done (?R1, W1)"
    using rescue_loop_element(1) [OF assms(1,5,2,6) _ r] by (auto simp: rescue_after_def)
  then have inv1: "w_inv W1" "w_depth W1 = 0" and abs1: "w_cur W1 = ?c" "w_out W1 = w_out W"
    using assms by (simp_all add: w_appends_def)
  obtain W2 where W2: "writer_finish W1 cs = Done W2" "w_closed W1 (root_element cs ?c) W2"
    using writer_finish_ok [OF inv1, of cs] abs1 by auto
  have "w_closed W (root_element cs ?c) W2" using W2(2) abs1 by (simp add: w_closed_def)
  moreover have "\<exists>n. process_element R W = Done (r_advance ?R1 n 0, W2)"
  proof (cases cs)
    case True
    have "reader_finish ?R1 True = Done (r_advance ?R1 6 0)"
      using reader_finish_crc [of ?R1 ?c "crc32_c ?c 0" True] R1(1) assms(2-4) True
      by (simp add: element_body_def crc_part_def)
    moreover have "reader_next ?R1 = ST_CRC"
      using reader_next_Cons [OF R1(1)] R1(2) True by (simp add: crc_part_def)
    ultimately have "process_element R W = Done (r_advance ?R1 6 0, W2)"
      using W1 W2 True by (simp add: process_element_def st_defs)
    then show ?thesis by blast
  next
    case False
    have "reader_finish ?R1 False = Done (r_advance ?R1 1 0)"
      using reader_finish_dot [of ?R1 ?c False] R1(1) assms(2-4) False
      by (simp add: element_body_def crc_part_def)
    moreover have "reader_next ?R1 = ST_DOT"
      using reader_next_Cons [OF R1(1)] R1(2) False by (simp add: crc_part_def)
    ultimately have "process_element R W = Done (r_advance ?R1 1 0, W2)"
      using W1 W2 False by (simp add: process_element_def)
    then show ?thesis by blast
  qed
  ultimately show ?thesis
    by (auto simp: r_advance_def)
qed

section \<open>Copying a file\<close>

definition file_of :: "(bool \<times> element) list \<Rightarrow> byte list" where
  "file_of es = concat (map (\<lambda>(cs, e). root_element cs (enc_element e)) es)"

lemma file_of_simps [simp]:
  "file_of [] = []"
  "file_of ((cs, e) # es) = root_element cs (enc_element e) @ file_of es"
  by (simp_all add: file_of_def)

definition elements_fit :: "(bool \<times> element) list \<Rightarrow> bool" where
  "elements_fit es = list_all (\<lambda>(cs, e). length (enc_element e) < 2 ^ 60) es"

text \<open>The program's state between two root elements.\<close>

definition w_idle :: "Writer \<Rightarrow> bool" where
  "w_idle W \<longleftrightarrow> w_inv W \<and> w_depth W = 0 \<and> w_out W = [] \<and> w_cur W = []"

lemma rescue_main_copies:
  assumes "r_idle R" and "w_idle W" and "r_file R = file_of es @ rest" and "elements_fit es"
  shows "\<exists>R' W'. r_idle R' \<and> w_idle W' \<and> r_file R' = rest
    \<and> rescue_main R W out = rescue_main R' W' (out @ file_of es)"
  using assms
proof (induction es arbitrary: R W out)
  case Nil
  then show ?case by (intro exI [of _ R] exI [of _ W]) simp
next
  case (Cons ce es)
  obtain cs e where ce: "ce = (cs, e)" by force
  let ?body = "element_body cs (enc_element e)"
  have "r_file R = header_of (length ?body) @ ?body @ file_of es @ rest"
    using Cons.prems(3) by (simp add: ce root_element_def)
  moreover have "length ?body < 2 ^ 63"
    using Cons.prems(4) length_element_body [of cs "enc_element e"] by (simp add: ce elements_fit_def)
  ultimately obtain R1 where R1: "reader_begin R = Done (ST_READ_SUCCESS, R1)" "r_ok R1"
      "r_data R1 = ?body" "r_ptr R1 = 0" "r_depth R1 = 0" "r_file R1 = file_of es @ rest" "r_idle R1"
    using reader_begin_ok [OF Cons.prems(1), of ?body] by (auto simp: element_body_def)
  obtain R2 W2 where RW: "process_element R1 W = Done (R2, W2)" "r_file R2 = r_file R1"
      "r_buf_size R2 = r_buf_size R1" "r_malloc R2 = r_malloc R1"
      "w_closed W (root_element cs (enc_element e)) W2"
    using process_element_ok [OF R1(2,5,4,3)] Cons.prems(2) unfolding w_idle_def by blast
  have step: "rescue_main R W out
      = rescue_main R2 (writer_discart W2) (out @ root_element cs (enc_element e))"
    using RW Cons.prems(2)
    by (subst rescue_main.simps) (simp add: R1(1) writer_contents_ok w_closed_def w_idle_def)
  have "r_idle R2" "w_idle (writer_discart W2)" "r_file R2 = file_of es @ rest"
    using RW R1(6,7) by (simp_all add: r_idle_def w_idle_def w_closed_def)
  moreover have "elements_fit es" using Cons.prems(4) ce by (simp add: elements_fit_def)
  ultimately show ?case
    using Cons.IH [of R2 "writer_discart W2" "out @ root_element cs (enc_element e)"] step ce
    by simp
qed

lemma idle_init:
  "malloc_ok malloc \<Longrightarrow> r_idle (file_reader_init malloc file)"
  "w_idle (writer_init mem)"
  by (simp_all add: file_reader_init_def r_idle_def w_idle_def)

text \<open>
  C9: on an undamaged file, whatever its elements are and whether or not they carry
  checksums, the rescuer reproduces the file byte for byte and reports success.
\<close>

theorem rescuer_copies_good_files:
  assumes "malloc_ok malloc" and "elements_fit es"
  shows "rescue_main (file_reader_init malloc (file_of es)) (writer_init mem) []
    = Done (file_of es, Rescue_success)"
proof -
  obtain R W where R: "r_idle R" "r_file R = []"
    and eq: "rescue_main (file_reader_init malloc (file_of es)) (writer_init mem) []
      = rescue_main R W (file_of es)"
    using rescue_main_copies [of "file_reader_init malloc (file_of es)" "writer_init mem" es "[]" "[]"]
      idle_init assms by (auto simp: file_reader_init_def)
  from reader_begin_eof [OF R] show ?thesis
    unfolding eq by (subst rescue_main.simps) auto
qed

theorem rescuer_copies_good_files_witness:
  "rescue_main (file_reader_init (\<lambda>_. Some 4096) (file_of [(True, Arr [Str [1], Arr []]), (False, Str [])]))
      (writer_init (\<lambda>_. 0)) []
    = Done (file_of [(True, Arr [Str [1], Arr []]), (False, Str [])], Rescue_success)"
  by (rule rescuer_copies_good_files [OF malloc_ok_const])
    (simp add: elements_fit_def enc_string_def len_code_small st_defs)

text \<open>
  When the last root element of a file is cut off anywhere, the rescuer salvages exactly
  the elements before it and reports the damage.
\<close>

theorem rescuer_salvages_torn_files:
  assumes "malloc_ok malloc" and "elements_fit es"
    and "root_element cs bs = torn @ missing" and "torn \<noteq> []" and "missing \<noteq> []"
    and "length bs < 2 ^ 60"
  shows "rescue_main (file_reader_init malloc (file_of es @ torn)) (writer_init mem) []
    = Done (file_of es, Rescue_read_failed)"
proof -
  obtain R W where R: "r_idle R" "r_file R = torn"
    and eq: "rescue_main (file_reader_init malloc (file_of es @ torn)) (writer_init mem) []
      = rescue_main R W (file_of es)"
    using rescue_main_copies [of "file_reader_init malloc (file_of es @ torn)" "writer_init mem" es
        torn "[]"] idle_init assms(1,2) by (auto simp: file_reader_init_def)
  from reader_begin_torn_lemma [OF R(1), of cs bs missing] assms R(2) show ?thesis
    unfolding eq by (subst rescue_main.simps) auto
qed

theorem rescuer_salvages_torn_files_witness:
  "rescue_main (file_reader_init (\<lambda>_. Some 4096) (file_of [(False, Arr [])] @ [7, 2]))
      (writer_init (\<lambda>_. 0)) [] = Done (file_of [(False, Arr [])], Rescue_read_failed)"
  by (rule rescuer_salvages_torn_files [OF malloc_ok_const, of _ False "[16]" _
        "[0, 0, 0, 0, 0, 0, 0, 9, 16, 2]"])
    (simp_all add: elements_fit_def root_element_def element_body_def crc_part_def header_of_def
      st_defs write_le_numeral drop_bit_eq_div)

text \<open>
  Damaged input is meant to end the program in order, but a root element that begins with
  a closing bracket aborts it: \<open>write_array_end\<close> asserts a positive depth before the reader
  has looked at the nesting.
\<close>

theorem rescuer_aborts_on_stray_bracket:
  assumes "r_ok R" and "r_rest R = ST_ARRAY_END # cs" and "w_idle W"
  shows "process_element R W = Fault"
proof -
  have "reader_next R = ST_ARRAY_END" using reader_next_Cons [OF assms(1,2)] by simp
  moreover have "write_array_end W = Fault"
    using assms(3) by (simp add: write_array_end_def w_idle_def Let_def)
  ultimately show ?thesis
    by (simp add: process_element_def rescue_loop.simps rescue_step_def st_defs)
qed

theorem rescuer_aborts_on_stray_bracket_witness:
  "process_element \<lparr>r_malloc = Some, r_file = [], r_buf = 0, r_buf_size = 0, r_addr = 4096,
    r_data = [3, 2], r_ptr = 0, r_depth = 0\<rparr> (writer_init (\<lambda>_. 0)) = Fault"
  by (rule rescuer_aborts_on_stray_bracket [of _ "[2]"])
    (simp_all add: r_ok_def r_rest_def st_defs idle_init)

end
