(* ===== verification/Show_File.thy ===== *)
theory Show_File
  imports Rescuer
begin

text \<open>
  \<open>storage/show_file.c\<close>: it prints the root elements of its input in readable form. What
  \<open>printf\<close> writes is a character list; \<open>printf\<close> itself is modelled for the formats used.
  The error path prints the byte at the reader's position, so the position at which a reading
  function gives up is part of the model here.
\<close>

section \<open>Formats\<close>

definition newline :: char where
  "newline = char_of (10 :: nat)"

definition digit :: "nat \<Rightarrow> char" where
  "digit k = ''0123456789abcdef'' ! k"

fun digits :: "nat \<Rightarrow> nat \<Rightarrow> string" where
  "digits base n = (if n < base \<or> base < 2 then [digit n] else digits base (n div base) @ [digit (n mod base)])"

declare digits.simps [simp del]

text \<open>\<open>%i\<close> and \<open>%03i\<close> of an \<open>int\<close>, \<open>%li\<close>; \<open>%lx\<close>; \<open>%02x\<close> of a byte.\<close>

definition print_int :: "int \<Rightarrow> string" where
  "print_int i = (if i < 0 then CHR ''-'' # digits 10 (nat (- i)) else digits 10 (nat i))"

definition print_03 :: "int \<Rightarrow> string" where
  "print_03 i = (let sign = (if i < 0 then ''-'' else []); d = digits 10 (nat \<bar>i\<bar>) in
     sign @ replicate (3 - length sign - length d) (CHR ''0'') @ d)"

definition print_hex :: "nat \<Rightarrow> string" where
  "print_hex n = digits 16 n"

definition print_02x :: "byte \<Rightarrow> string" where
  "print_02x b = [digit (unat b div 16), digit (unat b mod 16)]"

text \<open>\<open>(int)\<close> of a \<open>size_t\<close>.\<close>

definition to_int :: "nat \<Rightarrow> int" where
  "to_int n = sint (of_nat n :: u32)"

section \<open>The program\<close>

definition hex_print :: "byte list \<Rightarrow> string" where
  "hex_print str = concat (map (\<lambda>i.
     (if i mod 16 = 0 then newline # '' '' @ print_03 (to_int i) @ '':  '' else [])
     @ (if i mod 16 = 8 then ''  '' else [])
     @ print_02x (str ! i) @ '' '') [0..<length str]) @ [newline]"

definition plain :: "char \<Rightarrow> bool" where
  "plain c \<longleftrightarrow> c = CHR '' '' \<or> (of_char c :: nat) \<in> {48..57} \<or> of_char c \<in> {65..90 :: nat} \<or> of_char c \<in> {97..122 :: nat}
     \<or> c \<in> set ''_+-*/&|=<>'' \<or> c = char_of (39 :: nat)"

definition print_byte :: "byte \<Rightarrow> string" where
  "print_byte b = (let c = char_of (unat b) in
     if plain c then [c] else if c = CHR ''%'' then ''%'' else ''%'' @ print_02x b)"

definition print_string :: "byte list \<Rightarrow> string" where
  "print_string str = print_int (to_int (length str)) @ '' '' @ [CHR 0x22]
     @ concat (map print_byte str) @ [CHR 0x22]
     @ (if length str \<le> 8 then
          let num = read_le 0 str :: u64 in
          '' as number: '' @ print_int (sint num) @ '' (0x'' @ print_hex (unat num) @ '')''
        else [])"

definition ind :: "int \<Rightarrow> string" where
  "ind indent = concat (replicate (nat indent) ''  '')"

text \<open>
  Where \<open>R->ptr\<close> stands when \<open>read_string\<close> and \<open>reader_finish\<close> return, whatever they return
  (as far as they do not fault).
\<close>

definition read_string_ptr :: "Reader \<Rightarrow> nat" where
  "read_string_ptr R =
    (if reader_ensure_space R 1 \<noteq> Done () then r_ptr R
     else case next_byte R of
       Done (first, R1) \<Rightarrow>
         if unat first < ST_STRING then r_ptr R1
         else (case read_string_len first R1 of
           Done (len, R2) \<Rightarrow> let n = unat (len - of_nat ST_STRING) in
             if reader_ensure_space R2 n \<noteq> Done () then r_ptr R2 else r_ptr R2 + n
         | _ \<Rightarrow> r_ptr R1)
     | _ \<Rightarrow> r_ptr R)"

definition reader_finish_ptr :: "Reader \<Rightarrow> nat" where
  "reader_finish_ptr R =
    (if reader_ensure_space R 1 \<noteq> Done () then r_ptr R
     else if r_data R ! r_ptr R = ST_CRC then
       (if reader_ensure_space R 6 \<noteq> Done () then r_ptr R else r_ptr R + 6)
     else r_ptr R + 1)"

text \<open>
  A call that went well (\<open>Inl\<close> the reader) or gave up (\<open>Inr\<close> the position). An array
  bracket that \<open>reader_next\<close> has seen is always read.
\<close>

definition read_or_stop :: "nat \<Rightarrow> 'a outcome \<Rightarrow> ('a + nat) outcome" where
  "read_or_stop pos m = (case m of Done x \<Rightarrow> Done (Inl x) | Failed \<Rightarrow> Done (Inr pos) | Fault \<Rightarrow> Fault)"

text \<open>One round of the loop: what it prints, and how it ends.\<close>

definition show_step :: "Reader \<Rightarrow> int \<Rightarrow> (string \<times> ((Reader \<times> int) + nat)) outcome" where
  "show_step R indent =
    (if reader_next R = ST_ARRAY_BEGIN then
       obind (read_array R) (\<lambda>R. Done (ind indent @ ''{'' @ [newline], Inl (R, indent + 1)))
     else if reader_next R = ST_ARRAY_END then
       obind (read_array_end R) (\<lambda>R. Done (ind (indent - 1) @ ''}'' @ [newline], Inl (R, indent - 1)))
     else if reader_next R = of_nat ST_STRING then
       obind (read_or_stop (read_string_ptr R) (read_string R)) (\<lambda>r.
       Done (case r of Inl (str, R) \<Rightarrow> (ind indent @ print_string str @ [newline], Inl (R, indent))
         | Inr pos \<Rightarrow> ([], Inr pos)))
     else Done ([], Inr (r_ptr R)))"

lemma show_step_progress: "show_step R i = Done (out, Inl (R', i')) \<Longrightarrow> r_progress R R'"
  by (auto simp: show_step_def read_or_stop_def obind_eq_Done split: if_splits outcome.splits sum.splits
      dest: read_array_progress read_array_end_progress read_string_progress)

function show_loop :: "Reader \<Rightarrow> int \<Rightarrow> (string \<times> (Reader + nat)) outcome" where
  "show_loop R indent = obind (show_step R indent) (\<lambda>(out, r). case r of
       Inr pos \<Rightarrow> Done (out, Inr pos)
     | Inl (R, indent) \<Rightarrow>
         if indent \<noteq> 0 then obind (show_loop R indent) (\<lambda>(out', r). Done (out @ out', r))
         else Done (out, Inl R))"
  by pat_completeness auto
termination
  by (relation "measure (\<lambda>(R, i). length (r_data R) - r_ptr R)")
    (auto dest!: show_step_progress simp: r_progress_def)

declare show_loop.simps [simp del]

text \<open>The error path reads the byte at the position, which has to be inside the buffer.\<close>

definition show_error :: "byte list \<Rightarrow> nat \<Rightarrow> string outcome" where
  "show_error data pos =
    (if pos < length data then
       Done ([newline] @ ''Reading element failed!'' @ [newline] @ ''Current byte is ''
         @ print_int (int (unat (data ! pos))) @ '' (0x'' @ print_hex (unat (data ! pos)) @ '')'' @ [newline])
     else Fault)"

definition show_end :: "Reader \<Rightarrow> (string \<times> (Reader + nat)) outcome" where
  "show_end R =
    (if reader_next R = ST_DOT then
       obind (read_or_stop (reader_finish_ptr R) (reader_finish R False)) (\<lambda>r. Done (''No checksum'', r))
     else if reader_next R = ST_CRC then
       obind (read_or_stop (reader_finish_ptr R) (reader_finish R True)) (\<lambda>r. Done (''With checksum'', r))
     else Done ([], Inr (r_ptr R)))"

text \<open>\<open>process_element\<close>: what it prints, and the reader if it returns \<open>true\<close>.\<close>

definition show_element :: "Reader \<Rightarrow> (string \<times> Reader option) outcome" where
  "show_element R =
    (let out0 = ''Element: length '' @ print_int (to_int (length (r_data R))) @ hex_print (r_data R) @ [newline];
         failed = (\<lambda>out pos. obind (show_error (r_data R) pos) (\<lambda>msg. Done (out @ msg, None))) in
     obind (show_loop R 0) (\<lambda>(out1, r).
     case r of Inr pos \<Rightarrow> failed (out0 @ out1) pos
     | Inl R \<Rightarrow> obind (show_end R) (\<lambda>(out2, r).
         case r of Inr pos \<Rightarrow> failed (out0 @ out1 @ out2) pos
         | Inl R \<Rightarrow> Done (out0 @ out1 @ out2 @ '' OK'' @ [newline, newline, newline], Some R))))"

lemma read_or_stop_Inl: "read_or_stop pos m = Done (Inl x) \<longleftrightarrow> m = Done x"
  by (auto simp: read_or_stop_def split: outcome.split)

lemma sum_case_eq:
  "(case r of Inl x \<Rightarrow> f x | Inr y \<Rightarrow> g y) = v \<longleftrightarrow> (\<exists>x. r = Inl x \<and> f x = v) \<or> (\<exists>y. r = Inr y \<and> g y = v)"
  by (cases r) auto

lemma show_loop_file: "show_loop R i = Done (out, Inl R') \<Longrightarrow> r_file R' = r_file R"
proof (induction R i arbitrary: out rule: show_loop.induct)
  case (1 R i)
  from 1(2) obtain o1 R1 i1 where st: "show_step R i = Done (o1, Inl (R1, i1))"
    and rest: "i1 = 0 \<and> R' = R1 \<or> i1 \<noteq> 0 \<and> (\<exists>out'. show_loop R1 i1 = Done (out', Inl R'))"
    unfolding show_loop.simps [of R i] by (auto simp: obind_eq_Done sum_case_eq split: if_splits)
  have "r_file R1 = r_file R" using show_step_progress [OF st] by (simp add: r_progress_def)
  with rest 1(1) [OF st refl refl refl] show ?case by auto
qed

lemma show_end_file: "show_end R = Done (out, Inl R') \<Longrightarrow> r_file R' = r_file R"
  by (auto simp: show_end_def obind_eq_Done read_or_stop_Inl split: if_splits dest!: reader_finish_file)

lemma show_element_file: "show_element R = Done (out, Some R') \<Longrightarrow> r_file R' = r_file R"
  by (auto simp: show_element_def Let_def obind_eq_Done sum_case_eq dest!: show_loop_file show_end_file)

function show_main :: "Reader \<Rightarrow> string outcome" where
  "show_main R = obind (reader_begin R) (\<lambda>(st, R1).
     if st = ST_READ_FAIL then Done (''Error reading next element!'' @ [newline])
     else if st = ST_READ_END_OF_FILE then Done (''End of file'' @ [newline])
     else obind (show_element R1) (\<lambda>(out, r). case r of
         None \<Rightarrow> Done out
       | Some R2 \<Rightarrow> obind (show_main R2) (\<lambda>rest. Done (out @ rest))))"
  by pat_completeness auto
termination
proof (relation "measure (\<lambda>R. length (r_file R))")
  fix R :: Reader and p st R1 q out r R2
  assume "reader_begin R = Done p" "(st, R1) = p" "st \<noteq> ST_READ_FAIL" "st \<noteq> ST_READ_END_OF_FILE"
    "show_element R1 = Done q" "(out, r) = q" "r = Some R2"
  moreover from this have "st = ST_READ_SUCCESS" by (cases st) auto
  ultimately show "(R2, R) \<in> measure (\<lambda>R. length (r_file R))"
    using reader_begin_shorter [of R R1] show_element_file [of R1 out R2] by auto
qed simp

declare show_main.simps [simp del]

section \<open>The positions are those of the reading functions\<close>

lemma read_string_ptr_ok: "read_string R = Done (bs, R') \<Longrightarrow> r_ptr R' = read_string_ptr R"
  by (auto simp: read_string_def read_string_ptr_def Let_def obind_eq_Done check_def split: if_splits)

lemma reader_finish_ptr_ok: "reader_finish R cs = Done R' \<Longrightarrow> r_ptr R' = reader_finish_ptr R"
  by (auto simp: reader_finish_def reader_finish_ptr_def reader_bytes_def Let_def obind_eq_Done check_def split: if_splits)

section \<open>What is printed\<close>

text \<open>The reference: an element tree printed with two spaces of indentation a level.\<close>

fun show_tree :: "nat \<Rightarrow> element \<Rightarrow> string" where
  "show_tree k (Str bs) = replicate (2 * k) (CHR '' '') @ print_string bs @ [newline]"
| "show_tree k (Arr es) = replicate (2 * k) (CHR '' '') @ ''{'' @ [newline]
     @ concat (map (show_tree (Suc k)) es) @ replicate (2 * k) (CHR '' '') @ ''}'' @ [newline]"

definition show_root :: "bool \<times> element \<Rightarrow> string" where
  "show_root = (\<lambda>(cs, e). let body = element_body cs (enc_element e) in
     ''Element: length '' @ print_int (to_int (length body)) @ hex_print body @ [newline]
     @ show_tree 0 e @ (if cs then ''With checksum'' else ''No checksum'') @ '' OK'' @ [newline, newline, newline])"

lemma ind_spaces: "ind (int k) = replicate (2 * k) (CHR '' '')"
proof -
  have "concat (replicate k ''  '') = replicate (2 * k) (CHR '' '')" by (induction k) simp_all
  then show ?thesis by (simp add: ind_def)
qed

definition show_after :: "string \<Rightarrow> Reader \<Rightarrow> nat \<Rightarrow> (string \<times> (Reader + nat)) outcome" where
  "show_after out R k = (if k = 0 then Done (out, Inl R)
     else obind (show_loop R (int k)) (\<lambda>(out', r). Done (out @ out', r)))"

lemma obind_prefix: "obind (obind m (\<lambda>(out, r). Done (f out, r))) (\<lambda>(out, r). Done (g out, r))
    = obind m (\<lambda>(out, r). Done (g (f out), r))"
  by (cases m) (auto split: prod.splits)

lemma show_loop_element:
  "r_ok R \<Longrightarrow> r_depth R = int k \<Longrightarrow> r_rest R = enc_element e @ cs \<Longrightarrow>
    show_loop R (int k) = show_after (show_tree k e) (r_advance R (length (enc_element e)) 0) k"
  "r_ok R \<Longrightarrow> r_depth R = int k \<Longrightarrow> 0 < k \<Longrightarrow> r_rest R = enc_elements es @ cs \<Longrightarrow>
    show_loop R (int k) = obind (show_loop (r_advance R (length (enc_elements es)) 0) (int k))
      (\<lambda>(out, r). Done (concat (map (show_tree k) es) @ out, r))"
proof (induction e and es arbitrary: R k cs and R k cs rule: enc_element_enc_elements.induct)
  case (1 bs)
  then have "length bs + 16 < 2 ^ 64" using r_rest_string_small [of R bs cs] by simp
  with 1 reader_next_string [of R bs cs] read_string_ok [of R bs cs] show ?case
    by (subst show_loop.simps) (auto simp: show_step_def show_after_def read_or_stop_def st_defs ind_spaces)
next
  case (2 es)
  have r: "r_rest R = [ST_ARRAY_BEGIN] @ enc_elements es @ ST_ARRAY_END # cs" using 2 by simp
  let ?R1 = "r_advance R 1 1"
  let ?R2 = "r_advance ?R1 (length (enc_elements es)) 0"
  have R1: "r_ok ?R1" "r_rest ?R1 = enc_elements es @ ST_ARRAY_END # cs"
    using r_ok_advance [OF 2(2) r] r_rest_advance [OF r] by simp_all
  have R2: "r_ok ?R2" "r_rest ?R2 = ST_ARRAY_END # cs"
    using r_ok_advance [OF R1] r_rest_advance [OF R1(2)] by blast+
  let ?pre = "replicate (2 * k) (CHR '' '') @ ''{'' @ [newline]"
  have l1: "show_loop R (int k) = obind (show_loop ?R1 (int (Suc k))) (\<lambda>(out', r). Done (?pre @ out', r))"
    using reader_next_Cons [OF 2(2)] read_array_ok [OF 2(2)] r
    by (subst show_loop.simps) (simp add: show_step_def ind_spaces add.commute)
  have l2: "show_loop ?R1 (int (Suc k)) = obind (show_loop ?R2 (int (Suc k)))
      (\<lambda>(out, r). Done (concat (map (show_tree (Suc k)) es) @ out, r))"
    by (rule 2(1) [OF R1(1) _ _ R1(2)]) (use 2(3) in simp_all)
  have l3: "show_loop ?R2 (int (Suc k)) = show_after (replicate (2 * k) (CHR '' '') @ ''}'' @ [newline]) (r_advance ?R2 1 (- 1)) k"
    using reader_next_Cons [OF R2] read_array_end_ok [OF R2] 2(3)
    by (subst show_loop.simps) (simp add: show_step_def show_after_def st_defs ind_spaces)
  show ?case unfolding l1 l2 l3
    by (simp add: show_after_def obind_prefix del: append.simps)
next
  case 3
  then show ?case by (cases "show_loop R (int k)") auto
next
  case (4 e es)
  have r: "r_rest R = enc_element e @ enc_elements es @ cs" using 4 by simp
  let ?R1 = "r_advance R (length (enc_element e)) 0"
  have R1: "r_ok ?R1" "r_rest ?R1 = enc_elements es @ cs"
    using r_ok_advance [OF 4(3) r] r_rest_advance [OF r] by blast+
  have e: "show_loop R (int k) = obind (show_loop ?R1 (int k)) (\<lambda>(out', r). Done (show_tree k e @ out', r))"
    using 4(1) [OF 4(3,4) r] 4(5) by (simp add: show_after_def)
  have es: "show_loop ?R1 (int k) = obind (show_loop (r_advance ?R1 (length (enc_elements es)) 0) (int k))
      (\<lambda>(out, r). Done (concat (map (show_tree k) es) @ out, r))"
    by (rule 4(2) [OF R1(1) _ 4(5) R1(2)]) (use 4(4) in simp)
  show ?case unfolding e es by (simp add: obind_prefix)
qed

lemma show_element_ok:
  assumes "r_ok R" and "r_depth R = 0" and "r_ptr R = 0"
    and "r_data R = element_body cs (enc_element e)"
  shows "\<exists>R'. show_element R = Done (show_root (cs, e), Some R') \<and> r_file R' = r_file R
    \<and> r_buf_size R' = r_buf_size R \<and> r_malloc R' = r_malloc R"
proof -
  let ?c = "enc_element e"
  have r: "r_rest R = ?c @ crc_part cs ?c @ [ST_DOT]"
    using assms(3,4) by (simp add: r_rest_def element_body_def)
  let ?R1 = "r_advance R (length ?c) 0"
  have R1: "r_ok ?R1" "r_rest ?R1 = crc_part cs ?c @ [ST_DOT]"
    using r_ok_advance [OF assms(1) r] r_rest_advance [OF r] by blast+
  have loop: "show_loop R 0 = Done (show_tree 0 e, Inl ?R1)"
    using show_loop_element(1) [of R 0 e, OF assms(1) _ r] assms(2) by (simp add: show_after_def)
  have "\<exists>n. show_end ?R1 = Done (if cs then ''With checksum'' else ''No checksum'', Inl (r_advance ?R1 n 0))"
  proof (cases cs)
    case True
    have "reader_finish ?R1 True = Done (r_advance ?R1 6 0)"
      using reader_finish_crc [of ?R1 ?c "crc32_c ?c 0" True] R1(1) assms(2-4) True
      by (simp add: element_body_def crc_part_def)
    moreover have "reader_next ?R1 = ST_CRC"
      using reader_next_Cons [OF R1(1)] R1(2) True by (simp add: crc_part_def)
    ultimately show ?thesis using True by (auto simp: show_end_def read_or_stop_def st_defs)
  next
    case False
    have "reader_finish ?R1 False = Done (r_advance ?R1 1 0)"
      using reader_finish_dot [of ?R1 ?c False] R1(1) assms(2-4) False
      by (simp add: element_body_def crc_part_def)
    moreover have "reader_next ?R1 = ST_DOT"
      using reader_next_Cons [OF R1(1)] R1(2) False by (simp add: crc_part_def)
    ultimately show ?thesis using False by (intro exI [of _ 1]) (simp add: show_end_def read_or_stop_def)
  qed
  then obtain n where "show_end ?R1 = Done (if cs then ''With checksum'' else ''No checksum'', Inl (r_advance ?R1 n 0))" ..
  then have "show_element R = Done (show_root (cs, e), Some (r_advance ?R1 n 0))"
    by (simp add: show_element_def loop show_root_def assms(4) Let_def)
  then show ?thesis by (auto simp: r_advance_def)
qed

lemma show_main_prints:
  assumes "r_idle R" and "r_file R = file_of es @ rest" and "elements_fit es"
  shows "\<exists>R'. r_idle R' \<and> r_file R' = rest
    \<and> show_main R = obind (show_main R') (\<lambda>out. Done (concat (map show_root es) @ out))"
  using assms
proof (induction es arbitrary: R)
  case Nil
  then show ?case by (intro exI [of _ R]) (cases "show_main R"; simp)
next
  case (Cons ce es)
  obtain cs e where ce: "ce = (cs, e)" by force
  let ?body = "element_body cs (enc_element e)"
  have "r_file R = header_of (length ?body) @ ?body @ file_of es @ rest"
    using Cons.prems(2) by (simp add: ce root_element_def)
  moreover have "length ?body < 2 ^ 63"
    using Cons.prems(3) length_element_body [of cs "enc_element e"] by (simp add: ce elements_fit_def)
  ultimately obtain R1 where R1: "reader_begin R = Done (ST_READ_SUCCESS, R1)" "r_ok R1"
      "r_data R1 = ?body" "r_ptr R1 = 0" "r_depth R1 = 0" "r_file R1 = file_of es @ rest" "r_idle R1"
    using reader_begin_ok [OF Cons.prems(1), of ?body] by (auto simp: element_body_def)
  obtain R2 where R2: "show_element R1 = Done (show_root ce, Some R2)" "r_file R2 = r_file R1"
      "r_buf_size R2 = r_buf_size R1" "r_malloc R2 = r_malloc R1"
    using show_element_ok [OF R1(2,5,4,3)] ce by blast
  have step: "show_main R = obind (show_main R2) (\<lambda>out. Done (show_root ce @ out))"
    by (subst show_main.simps) (simp add: R1(1) R2(1))
  have "r_idle R2" "r_file R2 = file_of es @ rest" using R2 R1(6,7) by (simp_all add: r_idle_def)
  moreover have "elements_fit es" using Cons.prems(3) by (simp add: elements_fit_def)
  ultimately obtain R' where "r_idle R'" "r_file R' = rest"
      "show_main R2 = obind (show_main R') (\<lambda>out. Done (concat (map show_root es) @ out))"
    using Cons.IH by blast
  with step show ?case by (cases "show_main R'") auto
qed

text \<open>
  C10: \<open>show_file\<close> prints an undamaged file as its element trees: for each root element its
  length, a dump of its bytes, the tree indented by two spaces a level with every string
  quoted, and whether it carries a checksum, then the end of the file.
\<close>

theorem show_file_prints_trees:
  assumes "malloc_ok malloc" and "elements_fit es"
  shows "show_main (file_reader_init malloc (file_of es))
    = Done (concat (map show_root es) @ ''End of file'' @ [newline])"
proof -
  obtain R where R: "r_idle R" "r_file R = []"
    and eq: "show_main (file_reader_init malloc (file_of es))
      = obind (show_main R) (\<lambda>out. Done (concat (map show_root es) @ out))"
    using show_main_prints [of "file_reader_init malloc (file_of es)" es "[]"] idle_init(1) assms
    by (auto simp: file_reader_init_def)
  from reader_begin_eof [OF R] show ?thesis
    unfolding eq by (subst show_main.simps) auto
qed

theorem show_file_prints_trees_witness:
  "show_main (file_reader_init (\<lambda>_. Some 4096) (file_of [(False, Arr [Str [65]])]))
    = Done (show_root (False, Arr [Str [65]]) @ ''End of file'' @ [newline])
   \<and> show_tree 0 (Arr [Str [65]]) = ''{'' @ [newline] @ ''  1 '' @ [CHR 0x22] @ ''A'' @ [CHR 0x22]
       @ '' as number: 65 (0x41)'' @ [newline] @ ''}'' @ [newline]"
proof
  have "elements_fit [(False, Arr [Str [65]])]"
    by (simp add: elements_fit_def enc_string_def len_code_small st_defs)
  from show_file_prints_trees [OF malloc_ok_const this]
  show "show_main (file_reader_init (\<lambda>_. Some 4096) (file_of [(False, Arr [Str [65]])]))
    = Done (show_root (False, Arr [Str [65]]) @ ''End of file'' @ [newline])" by simp
  show "show_tree 0 (Arr [Str [65]]) = ''{'' @ [newline] @ ''  1 '' @ [CHR 0x22] @ ''A'' @ [CHR 0x22]
       @ '' as number: 65 (0x41)'' @ [newline] @ ''}'' @ [newline]"
    by code_simp
qed

section \<open>Two defects\<close>

text \<open>
  A percent sign is printed unescaped: the quoted text does not determine the bytes.
\<close>

lemma print_percent_ambiguous:
  "print_string [0x25, 0x30, 0x30, 0, 65, 65, 65, 65, 65] = print_string [0, 0x25, 0x30, 0x30, 65, 65, 65, 65, 65]"
  by code_simp

text \<open>
  A wrong checksum: \<open>reader_finish\<close> reports it with the position at the end of the buffer,
  and the error path reads the byte there.
\<close>

lemma show_element_wrong_checksum:
  assumes "r_ok R" and "r_depth R = 0" and "r_ptr R = 0"
    and "r_data R = enc_element e @ ST_CRC # write_le 4 c @ [ST_DOT]" and "crc32_c (enc_element e) 0 \<noteq> c"
  shows "show_element R = Fault"
proof -
  let ?t = "ST_CRC # write_le 4 c @ [ST_DOT]" and ?R1 = "r_advance R (length (enc_element e)) 0"
  have r: "r_rest R = enc_element e @ ?t" using assms(3,4) by (simp add: r_rest_def)
  have R1: "r_ok ?R1" "r_rest ?R1 = ?t"
    using r_ok_advance [OF assms(1) r] r_rest_advance [OF r] by blast+
  have t: "r_rest ?R1 = [ST_CRC] @ write_le 4 c @ [ST_DOT]" "r_rest ?R1 = ?t @ []" using R1(2) by simp_all
  have loop: "show_loop R 0 = Done (show_tree 0 e, Inl ?R1)"
    using show_loop_element(1) [of R 0 e, OF assms(1) _ r] assms(2) by (simp add: show_after_def)
  have "reader_finish ?R1 True = Failed"
    using reader_finish_crc [of ?R1 "enc_element e" c True] R1(1) assms(2-5) by simp
  moreover have "reader_next ?R1 = ST_CRC" using reader_next_Cons [OF R1] by simp
  moreover have "reader_finish_ptr ?R1 = length (r_data R)"
    using reader_ensure_space_ok [OF R1(1) t(1), of 1] reader_ensure_space_ok [OF R1(1) t(2), of 6] assms(3,4)
    by (simp add: reader_finish_ptr_def)
  ultimately have "show_end ?R1 = Done (''With checksum'', Inr (length (r_data R)))"
    by (simp add: show_end_def read_or_stop_def st_defs)
  then show ?thesis by (simp add: show_element_def loop show_error_def)
qed

end
