(* ===== verification/Lock.thy ===== *)
theory Lock
  imports Prelude
begin

text \<open>
  \<open>utils/atomic.h\<close> (over \<open>utils/atomic_amd64.h\<close>) and \<open>utils/lock.h\<close>: the versioned locks.
  A memory cell is a word; an atomic operation is a function from the cell's contents to its
  result and new contents. The retry loops of \<open>l_lock\<close> are run against the contents the two
  atomic operations of each round happen to find, so that other threads may do anything to
  the cell in between; the main result is that whatever they do, the loop behaves like one
  atomic operation on the contents found by its last access.
\<close>

section \<open>Atomic operations\<close>

definition atomic_cmpswp :: "'a \<Rightarrow> 'a \<Rightarrow> 'a \<Rightarrow> bool \<times> 'a" where
  "atomic_cmpswp cell old desired = (if cell = old then (True, desired) else (False, cell))"

definition atomic_swp :: "'a \<Rightarrow> 'a \<Rightarrow> 'a \<times> 'a" where
  "atomic_swp cell desired = (cell, desired)"

definition atomic_fetch_and_add :: "'a::len word \<Rightarrow> 'a word \<Rightarrow> 'a word \<times> 'a word" where
  "atomic_fetch_and_add cell x = (cell, cell + x)"

definition atomic_add_and_fetch :: "'a::len word \<Rightarrow> 'a word \<Rightarrow> 'a word \<times> 'a word" where
  "atomic_add_and_fetch cell x = (x + fst (atomic_fetch_and_add cell x), snd (atomic_fetch_and_add cell x))"

definition atomic_inc :: "'a::len word \<Rightarrow> 'a word" where
  "atomic_inc cell = snd (atomic_fetch_and_add cell 1)"

definition atomic_dec :: "'a::len word \<Rightarrow> 'a word" where
  "atomic_dec cell = snd (atomic_fetch_and_add cell (- 1))"

lemma atomic_simps [lock_simps]:
  "atomic_add_and_fetch c x = (c + x, c + x)"
  "atomic_fetch_and_add c x = (c, c + x)"
  "atomic_inc c = c + 1"
  "atomic_dec c = c - 1"
  by (simp_all add: atomic_add_and_fetch_def atomic_fetch_and_add_def atomic_inc_def
      atomic_dec_def add.commute)

section \<open>The lock\<close>

text \<open>The value of an unlocked lock is odd, it is the version; otherwise it is the owner.\<close>

record Lock =
  l_value :: u64

definition l_init :: Lock where
  "l_init = \<lparr>l_value = 1\<rparr>"

text \<open>\<open>(v & 1) ? (v <= version) : (v == (uint64_t)ptr)\<close>; the loops test its negation.\<close>

definition l_permits :: "u64 \<Rightarrow> u64 \<Rightarrow> u64 \<Rightarrow> bool" where
  "l_permits v ptr version = (if v AND 1 \<noteq> 0 then v \<le> version else v = ptr)"

definition l_check :: "Lock \<Rightarrow> u64 \<Rightarrow> u64 \<Rightarrow> bool" where
  "l_check l ptr version = (let v = l_value l in
     if v AND 1 \<noteq> 0 then v \<le> version else v = ptr)"

text \<open>
  The two atomic accesses of one round of \<open>l_lock\<close> and \<open>l_lock_\<close>: the read with the test that
  follows it (\<open>None\<close>: the call returns 0) and the compare-and-swap on the value read.
\<close>

definition l_lock_read :: "Lock \<Rightarrow> u64 \<Rightarrow> u64 \<Rightarrow> u64 option" where
  "l_lock_read l ptr version = (let v = l_value l in
     if (if v AND 1 \<noteq> 0 then v > version else v \<noteq> ptr) then None else Some v)"

definition l_lock_swap :: "Lock \<Rightarrow> u64 \<Rightarrow> u64 \<Rightarrow> bool \<times> Lock" where
  "l_lock_swap l v ptr = (case atomic_cmpswp (l_value l) v ptr of
     (b, w) \<Rightarrow> (b, \<lparr>l_value = w\<rparr>))"

text \<open>The value returned after a successful swap: \<open>1 + (v == (uint64_t)ptr)\<close>.\<close>

definition l_lock_result :: "u64 \<Rightarrow> u64 \<Rightarrow> nat" where
  "l_lock_result v ptr = 1 + (if v = ptr then 1 else 0)"

text \<open>
  The loops. One round reads the cell (the first component of the observation) and, if the
  value permits it, compares and swaps on what the cell holds by then (the second). \<open>None\<close>:
  still spinning after the rounds observed. The results are the return value and the new
  contents.
\<close>

fun l_lock_version :: "(Lock \<times> Lock) list \<Rightarrow> u64 \<Rightarrow> u64 \<Rightarrow> (u64 \<times> Lock) option" where
  "l_lock_version [] ptr version = None"
| "l_lock_version ((r, c) # obs) ptr version = (case l_lock_read r ptr version of
     None \<Rightarrow> Some (0, r)
   | Some v \<Rightarrow> (case l_lock_swap c v ptr of
       (True, l) \<Rightarrow> Some (v, l)
     | (False, l) \<Rightarrow> l_lock_version obs ptr version))"

fun l_lock_loop :: "(Lock \<times> Lock) list \<Rightarrow> u64 \<Rightarrow> u64 \<Rightarrow> (nat \<times> Lock) option" where
  "l_lock_loop [] ptr version = None"
| "l_lock_loop ((r, c) # obs) ptr version = (case l_lock_read r ptr version of
     None \<Rightarrow> Some (0, r)
   | Some v \<Rightarrow> (case l_lock_swap c v ptr of
       (True, l) \<Rightarrow> Some (l_lock_result v ptr, l)
     | (False, l) \<Rightarrow> l_lock_loop obs ptr version))"

text \<open>
  \<open>l_lock\<close> the way the rest of the development uses it: the loop run by a thread that is not
  disturbed between its two accesses (it returns in its first round, \<open>l_lock_loop_alone\<close>).
\<close>

definition l_lock :: "Lock \<Rightarrow> u64 \<Rightarrow> u64 \<Rightarrow> nat \<times> Lock" where
  "l_lock l ptr version = (case l_lock_loop [(l, l)] ptr version of
     Some result \<Rightarrow> result
   | None \<Rightarrow> (0, l))"

definition l_unlock :: "Lock \<Rightarrow> u64 \<Rightarrow> u64 \<Rightarrow> bool \<times> Lock" where
  "l_unlock l ptr version = (case atomic_cmpswp (l_value l) ptr version of
     (b, w) \<Rightarrow> (b, \<lparr>l_value = w\<rparr>))"

section \<open>Linearizability of the loops\<close>

lemma l_check_permits: "l_check l ptr version = l_permits (l_value l) ptr version"
  by (simp add: l_check_def l_permits_def Let_def)

lemma l_lock_read_eq:
  "l_lock_read l ptr version = (if l_permits (l_value l) ptr version then Some (l_value l) else None)"
  by (auto simp: l_lock_read_def l_permits_def not_le Let_def)

lemma l_lock_swap_eq:
  "l_lock_swap l v ptr = (if l_value l = v then (True, \<lparr>l_value = ptr\<rparr>) else (False, l))"
  by (simp add: l_lock_swap_def atomic_cmpswp_def)

text \<open>The undisturbed call as one test-and-set.\<close>

lemma l_lock_eq:
  "l_lock l ptr version =
    (if l_permits (l_value l) ptr version
     then (if l_value l = ptr then 2 else 1, \<lparr>l_value = ptr\<rparr>)
     else (0, l))"
  by (simp add: l_lock_def l_lock_read_eq l_lock_swap_eq l_lock_result_def)

lemma l_lock_loop_Cons:
  "l_lock_loop ((r, c) # obs) ptr version =
    (if \<not> l_permits (l_value r) ptr version then Some (0, r)
     else if l_value c = l_value r then Some (l_lock c ptr version)
     else l_lock_loop obs ptr version)"
  by (auto simp: l_lock_read_eq l_lock_swap_eq l_lock_eq l_lock_result_def)

lemma l_lock_version_Cons:
  "l_lock_version ((r, c) # obs) ptr version =
    (if \<not> l_permits (l_value r) ptr version then Some (0, r)
     else if l_value c = l_value r then Some (l_value c, snd (l_lock c ptr version))
     else l_lock_version obs ptr version)"
  by (auto simp: l_lock_read_eq l_lock_swap_eq l_lock_eq)

text \<open>
  The retry loop of \<open>l_lock\<close> is linearizable: when it returns, its result and the new
  contents of the lock are those of one atomic test-and-set on the contents found by one of
  its own accesses, no matter how other threads changed the lock between the read and the
  compare-and-swap of every round.
\<close>

theorem l_lock_linearizable:
  assumes "l_lock_loop obs ptr version = Some (res, l')"
  shows "\<exists>l \<in> fst ` set obs \<union> snd ` set obs. l_lock l ptr version = (res, l')"
  using assms
proof (induction obs)
  case Nil
  then show ?case by simp
next
  case (Cons rc obs)
  obtain r c where rc: "rc = (r, c)" by force
  show ?case
  proof (cases "l_permits (l_value r) ptr version")
    case False
    with Cons.prems have "res = 0" "l' = r" by (simp_all add: rc l_lock_loop_Cons del: l_lock_loop.simps)
    with False show ?thesis by (auto simp: rc l_lock_eq)
  next
    case True
    with Cons show ?thesis
      by (cases "l_value c = l_value r") (auto simp: rc l_lock_loop_Cons simp del: l_lock_loop.simps)
  qed
qed

theorem l_lock_linearizable_witness:
  "\<exists>l \<in> fst ` set [(\<lparr>l_value = 3\<rparr>, \<lparr>l_value = 4096\<rparr>), (\<lparr>l_value = 5\<rparr>, \<lparr>l_value = 5\<rparr>)]
      \<union> snd ` set [(\<lparr>l_value = 3\<rparr>, \<lparr>l_value = 4096\<rparr>), (\<lparr>l_value = 5\<rparr>, \<lparr>l_value = 5\<rparr>)].
    l_lock l 64 9 = (1, \<lparr>l_value = 64\<rparr>)"
  by (rule l_lock_linearizable) (simp add: l_lock_read_def l_lock_swap_def l_lock_result_def atomic_cmpswp_def)

text \<open>Alone with the lock the loop returns in its first round.\<close>

lemma l_lock_loop_alone: "l_lock_loop [(l, l)] ptr version = Some (l_lock l ptr version)"
  by (simp add: l_lock_loop_Cons l_lock_eq del: l_lock_loop.simps)

section \<open>Versions and owners\<close>

definition is_version :: "u64 \<Rightarrow> bool" where
  "is_version v \<longleftrightarrow> v AND 1 \<noteq> 0"

lemma is_version_bit: "is_version v \<longleftrightarrow> bit v 0"
  using and_exp_eq_0_iff_not_bit [of v 0] by (simp add: is_version_def)

lemma is_version_odd: "is_version v \<longleftrightarrow> odd (unat v)"
proof -
  have "bit (unat v) 0 \<longleftrightarrow> bit v 0" by (simp only: bit_unsigned_iff possible_bit_nat) simp
  moreover have "bit (unat v) 0 \<longleftrightarrow> odd (unat v)" by (rule bit_0)
  ultimately show ?thesis by (simp add: is_version_bit)
qed

lemma l_permits_cases [lock_simps]:
  "is_version v \<Longrightarrow> l_permits v ptr version \<longleftrightarrow> v \<le> version"
  "\<not> is_version v \<Longrightarrow> l_permits v ptr version \<longleftrightarrow> v = ptr"
  by (simp_all add: l_permits_def is_version_def)

lemma l_lock_success:
  "fst (l_lock l ptr version) \<noteq> 0 \<longleftrightarrow> l_permits (l_value l) ptr version"
  "fst (l_lock l ptr version) \<noteq> 0 \<Longrightarrow> l_value (snd (l_lock l ptr version)) = ptr"
  "fst (l_lock l ptr version) = 0 \<Longrightarrow> snd (l_lock l ptr version) = l"
  by (auto simp: l_lock_eq split: if_splits)

lemma l_unlock_owner: "l_value l = ptr \<Longrightarrow> l_unlock l ptr version = (True, \<lparr>l_value = version\<rparr>)"
  by (simp add: l_unlock_def atomic_cmpswp_def)

lemma l_unlock_other: "l_value l \<noteq> ptr \<Longrightarrow> l_unlock l ptr version = (False, l)"
  by (simp add: l_unlock_def atomic_cmpswp_def)

section \<open>The protocol\<close>

text \<open>
  Threads, named by the pointer they lock with, share one lock; every step is one atomic access
  of one of them, so the accesses of different calls interleave in every way. A thread is
  outside of the lock's functions, before the read of a round, or between the read and the
  compare-and-swap; the contents found by the finished rounds are kept with it. The flag tells
  \<open>l_lock_\<close> from \<open>l_lock\<close>.
\<close>

datatype lock_pc = Outside
  | Before_read bool u64 "(Lock \<times> Lock) list"
  | Before_swap bool u64 "(Lock \<times> Lock) list" Lock u64

text \<open>What a thread gets to know: the observations of a call with its result, and so on.\<close>

datatype lock_event = Progress
  | Got u64 "(Lock \<times> Lock) list" nat
  | Got_version u64 "(Lock \<times> Lock) list" u64
  | Unlocked u64 bool
  | Checked u64 bool

text \<open>
  \<open>lk_held\<close> is the threads' own book-keeping: a thread holds the lock from a call that told it
  so until its \<open>l_unlock\<close> succeeded.
\<close>

record Locking =
  lk_cell :: Lock
  lk_pc :: "u64 \<Rightarrow> lock_pc"
  lk_held :: "u64 \<Rightarrow> bool"

definition locking_init :: Locking where
  "locking_init = \<lparr>lk_cell = l_init, lk_pc = (\<lambda>_. Outside), lk_held = (\<lambda>_. False)\<rparr>"

definition lk_goto :: "u64 \<Rightarrow> lock_pc \<Rightarrow> Locking \<Rightarrow> Locking" where
  "lk_goto p pc \<sigma> = \<sigma>\<lparr>lk_pc := (lk_pc \<sigma>)(p := pc)\<rparr>"

inductive lock_step :: "u64 \<Rightarrow> lock_event \<Rightarrow> Locking \<Rightarrow> Locking \<Rightarrow> bool" where
  call: "lk_pc \<sigma> p = Outside \<Longrightarrow> \<not> is_version p \<Longrightarrow>
    lock_step p Progress \<sigma> (lk_goto p (Before_read dump t []) \<sigma>)"
| refused: "lk_pc \<sigma> p = Before_read False t obs \<Longrightarrow> l_lock_read (lk_cell \<sigma>) p t = None \<Longrightarrow>
    lock_step p (Got t (obs @ [(lk_cell \<sigma>, lk_cell \<sigma>)]) 0) \<sigma> (lk_goto p Outside \<sigma>)"
| refused_version: "lk_pc \<sigma> p = Before_read True t obs \<Longrightarrow> l_lock_read (lk_cell \<sigma>) p t = None \<Longrightarrow>
    lock_step p (Got_version t (obs @ [(lk_cell \<sigma>, lk_cell \<sigma>)]) 0) \<sigma> (lk_goto p Outside \<sigma>)"
| read: "lk_pc \<sigma> p = Before_read dump t obs \<Longrightarrow> l_lock_read (lk_cell \<sigma>) p t = Some v \<Longrightarrow>
    lock_step p Progress \<sigma> (lk_goto p (Before_swap dump t obs (lk_cell \<sigma>) v) \<sigma>)"
| swapped: "lk_pc \<sigma> p = Before_swap False t obs r v \<Longrightarrow> l_lock_swap (lk_cell \<sigma>) v p = (True, l) \<Longrightarrow>
    lock_step p (Got t (obs @ [(r, lk_cell \<sigma>)]) (l_lock_result v p)) \<sigma>
      (lk_goto p Outside \<sigma>\<lparr>lk_cell := l, lk_held := (lk_held \<sigma>)(p := True)\<rparr>)"
| swapped_version: "lk_pc \<sigma> p = Before_swap True t obs r v \<Longrightarrow> l_lock_swap (lk_cell \<sigma>) v p = (True, l) \<Longrightarrow>
    lock_step p (Got_version t (obs @ [(r, lk_cell \<sigma>)]) v) \<sigma>
      (lk_goto p Outside \<sigma>\<lparr>lk_cell := l, lk_held := (lk_held \<sigma>)(p := True)\<rparr>)"
| again: "lk_pc \<sigma> p = Before_swap dump t obs r v \<Longrightarrow> l_lock_swap (lk_cell \<sigma>) v p = (False, l) \<Longrightarrow>
    lock_step p Progress \<sigma>
      (lk_goto p (Before_read dump t (obs @ [(r, lk_cell \<sigma>)])) \<sigma>\<lparr>lk_cell := l\<rparr>)"
| unlock: "lk_pc \<sigma> p = Outside \<Longrightarrow> \<not> is_version p \<Longrightarrow> is_version w \<Longrightarrow> l_unlock (lk_cell \<sigma>) p w = (b, l) \<Longrightarrow>
    lock_step p (Unlocked w b) \<sigma>
      (\<sigma>\<lparr>lk_cell := l, lk_held := (if b then (lk_held \<sigma>)(p := False) else lk_held \<sigma>)\<rparr>)"
| check: "lk_pc \<sigma> p = Outside \<Longrightarrow> \<not> is_version p \<Longrightarrow>
    lock_step p (Checked t (l_check (lk_cell \<sigma>) p t)) \<sigma> \<sigma>"

inductive_cases lock_stepE: "lock_step p e \<sigma> \<sigma>'"

inductive lock_reachable :: "Locking \<Rightarrow> bool" where
  start: "lock_reachable locking_init"
| step: "lock_reachable \<sigma> \<Longrightarrow> lock_step p e \<sigma> \<sigma>' \<Longrightarrow> lock_reachable \<sigma>'"

text \<open>What is known of a thread in each phase.\<close>

definition pc_ok :: "u64 \<Rightarrow> lock_pc \<Rightarrow> bool" where
  "pc_ok p pc = (case pc of
     Outside \<Rightarrow> True
   | Before_read dump t obs \<Rightarrow> \<not> is_version p
       \<and> (\<forall>more. l_lock_loop (obs @ more) p t = l_lock_loop more p t)
       \<and> (\<forall>more. l_lock_version (obs @ more) p t = l_lock_version more p t)
   | Before_swap dump t obs r v \<Rightarrow> \<not> is_version p \<and> v = l_value r \<and> l_permits v p t
       \<and> (\<forall>more. l_lock_loop (obs @ more) p t = l_lock_loop more p t)
       \<and> (\<forall>more. l_lock_version (obs @ more) p t = l_lock_version more p t))"

lemma pc_ok_simps [simp]:
  "pc_ok p Outside"
  "pc_ok p (Before_read dump t obs) \<longleftrightarrow> \<not> is_version p
       \<and> (\<forall>more. l_lock_loop (obs @ more) p t = l_lock_loop more p t)
       \<and> (\<forall>more. l_lock_version (obs @ more) p t = l_lock_version more p t)"
  "pc_ok p (Before_swap dump t obs r v) \<longleftrightarrow> \<not> is_version p \<and> v = l_value r \<and> l_permits v p t
       \<and> (\<forall>more. l_lock_loop (obs @ more) p t = l_lock_loop more p t)
       \<and> (\<forall>more. l_lock_version (obs @ more) p t = l_lock_version more p t)"
  by (simp_all add: pc_ok_def)

definition lock_inv :: "Locking \<Rightarrow> bool" where
  "lock_inv \<sigma> \<longleftrightarrow> (\<forall>p. pc_ok p (lk_pc \<sigma> p))
     \<and> (\<forall>p. lk_held \<sigma> p \<longleftrightarrow> \<not> is_version p \<and> l_value (lk_cell \<sigma>) = p)"

lemma lock_goto_simps [simp]:
  "lk_pc (lk_goto p pc \<sigma>) q = (if q = p then pc else lk_pc \<sigma> q)"
  "lk_cell (lk_goto p pc \<sigma>) = lk_cell \<sigma>"
  "lk_held (lk_goto p pc \<sigma>) = lk_held \<sigma>"
  by (simp_all add: lk_goto_def)

lemma lock_inv_init: "lock_inv locking_init"
  by (auto simp: lock_inv_def locking_init_def l_init_def is_version_def)

lemma lock_step_inv:
  assumes "lock_step p e \<sigma> \<sigma>'" "lock_inv \<sigma>"
  shows "lock_inv \<sigma>'"
proof -
  have pc: "pc_ok p (lk_pc \<sigma> p)" using assms(2) by (simp add: lock_inv_def)
  have ver: "v \<noteq> p \<Longrightarrow> l_permits v p t \<Longrightarrow> is_version v" for v t
    by (cases "is_version v") (simp_all add: l_permits_cases)
  show ?thesis using assms
    by (cases rule: lock_step.cases)
      (use pc ver in \<open>auto simp: lock_inv_def l_lock_read_eq l_lock_swap_eq l_unlock_def
        atomic_cmpswp_def split: if_splits\<close>)
qed

lemma lock_reachable_inv: "lock_reachable \<sigma> \<Longrightarrow> lock_inv \<sigma>"
  by (induction rule: lock_reachable.induct) (auto intro: lock_inv_init lock_step_inv)

text \<open>The answer of \<open>l_lock\<close>, read off the step that delivers it.\<close>

lemma lock_step_got:
  assumes "lock_step p (Got t obs res) \<sigma> \<sigma>'" "lock_inv \<sigma>"
  shows "l_lock_loop obs p t = Some (res, lk_cell \<sigma>') \<and>
    (let v = l_value (lk_cell \<sigma>) in
      res = 0 \<and> (if is_version v then t < v else v \<noteq> p) \<and> lk_cell \<sigma>' = lk_cell \<sigma> \<and> lk_held \<sigma>' = lk_held \<sigma>
      \<or> res = 1 \<and> is_version v \<and> v \<le> t \<and> l_value (lk_cell \<sigma>') = p \<and> lk_held \<sigma>' = (lk_held \<sigma>)(p := True)
      \<or> res = 2 \<and> lk_held \<sigma> p \<and> lk_cell \<sigma>' = lk_cell \<sigma> \<and> lk_held \<sigma>' = lk_held \<sigma>)"
  using assms(1)
proof (cases rule: lock_step.cases)
  case (refused obs')
  with assms(2) have "pc_ok p (Before_read False t obs')" by (metis lock_inv_def)
  with refused show ?thesis
    by (auto simp: l_lock_read_eq Let_def l_permits_cases split: if_splits)
next
  case (swapped obs' r v l)
  with assms(2) have pc: "pc_ok p (Before_swap False t obs' r v)" by (metis lock_inv_def)
  from swapped pc have l: "l_value (lk_cell \<sigma>) = v" "l = \<lparr>l_value = p\<rparr>" "l_value r = v"
    by (auto simp: l_lock_swap_eq split: if_splits)
  show ?thesis
  proof (cases "is_version v")
    case True
    with swapped pc l show ?thesis
      by (auto simp: l_lock_read_eq l_lock_swap_eq l_lock_result_def Let_def l_permits_cases)
  next
    case False
    with swapped pc l have "v = p" "lk_held \<sigma> p" using assms(2)
      by (auto simp: l_permits_cases lock_inv_def)
    with swapped pc l show ?thesis
      by (cases "lk_cell \<sigma>") (auto simp: l_lock_read_eq l_lock_swap_eq l_lock_result_def Let_def fun_upd_idem)
  qed
qed

lemma lock_step_got_version:
  assumes "lock_step p (Got_version t obs v) \<sigma> \<sigma>'" "lock_inv \<sigma>" "is_version v"
  shows "l_lock_version obs p t = Some (v, lk_cell \<sigma>')" "lk_cell \<sigma> = \<lparr>l_value = v\<rparr>" "v \<le> t"
    "lk_held \<sigma>' p" "lock_inv \<sigma>'"
proof -
  show "lock_inv \<sigma>'" by (rule lock_step_inv [OF assms(1,2)])
  from assms(1) have *: "l_lock_version obs p t = Some (v, lk_cell \<sigma>') \<and> lk_cell \<sigma> = \<lparr>l_value = v\<rparr>
      \<and> v \<le> t \<and> lk_held \<sigma>' p"
  proof (cases rule: lock_step.cases)
    case (refused_version obs')
    with assms(3) show ?thesis by (simp add: is_version_def)
  next
    case (swapped_version obs' r l)
    with assms(2) have pc: "pc_ok p (Before_swap True t obs' r v)" by (metis lock_inv_def)
    with swapped_version assms(3) show ?thesis
      by (cases "lk_cell \<sigma>") (auto simp: l_lock_read_eq l_lock_swap_eq l_permits_cases split: if_splits)
  qed
  then show "l_lock_version obs p t = Some (v, lk_cell \<sigma>')" "lk_cell \<sigma> = \<lparr>l_value = v\<rparr>" "v \<le> t"
    "lk_held \<sigma>' p" by simp_all
qed

lemma lock_step_checked:
  "lock_step p (Checked t b) \<sigma> \<sigma>' \<Longrightarrow> lock_inv \<sigma> \<Longrightarrow>
    \<sigma>' = \<sigma> \<and> b = (lk_held \<sigma> p \<or> is_version (l_value (lk_cell \<sigma>)) \<and> l_value (lk_cell \<sigma>) \<le> t)"
  by (erule lock_stepE)
    (auto simp: l_check_permits l_permits_def is_version_def lock_inv_def)

lemma lock_step_unlocked:
  "lock_step p (Unlocked w b) \<sigma> \<sigma>' \<Longrightarrow> lock_inv \<sigma> \<Longrightarrow>
    b = lk_held \<sigma> p \<and> (if b then lk_cell \<sigma>' = \<lparr>l_value = w\<rparr> \<and> lk_held \<sigma>' = (\<lambda>_. False) else \<sigma>' = \<sigma>)"
  by (erule lock_stepE)
    (auto simp: l_unlock_def atomic_cmpswp_def lock_inv_def fun_eq_iff split: if_splits)

text \<open>A held lock is out of the others' reach.\<close>

lemma lock_step_other:
  assumes "lock_step p e \<sigma> \<sigma>'" "lock_inv \<sigma>" "q \<noteq> p"
  shows "lk_held \<sigma>' q = lk_held \<sigma> q" "lk_held \<sigma> q \<Longrightarrow> lk_cell \<sigma>' = lk_cell \<sigma>"
proof -
  have pc: "pc_ok p (lk_pc \<sigma> p)" using assms(2) by (simp add: lock_inv_def)
  show "lk_held \<sigma>' q = lk_held \<sigma> q"
    using assms(1,3) by (cases rule: lock_step.cases) auto
  assume "lk_held \<sigma> q"
  with assms(2,3) have v: "\<not> is_version (l_value (lk_cell \<sigma>))" "l_value (lk_cell \<sigma>) \<noteq> p"
    by (auto simp: lock_inv_def)
  from assms(1) show "lk_cell \<sigma>' = lk_cell \<sigma>"
    by (cases rule: lock_step.cases)
      (use v pc in \<open>auto simp: l_lock_swap_eq l_permits_cases l_unlock_def atomic_cmpswp_def split: if_splits\<close>)
qed

definition step_of_another :: "u64 \<Rightarrow> Locking \<Rightarrow> Locking \<Rightarrow> bool" where
  "step_of_another p \<sigma> \<sigma>' \<longleftrightarrow> (\<exists>q e. q \<noteq> p \<and> lock_step q e \<sigma> \<sigma>')"

lemma others_keep_lock:
  assumes "(step_of_another p)\<^sup>*\<^sup>* \<sigma> \<sigma>'" "lock_inv \<sigma>" "lk_held \<sigma> p"
  shows "lock_inv \<sigma>' \<and> lk_held \<sigma>' p \<and> lk_cell \<sigma>' = lk_cell \<sigma>"
  using assms
proof (induction rule: rtranclp_induct)
  case (step y z)
  then obtain q e where qe: "q \<noteq> p" "lock_step q e y z" by (auto simp: step_of_another_def)
  from step lock_step_other [OF qe(2) _ qe(1) [symmetric]] lock_step_inv [OF qe(2)]
  show ?case by metis
qed simp

lemma lock_step_version_restored:
  assumes "lock_step p (Got_version t obs v) \<sigma> \<sigma>1" "is_version v" "(step_of_another p)\<^sup>*\<^sup>* \<sigma>1 \<sigma>2"
    and "lock_step p (Unlocked v b) \<sigma>2 \<sigma>3" "lock_inv \<sigma>"
  shows "l_lock_version obs p t = Some (v, lk_cell \<sigma>1) \<and> v \<le> t \<and> b \<and> lk_cell \<sigma>3 = lk_cell \<sigma>"
  using lock_step_got_version [OF assms(1,5,2)] others_keep_lock [OF assms(3)]
    lock_step_unlocked [OF assms(4)] by auto

text \<open>
  C11: the lock protocol over every interleaving of the atomic accesses of any number of
  threads, each in the retry loop of \<open>l_lock\<close> or \<open>l_lock_\<close> or at an \<open>l_unlock\<close> or \<open>l_check\<close>. At
  most one thread holds the lock, and a thread holds it exactly when the cell is its pointer;
  every answer of \<open>l_lock\<close> is the loop's on the contents the call found, 0 only when its read
  met a version newer than its time or another owner (and then it changed nothing), 1 only
  when its swap found an unlocked lock with a version no newer than its time, 2 only when it
  held the lock already; \<open>l_check\<close> passes for the holder and on an unlocked version no newer
  than the time; \<open>l_unlock\<close> succeeds for the holder and only for the holder; no step of another
  thread changes a held lock; and when \<open>l_lock_\<close> returned a version, unlocking with it after any
  steps of others restores what the swap found.
\<close>

theorem lock_protocol:
  assumes "lock_reachable \<sigma>"
  shows "(\<forall>p. lk_held \<sigma> p \<longleftrightarrow> \<not> is_version p \<and> l_value (lk_cell \<sigma>) = p)
    \<and> (\<forall>p q. lk_held \<sigma> p \<and> lk_held \<sigma> q \<longrightarrow> p = q)
    \<and> (\<forall>p t obs res \<sigma>'. lock_step p (Got t obs res) \<sigma> \<sigma>' \<longrightarrow>
        l_lock_loop obs p t = Some (res, lk_cell \<sigma>') \<and>
        (let v = l_value (lk_cell \<sigma>) in
          res = 0 \<and> (if is_version v then t < v else v \<noteq> p)
            \<and> lk_cell \<sigma>' = lk_cell \<sigma> \<and> lk_held \<sigma>' = lk_held \<sigma>
          \<or> res = 1 \<and> is_version v \<and> v \<le> t
            \<and> l_value (lk_cell \<sigma>') = p \<and> lk_held \<sigma>' = (lk_held \<sigma>)(p := True)
          \<or> res = 2 \<and> lk_held \<sigma> p \<and> lk_cell \<sigma>' = lk_cell \<sigma> \<and> lk_held \<sigma>' = lk_held \<sigma>))
    \<and> (\<forall>p t b \<sigma>'. lock_step p (Checked t b) \<sigma> \<sigma>' \<longrightarrow> \<sigma>' = \<sigma> \<and>
        b = (lk_held \<sigma> p \<or> is_version (l_value (lk_cell \<sigma>)) \<and> l_value (lk_cell \<sigma>) \<le> t))
    \<and> (\<forall>p w b \<sigma>'. lock_step p (Unlocked w b) \<sigma> \<sigma>' \<longrightarrow> b = lk_held \<sigma> p \<and>
        (if b then lk_cell \<sigma>' = \<lparr>l_value = w\<rparr> \<and> lk_held \<sigma>' = (\<lambda>_. False) else \<sigma>' = \<sigma>))
    \<and> (\<forall>p q e \<sigma>'. lock_step p e \<sigma> \<sigma>' \<and> q \<noteq> p \<longrightarrow> lk_held \<sigma>' q = lk_held \<sigma> q
        \<and> (lk_held \<sigma> q \<longrightarrow> lk_cell \<sigma>' = lk_cell \<sigma>))
    \<and> (\<forall>p t obs v b \<sigma>1 \<sigma>2 \<sigma>3. lock_step p (Got_version t obs v) \<sigma> \<sigma>1 \<and> is_version v
        \<and> (step_of_another p)\<^sup>*\<^sup>* \<sigma>1 \<sigma>2 \<and> lock_step p (Unlocked v b) \<sigma>2 \<sigma>3 \<longrightarrow>
        l_lock_version obs p t = Some (v, lk_cell \<sigma>1) \<and> v \<le> t \<and> b \<and> lk_cell \<sigma>3 = lk_cell \<sigma>)"
proof -
  have inv: "lock_inv \<sigma>" by (rule lock_reachable_inv [OF assms])
  then have held: "\<forall>p. lk_held \<sigma> p \<longleftrightarrow> \<not> is_version p \<and> l_value (lk_cell \<sigma>) = p"
    by (simp add: lock_inv_def)
  then have mutex: "\<forall>p q. lk_held \<sigma> p \<and> lk_held \<sigma> q \<longrightarrow> p = q" by auto
  show ?thesis
  proof (intro conjI)
    show "\<forall>p. lk_held \<sigma> p \<longleftrightarrow> \<not> is_version p \<and> l_value (lk_cell \<sigma>) = p" by (rule held)
    show "\<forall>p q. lk_held \<sigma> p \<and> lk_held \<sigma> q \<longrightarrow> p = q" by (rule mutex)
  qed (intro allI impI, (elim conjE)?, (rule lock_step_got [OF _ inv] lock_step_checked [OF _ inv]
      lock_step_unlocked [OF _ inv] lock_step_version_restored [OF _ _ _ _ inv]
      conjI [OF lock_step_other(1) [OF _ inv] impI [OF lock_step_other(2) [OF _ inv]]]; assumption))+
qed

text \<open>Thread 64 takes the lock, thread 128 reads in between and finds its swap refused.\<close>

definition demo_locking :: Locking where
  "demo_locking = \<lparr>lk_cell = \<lparr>l_value = 64\<rparr>,
     lk_pc = (\<lambda>_. Outside)(128 := Before_read False 9 [(\<lparr>l_value = 1\<rparr>, \<lparr>l_value = 64\<rparr>)]),
     lk_held = (\<lambda>_. False)(64 := True)\<rparr>"

lemma demo_locking_reachable: "lock_reachable demo_locking"
proof -
  let ?one = "\<lparr>l_value = 1\<rparr> :: Lock"
  have even: "\<not> is_version 64" "\<not> is_version 128" by (simp_all add: is_version_def)
  note mv = lock_reachable.step
  have 1: "lock_reachable (lk_goto 64 (Before_read False 9 []) locking_init)"
    using mv [OF lock_reachable.start lock_step.call [of _ 64 False 9]] even by (simp add: locking_init_def)
  have 2: "lock_reachable (lk_goto 64 (Before_swap False 9 [] ?one 1) locking_init)"
    using mv [OF 1 lock_step.read [of _ 64 False 9 "[]" 1]]
    by (simp add: locking_init_def l_init_def lk_goto_def l_lock_read_def)
  have 3: "lock_reachable (lk_goto 128 (Before_read False 9 [])
      (lk_goto 64 (Before_swap False 9 [] ?one 1) locking_init))"
    using mv [OF 2 lock_step.call [of _ 128 False 9]] even by (simp add: locking_init_def)
  have 4: "lock_reachable (lk_goto 128 (Before_swap False 9 [] ?one 1)
      (lk_goto 64 (Before_swap False 9 [] ?one 1) locking_init))"
    using mv [OF 3 lock_step.read [of _ 128 False 9 "[]" 1]]
    by (simp add: locking_init_def l_init_def lk_goto_def l_lock_read_def)
  have 5: "lock_reachable (demo_locking\<lparr>lk_pc := (lk_pc demo_locking)(128 := Before_swap False 9 [] ?one 1)\<rparr>)"
    using mv [OF 4 lock_step.swapped [of _ 64 9 "[]" ?one 1]]
    by (simp add: locking_init_def l_init_def lk_goto_def l_lock_swap_def atomic_cmpswp_def
        demo_locking_def fun_upd_twist fun_upd_idem)
  show ?thesis
    using mv [OF 5 lock_step.again [of _ 128 False 9 "[]" ?one 1]]
    by (simp add: lk_goto_def l_lock_swap_def atomic_cmpswp_def demo_locking_def)
qed

theorem lock_protocol_witness:
  "lock_reachable demo_locking \<and> lk_held demo_locking 64 \<and> \<not> lk_held demo_locking 128
    \<and> (\<exists>\<sigma>1 \<sigma>2. lock_step 128
          (Got 9 [(\<lparr>l_value = 1\<rparr>, \<lparr>l_value = 64\<rparr>), (\<lparr>l_value = 64\<rparr>, \<lparr>l_value = 64\<rparr>)] 0) demo_locking \<sigma>1
        \<and> lk_cell \<sigma>1 = \<lparr>l_value = 64\<rparr>
        \<and> lock_step 64 (Unlocked 11 True) demo_locking \<sigma>2 \<and> lk_cell \<sigma>2 = \<lparr>l_value = 11\<rparr>)
    \<and> \<not> (\<exists>w \<sigma>'. lock_step 192 (Unlocked w True) demo_locking \<sigma>')"
proof -
  have h: "lk_held demo_locking 64" "\<not> lk_held demo_locking 128" "\<not> lk_held demo_locking 192"
    "lk_cell demo_locking = \<lparr>l_value = 64\<rparr>"
    by (simp_all add: demo_locking_def)
  note * = lock_protocol [OF demo_locking_reachable]
  note got = * [THEN conjunct2, THEN conjunct2, THEN conjunct1, rule_format]
  note unlocked = * [THEN conjunct2, THEN conjunct2, THEN conjunct2, THEN conjunct2, THEN conjunct1, rule_format]
  have a: "lock_step 128 (Got 9 ([(\<lparr>l_value = 1\<rparr>, \<lparr>l_value = 64\<rparr>)] @ [(lk_cell demo_locking, lk_cell demo_locking)]) 0)
      demo_locking (lk_goto 128 Outside demo_locking)"
    by (rule lock_step.refused) (simp_all add: demo_locking_def l_lock_read_def)
  have b: "lock_step 64 (Unlocked 11 True) demo_locking
      (demo_locking\<lparr>lk_cell := \<lparr>l_value = 11\<rparr>,
        lk_held := (if True then (lk_held demo_locking)(64 := False) else lk_held demo_locking)\<rparr>)"
    by (rule lock_step.unlock)
      (simp_all add: demo_locking_def is_version_def l_unlock_def atomic_cmpswp_def)
  have ca: "lk_cell (lk_goto 128 Outside demo_locking) = \<lparr>l_value = 64\<rparr>"
    using got [OF a] h(4) by auto
  let ?s = "demo_locking\<lparr>lk_cell := \<lparr>l_value = 11\<rparr>,
    lk_held := (if True then (lk_held demo_locking)(64 := False) else lk_held demo_locking)\<rparr>"
  have cb: "lk_cell ?s = \<lparr>l_value = 11\<rparr>" using unlocked [OF b] by auto
  have "\<exists>\<sigma>1. lock_step 128
      (Got 9 [(\<lparr>l_value = 1\<rparr>, \<lparr>l_value = 64\<rparr>), (\<lparr>l_value = 64\<rparr>, \<lparr>l_value = 64\<rparr>)] 0) demo_locking \<sigma>1
      \<and> lk_cell \<sigma>1 = \<lparr>l_value = 64\<rparr>"
    using a ca h(4) by auto
  moreover have "\<exists>\<sigma>2. lock_step 64 (Unlocked 11 True) demo_locking \<sigma>2 \<and> lk_cell \<sigma>2 = \<lparr>l_value = 11\<rparr>"
    using b cb by blast
  moreover have "\<not> lock_step 192 (Unlocked w True) demo_locking \<sigma>'" for w \<sigma>'
    using unlocked [of 192 w True \<sigma>'] h(3) by auto
  ultimately show ?thesis using h(1,2) demo_locking_reachable by blast
qed

end
