(* ===== verification/Stm.thy ===== *)
theory Stm
  imports Lock
begin

text \<open>
  The transactional memory under concurrency: \<open>trRead\<close>, \<open>trUncheckedRead\<close>, \<open>trWrite\<close> of
  \<open>database.include/macros.h\<close>, \<open>util_lock\<close> of \<open>utils/utils.h\<close>, \<open>tr_begin\<close>, \<open>tr_validate\<close> of
  \<open>database.include/inline.h\<close>, \<open>_tr_commit_main\<close>, \<open>_tr_abort_main\<close>, \<open>log_undo_item\<close>,
  \<open>_tr_unlock\<close> of \<open>database.include/transaction.c\<close> and the dumping thread's locking of
  \<open>do_dump\<close> (\<open>database.include/threads.c\<close>), cut into the steps between which other threads
  can run: every access to shared memory (a lock word, a field of an object, the clock) is a
  step of its own. A schedule is a list of such steps.

  Configuration: the defaults of \<open>database.types/enums.h\<close> (locks inside the objects, and
  \<open>FAST_COMMIT\<close>: the end time is drawn before the read set is validated).
\<close>

section \<open>State\<close>

type_synonym val = "byte list"
type_synonym memory = "nat \<Rightarrow> nat \<Rightarrow> val"

text \<open>
  Where a handle is: \<open>Checking\<close> between a read and its \<open>l_check\<close>; \<open>Validating\<close> with its end
  time and the rest of the read set; \<open>Undoing\<close> its log; \<open>Releasing\<close> its locks with the
  version to store, after a commit or an abort.
\<close>

datatype phase =
    Idle
  | Active
  | Checking nat nat val
  | Validating u64 "nat list"
  | Undoing
  | Releasing u64 bool

text \<open>
  A handle's transaction. Objects are numbered, a field of an object holds a value. The last
  four fields are history: the values unlocked objects showed to checked reads (\<open>t_got\<close>) and to
  all reads (\<open>t_seen\<close>), and the shared memory at the instants the transaction took its start
  time (\<open>t_snap\<close>) and its end time (\<open>t_base\<close>).
\<close>

record tx =
  t_phase :: phase
  t_start :: u64
  t_reads :: "nat list"
  t_locks :: "nat list"
  t_log :: "(nat \<times> nat \<times> val) list"
  t_got :: "(nat \<times> nat \<times> val) list"
  t_seen :: "(nat \<times> nat \<times> val) list"
  t_snap :: memory
  t_base :: memory

text \<open>\<open>s_tx\<close> is indexed by the handle's address, which is also the owner value of its locks.\<close>

record stm =
  s_time :: u64
  s_lock :: "nat \<Rightarrow> Lock"
  s_mem :: memory
  s_tx :: "u64 \<Rightarrow> tx"
  s_dump :: "(nat \<times> u64) option"

definition tx_idle :: tx where
  "tx_idle = \<lparr>t_phase = Idle, t_start = 0, t_reads = [], t_locks = [], t_log = [], t_got = [],
    t_seen = [], t_snap = (\<lambda>_ _. []), t_base = (\<lambda>_ _. [])\<rparr>"

definition stm_init :: "memory \<Rightarrow> stm" where
  "stm_init m = \<lparr>s_time = 1, s_lock = (\<lambda>_. l_init), s_mem = m, s_tx = (\<lambda>_. tx_idle), s_dump = None\<rparr>"

text \<open>What \<open>lock.h\<close> requires of an owner; 0 is the owner value of the dumping thread.\<close>

definition handle_ok :: "u64 \<Rightarrow> bool" where
  "handle_ok h \<longleftrightarrow> \<not> is_version h \<and> h \<noteq> 0"

abbreviation set_tx :: "stm \<Rightarrow> u64 \<Rightarrow> tx \<Rightarrow> stm" where
  "set_tx \<sigma> h T \<equiv> \<sigma>\<lparr>s_tx := (s_tx \<sigma>)(h := T)\<rparr>"

definition mem_set :: "memory \<Rightarrow> nat \<Rightarrow> nat \<Rightarrow> val \<Rightarrow> memory" where
  "mem_set m x f v = m(x := (m x)(f := v))"

section \<open>Steps\<close>

definition stm_begin :: "u64 \<Rightarrow> stm \<Rightarrow> stm option" where
  "stm_begin h \<sigma> =
    (if handle_ok h \<and> t_phase (s_tx \<sigma> h) = Idle
     then Some (set_tx \<sigma> h (tx_idle\<lparr>t_phase := Active, t_start := s_time \<sigma>, t_snap := s_mem \<sigma>\<rparr>))
     else None)"

text \<open>\<open>_readSetAddNode\<close> and the load; a checked read must still pass \<open>l_check\<close>.\<close>

definition stm_read :: "bool \<Rightarrow> u64 \<Rightarrow> nat \<Rightarrow> nat \<Rightarrow> stm \<Rightarrow> stm option" where
  "stm_read checked h x f \<sigma> = (let T = s_tx \<sigma> h; v = s_mem \<sigma> x f in
    if t_phase T = Active
    then Some (set_tx \<sigma> h (T\<lparr>t_reads := x # t_reads T,
        t_seen := (if x \<in> set (t_locks T) then t_seen T else (x, f, v) # t_seen T),
        t_phase := (if checked then Checking x f v else Active)\<rparr>))
    else None)"

definition stm_check :: "u64 \<Rightarrow> stm \<Rightarrow> stm option" where
  "stm_check h \<sigma> = (let T = s_tx \<sigma> h in case t_phase T of
      Checking x f v \<Rightarrow>
        (if l_check (s_lock \<sigma> x) h (t_start T)
         then Some (set_tx \<sigma> h (T\<lparr>t_phase := Active,
             t_got := (if x \<in> set (t_locks T) then t_got T else (x, f, v) # t_got T)\<rparr>))
         else Some (set_tx \<sigma> h (T\<lparr>t_phase := Undoing\<rparr>)))
    | _ \<Rightarrow> None)"

text \<open>\<open>util_lock\<close>; a failure leads to \<open>tr_hard_abort\<close>.\<close>

definition stm_lock :: "u64 \<Rightarrow> nat \<Rightarrow> stm \<Rightarrow> stm option" where
  "stm_lock h x \<sigma> = (let T = s_tx \<sigma> h in
    if t_phase T = Active
    then (case l_lock (s_lock \<sigma> x) h (t_start T) of (r, l) \<Rightarrow>
      if r = 0 then Some (set_tx \<sigma> h (T\<lparr>t_phase := Undoing\<rparr>))
      else if r = 1 then
        Some (set_tx (\<sigma>\<lparr>s_lock := (s_lock \<sigma>)(x := l)\<rparr>) h (T\<lparr>t_locks := x # t_locks T\<rparr>))
      else Some \<sigma>)
    else None)"

text \<open>The store of \<open>trWrite\<close>, after its \<open>util_lock\<close> succeeded: log the old value, overwrite it.\<close>

definition stm_write :: "u64 \<Rightarrow> nat \<Rightarrow> nat \<Rightarrow> val \<Rightarrow> stm \<Rightarrow> stm option" where
  "stm_write h x f v \<sigma> = (let T = s_tx \<sigma> h in
    if t_phase T = Active \<and> x \<in> set (t_locks T)
    then Some (set_tx (\<sigma>\<lparr>s_mem := mem_set (s_mem \<sigma>) x f v\<rparr>) h
        (T\<lparr>t_log := (x, f, s_mem \<sigma> x f) # t_log T\<rparr>))
    else None)"

definition stm_abort :: "u64 \<Rightarrow> stm \<Rightarrow> stm option" where
  "stm_abort h \<sigma> = (let T = s_tx \<sigma> h in
    if t_phase T = Active then Some (set_tx \<sigma> h (T\<lparr>t_phase := Undoing\<rparr>)) else None)"

text \<open>\<open>atomic_add_and_fetch(&db->time, 2)\<close>; the clock is not driven past its 64 bits.\<close>

definition stm_tick :: "stm \<Rightarrow> (u64 \<times> stm) option" where
  "stm_tick \<sigma> =
    (if unat (s_time \<sigma>) + 2 < 2 ^ 64
     then (case atomic_add_and_fetch (s_time \<sigma>) 2 of (e, t) \<Rightarrow> Some (e, \<sigma>\<lparr>s_time := t\<rparr>))
     else None)"

text \<open>Undo the topmost log item; with the log empty, draw the end time of the abort.\<close>

definition stm_undo :: "u64 \<Rightarrow> stm \<Rightarrow> stm option" where
  "stm_undo h \<sigma> = (let T = s_tx \<sigma> h in
    if t_phase T = Undoing
    then (case t_log T of
        (x, f, old) # items \<Rightarrow>
          Some (set_tx (\<sigma>\<lparr>s_mem := mem_set (s_mem \<sigma>) x f old\<rparr>) h (T\<lparr>t_log := items\<rparr>))
      | [] \<Rightarrow> (case stm_tick \<sigma> of None \<Rightarrow> None
          | Some (e, \<sigma>) \<Rightarrow> Some (set_tx \<sigma> h (T\<lparr>t_phase := Releasing e False\<rparr>))))
    else None)"

definition stm_commit :: "u64 \<Rightarrow> stm \<Rightarrow> stm option" where
  "stm_commit h \<sigma> = (let T = s_tx \<sigma> h in
    if t_phase T = Active
    then (case stm_tick \<sigma> of None \<Rightarrow> None
      | Some (e, \<sigma>) \<Rightarrow> Some (set_tx \<sigma> h (T\<lparr>t_base := s_mem \<sigma>,
          t_phase := (if t_log T = [] then Releasing e True else Validating e (t_reads T))\<rparr>)))
    else None)"

text \<open>One round of the loop of \<open>tr_validate\<close>.\<close>

definition stm_validate :: "u64 \<Rightarrow> stm \<Rightarrow> stm option" where
  "stm_validate h \<sigma> = (let T = s_tx \<sigma> h in case t_phase T of
      Validating e (x # xs) \<Rightarrow>
        (if l_check (s_lock \<sigma> x) h (t_start T)
         then Some (set_tx \<sigma> h (T\<lparr>t_phase := Validating e xs\<rparr>))
         else Some (set_tx \<sigma> h (T\<lparr>t_phase := Undoing\<rparr>)))
    | Validating e [] \<Rightarrow> Some (set_tx \<sigma> h (T\<lparr>t_phase := Releasing e True\<rparr>))
    | _ \<Rightarrow> None)"

text \<open>One round of the loop of \<open>_tr_unlock\<close>, and \<open>handle_cleanup\<close> after the last one.\<close>

definition stm_release :: "u64 \<Rightarrow> stm \<Rightarrow> stm option" where
  "stm_release h \<sigma> = (let T = s_tx \<sigma> h in case t_phase T of
      Releasing e c \<Rightarrow> (case t_locks T of
          x # xs \<Rightarrow> Some (set_tx (\<sigma>\<lparr>s_lock := (s_lock \<sigma>)(x := snd (l_unlock (s_lock \<sigma> x) h e))\<rparr>) h
              (T\<lparr>t_locks := xs\<rparr>))
        | [] \<Rightarrow> Some (set_tx \<sigma> h tx_idle))
    | _ \<Rightarrow> None)"

text \<open>
  The dumping thread: \<open>l_lock_(lock, 0, ~0)\<close> on any object, and the unlock with the version it
  got. Finding the lock held (a dump collision) changes nothing.
\<close>

definition stm_dump_lock :: "nat \<Rightarrow> stm \<Rightarrow> stm option" where
  "stm_dump_lock x \<sigma> =
    (if s_dump \<sigma> = None
     then (case l_lock_version [(s_lock \<sigma> x, s_lock \<sigma> x)] 0 (- 1) of
         Some (v, l) \<Rightarrow> if v = 0 then Some \<sigma>
           else Some (\<sigma>\<lparr>s_lock := (s_lock \<sigma>)(x := l), s_dump := Some (x, v)\<rparr>)
       | None \<Rightarrow> None)
     else None)"

definition stm_dump_unlock :: "stm \<Rightarrow> stm option" where
  "stm_dump_unlock \<sigma> = (case s_dump \<sigma> of
      Some (x, v) \<Rightarrow>
        Some (\<sigma>\<lparr>s_lock := (s_lock \<sigma>)(x := snd (l_unlock (s_lock \<sigma> x) 0 v)), s_dump := None\<rparr>)
    | None \<Rightarrow> None)"

section \<open>Schedules\<close>

datatype action =
    A_begin u64
  | A_read bool u64 nat nat
  | A_check u64
  | A_lock u64 nat
  | A_write u64 nat nat val
  | A_abort u64
  | A_undo u64
  | A_commit u64
  | A_validate u64
  | A_release u64
  | A_dump_lock nat
  | A_dump_unlock

fun stm_exec :: "action \<Rightarrow> stm \<Rightarrow> stm option" where
  "stm_exec (A_begin h) = stm_begin h"
| "stm_exec (A_read c h x f) = stm_read c h x f"
| "stm_exec (A_check h) = stm_check h"
| "stm_exec (A_lock h x) = stm_lock h x"
| "stm_exec (A_write h x f v) = stm_write h x f v"
| "stm_exec (A_abort h) = stm_abort h"
| "stm_exec (A_undo h) = stm_undo h"
| "stm_exec (A_commit h) = stm_commit h"
| "stm_exec (A_validate h) = stm_validate h"
| "stm_exec (A_release h) = stm_release h"
| "stm_exec (A_dump_lock x) = stm_dump_lock x"
| "stm_exec A_dump_unlock = stm_dump_unlock"

fun stm_run :: "action list \<Rightarrow> stm \<Rightarrow> stm option" where
  "stm_run [] \<sigma> = Some \<sigma>"
| "stm_run (a # as) \<sigma> = Option.bind (stm_exec a \<sigma>) (stm_run as)"

inductive stm_reachable :: "memory \<Rightarrow> stm \<Rightarrow> bool" for m where
  start: "stm_reachable m (stm_init m)"
| step: "stm_reachable m \<sigma> \<Longrightarrow> stm_exec a \<sigma> = Some \<sigma>' \<Longrightarrow> stm_reachable m \<sigma>'"

lemma stm_run_reachable: "stm_reachable m \<sigma> \<Longrightarrow> stm_run as \<sigma> = Some \<sigma>' \<Longrightarrow> stm_reachable m \<sigma>'"
  by (induction as arbitrary: \<sigma>) (auto simp: bind_eq_Some_conv intro: stm_reachable.step)

section \<open>Invariants\<close>

text \<open>
  The version an object has, or will have once the thread that is releasing it is done: for a
  held lock it is known as soon as the owner has drawn its end time.
\<close>

definition stamp :: "phase \<Rightarrow> u64 option" where
  "stamp p = (case p of Validating e _ \<Rightarrow> Some e | Releasing e _ \<Rightarrow> Some e | _ \<Rightarrow> None)"

definition eff :: "stm \<Rightarrow> nat \<Rightarrow> u64 option" where
  "eff \<sigma> x = (let w = l_value (s_lock \<sigma> x) in
     if is_version w then Some w
     else if w = 0 then map_option snd (s_dump \<sigma>)
     else stamp (t_phase (s_tx \<sigma> w)))"

definition clean :: "stm \<Rightarrow> nat \<Rightarrow> u64 \<Rightarrow> bool" where
  "clean \<sigma> x s \<longleftrightarrow> (\<exists>v. eff \<sigma> x = Some v \<and> v \<le> s)"

lemma stamp_simps [simp]:
  "stamp Idle = None" "stamp Active = None" "stamp (Checking x f v) = None"
  "stamp (Validating e xs) = Some e" "stamp Undoing = None" "stamp (Releasing e c) = Some e"
  by (simp_all add: stamp_def)

text \<open>Who holds which lock.\<close>

definition inv_own :: "stm \<Rightarrow> bool" where
  "inv_own \<sigma> \<longleftrightarrow>
    (\<forall>h x. handle_ok h \<longrightarrow> (x \<in> set (t_locks (s_tx \<sigma> h)) \<longleftrightarrow> l_value (s_lock \<sigma> x) = h))
    \<and> (\<forall>h. \<not> handle_ok h \<longrightarrow> s_tx \<sigma> h = tx_idle)
    \<and> (\<forall>h. t_phase (s_tx \<sigma> h) = Idle \<longrightarrow> s_tx \<sigma> h = tx_idle)
    \<and> (\<forall>h. distinct (t_locks (s_tx \<sigma> h)))
    \<and> (\<forall>x. l_value (s_lock \<sigma> x) = 0 \<longleftrightarrow> (\<exists>v. s_dump \<sigma> = Some (x, v)))"

text \<open>Versions and times.\<close>

definition tx_times :: "u64 \<Rightarrow> tx \<Rightarrow> bool" where
  "tx_times now T \<longleftrightarrow> t_start T \<le> now \<and>
    (\<forall>e. stamp (t_phase T) = Some e \<longrightarrow> is_version e \<and> t_start T < e \<and> e \<le> now)"

definition inv_time :: "stm \<Rightarrow> bool" where
  "inv_time \<sigma> \<longleftrightarrow> is_version (s_time \<sigma>)
    \<and> (\<forall>x. is_version (l_value (s_lock \<sigma> x)) \<longrightarrow> l_value (s_lock \<sigma> x) \<le> s_time \<sigma>)
    \<and> (\<forall>x v. s_dump \<sigma> = Some (x, v) \<longrightarrow> is_version v \<and> v \<le> s_time \<sigma>)
    \<and> (\<forall>h. tx_times (s_time \<sigma>) (s_tx \<sigma> h))"

text \<open>The handle-local bookkeeping.\<close>

definition tx_books :: "tx \<Rightarrow> bool" where
  "tx_books T \<longleftrightarrow>
    ((\<forall>e c. t_phase T \<noteq> Releasing e c) \<longrightarrow> fst ` set (t_log T) \<subseteq> set (t_locks T))
    \<and> (\<forall>e. t_phase T = Releasing e False \<longrightarrow> t_log T = [])
    \<and> fst ` set (t_seen T) \<subseteq> set (t_reads T)
    \<and> (\<forall>e xs. t_phase T = Validating e xs \<longrightarrow> set xs \<subseteq> set (t_reads T))
    \<and> (\<forall>x f v. t_phase T = Checking x f v \<longrightarrow> x \<in> set (t_locks T) \<or> (x, f, v) \<in> set (t_seen T))"

text \<open>What the transaction saw of an object was its content in the snapshot.\<close>

definition seen_ok :: "tx \<Rightarrow> nat \<Rightarrow> bool" where
  "seen_ok T x \<longleftrightarrow> (\<forall>f v. (x, f, v) \<in> set (t_seen T) \<longrightarrow> v = t_snap T x f)"

definition undo_log :: "(nat \<times> nat \<times> val) list \<Rightarrow> memory \<Rightarrow> memory" where
  "undo_log items m = fold (\<lambda>(x, f, old) m. mem_set m x f old) items m"

definition clean_ok :: "stm \<Rightarrow> tx \<Rightarrow> nat \<Rightarrow> bool" where
  "clean_ok \<sigma> T x \<longleftrightarrow> s_mem \<sigma> x = t_snap T x \<and> seen_ok T x
    \<and> (\<forall>e xs. t_phase T = Validating e xs \<longrightarrow> t_base T x = t_snap T x)"

definition own_ok :: "stm \<Rightarrow> tx \<Rightarrow> nat \<Rightarrow> bool" where
  "own_ok \<sigma> T x \<longleftrightarrow> undo_log (t_log T) (s_mem \<sigma>) x = t_snap T x \<and> seen_ok T x"

definition d_clean :: "stm \<Rightarrow> tx \<Rightarrow> bool" where
  "d_clean \<sigma> T \<longleftrightarrow> (t_phase T \<noteq> Idle \<longrightarrow> (\<forall>x. clean \<sigma> x (t_start T) \<longrightarrow> clean_ok \<sigma> T x))"

definition d_own :: "stm \<Rightarrow> tx \<Rightarrow> bool" where
  "d_own \<sigma> T \<longleftrightarrow> ((\<forall>e c. t_phase T \<noteq> Releasing e c) \<longrightarrow> (\<forall>x \<in> set (t_locks T). own_ok \<sigma> T x))"

definition d_got :: "tx \<Rightarrow> bool" where
  "d_got T \<longleftrightarrow> (\<forall>x f v. (x, f, v) \<in> set (t_got T) \<longrightarrow> v = t_snap T x f)"

definition d_valid :: "tx \<Rightarrow> bool" where
  "d_valid T \<longleftrightarrow> (\<forall>e xs. t_phase T = Validating e xs \<longrightarrow> (\<forall>x \<in> set (t_reads T) - set xs.
        seen_ok T x \<and> (x \<notin> set (t_locks T) \<longrightarrow> t_base T x = t_snap T x)))"

definition d_abort :: "stm \<Rightarrow> tx \<Rightarrow> bool" where
  "d_abort \<sigma> T \<longleftrightarrow>
    (\<forall>e. t_phase T = Releasing e False \<longrightarrow> (\<forall>x \<in> set (t_locks T). s_mem \<sigma> x = t_snap T x))"

definition tx_data :: "stm \<Rightarrow> tx \<Rightarrow> bool" where
  "tx_data \<sigma> T \<longleftrightarrow> d_clean \<sigma> T \<and> d_own \<sigma> T \<and> d_got T \<and> d_valid T \<and> d_abort \<sigma> T"

lemmas d_defs = d_clean_def d_own_def d_got_def d_valid_def d_abort_def

definition stm_inv :: "stm \<Rightarrow> bool" where
  "stm_inv \<sigma> \<longleftrightarrow> inv_own \<sigma> \<and> inv_time \<sigma> \<and> (\<forall>h. tx_books (s_tx \<sigma> h)) \<and> (\<forall>h. tx_data \<sigma> (s_tx \<sigma> h))"

section \<open>The initial state\<close>

lemma tx_idle_sel [simp]:
  "t_phase tx_idle = Idle" "t_start tx_idle = 0" "t_reads tx_idle = []" "t_locks tx_idle = []"
  "t_log tx_idle = []" "t_got tx_idle = []" "t_seen tx_idle = []"
  by (simp_all add: tx_idle_def)

lemma tx_idle_ok [simp]: "tx_times now tx_idle" "tx_books tx_idle" "tx_data \<sigma> tx_idle"
  by (simp_all add: tx_times_def tx_books_def tx_data_def d_defs)

lemma is_version_1 [simp]: "is_version 1"
  by (simp add: is_version_def)

lemma not_is_version_0 [simp]: "\<not> is_version 0"
  by (simp add: is_version_def)

lemma stm_inv_init: "stm_inv (stm_init m)"
  by (auto simp: stm_inv_def inv_own_def inv_time_def stm_init_def l_init_def handle_ok_def)

section \<open>Effects on the version of an object\<close>

lemma eff_set_tx:
  "eff (set_tx \<sigma> h T) x = (if l_value (s_lock \<sigma> x) = h \<and> handle_ok h then stamp (t_phase T) else eff \<sigma> x)"
  by (auto simp: eff_def Let_def handle_ok_def)

lemma eff_cong:
  "s_lock \<sigma> = s_lock \<tau> \<Longrightarrow> s_dump \<sigma> = s_dump \<tau> \<Longrightarrow> s_tx \<sigma> = s_tx \<tau> \<Longrightarrow> eff \<sigma> = eff \<tau>"
  by (rule ext) (simp add: eff_def Let_def)

lemma eff_owned:
  "handle_ok h \<Longrightarrow> l_value (s_lock \<sigma> x) = h \<Longrightarrow> eff \<sigma> x = stamp (t_phase (s_tx \<sigma> h))"
  by (simp add: eff_def Let_def handle_ok_def)

lemma eff_upd_mem [simp]: "eff (\<sigma>\<lparr>s_mem := m\<rparr>) = eff \<sigma>" "eff (\<sigma>\<lparr>s_time := t\<rparr>) = eff \<sigma>"
  by (auto simp: eff_def fun_eq_iff Let_def)

lemma clean_upd_mem [simp]: "clean (\<sigma>\<lparr>s_mem := m\<rparr>) = clean \<sigma>" "clean (\<sigma>\<lparr>s_time := t\<rparr>) = clean \<sigma>"
  by (auto simp: clean_def fun_eq_iff)

lemma undo_log_simps [simp]:
  "undo_log [] m = m"
  "undo_log ((y, f, old) # items) m = undo_log items (mem_set m y f old)"
  by (simp_all add: undo_log_def)

lemma mem_set_apply: "mem_set m y f v x = (if x = y then (m y)(f := v) else m x)"
  by (simp add: mem_set_def)

lemma undo_log_local: "m x = m' x \<Longrightarrow> undo_log items m x = undo_log items m' x"
proof (induction items arbitrary: m m')
  case (Cons i items)
  obtain y f old where i: "i = (y, f, old)" by (cases i)
  have "mem_set m y f old x = mem_set m' y f old x"
    using Cons.prems by (auto simp: mem_set_apply)
  then show ?case unfolding i undo_log_simps by (rule Cons.IH)
qed simp

lemma undo_log_other: "x \<notin> fst ` set items \<Longrightarrow> undo_log items m x = m x"
proof (induction items arbitrary: m)
  case (Cons i items)
  obtain y f old where i: "i = (y, f, old)" by (cases i)
  show ?case using Cons by (simp add: i mem_set_apply)
qed simp

text \<open>A transaction whose objects are in order stays so when only other handles change.\<close>

lemma tx_data_mono:
  assumes "tx_data \<sigma> T"
    and "\<And>x. clean \<tau> x (t_start T) \<Longrightarrow> clean \<sigma> x (t_start T) \<and> s_mem \<tau> x = s_mem \<sigma> x"
    and "\<And>x. x \<in> set (t_locks T) \<Longrightarrow> s_mem \<tau> x = s_mem \<sigma> x"
  shows "tx_data \<tau> T"
proof -
  have "d_clean \<tau> T" using assms(1,2) by (simp add: tx_data_def d_clean_def clean_ok_def)
  moreover have "undo_log items (s_mem \<tau>) x = undo_log items (s_mem \<sigma>) x"
    if "x \<in> set (t_locks T)" for items x
    by (rule undo_log_local) (rule assms(3) [OF that])
  then have "d_own \<tau> T"
    using assms(1) by (simp add: tx_data_def d_own_def own_ok_def)
  moreover have "d_abort \<tau> T" using assms(1,3) by (simp add: tx_data_def d_abort_def)
  ultimately show ?thesis using assms(1) by (simp add: tx_data_def)
qed

section \<open>Steps preserve the invariants\<close>

lemma stm_invD:
  assumes "stm_inv \<sigma>"
  shows "inv_own \<sigma>" "inv_time \<sigma>" "tx_books (s_tx \<sigma> h)" "tx_data \<sigma> (s_tx \<sigma> h)"
  using assms by (simp_all add: stm_inv_def)

lemma inv_handle_ok: "inv_own \<sigma> \<Longrightarrow> t_phase (s_tx \<sigma> h) \<noteq> Idle \<Longrightarrow> handle_ok h"
  unfolding inv_own_def by (metis tx_idle_sel(1))

lemma inv_locks_iff:
  "inv_own \<sigma> \<Longrightarrow> handle_ok h \<Longrightarrow> x \<in> set (t_locks (s_tx \<sigma> h)) \<longleftrightarrow> l_value (s_lock \<sigma> x) = h"
  by (simp add: inv_own_def)

lemma inv_locks_value:
  "inv_own \<sigma> \<Longrightarrow> x \<in> set (t_locks (s_tx \<sigma> h)) \<Longrightarrow> l_value (s_lock \<sigma> x) = h \<and> handle_ok h"
  by (metis inv_handle_ok inv_locks_iff empty_iff list.set(1) tx_idle_sel(4) inv_own_def)

lemma inv_locks_disjoint:
  "inv_own \<sigma> \<Longrightarrow> x \<in> set (t_locks (s_tx \<sigma> h)) \<Longrightarrow> x \<in> set (t_locks (s_tx \<sigma> h')) \<Longrightarrow> h = h'"
  using inv_locks_value by metis

text \<open>A clean object is not one that its owner still works on.\<close>

lemma clean_not_owned:
  assumes "inv_own \<sigma>" and "x \<in> set (t_locks (s_tx \<sigma> h))" and "stamp (t_phase (s_tx \<sigma> h)) = None"
  shows "\<not> clean \<sigma> x s"
proof -
  have "l_value (s_lock \<sigma> x) = h" "handle_ok h" using inv_locks_value [OF assms(1,2)] by auto
  then show ?thesis using assms(3) by (simp add: clean_def eff_owned)
qed

text \<open>
  Changes of one handle that keep its locks and, if its phase has a stamp afterwards, set it
  to a version no other transaction is old enough to accept.
\<close>

lemma clean_set_tx:
  assumes "inv_own \<sigma>"
    and "\<And>e. stamp (t_phase T) = Some e \<Longrightarrow> stamp (t_phase (s_tx \<sigma> h)) = Some e \<or> s < e"
    and "clean (set_tx \<sigma> h T) x s"
  shows "clean \<sigma> x s"
proof (cases "l_value (s_lock \<sigma> x) = h \<and> handle_ok h")
  case True
  with assms(3) obtain e where "stamp (t_phase T) = Some e" "e \<le> s"
    by (auto simp: clean_def eff_set_tx)
  with assms(2) [of e] True show ?thesis by (auto simp: clean_def eff_owned)
next
  case False
  with assms(3) show ?thesis by (auto simp: clean_def eff_set_tx)
qed

text \<open>The invariant of the handles that do not take the step.\<close>

lemma others_data:
  assumes inv: "stm_inv \<sigma>"
    and stamp: "\<And>e. stamp (t_phase T) = Some e \<Longrightarrow>
      stamp (t_phase (s_tx \<sigma> h)) = Some e \<or> s_time \<sigma> < e"
    and mem: "\<And>x. x \<notin> set (t_locks (s_tx \<sigma> h)) \<Longrightarrow> m x = s_mem \<sigma> x"
    and dirty: "m = s_mem \<sigma> \<or> stamp (t_phase (s_tx \<sigma> h)) = None"
    and "h' \<noteq> h"
  shows "tx_data ((set_tx \<sigma> h T)\<lparr>s_mem := m, s_time := t\<rparr>) (s_tx \<sigma> h')"
proof (rule tx_data_mono [OF stm_invD(4) [OF inv]])
  let ?T = "s_tx \<sigma> h'" and ?s = "t_start (s_tx \<sigma> h')"
  note own = stm_invD(1) [OF inv]
  have "?s \<le> s_time \<sigma>" using stm_invD(2) [OF inv] by (simp add: inv_time_def tx_times_def)
  fix x
  { assume "clean ((set_tx \<sigma> h T)\<lparr>s_mem := m, s_time := t\<rparr>) x ?s"
    then have "clean (set_tx \<sigma> h T) x ?s" by simp
    have c: "clean \<sigma> x ?s"
      by (rule clean_set_tx [OF own _ \<open>clean (set_tx \<sigma> h T) x ?s\<close>])
        (use stamp \<open>?s \<le> s_time \<sigma>\<close> in fastforce)
    moreover have "m x = s_mem \<sigma> x"
      using clean_not_owned [OF own, of x h ?s] c dirty mem [of x] by auto
    ultimately show "clean \<sigma> x ?s \<and> s_mem ((set_tx \<sigma> h T)\<lparr>s_mem := m, s_time := t\<rparr>) x = s_mem \<sigma> x"
      by simp }
  assume "x \<in> set (t_locks ?T)"
  then have "x \<notin> set (t_locks (s_tx \<sigma> h))" using inv_locks_disjoint [OF own] \<open>h' \<noteq> h\<close> by blast
  then show "s_mem ((set_tx \<sigma> h T)\<lparr>s_mem := m, s_time := t\<rparr>) x = s_mem \<sigma> x" by (simp add: mem)
qed

text \<open>
  One handle moves on, perhaps stores to objects it holds, perhaps advances the clock; the
  locks stay.
\<close>

lemma stm_inv_set_tx:
  assumes inv: "stm_inv \<sigma>" and h: "handle_ok h"
    and locks: "t_locks T = t_locks (s_tx \<sigma> h)"
    and idle: "t_phase T = Idle \<Longrightarrow> T = tx_idle"
    and time: "is_version t" "s_time \<sigma> \<le> t"
    and T: "tx_times t T" "tx_books T" "tx_data ((set_tx \<sigma> h T)\<lparr>s_mem := m, s_time := t\<rparr>) T"
    and stamp: "\<And>e. stamp (t_phase T) = Some e \<Longrightarrow>
      stamp (t_phase (s_tx \<sigma> h)) = Some e \<or> s_time \<sigma> < e"
    and mem: "\<And>x. x \<notin> set (t_locks (s_tx \<sigma> h)) \<Longrightarrow> m x = s_mem \<sigma> x"
    and dirty: "m = s_mem \<sigma> \<or> stamp (t_phase (s_tx \<sigma> h)) = None"
  shows "stm_inv ((set_tx \<sigma> h T)\<lparr>s_mem := m, s_time := t\<rparr>)"
proof -
  let ?\<sigma> = "(set_tx \<sigma> h T)\<lparr>s_mem := m, s_time := t\<rparr>"
  have own: "inv_own \<sigma>" "inv_time \<sigma>" using stm_invD [OF inv] by auto
  have "inv_own ?\<sigma>" using own(1) h locks idle by (simp add: inv_own_def)
  moreover have "tx_times t (s_tx \<sigma> h')" for h'
    using own(2) time(2) unfolding inv_time_def tx_times_def by (meson order_trans)
  then have "inv_time ?\<sigma>"
    using own(2) time T(1) unfolding inv_time_def by (simp, meson order_trans)
  moreover have "tx_books (s_tx ?\<sigma> h')" for h' using T(2) stm_invD(3) [OF inv] by simp
  moreover have "tx_data ?\<sigma> (s_tx ?\<sigma> h')" for h'
    using T(3) others_data [OF inv stamp mem dirty] by (cases "h' = h") simp_all
  ultimately show ?thesis by (simp add: stm_inv_def)
qed

lemma is_version_time: "stm_inv \<sigma> \<Longrightarrow> is_version (s_time \<sigma>)"
  using stm_invD(2) by (auto simp: inv_time_def)

lemma tx_times_inv: "stm_inv \<sigma> \<Longrightarrow> tx_times (s_time \<sigma>) (s_tx \<sigma> h)"
  using stm_invD(2) by (auto simp: inv_time_def)

lemma stm_inv_begin: "stm_inv \<sigma> \<Longrightarrow> stm_begin h \<sigma> = Some \<sigma>' \<Longrightarrow> stm_inv \<sigma>'"
proof -
  assume inv: "stm_inv \<sigma>" and st: "stm_begin h \<sigma> = Some \<sigma>'"
  let ?T = "tx_idle\<lparr>t_phase := Active, t_start := s_time \<sigma>, t_snap := s_mem \<sigma>\<rparr>"
  from st have h: "handle_ok h" "t_phase (s_tx \<sigma> h) = Idle"
    and \<sigma>': "\<sigma>' = (set_tx \<sigma> h ?T)\<lparr>s_mem := s_mem \<sigma>, s_time := s_time \<sigma>\<rparr>"
    by (simp_all add: stm_begin_def split: if_splits)
  have "s_tx \<sigma> h = tx_idle" using h(2) stm_invD(1) [OF inv] by (simp add: inv_own_def)
  then show ?thesis
    unfolding \<sigma>'
    by (intro stm_inv_set_tx [OF inv h(1)])
      (simp_all add: is_version_time [OF inv] tx_times_def tx_books_def tx_data_def d_defs
        clean_ok_def seen_ok_def)
qed

text \<open>The data invariant survives a step of the handle itself when nothing it depends on changed.\<close>

lemma clean_self:
  assumes inv: "stm_inv \<sigma>" and "handle_ok h"
    and "\<And>e. stamp (t_phase T) = Some e \<Longrightarrow> t_start (s_tx \<sigma> h) < e"
    and "clean (set_tx \<sigma> h T) x (t_start (s_tx \<sigma> h))"
  shows "clean \<sigma> x (t_start (s_tx \<sigma> h))"
proof (rule clean_set_tx [OF stm_invD(1) [OF inv] _ assms(4)])
  show "stamp (t_phase T) = Some e \<Longrightarrow>
      stamp (t_phase (s_tx \<sigma> h)) = Some e \<or> t_start (s_tx \<sigma> h) < e" for e
    using assms(3) by blast
qed

lemma seen_ok_Cons:
  "seen_ok (T\<lparr>t_seen := (x, f, v) # t_seen T\<rparr>) y \<longleftrightarrow> seen_ok T y \<and> (y = x \<longrightarrow> v = t_snap T x f)"
  by (auto simp: seen_ok_def)

lemma stm_inv_read: "stm_inv \<sigma> \<Longrightarrow> stm_read c h x f \<sigma> = Some \<sigma>' \<Longrightarrow> stm_inv \<sigma>'"
proof -
  assume inv: "stm_inv \<sigma>" and st: "stm_read c h x f \<sigma> = Some \<sigma>'"
  let ?T = "s_tx \<sigma> h" and ?v = "s_mem \<sigma> x f"
  define T' where "T' = ?T\<lparr>t_reads := x # t_reads ?T,
    t_seen := (if x \<in> set (t_locks ?T) then t_seen ?T else (x, f, ?v) # t_seen ?T),
    t_phase := (if c then Checking x f ?v else Active)\<rparr>"
  from st have act: "t_phase ?T = Active"
    and \<sigma>': "\<sigma>' = (set_tx \<sigma> h T')\<lparr>s_mem := s_mem \<sigma>, s_time := s_time \<sigma>\<rparr>"
    by (simp_all add: stm_read_def Let_def T'_def split: if_splits)
  have h: "handle_ok h" using inv_handle_ok [OF stm_invD(1) [OF inv]] act by simp
  have sel: "t_locks T' = t_locks ?T" "t_start T' = t_start ?T" "t_log T' = t_log ?T"
    "t_snap T' = t_snap ?T" "t_got T' = t_got ?T" "stamp (t_phase T') = None"
    "t_phase T' = Active \<or> t_phase T' = Checking x f ?v"
    by (simp_all add: T'_def)
  have books: "tx_books T'"
    using stm_invD(3) [OF inv, of h] act by (auto simp: tx_books_def T'_def)
  have seen: "seen_ok T' y" if "seen_ok ?T y" "s_mem \<sigma> y = t_snap ?T y \<or> y \<in> set (t_locks ?T)" for y
    using that by (auto simp: seen_ok_def T'_def split: if_splits)
  have cl: "clean \<sigma> y (t_start ?T)" if "clean (set_tx \<sigma> h T') y (t_start ?T)" for y
    by (rule clean_self [OF inv h _ that]) (simp add: sel)
  have data: "d_clean \<sigma> ?T" "d_own \<sigma> ?T" "d_got ?T"
    using stm_invD(4) [OF inv, of h] by (simp_all add: tx_data_def)
  have "d_clean \<sigma>' T'"
    using data(1) act sel seen cl unfolding \<sigma>' by (auto simp: d_clean_def clean_ok_def)
  moreover have "d_own \<sigma>' T'"
    using data(2) act sel seen unfolding \<sigma>' by (auto simp: d_own_def own_ok_def)
  moreover have "d_got T'" using data(3) sel by (simp add: d_got_def)
  moreover have "d_valid T'" "d_abort \<sigma>' T'" using sel by (auto simp: d_valid_def d_abort_def)
  ultimately have "tx_data \<sigma>' T'" by (simp add: tx_data_def)
  then show ?thesis
    using act unfolding \<sigma>'
    by (intro stm_inv_set_tx [OF inv h])
      (use sel books is_version_time [OF inv] tx_times_inv [OF inv, of h] in
        \<open>auto simp: tx_times_def\<close>)
qed

lemma tx_data_parts:
  "tx_data \<sigma> T \<Longrightarrow> d_clean \<sigma> T" "tx_data \<sigma> T \<Longrightarrow> d_own \<sigma> T" "tx_data \<sigma> T \<Longrightarrow> d_got T"
  "tx_data \<sigma> T \<Longrightarrow> d_valid T" "tx_data \<sigma> T \<Longrightarrow> d_abort \<sigma> T"
  by (simp_all add: tx_data_def)

lemma upd_tx_mem:
  "\<sigma>\<lparr>s_mem := m, s_tx := g\<rparr> = \<sigma>\<lparr>s_tx := g, s_mem := m\<rparr>"
  "\<sigma>\<lparr>s_time := t, s_tx := g\<rparr> = \<sigma>\<lparr>s_tx := g, s_time := t\<rparr>"
  by (cases \<sigma>, simp)+

lemma set_tx_same: "set_tx \<sigma> h T = (set_tx \<sigma> h T)\<lparr>s_mem := s_mem \<sigma>, s_time := s_time \<sigma>\<rparr>"
  by simp

lemma seen_ok_upd [simp]:
  "seen_ok (T\<lparr>t_phase := p\<rparr>) x = seen_ok T x"
  "seen_ok (T\<lparr>t_log := l\<rparr>) x = seen_ok T x"
  "seen_ok (T\<lparr>t_locks := ls\<rparr>) x = seen_ok T x"
  "seen_ok (T\<lparr>t_got := g\<rparr>) x = seen_ok T x"
  "seen_ok (T\<lparr>t_base := b\<rparr>) x = seen_ok T x"
  by (simp_all add: seen_ok_def)

text \<open>Giving up: every failure leads here.\<close>

lemma stm_inv_give_up:
  assumes inv: "stm_inv \<sigma>"
    and ph: "t_phase (s_tx \<sigma> h) \<noteq> Idle" "\<And>e c. t_phase (s_tx \<sigma> h) \<noteq> Releasing e c"
  shows "stm_inv (set_tx \<sigma> h ((s_tx \<sigma> h)\<lparr>t_phase := Undoing\<rparr>))"
proof -
  let ?T = "s_tx \<sigma> h" and ?T' = "(s_tx \<sigma> h)\<lparr>t_phase := Undoing\<rparr>"
  have h: "handle_ok h" using inv_handle_ok [OF stm_invD(1) [OF inv] ph(1)] .
  have cl: "clean \<sigma> y (t_start ?T)" if "clean (set_tx \<sigma> h ?T') y (t_start ?T)" for y
    by (rule clean_self [OF inv h _ that]) simp
  note data = tx_data_parts [OF stm_invD(4) [OF inv, of h]]
  have "d_clean (set_tx \<sigma> h ?T') ?T'"
    using data(1) ph cl by (simp add: d_clean_def clean_ok_def)
  moreover have "d_own (set_tx \<sigma> h ?T') ?T'"
    using data(2) ph by (simp add: d_own_def own_ok_def)
  moreover have "d_got ?T'" using data(3) by (simp add: d_got_def)
  moreover have "d_valid ?T'" "d_abort (set_tx \<sigma> h ?T') ?T'" by (simp_all add: d_valid_def d_abort_def)
  ultimately have "tx_data (set_tx \<sigma> h ?T') ?T'" by (simp add: tx_data_def)
  moreover have "tx_books ?T'" using stm_invD(3) [OF inv, of h] ph by (simp add: tx_books_def)
  moreover have "tx_times (s_time \<sigma>) ?T'" using tx_times_inv [OF inv, of h] by (simp add: tx_times_def)
  ultimately show ?thesis
    by (subst set_tx_same, intro stm_inv_set_tx [OF inv h]) (simp_all add: is_version_time [OF inv])
qed

lemma stm_inv_abort: "stm_inv \<sigma> \<Longrightarrow> stm_abort h \<sigma> = Some \<sigma>' \<Longrightarrow> stm_inv \<sigma>'"
  using stm_inv_give_up [of \<sigma> h] by (auto simp: stm_abort_def Let_def split: if_splits)

text \<open>A check that passes on an object one does not hold: its version is old enough.\<close>

lemma l_check_clean:
  assumes "inv_own \<sigma>" and "handle_ok h" and "l_check (s_lock \<sigma> x) h s"
    and "x \<notin> set (t_locks (s_tx \<sigma> h))"
  shows "clean \<sigma> x s"
proof -
  have "l_value (s_lock \<sigma> x) \<noteq> h" using inv_locks_iff [OF assms(1,2), of x] assms(4) by simp
  with assms(3) have "is_version (l_value (s_lock \<sigma> x))" "l_value (s_lock \<sigma> x) \<le> s"
    by (auto simp: l_check_permits l_permits_def is_version_def split: if_splits)
  then show ?thesis by (simp add: clean_def eff_def)
qed

lemma stm_inv_check: "stm_inv \<sigma> \<Longrightarrow> stm_check h \<sigma> = Some \<sigma>' \<Longrightarrow> stm_inv \<sigma>'"
proof -
  assume inv: "stm_inv \<sigma>" and st: "stm_check h \<sigma> = Some \<sigma>'"
  let ?T = "s_tx \<sigma> h"
  obtain x f v where ph: "t_phase ?T = Checking x f v"
    using st by (auto simp: stm_check_def Let_def split: phase.splits)
  show ?thesis
  proof (cases "l_check (s_lock \<sigma> x) h (t_start ?T)")
    case False
    with st ph stm_inv_give_up [OF inv, of h] show ?thesis by (simp add: stm_check_def)
  next
    case True
    define T' where "T' = ?T\<lparr>t_phase := Active,
      t_got := (if x \<in> set (t_locks ?T) then t_got ?T else (x, f, v) # t_got ?T)\<rparr>"
    have \<sigma>': "\<sigma>' = set_tx \<sigma> h T'" using st True ph by (auto simp: stm_check_def T'_def Let_def)
    have own: "inv_own \<sigma>" and h: "handle_ok h"
      using stm_invD(1) [OF inv] inv_handle_ok [of \<sigma> h] ph by auto
    note data = tx_data_parts [OF stm_invD(4) [OF inv, of h]]
    have v: "v = t_snap ?T x f" if "x \<notin> set (t_locks ?T)"
    proof -
      have "(x, f, v) \<in> set (t_seen ?T)"
        using that ph stm_invD(3) [OF inv, of h] by (auto simp: tx_books_def)
      moreover have "clean_ok \<sigma> ?T x"
        using l_check_clean [OF own h True that] data(1) ph by (simp add: d_clean_def)
      ultimately show ?thesis by (auto simp: clean_ok_def seen_ok_def)
    qed
    have cl: "clean \<sigma> y (t_start ?T)" if "clean (set_tx \<sigma> h T') y (t_start ?T)" for y
      by (rule clean_self [OF inv h _ that]) (simp add: T'_def)
    have "d_clean \<sigma>' T'" using data(1) ph cl unfolding \<sigma>'
      by (simp add: d_clean_def clean_ok_def T'_def)
    moreover have "d_own \<sigma>' T'" using data(2) ph unfolding \<sigma>'
      by (simp add: d_own_def own_ok_def T'_def)
    moreover have "d_got T'" using data(3) v by (auto simp: d_got_def T'_def)
    moreover have "d_valid T'" "d_abort \<sigma>' T'" by (simp_all add: d_valid_def d_abort_def T'_def)
    ultimately have "tx_data \<sigma>' T'" by (simp add: tx_data_def)
    moreover have "tx_books T'" using stm_invD(3) [OF inv, of h] ph by (simp add: tx_books_def T'_def)
    moreover have "tx_times (s_time \<sigma>) T'"
      using tx_times_inv [OF inv, of h] by (simp add: tx_times_def T'_def)
    ultimately show ?thesis
      unfolding \<sigma>' by (subst set_tx_same, intro stm_inv_set_tx [OF inv h])
        (simp_all add: is_version_time [OF inv] T'_def)
  qed
qed

lemma stm_inv_write: "stm_inv \<sigma> \<Longrightarrow> stm_write h x f v \<sigma> = Some \<sigma>' \<Longrightarrow> stm_inv \<sigma>'"
proof -
  assume inv: "stm_inv \<sigma>" and st: "stm_write h x f v \<sigma> = Some \<sigma>'"
  let ?T = "s_tx \<sigma> h" and ?m = "mem_set (s_mem \<sigma>) x f v"
  let ?T' = "?T\<lparr>t_log := (x, f, s_mem \<sigma> x f) # t_log ?T\<rparr>"
  from st have act: "t_phase ?T = Active" "x \<in> set (t_locks ?T)"
    and \<sigma>': "\<sigma>' = (set_tx \<sigma> h ?T')\<lparr>s_mem := ?m, s_time := s_time \<sigma>\<rparr>"
    by (auto simp: stm_write_def Let_def upd_tx_mem split: if_splits)
  have own: "inv_own \<sigma>" and h: "handle_ok h"
    using stm_invD(1) [OF inv] inv_handle_ok [of \<sigma> h] act by auto
  note data = tx_data_parts [OF stm_invD(4) [OF inv, of h]]
  have cl: "clean \<sigma> y (t_start ?T) \<and> y \<noteq> x" if "clean (set_tx \<sigma> h ?T') y (t_start ?T)" for y
  proof -
    have "clean \<sigma> y (t_start ?T)" by (rule clean_self [OF inv h _ that]) (simp add: act)
    then show ?thesis using clean_not_owned [OF own act(2)] act(1) by auto
  qed
  have undo: "mem_set ?m x f (s_mem \<sigma> x f) = s_mem \<sigma>"
    by (rule ext) (auto simp: mem_set_def fun_eq_iff)
  have "d_clean \<sigma>' ?T'" using data(1) act cl unfolding \<sigma>'
    by (auto simp: d_clean_def clean_ok_def mem_set_apply)
  moreover have "d_own \<sigma>' ?T'" using data(2) act undo unfolding \<sigma>'
    by (simp add: d_own_def own_ok_def)
  moreover have "d_got ?T'" using data(3) by (simp add: d_got_def)
  moreover have "d_valid ?T'" "d_abort \<sigma>' ?T'" using act by (simp_all add: d_valid_def d_abort_def)
  ultimately have "tx_data \<sigma>' ?T'" by (simp add: tx_data_def)
  moreover have "tx_books ?T'" using stm_invD(3) [OF inv, of h] act by (simp add: tx_books_def)
  moreover have "tx_times (s_time \<sigma>) ?T'"
    using tx_times_inv [OF inv, of h] by (simp add: tx_times_def)
  ultimately show ?thesis
    using act unfolding \<sigma>' by (intro stm_inv_set_tx [OF inv h])
      (auto simp: is_version_time [OF inv] mem_set_apply)
qed

text \<open>Ticking: the new time exceeds every time drawn so far.\<close>

lemma stm_tick_Some:
  assumes "stm_tick \<sigma> = Some (e, \<sigma>1)"
  shows "\<sigma>1 = \<sigma>\<lparr>s_time := e\<rparr>" and "e = s_time \<sigma> + 2" and "s_time \<sigma> < e"
    and "is_version (s_time \<sigma>) \<Longrightarrow> is_version e"
proof -
  from assms have t: "unat (s_time \<sigma>) + 2 < 2 ^ 64" and e: "e = s_time \<sigma> + 2"
    and \<sigma>1: "\<sigma>1 = \<sigma>\<lparr>s_time := e\<rparr>"
    by (auto simp: stm_tick_def atomic_simps split: if_splits)
  then have u: "unat e = unat (s_time \<sigma>) + 2"
    by (simp add: unat_word_ariths)
  show "\<sigma>1 = \<sigma>\<lparr>s_time := e\<rparr>" "e = s_time \<sigma> + 2" by (fact \<sigma>1, fact e)
  show "s_time \<sigma> < e" using u by (simp add: word_less_nat_alt)
  show "is_version (s_time \<sigma>) \<Longrightarrow> is_version e" using u by (simp add: is_version_odd)
qed

lemma stm_inv_undo: "stm_inv \<sigma> \<Longrightarrow> stm_undo h \<sigma> = Some \<sigma>' \<Longrightarrow> stm_inv \<sigma>'"
proof -
  assume inv: "stm_inv \<sigma>" and st: "stm_undo h \<sigma> = Some \<sigma>'"
  let ?T = "s_tx \<sigma> h"
  from st have ph: "t_phase ?T = Undoing" by (simp add: stm_undo_def Let_def split: if_splits)
  have own: "inv_own \<sigma>" and h: "handle_ok h"
    using stm_invD(1) [OF inv] inv_handle_ok [of \<sigma> h] ph by auto
  note data = tx_data_parts [OF stm_invD(4) [OF inv, of h]]
  note books = stm_invD(3) [OF inv, of h]
  show ?thesis
  proof (cases "t_log ?T")
    case Nil
    with st ph obtain e \<sigma>1 where tick: "stm_tick \<sigma> = Some (e, \<sigma>1)"
      and "\<sigma>' = set_tx \<sigma>1 h (?T\<lparr>t_phase := Releasing e False\<rparr>)"
      by (auto simp: stm_undo_def Let_def split: option.splits if_splits)
    note e = stm_tick_Some [OF tick]
    let ?T' = "?T\<lparr>t_phase := Releasing e False\<rparr>"
    have \<sigma>': "\<sigma>' = (set_tx \<sigma> h ?T')\<lparr>s_mem := s_mem \<sigma>, s_time := e\<rparr>"
      using \<open>\<sigma>' = _\<close> by (simp add: e(1) upd_tx_mem)
    have st_le: "t_start ?T \<le> s_time \<sigma>" using tx_times_inv [OF inv, of h] by (simp add: tx_times_def)
    have cl: "clean \<sigma> y (t_start ?T)" if "clean (set_tx \<sigma> h ?T') y (t_start ?T)" for y
      by (rule clean_self [OF inv h _ that]) (use e(3) st_le in simp)
    have "d_clean \<sigma>' ?T'" using data(1) ph cl unfolding \<sigma>'
      by (simp add: d_clean_def clean_ok_def)
    moreover have "d_own \<sigma>' ?T'" "d_valid ?T'" by (auto simp add: d_own_def d_valid_def)
    moreover have "d_got ?T'" using data(3) by (simp add: d_got_def)
    moreover have "d_abort \<sigma>' ?T'" using data(2) ph Nil unfolding \<sigma>'
      by (simp add: d_abort_def d_own_def own_ok_def)
    ultimately have "tx_data \<sigma>' ?T'" by (simp add: tx_data_def)
    moreover have "tx_books ?T'" using books Nil by (simp add: tx_books_def)
    moreover have "tx_times e ?T'"
      using e(3,4) st_le is_version_time [OF inv] by (auto simp: tx_times_def)
    ultimately show ?thesis
      using e(3,4) is_version_time [OF inv] unfolding \<sigma>'
      by (intro stm_inv_set_tx [OF inv h]) auto
  next
    case (Cons i items)
    obtain x f old where i: "i = (x, f, old)" by (cases i)
    let ?m = "mem_set (s_mem \<sigma>) x f old" and ?T' = "?T\<lparr>t_log := items\<rparr>"
    have \<sigma>': "\<sigma>' = (set_tx \<sigma> h ?T')\<lparr>s_mem := ?m, s_time := s_time \<sigma>\<rparr>"
      using st ph Cons by (auto simp: stm_undo_def Let_def i upd_tx_mem)
    have x: "x \<in> set (t_locks ?T)" using books ph Cons by (simp add: tx_books_def i)
    have cl: "clean \<sigma> y (t_start ?T) \<and> y \<noteq> x" if "clean (set_tx \<sigma> h ?T') y (t_start ?T)" for y
    proof -
      have "clean \<sigma> y (t_start ?T)" by (rule clean_self [OF inv h _ that]) (simp add: ph)
      then show ?thesis using clean_not_owned [OF own x] ph by auto
    qed
    have "d_clean \<sigma>' ?T'" using data(1) ph cl unfolding \<sigma>'
      by (auto simp: d_clean_def clean_ok_def mem_set_apply)
    moreover have "d_own \<sigma>' ?T'" using data(2) ph Cons unfolding \<sigma>'
      by (simp add: d_own_def own_ok_def i)
    moreover have "d_got ?T'" using data(3) by (simp add: d_got_def)
    moreover have "d_valid ?T'" "d_abort \<sigma>' ?T'" using ph by (simp_all add: d_valid_def d_abort_def)
    ultimately have "tx_data \<sigma>' ?T'" by (simp add: tx_data_def)
    moreover have "tx_books ?T'" using books ph Cons by (simp add: tx_books_def)
    moreover have "tx_times (s_time \<sigma>) ?T'"
      using tx_times_inv [OF inv, of h] by (simp add: tx_times_def)
    ultimately show ?thesis
      using ph x unfolding \<sigma>' by (intro stm_inv_set_tx [OF inv h])
        (auto simp: is_version_time [OF inv] mem_set_apply)
  qed
qed

lemma stm_inv_commit: "stm_inv \<sigma> \<Longrightarrow> stm_commit h \<sigma> = Some \<sigma>' \<Longrightarrow> stm_inv \<sigma>'"
proof -
  assume inv: "stm_inv \<sigma>" and st: "stm_commit h \<sigma> = Some \<sigma>'"
  let ?T = "s_tx \<sigma> h"
  from st have act: "t_phase ?T = Active" by (simp add: stm_commit_def Let_def split: if_splits)
  from st act obtain e \<sigma>1 where tick: "stm_tick \<sigma> = Some (e, \<sigma>1)"
    and s1: "\<sigma>' = set_tx \<sigma>1 h (?T\<lparr>t_base := s_mem \<sigma>1,
      t_phase := (if t_log ?T = [] then Releasing e True else Validating e (t_reads ?T))\<rparr>)"
    by (auto simp: stm_commit_def Let_def split: option.splits)
  note e = stm_tick_Some [OF tick]
  define T' where "T' = ?T\<lparr>t_base := s_mem \<sigma>,
    t_phase := (if t_log ?T = [] then Releasing e True else Validating e (t_reads ?T))\<rparr>"
  have \<sigma>': "\<sigma>' = (set_tx \<sigma> h T')\<lparr>s_mem := s_mem \<sigma>, s_time := e\<rparr>"
    using s1 by (simp add: e(1) upd_tx_mem T'_def)
  have sel: "t_locks T' = t_locks ?T" "t_start T' = t_start ?T" "t_log T' = t_log ?T"
    "t_snap T' = t_snap ?T" "t_got T' = t_got ?T" "stamp (t_phase T') = Some e" "t_reads T' = t_reads ?T"
    "t_base T' = s_mem \<sigma>" "t_seen T' = t_seen ?T" "\<And>y. seen_ok T' y = seen_ok ?T y"
    "t_phase T' = Releasing e True \<or> t_phase T' = Validating e (t_reads ?T)"
    by (simp_all add: T'_def)
  have h: "handle_ok h" using inv_handle_ok [OF stm_invD(1) [OF inv]] act by simp
  have st_le: "t_start ?T \<le> s_time \<sigma>" using tx_times_inv [OF inv, of h] by (simp add: tx_times_def)
  have lt: "t_start ?T < e" using e(3) st_le by simp
  have cl: "clean \<sigma> y (t_start ?T)" if "clean (set_tx \<sigma> h T') y (t_start ?T)" for y
    by (rule clean_self [OF inv h _ that]) (use lt sel in simp)
  note data = tx_data_parts [OF stm_invD(4) [OF inv, of h]]
  have d: "\<forall>x. clean \<sigma> x (t_start ?T) \<longrightarrow> s_mem \<sigma> x = t_snap ?T x \<and> seen_ok ?T x"
    "\<forall>x \<in> set (t_locks ?T). undo_log (t_log ?T) (s_mem \<sigma>) x = t_snap ?T x \<and> seen_ok ?T x"
    using data(1,2) act by (simp_all add: d_clean_def clean_ok_def d_own_def own_ok_def)
  have "d_clean \<sigma>' T'" using d(1) cl unfolding \<sigma>' d_clean_def clean_ok_def clean_upd_mem
    by (simp only: sel stm.select_convs stm.update_convs simp_thms) (simp add: sel)
  moreover have "d_own \<sigma>' T'" using d(2) unfolding \<sigma>' d_own_def own_ok_def
    by (simp add: sel(1,3,4,10))
  moreover have "d_got T'" using data(3) sel by (simp add: d_got_def)
  moreover have "d_valid T'" "d_abort \<sigma>' T'"
    by (simp_all add: d_valid_def d_abort_def T'_def)
  ultimately have "tx_data \<sigma>' T'" by (simp add: tx_data_def)
  moreover have "tx_books T'" using stm_invD(3) [OF inv, of h] act
    by (cases "t_log ?T = []") (simp_all add: tx_books_def T'_def)
  moreover have "tx_times e T'"
    using e(4) is_version_time [OF inv] lt sel by (simp add: tx_times_def)
  moreover have "t_phase T' \<noteq> Idle" "is_version e" "s_time \<sigma> < e"
    using sel e is_version_time [OF inv] by auto
  ultimately show ?thesis
    unfolding \<sigma>' by (intro stm_inv_set_tx [OF inv h]) (simp_all add: sel)
qed

lemma stm_inv_validate: "stm_inv \<sigma> \<Longrightarrow> stm_validate h \<sigma> = Some \<sigma>' \<Longrightarrow> stm_inv \<sigma>'"
proof -
  assume inv: "stm_inv \<sigma>" and st: "stm_validate h \<sigma> = Some \<sigma>'"
  let ?T = "s_tx \<sigma> h"
  obtain e xs where ph: "t_phase ?T = Validating e xs"
    using st by (auto simp: stm_validate_def Let_def split: phase.splits)
  have own: "inv_own \<sigma>" and h: "handle_ok h"
    using stm_invD(1) [OF inv] inv_handle_ok [of \<sigma> h] ph by auto
  note data = tx_data_parts [OF stm_invD(4) [OF inv, of h]]
  note books = stm_invD(3) [OF inv, of h]
  have times: "tx_times (s_time \<sigma>) ?T" by (rule tx_times_inv [OF inv])
  have go: "stm_inv (set_tx \<sigma> h (?T\<lparr>t_phase := p\<rparr>))"
    if p: "stamp p = Some e" "p \<noteq> Idle" "p \<noteq> Releasing e False" and
      b: "tx_books (?T\<lparr>t_phase := p\<rparr>)" and dv: "d_valid (?T\<lparr>t_phase := p\<rparr>)" for p
  proof -
    let ?T' = "?T\<lparr>t_phase := p\<rparr>" and ?\<sigma>' = "set_tx \<sigma> h (?T\<lparr>t_phase := p\<rparr>)"
    have cl: "clean \<sigma> y (t_start ?T)" if "clean ?\<sigma>' y (t_start ?T)" for y
      by (rule clean_self [OF inv h _ that]) (use times ph p in \<open>simp add: tx_times_def\<close>)
    have "d_clean ?\<sigma>' ?T'" using data(1) ph cl by (simp add: d_clean_def clean_ok_def)
    moreover have "d_own ?\<sigma>' ?T'" using data(2) ph by (simp add: d_own_def own_ok_def)
    moreover have "d_got ?T'" using data(3) by (simp add: d_got_def)
    moreover have "d_abort ?\<sigma>' ?T'"
      using p by (auto simp: d_abort_def stamp_def split: phase.splits)
    ultimately have "tx_data ?\<sigma>' ?T'" using dv by (simp add: tx_data_def)
    moreover have "tx_times (s_time \<sigma>) ?T'" using times ph p by (simp add: tx_times_def)
    ultimately show ?thesis
      by (subst set_tx_same, intro stm_inv_set_tx [OF inv h])
        (simp_all add: is_version_time [OF inv] p b ph)
  qed
  show ?thesis
  proof (cases xs)
    case Nil
    with st ph have "\<sigma>' = set_tx \<sigma> h (?T\<lparr>t_phase := Releasing e True\<rparr>)"
      by (simp add: stm_validate_def Let_def)
    moreover have "tx_books (?T\<lparr>t_phase := Releasing e True\<rparr>)" using books by (auto simp: tx_books_def)
    ultimately show ?thesis using go [of "Releasing e True"] by (simp add: d_valid_def)
  next
    case (Cons x ys)
    show ?thesis
    proof (cases "l_check (s_lock \<sigma> x) h (t_start ?T)")
      case False
      with st ph Cons stm_inv_give_up [OF inv, of h] show ?thesis by (simp add: stm_validate_def Let_def)
    next
      case True
      then have \<sigma>': "\<sigma>' = set_tx \<sigma> h (?T\<lparr>t_phase := Validating e ys\<rparr>)"
        using st ph Cons by (simp add: stm_validate_def Let_def)
      have "tx_books (?T\<lparr>t_phase := Validating e ys\<rparr>)"
        using books ph Cons by (auto simp: tx_books_def)
      moreover have "seen_ok ?T x \<and> (x \<notin> set (t_locks ?T) \<longrightarrow> t_base ?T x = t_snap ?T x)"
      proof (cases "x \<in> set (t_locks ?T)")
        case True
        then show ?thesis using data(2) ph by (simp add: d_own_def own_ok_def)
      next
        case False
        then have "clean_ok \<sigma> ?T x"
          using l_check_clean [OF own h True] data(1) ph by (simp add: d_clean_def)
        then show ?thesis using ph by (simp add: clean_ok_def)
      qed
      then have "d_valid (?T\<lparr>t_phase := Validating e ys\<rparr>)"
        using data(4) ph Cons by (auto simp: d_valid_def)
      ultimately show ?thesis unfolding \<sigma>' using go [of "Validating e ys"] by simp
    qed
  qed
qed

text \<open>Steps that change a lock word.\<close>

lemma handle_okD [simp]: "handle_ok h \<Longrightarrow> \<not> is_version h" "handle_ok h \<Longrightarrow> h \<noteq> 0"
  by (simp_all add: handle_ok_def)

lemma l_permits_iff:
  "l_permits w h s \<longleftrightarrow> is_version w \<and> w \<le> s \<or> \<not> is_version w \<and> w = h"
  by (simp add: l_permits_def is_version_def)

lemma stm_inv_lock: "stm_inv \<sigma> \<Longrightarrow> stm_lock h x \<sigma> = Some \<sigma>' \<Longrightarrow> stm_inv \<sigma>'"
proof -
  assume inv: "stm_inv \<sigma>" and st: "stm_lock h x \<sigma> = Some \<sigma>'"
  let ?T = "s_tx \<sigma> h" and ?w = "l_value (s_lock \<sigma> x)"
  from st have act: "t_phase ?T = Active" by (simp add: stm_lock_def Let_def split: if_splits)
  have own: "inv_own \<sigma>" and h: "handle_ok h"
    using stm_invD(1) [OF inv] inv_handle_ok [of \<sigma> h] act by auto
  note data = tx_data_parts [OF stm_invD(4) [OF inv, of h]]
  note books = stm_invD(3) [OF inv, of h]
  consider "\<not> l_permits ?w h (t_start ?T)" | "?w = h" | "is_version ?w" "?w \<le> t_start ?T" "?w \<noteq> h"
    using l_permits_iff h by auto
  then show ?thesis
  proof cases
    case 1
    then show ?thesis using st act stm_inv_give_up [OF inv, of h] by (simp add: stm_lock_def l_lock_eq)
  next
    case 2
    then have "\<sigma>' = \<sigma>" using st act h by (simp add: stm_lock_def l_lock_eq l_permits_iff)
    then show ?thesis using inv by simp
  next
    case 3
    let ?T' = "?T\<lparr>t_locks := x # t_locks ?T\<rparr>"
    have \<sigma>': "\<sigma>' = set_tx (\<sigma>\<lparr>s_lock := (s_lock \<sigma>)(x := \<lparr>l_value = h\<rparr>)\<rparr>) h ?T'"
      using st act 3 by (simp add: stm_lock_def Let_def l_lock_eq l_permits_iff)
    have new: "x \<notin> set (t_locks (s_tx \<sigma> h'))" for h'
      using inv_locks_value [OF own, of x h'] 3(1) by auto
    have cx: "clean \<sigma> x (t_start ?T)" using 3 by (simp add: clean_def eff_def)
    have cl: "clean \<sigma> y s \<and> y \<noteq> x" if "clean \<sigma>' y s" for y s
      using that h act unfolding \<sigma>' clean_def
      by (auto simp: eff_def Let_def split: if_splits)
    have ok: "s_mem \<sigma> x = t_snap ?T x \<and> seen_ok ?T x"
      using data(1) cx act by (simp add: d_clean_def clean_ok_def)
    have "d_clean \<sigma>' ?T'" using data(1) act cl by (simp add: d_clean_def clean_ok_def \<sigma>')
    moreover have "undo_log (t_log ?T) (s_mem \<sigma>) x = t_snap ?T x"
      using ok books act new [of h] by (subst undo_log_other) (auto simp: tx_books_def)
    then have "d_own \<sigma>' ?T'" using data(2) act ok by (simp add: d_own_def own_ok_def \<sigma>')
    moreover have "d_got ?T'" using data(3) by (simp add: d_got_def)
    moreover have "d_valid ?T'" "d_abort \<sigma>' ?T'" using act by (simp_all add: d_valid_def d_abort_def)
    ultimately have "tx_data \<sigma>' ?T'" by (simp add: tx_data_def)
    moreover have "tx_data \<sigma>' (s_tx \<sigma> h')" for h'
      by (rule tx_data_mono [OF stm_invD(4) [OF inv]]) (use cl in \<open>auto simp: \<sigma>'\<close>)
    moreover have "tx_books ?T'" using books act by (auto simp: tx_books_def)
    moreover have "?w \<noteq> 0" using 3(1) by auto
    then have "inv_own \<sigma>'" using own h new [of h] act 3 unfolding inv_own_def \<sigma>' by auto
    moreover have "inv_time \<sigma>'"
      using stm_invD(2) [OF inv] h unfolding inv_time_def \<sigma>' by (simp add: tx_times_def)
    ultimately show ?thesis using stm_invD(3) [OF inv] by (simp add: stm_inv_def \<sigma>')
  qed
qed

lemma tx_data_same_eff:
  "stm_inv \<sigma> \<Longrightarrow> eff \<tau> = eff \<sigma> \<Longrightarrow> s_mem \<tau> = s_mem \<sigma> \<Longrightarrow> tx_data \<tau> (s_tx \<sigma> h)"
  by (rule tx_data_mono [OF stm_invD(4)]) (auto simp: clean_def)

lemma stm_inv_release: "stm_inv \<sigma> \<Longrightarrow> stm_release h \<sigma> = Some \<sigma>' \<Longrightarrow> stm_inv \<sigma>'"
proof -
  assume inv: "stm_inv \<sigma>" and st: "stm_release h \<sigma> = Some \<sigma>'"
  let ?T = "s_tx \<sigma> h"
  obtain e c where ph: "t_phase ?T = Releasing e c"
    using st by (auto simp: stm_release_def Let_def split: phase.splits)
  have own: "inv_own \<sigma>" and h: "handle_ok h"
    using stm_invD(1) [OF inv] inv_handle_ok [of \<sigma> h] ph by auto
  show ?thesis
  proof (cases "t_locks ?T")
    case Nil
    then have "\<sigma>' = set_tx \<sigma> h tx_idle" using st ph by (simp add: stm_release_def)
    then show ?thesis
      by (simp only:, subst set_tx_same, intro stm_inv_set_tx [OF inv h])
        (simp_all add: is_version_time [OF inv] Nil)
  next
    case (Cons x xs)
    let ?T' = "?T\<lparr>t_locks := xs\<rparr>"
    have w: "l_value (s_lock \<sigma> x) = h" using inv_locks_value [OF own, of x h] Cons by simp
    have e: "is_version e" "e \<le> s_time \<sigma>"
      using tx_times_inv [OF inv, of h] ph by (simp_all add: tx_times_def)
    have \<sigma>': "\<sigma>' = set_tx (\<sigma>\<lparr>s_lock := (s_lock \<sigma>)(x := \<lparr>l_value = e\<rparr>)\<rparr>) h ?T'"
      using st ph Cons w by (simp add: stm_release_def Let_def l_unlock_def atomic_cmpswp_def)
    have eff: "eff \<sigma>' = eff \<sigma>"
      using h e w ph unfolding \<sigma>' by (intro ext) (auto simp: eff_def Let_def)
    have "distinct (x # xs)" using own Cons unfolding inv_own_def by metis
    moreover have "e \<noteq> 0" using e by auto
    moreover have "\<And>y. y = x \<or> y \<in> set xs \<longleftrightarrow> l_value (s_lock \<sigma> y) = h"
      using inv_locks_iff [OF own h] Cons by (metis set_ConsD list.set_intros)
    moreover have "l_value (s_lock \<sigma> x) \<noteq> 0" using w h by simp
    ultimately have own': "inv_own \<sigma>'"
      using own h ph e unfolding inv_own_def \<sigma>' by auto
    have "tx_data \<sigma>' ?T" by (rule tx_data_same_eff [OF inv eff]) (simp add: \<sigma>')
    then have "tx_data \<sigma>' ?T'"
      using ph Cons by (simp add: tx_data_def d_defs clean_ok_def own_ok_def)
    moreover have "tx_data \<sigma>' (s_tx \<sigma> h')" for h'
      by (rule tx_data_same_eff [OF inv eff]) (simp add: \<sigma>')
    moreover have "tx_books ?T'" using stm_invD(3) [OF inv, of h] ph by (auto simp: tx_books_def)
    moreover have "inv_time \<sigma>'"
      using stm_invD(2) [OF inv] e unfolding inv_time_def \<sigma>' by (simp add: tx_times_def)
    ultimately show ?thesis using stm_invD(3) [OF inv] own' by (simp add: stm_inv_def \<sigma>')
  qed
qed

lemma l_permits_dump: "l_permits w 0 (- 1) \<longleftrightarrow> is_version w \<or> w = 0"
  using l_permits_iff [of w 0 "- 1"] by auto

lemma stm_inv_same_eff:
  assumes inv: "stm_inv \<sigma>" and "eff \<tau> = eff \<sigma>" and "s_mem \<tau> = s_mem \<sigma>" and "s_tx \<tau> = s_tx \<sigma>"
    and "inv_own \<tau>" and "inv_time \<tau>"
  shows "stm_inv \<tau>"
  using assms stm_invD(3) [OF inv] tx_data_same_eff [OF inv assms(2,3)] by (simp add: stm_inv_def)

lemma stm_inv_dump_lock: "stm_inv \<sigma> \<Longrightarrow> stm_dump_lock x \<sigma> = Some \<sigma>' \<Longrightarrow> stm_inv \<sigma>'"
proof -
  assume inv: "stm_inv \<sigma>" and st: "stm_dump_lock x \<sigma> = Some \<sigma>'"
  let ?w = "l_value (s_lock \<sigma> x)"
  have own: "inv_own \<sigma>" and time: "inv_time \<sigma>" using stm_invD [OF inv] by auto
  from st have d: "s_dump \<sigma> = None" by (simp add: stm_dump_lock_def split: if_splits)
  then have w0: "?w \<noteq> 0" using own by (simp add: inv_own_def)
  show ?thesis
  proof (cases "is_version ?w")
    case False
    then have "\<sigma>' = \<sigma>"
      using st d w0 by (simp add: stm_dump_lock_def l_lock_version_Cons l_permits_dump del: l_lock_version.simps)
    then show ?thesis using inv by simp
  next
    case True
    then have \<sigma>': "\<sigma>' = \<sigma>\<lparr>s_lock := (s_lock \<sigma>)(x := \<lparr>l_value = 0\<rparr>), s_dump := Some (x, ?w)\<rparr>"
      using st d w0
      by (simp add: stm_dump_lock_def l_lock_version_Cons l_permits_dump l_lock_eq del: l_lock_version.simps)
    have free: "x \<notin> set (t_locks (s_tx \<sigma> h))" for h
      using inv_locks_value [OF own, of x h] True by auto
    show ?thesis
    proof (rule stm_inv_same_eff [OF inv])
      show "eff \<sigma>' = eff \<sigma>" using True own d unfolding \<sigma>' inv_own_def
        by (intro ext) (auto simp: eff_def Let_def)
      show "inv_own \<sigma>'" using own d w0 free True unfolding \<sigma>' inv_own_def by auto
      show "inv_time \<sigma>'" using time True unfolding \<sigma>' inv_time_def by simp
    qed (simp_all add: \<sigma>')
  qed
qed

lemma stm_inv_dump_unlock: "stm_inv \<sigma> \<Longrightarrow> stm_dump_unlock \<sigma> = Some \<sigma>' \<Longrightarrow> stm_inv \<sigma>'"
proof -
  assume inv: "stm_inv \<sigma>" and st: "stm_dump_unlock \<sigma> = Some \<sigma>'"
  have own: "inv_own \<sigma>" and time: "inv_time \<sigma>" using stm_invD [OF inv] by auto
  from st obtain x v where d: "s_dump \<sigma> = Some (x, v)"
    by (auto simp: stm_dump_unlock_def split: option.splits)
  have w: "l_value (s_lock \<sigma> y) = 0 \<longleftrightarrow> y = x" for y using own d by (auto simp: inv_own_def)
  have w0: "l_value (s_lock \<sigma> x) = 0" using w by simp
  have v: "is_version v" "v \<le> s_time \<sigma>" using time d by (auto simp: inv_time_def)
  have \<sigma>': "\<sigma>' = \<sigma>\<lparr>s_lock := (s_lock \<sigma>)(x := \<lparr>l_value = v\<rparr>), s_dump := None\<rparr>"
    using st d w by (simp add: stm_dump_unlock_def l_unlock_def atomic_cmpswp_def)
  have free: "x \<notin> set (t_locks (s_tx \<sigma> h))" for h
    by (metis inv_locks_value own w handle_okD(2))
  show ?thesis
  proof (rule stm_inv_same_eff [OF inv])
    show "eff \<sigma>' = eff \<sigma>" using v w d unfolding \<sigma>' by (intro ext) (auto simp: eff_def Let_def w0)
    have "v \<noteq> 0" using v by auto
    then show "inv_own \<sigma>'" using own d w free v unfolding \<sigma>' inv_own_def by auto
    show "inv_time \<sigma>'" using time v unfolding \<sigma>' inv_time_def by simp
  qed (simp_all add: \<sigma>')
qed

lemma stm_inv_exec: "stm_inv \<sigma> \<Longrightarrow> stm_exec a \<sigma> = Some \<sigma>' \<Longrightarrow> stm_inv \<sigma>'"
  by (cases a)
    (auto intro: stm_inv_begin stm_inv_read stm_inv_check stm_inv_lock stm_inv_write stm_inv_abort
      stm_inv_undo stm_inv_commit stm_inv_validate stm_inv_release stm_inv_dump_lock stm_inv_dump_unlock)

lemma stm_reachable_inv: "stm_reachable m \<sigma> \<Longrightarrow> stm_inv \<sigma>"
  by (induction rule: stm_reachable.induct) (auto intro: stm_inv_init stm_inv_exec)

inductive_cases stm_reachableE: "stm_reachable m \<sigma>"

section \<open>Properties\<close>

text \<open>
  C1: opacity. In every reachable state of every interleaving, every value that a checked read
  (\<open>trRead\<close>) has returned from an object the transaction did not hold, is the value that the
  memory held at one instant: the one at which the transaction drew its start time. This
  covers the transactions that will abort, and the dumping thread's interference.
\<close>

theorem tr_read_opaque:
  assumes "stm_reachable m \<sigma>" and "(x, f, v) \<in> set (t_got (s_tx \<sigma> h))"
  shows "v = t_snap (s_tx \<sigma> h) x f"
  using stm_invD(4) [OF stm_reachable_inv [OF assms(1)], of h] assms(2)
  by (simp add: tx_data_def d_got_def)

text \<open>
  C2: serializability of commits. When a writing transaction has validated its whole read set,
  everything it ever read from an object it did not hold -- by checked and by unchecked reads
  alike -- agrees with the memory of its start, and the objects it read and does not hold had
  the same contents at the instant of its end time as at its start: the transaction might have
  run, alone, at the instant of its end time.
\<close>

theorem tr_validate_serializes:
  assumes "stm_reachable m \<sigma>" and "t_phase (s_tx \<sigma> h) = Validating e []"
    and "(x, f, v) \<in> set (t_seen (s_tx \<sigma> h))"
  shows "v = t_snap (s_tx \<sigma> h) x f
    \<and> (x \<notin> set (t_locks (s_tx \<sigma> h)) \<longrightarrow> v = t_base (s_tx \<sigma> h) x f)"
proof -
  note inv = stm_reachable_inv [OF assms(1)]
  have "x \<in> set (t_reads (s_tx \<sigma> h))"
    using stm_invD(3) [OF inv, of h] assms(3) by (auto simp: tx_books_def)
  then have "seen_ok (s_tx \<sigma> h) x"
    "x \<notin> set (t_locks (s_tx \<sigma> h)) \<longrightarrow> t_base (s_tx \<sigma> h) x = t_snap (s_tx \<sigma> h) x"
    using stm_invD(4) [OF inv, of h] assms(2) by (auto simp: tx_data_def d_valid_def)
  then show ?thesis using assms(3) by (auto simp: seen_ok_def)
qed

text \<open>
  C3: aborts are atomic. When an aborting transaction starts to release its locks
  (\<open>_tr_abort_main\<close>), whatever made it give up and however many objects it modified, every
  object it still holds has the contents it had at the transaction's start.
\<close>

theorem tr_abort_atomic:
  assumes "stm_reachable m \<sigma>" and "t_phase (s_tx \<sigma> h) = Releasing e False"
    and "x \<in> set (t_locks (s_tx \<sigma> h))"
  shows "s_mem \<sigma> x = t_snap (s_tx \<sigma> h) x"
  using stm_invD(4) [OF stm_reachable_inv [OF assms(1)], of h] assms(2,3)
  by (simp add: tx_data_def d_abort_def)

text \<open>
  C4: an object is held by at most one handle, the lock word says by which, and a lock that is
  free carries a version that is not ahead of the clock; the dumping thread's lock excludes all
  handles.
\<close>

theorem tr_lock_ownership:
  assumes "stm_reachable m \<sigma>"
  shows "(x \<in> set (t_locks (s_tx \<sigma> h)) \<longleftrightarrow> l_value (s_lock \<sigma> x) = h \<and> handle_ok h)
    \<and> (x \<in> set (t_locks (s_tx \<sigma> h)) \<and> x \<in> set (t_locks (s_tx \<sigma> h')) \<longrightarrow> h = h')
    \<and> (is_version (l_value (s_lock \<sigma> x)) \<longrightarrow> l_value (s_lock \<sigma> x) \<le> s_time \<sigma>)
    \<and> (s_dump \<sigma> = Some (x, v) \<longrightarrow> l_value (s_lock \<sigma> x) = 0 \<and> x \<notin> set (t_locks (s_tx \<sigma> h)))"
proof (intro conjI)
  have own: "inv_own \<sigma>" and time: "inv_time \<sigma>" using stm_invD [OF stm_reachable_inv [OF assms]] by auto
  show "x \<in> set (t_locks (s_tx \<sigma> h)) \<longleftrightarrow> l_value (s_lock \<sigma> x) = h \<and> handle_ok h"
    by (rule iffI) (use inv_locks_value [OF own, of x h] in blast,
      use inv_locks_iff [OF own, of h x] in blast)
  show "x \<in> set (t_locks (s_tx \<sigma> h)) \<and> x \<in> set (t_locks (s_tx \<sigma> h')) \<longrightarrow> h = h'"
    using inv_locks_disjoint [OF own, of x h h'] by simp
  show "is_version (l_value (s_lock \<sigma> x)) \<longrightarrow> l_value (s_lock \<sigma> x) \<le> s_time \<sigma>"
    using time by (simp add: inv_time_def)
  show "s_dump \<sigma> = Some (x, v) \<longrightarrow> l_value (s_lock \<sigma> x) = 0 \<and> x \<notin> set (t_locks (s_tx \<sigma> h))"
  proof
    assume "s_dump \<sigma> = Some (x, v)"
    then have "l_value (s_lock \<sigma> x) = 0" using own by (simp add: inv_own_def)
    then show "l_value (s_lock \<sigma> x) = 0 \<and> x \<notin> set (t_locks (s_tx \<sigma> h))"
      by (metis inv_locks_value own handle_okD(2))
  qed
qed

section \<open>Witnesses\<close>

text \<open>Three schedules: a checked read, a writing transaction that validates, one that aborts.\<close>

definition demo_mem :: memory where
  "demo_mem = (\<lambda>x f. [of_nat x])"

definition demo_read :: "action list" where
  "demo_read = [A_begin 16, A_read True 16 7 0, A_check 16]"

definition demo_commit :: "action list" where
  "demo_commit = [A_begin 32, A_lock 32 7, A_write 32 7 0 [1], A_read False 32 9 0, A_commit 32,
    A_validate 32]"

definition demo_abort :: "action list" where
  "demo_abort = [A_begin 16, A_lock 16 8, A_write 16 8 0 [2], A_abort 16, A_undo 16, A_undo 16]"

definition demo_state :: "action list \<Rightarrow> stm" where
  "demo_state as = the (stm_run as (stm_init demo_mem))"

definition demo_ok :: "action list \<Rightarrow> (stm \<Rightarrow> bool) \<Rightarrow> bool" where
  "demo_ok as P \<longleftrightarrow> (case stm_run as (stm_init demo_mem) of Some \<sigma> \<Rightarrow> P \<sigma> | None \<Rightarrow> False)"

lemma demo_okD: "demo_ok as P \<Longrightarrow> stm_reachable demo_mem (demo_state as) \<and> P (demo_state as)"
  using stm_run_reachable [OF stm_reachable.start, of as demo_mem]
  by (auto simp: demo_ok_def demo_state_def split: option.splits)

lemma demo_version [simp]: "\<not> is_version 16" "\<not> is_version 32" "l_permits 1 h s \<longleftrightarrow> 1 \<le> s"
  by (simp_all add: is_version_def l_permits_iff)

lemmas demo_simps = demo_ok_def demo_mem_def stm_init_def stm_begin_def stm_read_def stm_check_def
  stm_lock_def stm_write_def stm_abort_def stm_undo_def stm_commit_def stm_validate_def stm_tick_def
  handle_ok_def l_init_def l_check_permits l_lock_eq atomic_simps mem_set_def Let_def

lemma demo_ok_read: "demo_ok demo_read (\<lambda>\<sigma>. (7, 0, [7]) \<in> set (t_got (s_tx \<sigma> 16)))"
  unfolding demo_read_def by (simp add: demo_simps)

lemma demo_ok_commit:
  "demo_ok demo_commit (\<lambda>\<sigma>. t_phase (s_tx \<sigma> 32) = Validating 3 [] \<and> t_locks (s_tx \<sigma> 32) = [7]
     \<and> (9, 0, [9]) \<in> set (t_seen (s_tx \<sigma> 32)))"
  unfolding demo_commit_def by (simp add: demo_simps)

lemma demo_ok_abort:
  "demo_ok demo_abort (\<lambda>\<sigma>. t_phase (s_tx \<sigma> 16) = Releasing 3 False \<and> t_locks (s_tx \<sigma> 16) = [8])"
  unfolding demo_abort_def by (simp add: demo_simps)

theorem tr_read_opaque_witness: "[7] = t_snap (s_tx (demo_state demo_read) 16) 7 0"
  by (rule tr_read_opaque) (use demo_okD [OF demo_ok_read] in auto)

theorem tr_validate_serializes_witness:
  "[9] = t_snap (s_tx (demo_state demo_commit) 32) 9 0 \<and> [9] = t_base (s_tx (demo_state demo_commit) 32) 9 0"
proof -
  have "stm_reachable demo_mem (demo_state demo_commit)"
    and "t_phase (s_tx (demo_state demo_commit) 32) = Validating 3 []"
    and "(9, 0, [9]) \<in> set (t_seen (s_tx (demo_state demo_commit) 32))"
    and l: "t_locks (s_tx (demo_state demo_commit) 32) = [7]"
    using demo_okD [OF demo_ok_commit] by auto
  from l have "9 \<notin> set (t_locks (s_tx (demo_state demo_commit) 32))" by simp
  with tr_validate_serializes [OF \<open>stm_reachable _ _\<close> \<open>t_phase _ = _\<close> \<open>(9, _) \<in> _\<close>]
  show ?thesis by blast
qed

theorem tr_abort_atomic_witness:
  "s_mem (demo_state demo_abort) 8 = t_snap (s_tx (demo_state demo_abort) 16) 8"
  by (rule tr_abort_atomic) (use demo_okD [OF demo_ok_abort] in auto)

theorem tr_lock_ownership_witness:
  "l_value (s_lock (demo_state demo_commit) 7) = 32
    \<and> 7 \<notin> set (t_locks (s_tx (demo_state demo_commit) 16))"
proof -
  have r: "stm_reachable demo_mem (demo_state demo_commit)" "7 \<in> set (t_locks (s_tx (demo_state demo_commit) 32))"
    using demo_okD [OF demo_ok_commit] by auto
  then show ?thesis using tr_lock_ownership [OF r(1), of 7 32 16] by auto
qed

end
