(* ===== verification/Stacks.thy ===== *)
theory Stacks
  imports Prelude
begin

text \<open>
  The three stacks: \<open>utils/stack.h\<close> (one reallocated array), \<open>utils/inline_stack.h\<close> (a fixed
  array inside the structure) and \<open>utils/fast_stack.h\<close> (a list of pages), the interface the
  transactions use them by, and the loop that empties a stack from its top.

  A memory cell nobody has stored to is \<open>None\<close>. Popping an empty \<open>Stack\<close> or \<open>FastStack\<close> is not
  checked by the code; here it is a \<open>Fault\<close>.
\<close>

section \<open>The interface\<close>

text \<open>\<open>while (!empty(s)) f(pop(s))\<close>, as in \<open>_tr_unlock\<close> of \<open>database.include/transaction.c\<close>.\<close>

partial_function (option) drain ::
  "('s \<Rightarrow> bool) \<Rightarrow> ('s \<Rightarrow> ('v \<times> 's) outcome) \<Rightarrow> ('v \<Rightarrow> 'x \<Rightarrow> 'x) \<Rightarrow> 's \<Rightarrow> 'x \<Rightarrow> ('s \<times> 'x) outcome option" where
  "drain emp pop f s x =
    (if emp s then Some (Done (s, x))
     else case pop s of Done (v, s) \<Rightarrow> drain emp pop f s (f v x) | Failed \<Rightarrow> Some Failed | Fault \<Rightarrow> Some Fault)"

text \<open>
  \<open>wf\<close> is the representation invariant, \<open>content\<close> the elements, bottom first, \<open>room\<close> whether
  one more element fits.
\<close>

locale stack_adt =
  fixes wf :: "'s \<Rightarrow> bool" and content :: "'s \<Rightarrow> 'v list" and room :: "'s \<Rightarrow> bool"
    and emp :: "'s \<Rightarrow> bool" and push :: "'v \<Rightarrow> 's \<Rightarrow> 's outcome"
    and top :: "'s \<Rightarrow> 'v outcome" and pop :: "'s \<Rightarrow> ('v \<times> 's) outcome"
  assumes emp_iff: "wf s \<Longrightarrow> emp s \<longleftrightarrow> content s = []"
    and push_content: "wf s \<Longrightarrow> room s \<Longrightarrow> \<exists>s'. push v s = Done s' \<and> wf s' \<and> content s' = content s @ [v]"
    and top_content: "wf s \<Longrightarrow> content s = vs @ [v] \<Longrightarrow> top s = Done v"
    and pop_content: "wf s \<Longrightarrow> content s = vs @ [v] \<Longrightarrow> \<exists>s'. pop s = Done (v, s') \<and> wf s' \<and> content s' = vs"
begin

text \<open>Whatever the stack holds, the loop ends, and it hands out every element, last in first out.\<close>

lemma drain_all:
  "wf s \<Longrightarrow> \<exists>s'. drain emp pop f s x = Some (Done (s', fold f (rev (content s)) x))
     \<and> wf s' \<and> content s' = []"
proof (induction "content s" arbitrary: s x rule: rev_induct)
  case Nil
  then show ?case by (simp add: emp_iff drain.simps)
next
  case (snoc v vs)
  obtain s1 where s1: "pop s = Done (v, s1)" "wf s1" "content s1 = vs"
    using pop_content [OF snoc.prems snoc.hyps(2) [symmetric]] by blast
  have "drain emp pop f s x = drain emp pop f s1 (f v x)"
    using s1 snoc.prems snoc.hyps(2) by (subst drain.simps) (auto simp: emp_iff)
  with snoc.hyps(1) [OF s1(3) [symmetric] s1(2), of "f v x"] snoc.hyps(2) [symmetric] s1(3)
  show ?case by simp
qed

lemma push_pop:
  "wf s \<Longrightarrow> room s \<Longrightarrow> push v s = Done s1 \<Longrightarrow>
    top s1 = Done v \<and> (\<exists>s2. pop s1 = Done (v, s2) \<and> wf s2 \<and> content s2 = content s)"
  using push_content [of s v] top_content [of s1 "content s" v] pop_content [of s1 "content s" v] by auto

end

section \<open>Stack\<close>

text \<open>\<open>begin\<close> points to \<open>s_cells\<close>, \<open>ptr\<close> is \<open>begin + s_ptr\<close>, \<open>end\<close> is the end of \<open>s_cells\<close>.\<close>

record 'a Stack =
  s_cells :: "'a option list"
  s_ptr :: nat

definition STACK_MIN_SIZE :: nat where
  "STACK_MIN_SIZE = 17"

definition stack_init :: "'a Stack" where
  "stack_init = \<lparr>s_cells = [], s_ptr = 0\<rparr>"

definition stack_empty :: "'a Stack \<Rightarrow> bool" where
  "stack_empty s \<longleftrightarrow> s_ptr s = 0"

definition stack_size :: "'a Stack \<Rightarrow> nat" where
  "stack_size s = s_ptr s"

definition stack_capacity :: "'a Stack \<Rightarrow> nat" where
  "stack_capacity s = length (s_cells s)"

definition stack_at :: "'a Stack \<Rightarrow> nat \<Rightarrow> 'a outcome" where
  "stack_at s i = (if i < length (s_cells s)
     then (case s_cells s ! i of Some v \<Rightarrow> Done v | None \<Rightarrow> Fault) else Fault)"

definition stack_erase :: "'a Stack \<Rightarrow> 'a Stack" where
  "stack_erase s = s\<lparr>s_ptr := 0\<rparr>"

text \<open>\<open>xrealloc\<close> to \<open>bytes\<close> bytes of an array with elements of \<open>elem_size\<close> bytes.\<close>

definition realloc_cells :: "nat \<Rightarrow> nat \<Rightarrow> 'a option list \<Rightarrow> 'a option list" where
  "realloc_cells elem_size bytes cells = (let n = bytes div elem_size in
     take n cells @ replicate (n - length cells) None)"

definition stack_expand :: "nat \<Rightarrow> 'a Stack \<Rightarrow> 'a Stack" where
  "stack_expand elem_size s =
    (let new_cap = (stack_capacity s * elem_size) * 2 + STACK_MIN_SIZE * elem_size
     in s\<lparr>s_cells := realloc_cells elem_size new_cap (s_cells s)\<rparr>)"

definition stack_shrink :: "nat \<Rightarrow> 'a Stack \<Rightarrow> 'a Stack" where
  "stack_shrink elem_size s =
    (let new_cap = ((stack_capacity s * elem_size + elem_size) div (2 * elem_size)) * elem_size
     in s\<lparr>s_cells := realloc_cells elem_size new_cap (s_cells s)\<rparr>)"

definition stack_push :: "nat \<Rightarrow> 'a \<Rightarrow> 'a Stack \<Rightarrow> 'a Stack" where
  "stack_push elem_size v s =
    (let s = if s_ptr s = length (s_cells s) then stack_expand elem_size s else s
     in s\<lparr>s_cells := (s_cells s)[s_ptr s := Some v], s_ptr := s_ptr s + 1\<rparr>)"

definition stack_top :: "'a Stack \<Rightarrow> 'a outcome" where
  "stack_top s = (if s_ptr s = 0 then Fault else stack_at s (s_ptr s - 1))"

definition stack_pop :: "nat \<Rightarrow> 'a Stack \<Rightarrow> ('a \<times> 'a Stack) outcome" where
  "stack_pop elem_size s =
    (let s = if stack_capacity s > 2 * stack_size s \<and> stack_capacity s > 2 * STACK_MIN_SIZE
        then stack_shrink elem_size s else s
     in if s_ptr s = 0 then Fault
        else obind (stack_at s (s_ptr s - 1)) (\<lambda>v. Done (v, s\<lparr>s_ptr := s_ptr s - 1\<rparr>)))"

definition stack_swap :: "'a Stack \<times> 'a Stack \<Rightarrow> 'a Stack \<times> 'a Stack" where
  "stack_swap ss = (case ss of (s1, s2) \<Rightarrow>
     (\<lparr>s_cells = s_cells s2, s_ptr = s_ptr s2\<rparr>, \<lparr>s_cells = s_cells s1, s_ptr = s_ptr s1\<rparr>))"

definition stack_content :: "'a Stack \<Rightarrow> 'a list" where
  "stack_content s = map the (take (s_ptr s) (s_cells s))"

definition stack_wf :: "'a Stack \<Rightarrow> bool" where
  "stack_wf s \<longleftrightarrow> s_ptr s \<le> length (s_cells s) \<and> None \<notin> set (take (s_ptr s) (s_cells s))"

lemma length_realloc [simp, pool_simps]:
  "length (realloc_cells e b cells) = b div e"
  by (simp add: realloc_cells_def Let_def)

lemma take_realloc [pool_simps]:
  "p \<le> length cells \<Longrightarrow> p \<le> b div e \<Longrightarrow> take p (realloc_cells e b cells) = take p cells"
  by (simp add: realloc_cells_def Let_def min_def)

lemma stack_expand_simps [pool_simps]:
  assumes "0 < e"
  shows "s_ptr (stack_expand e s) = s_ptr s"
    and "length (s_cells (stack_expand e s)) = 2 * length (s_cells s) + 17"
    and "s_ptr s \<le> length (s_cells s) \<Longrightarrow>
      take (s_ptr s) (s_cells (stack_expand e s)) = take (s_ptr s) (s_cells s)"
proof -
  have "(length (s_cells s) * e * 2 + 17 * e) div e = 2 * length (s_cells s) + 17"
    using assms by (metis add_mult_distrib div_mult_self_is_m mult.assoc mult.commute)
  then show "s_ptr (stack_expand e s) = s_ptr s"
    "length (s_cells (stack_expand e s)) = 2 * length (s_cells s) + 17"
    "s_ptr s \<le> length (s_cells s) \<Longrightarrow>
      take (s_ptr s) (s_cells (stack_expand e s)) = take (s_ptr s) (s_cells s)"
    by (simp_all add: stack_expand_def stack_capacity_def STACK_MIN_SIZE_def Let_def take_realloc)
qed

text \<open>Shrinking halves the array, rounding up, so that it never loses a live element.\<close>

lemma stack_shrink_simps [pool_simps]:
  assumes "0 < e"
  shows "s_ptr (stack_shrink e s) = s_ptr s"
    and "length (s_cells (stack_shrink e s)) = (length (s_cells s) + 1) div 2"
    and "2 * s_ptr s \<le> length (s_cells s) \<Longrightarrow>
      take (s_ptr s) (s_cells (stack_shrink e s)) = take (s_ptr s) (s_cells s)"
proof -
  have "(length (s_cells s) * e + e) div (2 * e) = ((length (s_cells s) + 1) * e) div (2 * e)"
    by (simp add: add_mult_distrib add.commute)
  also have "\<dots> = (length (s_cells s) + 1) div 2"
    by (rule div_mult_mult2) (use assms in simp)
  finally have "(length (s_cells s) * e + e) div (2 * e) * e div e = (length (s_cells s) + 1) div 2"
    using assms by simp
  then show "s_ptr (stack_shrink e s) = s_ptr s"
    "length (s_cells (stack_shrink e s)) = (length (s_cells s) + 1) div 2"
    "2 * s_ptr s \<le> length (s_cells s) \<Longrightarrow>
      take (s_ptr s) (s_cells (stack_shrink e s)) = take (s_ptr s) (s_cells s)"
    by (simp_all add: stack_shrink_def stack_capacity_def Let_def take_realloc)
qed

lemma take_Suc_update [simp]: "p < length xs \<Longrightarrow> take (Suc p) (xs[p := v]) = take p xs @ [v]"
  by (simp add: take_Suc_conv_app_nth)

lemma stack_push_wf:
  assumes "0 < e" and "stack_wf s"
  shows "stack_wf (stack_push e v s) \<and> stack_content (stack_push e v s) = stack_content s @ [v]"
proof -
  define t where "t = (if s_ptr s = length (s_cells s) then stack_expand e s else s)"
  have t: "s_ptr t = s_ptr s" "take (s_ptr s) (s_cells t) = take (s_ptr s) (s_cells s)"
    "s_ptr s < length (s_cells t)"
    using assms stack_expand_simps [OF assms(1), of s] by (auto simp: t_def stack_wf_def)
  have "stack_push e v s = t\<lparr>s_cells := (s_cells t)[s_ptr t := Some v], s_ptr := s_ptr t + 1\<rparr>"
    by (simp add: stack_push_def t_def Let_def)
  then show ?thesis using t assms by (auto simp: stack_wf_def stack_content_def)
qed

lemma take_snocD:
  assumes "take p xs = ys @ [y]" and "p \<le> length xs"
  shows "p = Suc (length ys)" and "xs ! length ys = y" and "take (length ys) xs = ys"
proof -
  show p: "p = Suc (length ys)" using arg_cong [OF assms(1), of length] assms(2) by simp
  show "xs ! length ys = y"
    using arg_cong [OF assms(1), of "\<lambda>l. l ! length ys"] p by simp
  show "take (length ys) xs = ys"
    using arg_cong [OF assms(1), of "take (length ys)"] p by simp
qed

lemma stack_contentD:
  assumes "stack_wf s" and "stack_content s = vs @ [v]"
  shows "s_ptr s = Suc (length vs)" and "s_cells s ! length vs = Some v"
    and "map the (take (length vs) (s_cells s)) = vs" and "length vs < length (s_cells s)"
proof -
  let ?cs = "take (s_ptr s) (s_cells s)"
  have wf: "s_ptr s \<le> length (s_cells s)" "None \<notin> set ?cs" using assms(1) by (auto simp: stack_wf_def)
  have m: "map the ?cs = vs @ [v]" using assms(2) by (simp add: stack_content_def)
  have cs: "?cs = map Some (vs @ [v])"
  proof -
    have "map Some (map the ?cs) = ?cs"
      by (rule map_idI [where f = "Some \<circ> the", unfolded map_map [symmetric]]) (use wf(2) in \<open>metis comp_apply option.collapse\<close>)
    then show ?thesis by (simp add: m)
  qed
  then have c: "?cs = map Some vs @ [Some v]" by simp
  note t = take_snocD [OF c wf(1)]
  show "s_ptr s = Suc (length vs)" "s_cells s ! length vs = Some v" using t by simp_all
  show "map the (take (length vs) (s_cells s)) = vs" using t(3) by (simp add: o_def)
  show "length vs < length (s_cells s)" using t(1) wf(1) by simp
qed

lemma stack_pop_wf:
  assumes "0 < e" and wf: "stack_wf s" and c: "stack_content s = vs @ [v]"
  shows "\<exists>s'. stack_pop e s = Done (v, s') \<and> stack_wf s' \<and> stack_content s' = vs"
proof -
  define t where "t = (if stack_capacity s > 2 * stack_size s \<and> stack_capacity s > 2 * STACK_MIN_SIZE
    then stack_shrink e s else s)"
  have t: "s_ptr t = s_ptr s" "take (s_ptr s) (s_cells t) = take (s_ptr s) (s_cells s)"
    "s_ptr s \<le> length (s_cells t)"
    using assms(1) wf by (auto simp: t_def stack_shrink_simps stack_wf_def stack_capacity_def stack_size_def)
  have twf: "stack_wf t" and tc: "stack_content t = vs @ [v]"
    using t wf c by (simp_all add: stack_wf_def stack_content_def)
  note d = stack_contentD [OF twf tc]
  have "stack_pop e s = Done (v, t\<lparr>s_ptr := length vs\<rparr>)"
    using d by (simp add: stack_pop_def t_def [symmetric] stack_at_def Let_def)
  moreover have "stack_wf (t\<lparr>s_ptr := length vs\<rparr>)"
    using twf d by (auto simp: stack_wf_def take_Suc_conv_app_nth)
  ultimately show ?thesis using d(3) by (simp add: stack_content_def)
qed

lemma stack_size_content: "stack_wf s \<Longrightarrow> stack_size s = length (stack_content s)"
  by (simp add: stack_wf_def stack_content_def stack_size_def)

lemma stack_empty_content: "stack_wf s \<Longrightarrow> stack_empty s \<longleftrightarrow> stack_content s = []"
  using stack_size_content [of s] by (auto simp: stack_empty_def stack_size_def)

lemma stack_init_wf [simp]: "stack_wf stack_init" "stack_content stack_init = []"
  by (simp_all add: stack_wf_def stack_init_def stack_content_def)

lemma stack_erase_wf [simp]: "stack_wf (stack_erase s)" "stack_content (stack_erase s) = []"
  by (simp_all add: stack_wf_def stack_erase_def stack_content_def)

interpretation stack: stack_adt stack_wf stack_content "\<lambda>_. True" stack_empty
  "\<lambda>v s. Done (stack_push 8 v s)" stack_top "stack_pop 8"
proof unfold_locales
  show "stack_wf s \<Longrightarrow> stack_content s = vs @ [v] \<Longrightarrow> stack_top s = Done v" for s :: "'a Stack" and vs v
    using stack_contentD [of s vs v] by (simp add: stack_top_def stack_at_def)
qed (simp_all add: stack_empty_content stack_push_wf stack_pop_wf)

section \<open>InlineStack\<close>

text \<open>\<open>ISTACK_CHECK_BOUNDS\<close> is on by default: every access asserts its bounds.\<close>

record 'a InlineStack =
  i_ptr :: int
  i_data :: "'a list"

definition istack_empty :: "'a InlineStack \<Rightarrow> bool" where
  "istack_empty s \<longleftrightarrow> \<not> (i_ptr s \<noteq> 0)"

definition istack_size :: "'a InlineStack \<Rightarrow> int" where
  "istack_size s = i_ptr s"

definition istack_capacity :: "'a InlineStack \<Rightarrow> int" where
  "istack_capacity s = int (length (i_data s))"

definition istack_erase :: "'a InlineStack \<Rightarrow> 'a InlineStack" where
  "istack_erase s = s\<lparr>i_ptr := 0\<rparr>"

definition istack_check_bounds :: "'a InlineStack \<Rightarrow> int \<Rightarrow> unit outcome" where
  "istack_check_bounds s offset =
    obind (c_assert (i_ptr s + offset \<ge> 0)) (\<lambda>_. c_assert (i_ptr s + offset < istack_capacity s))"

definition istack_push :: "'a \<Rightarrow> 'a InlineStack \<Rightarrow> 'a InlineStack outcome" where
  "istack_push v s = obind (istack_check_bounds s 0) (\<lambda>_.
     Done (s\<lparr>i_data := (i_data s)[nat (i_ptr s) := v], i_ptr := i_ptr s + 1\<rparr>))"

definition istack_top :: "'a InlineStack \<Rightarrow> 'a outcome" where
  "istack_top s = obind (istack_check_bounds s (- 1)) (\<lambda>_. Done (i_data s ! nat (i_ptr s - 1)))"

definition istack_pop :: "'a InlineStack \<Rightarrow> ('a \<times> 'a InlineStack) outcome" where
  "istack_pop s = obind (istack_check_bounds s (- 1)) (\<lambda>_.
     Done (i_data s ! nat (i_ptr s - 1), s\<lparr>i_ptr := i_ptr s - 1\<rparr>))"

definition istack_shrink :: "int \<Rightarrow> 'a InlineStack \<Rightarrow> 'a InlineStack outcome" where
  "istack_shrink sz s =
    obind (c_assert (sz > 0)) (\<lambda>_. obind (c_assert (sz \<le> i_ptr s)) (\<lambda>_. Done (s\<lparr>i_ptr := sz\<rparr>)))"

definition istack_wf :: "'a InlineStack \<Rightarrow> bool" where
  "istack_wf s \<longleftrightarrow> 0 \<le> i_ptr s \<and> i_ptr s \<le> istack_capacity s"

definition istack_content :: "'a InlineStack \<Rightarrow> 'a list" where
  "istack_content s = take (nat (i_ptr s)) (i_data s)"

definition istack_room :: "'a InlineStack \<Rightarrow> bool" where
  "istack_room s \<longleftrightarrow> i_ptr s < istack_capacity s"

interpretation istack: stack_adt istack_wf istack_content istack_room istack_empty
  istack_push istack_top istack_pop
proof unfold_locales
  fix s :: "'a InlineStack" and v :: 'a and vs :: "'a list"
  assume wf: "istack_wf s"
  then show "istack_empty s \<longleftrightarrow> istack_content s = []"
    by (auto simp: istack_empty_def istack_wf_def istack_content_def istack_capacity_def)
  { assume "istack_room s"
    then show "\<exists>s'. istack_push v s = Done s' \<and> istack_wf s' \<and> istack_content s' = istack_content s @ [v]"
      using wf by (simp add: istack_push_def istack_check_bounds_def istack_room_def istack_wf_def
          istack_content_def istack_capacity_def nat_add_distrib) }
  assume c: "istack_content s = vs @ [v]"
  have t: "nat (i_ptr s) = Suc (length vs)" "i_data s ! length vs = v" "take (length vs) (i_data s) = vs"
    using take_snocD [OF c [unfolded istack_content_def]] wf
    by (simp_all add: istack_wf_def istack_capacity_def nat_le_iff)
  then have p: "i_ptr s = int (length vs) + 1" by simp
  show "istack_top s = Done v" using wf t p
    by (simp add: istack_top_def istack_check_bounds_def istack_wf_def)
  show "\<exists>s'. istack_pop s = Done (v, s') \<and> istack_wf s' \<and> istack_content s' = vs" using wf t p
    by (simp add: istack_pop_def istack_check_bounds_def istack_wf_def istack_content_def istack_capacity_def)
qed

text \<open>
  The bounds checks are exact: a push onto a well-formed stack aborts precisely when all
  \<open>Size\<close> slots are in use and then nothing is written, and a pop aborts precisely when there
  is nothing to return.
\<close>

theorem istack_bounds:
  assumes "istack_wf s"
  shows "(istack_push v s = Fault \<longleftrightarrow> length (istack_content s) = length (i_data s))
    \<and> (istack_pop s = Fault \<longleftrightarrow> istack_content s = [])
    \<and> (istack_pop s \<noteq> Failed \<and> istack_push v s \<noteq> Failed)"
proof -
  have p: "0 \<le> i_ptr s" "i_ptr s \<le> int (length (i_data s))"
    using assms by (simp_all add: istack_wf_def istack_capacity_def)
  then have "length (istack_content s) = nat (i_ptr s)"
    by (auto simp add: istack_content_def min_def nat_le_iff)
  with p show ?thesis
    by (auto simp: istack_push_def istack_pop_def istack_check_bounds_def istack_capacity_def
        obind_c_assert istack_content_def split: if_splits)
qed

theorem istack_bounds_witness:
  "istack_push 7 \<lparr>i_ptr = 2, i_data = [5, 6 :: nat]\<rparr> = Fault
    \<and> istack_pop \<lparr>i_ptr = 0, i_data = [5, 6 :: nat]\<rparr> = Fault"
  using istack_bounds [of "\<lparr>i_ptr = 2, i_data = [5, 6 :: nat]\<rparr>" 7]
    istack_bounds [of "\<lparr>i_ptr = 0, i_data = [5, 6 :: nat]\<rparr>" 7]
  by (simp add: istack_wf_def istack_capacity_def istack_content_def)

section \<open>FastStack\<close>

text \<open>
  \<open>f_blocks\<close> are the pages' data arrays, each of \<open>bs\<close> cells (\<open>fstack_block_size\<close>); \<open>begin\<close>
  and \<open>end\<close> are the bounds of the last one (of a fictitious one behind the list head if there
  is none), \<open>f_ptr\<close> is \<open>ptr - begin\<close>. An emptied stack keeps one page, with \<open>ptr = end\<close>.
\<close>

record 'a FastStack =
  f_count :: nat
  f_blocks :: "'a option list list"
  f_ptr :: nat

definition fstack_init :: "nat \<Rightarrow> 'a FastStack" where
  "fstack_init bs = \<lparr>f_count = 0, f_blocks = [], f_ptr = bs\<rparr>"

definition fstack_empty :: "'a FastStack \<Rightarrow> bool" where
  "fstack_empty s \<longleftrightarrow> \<not> (f_count s \<noteq> 0)"

definition fstack_size :: "nat \<Rightarrow> 'a FastStack \<Rightarrow> int" where
  "fstack_size bs s = (int (f_count s) - 1) * int bs + int (f_ptr s)"

definition fstack_expand :: "nat \<Rightarrow> 'a FastStack \<Rightarrow> 'a FastStack" where
  "fstack_expand bs s =
    (let s = s\<lparr>f_count := f_count s + 1\<rparr>;
         s = (if f_count s \<noteq> 1 \<or> f_blocks s = [] then s\<lparr>f_blocks := f_blocks s @ [replicate bs None]\<rparr> else s)
     in s\<lparr>f_ptr := 0\<rparr>)"

definition fstack_shrink :: "nat \<Rightarrow> 'a FastStack \<Rightarrow> 'a FastStack" where
  "fstack_shrink bs s =
    (let s = s\<lparr>f_count := f_count s - 1\<rparr>;
         s = (if f_count s \<noteq> 0 then s\<lparr>f_blocks := butlast (f_blocks s)\<rparr> else s)
     in s\<lparr>f_ptr := bs\<rparr>)"

text \<open>Store to and load from the last block.\<close>

definition fstack_put :: "nat \<Rightarrow> 'a \<Rightarrow> 'a option list list \<Rightarrow> 'a option list list" where
  "fstack_put i v bl = butlast bl @ [(last bl)[i := Some v]]"

definition fstack_push :: "nat \<Rightarrow> 'a \<Rightarrow> 'a FastStack \<Rightarrow> 'a FastStack" where
  "fstack_push bs v s =
    (let s = (if f_ptr s = bs then fstack_expand bs s else s)
     in s\<lparr>f_blocks := fstack_put (f_ptr s) v (f_blocks s), f_ptr := f_ptr s + 1\<rparr>)"

definition fstack_top :: "'a FastStack \<Rightarrow> 'a outcome" where
  "fstack_top s = (if f_count s = 0 \<or> f_ptr s = 0 then Fault
     else (case last (f_blocks s) ! (f_ptr s - 1) of Some v \<Rightarrow> Done v | None \<Rightarrow> Fault))"

definition fstack_pop :: "nat \<Rightarrow> 'a FastStack \<Rightarrow> 'a FastStack outcome" where
  "fstack_pop bs s = (if f_count s = 0 \<or> f_ptr s = 0 then Fault
     else let s = s\<lparr>f_ptr := f_ptr s - 1\<rparr> in
       Done (if f_ptr s = 0 then fstack_shrink bs s else s))"

text \<open>\<open>while (block_count) _fstack_shrink(...)\<close>\<close>

function fstack_erase :: "nat \<Rightarrow> 'a FastStack \<Rightarrow> 'a FastStack" where
  "fstack_erase bs s = (if f_count s \<noteq> 0 then fstack_erase bs (fstack_shrink bs s) else s)"
  by auto
termination
  by (relation "measure (f_count \<circ> snd)") (auto simp: fstack_shrink_def Let_def)

declare fstack_erase.simps [simp del]

text \<open>The second component is the number of pages returned with \<open>page_free\<close>.\<close>

definition fstack_destroy :: "nat \<Rightarrow> 'a FastStack \<Rightarrow> 'a FastStack \<times> nat" where
  "fstack_destroy bs s = (fstack_init bs, length (f_blocks s))"

definition fstack_for_each :: "nat \<Rightarrow> ('a option \<Rightarrow> 'x \<Rightarrow> 'x) \<Rightarrow> 'a FastStack \<Rightarrow> 'x \<Rightarrow> 'x" where
  "fstack_for_each bs f s x = (if f_count s = 0 then x else
     fold (\<lambda>i. fold f (take (if i + 1 = length (f_blocks s) then f_ptr s else bs) (f_blocks s ! i)))
       [0..<length (f_blocks s)] x)"

definition fstack_cells :: "'a FastStack \<Rightarrow> 'a option list" where
  "fstack_cells s = (if f_count s = 0 then []
     else concat (butlast (f_blocks s)) @ take (f_ptr s) (last (f_blocks s)))"

definition fstack_content :: "'a FastStack \<Rightarrow> 'a list" where
  "fstack_content s = map the (fstack_cells s)"

definition fstack_wf :: "nat \<Rightarrow> 'a FastStack \<Rightarrow> bool" where
  "fstack_wf bs s \<longleftrightarrow> 0 < bs \<and> (\<forall>b \<in> set (f_blocks s). length b = bs) \<and> None \<notin> set (fstack_cells s)
     \<and> (if f_count s = 0 then length (f_blocks s) \<le> 1 \<and> f_ptr s = bs
        else length (f_blocks s) = f_count s \<and> 0 < f_ptr s \<and> f_ptr s \<le> bs)"

lemma fstack_init_wf: "0 < bs \<Longrightarrow> fstack_wf bs (fstack_init bs) \<and> fstack_content (fstack_init bs) = []"
  by (simp add: fstack_wf_def fstack_init_def fstack_cells_def fstack_content_def)

lemma length_concat_const: "\<forall>b \<in> set bl. length b = n \<Longrightarrow> length (concat bl) = length bl * n"
  by (induction bl) auto

lemma set_butlastD: "x \<in> set (butlast xs) \<Longrightarrow> x \<in> set xs"
  by (rule in_set_butlastD)

lemma fstack_size_content:
  assumes "fstack_wf bs s" shows "fstack_size bs s = int (length (fstack_content s))"
proof (cases "f_count s = 0")
  case True
  then show ?thesis using assms
    by (simp add: fstack_size_def fstack_wf_def fstack_content_def fstack_cells_def)
next
  case False
  then have ne: "f_blocks s \<noteq> []" and len: "length (f_blocks s) = f_count s"
    using assms by (auto simp: fstack_wf_def)
  have "length (concat (butlast (f_blocks s))) = (f_count s - 1) * bs"
    using assms by (subst length_concat_const [where n = bs])
      (auto simp: fstack_wf_def len dest: in_set_butlastD)
  moreover have "length (last (f_blocks s)) = bs" using assms ne by (simp add: fstack_wf_def)
  ultimately show ?thesis using False assms
    by (simp add: fstack_size_def fstack_content_def fstack_cells_def fstack_wf_def of_nat_diff)
qed

text \<open>With room in the last block, a push only stores.\<close>

lemma fstack_put_wf:
  fixes v :: 'a
  assumes "0 < bs" and bl: "\<forall>b \<in> set (f_blocks s). length b = bs" "length (f_blocks s) = f_count s"
    and "0 < f_count s" and "f_ptr s < bs"
    and none: "None \<notin> set (fstack_cells s)"
  defines "t \<equiv> s\<lparr>f_blocks := fstack_put (f_ptr s) v (f_blocks s), f_ptr := f_ptr s + 1\<rparr>"
  shows "fstack_wf bs t \<and> fstack_content t = fstack_content s @ [v]"
proof -
  have ne: "f_blocks s \<noteq> []" using assms by auto
  then have last: "length (last (f_blocks s)) = bs" using bl by simp
  have cells: "fstack_cells t = fstack_cells s @ [Some v]"
    using assms last by (simp add: fstack_cells_def fstack_put_def)
  then show ?thesis using assms last
    by (auto simp: fstack_wf_def fstack_content_def fstack_put_def dest: in_set_butlastD)
qed

lemma concat_butlast_last: "bl \<noteq> [] \<Longrightarrow> concat (butlast bl) @ last bl = concat bl"
  by (cases bl rule: rev_cases) auto

lemma concat_butlast_take:
  "bl \<noteq> [] \<Longrightarrow> \<forall>b \<in> set bl. length b = bs \<Longrightarrow> concat (butlast bl) @ take bs (last bl) = concat bl"
  by (simp add: concat_butlast_last)

lemma fstack_push_wf:
  assumes "fstack_wf bs s"
  shows "fstack_wf bs (fstack_push bs v s) \<and> fstack_content (fstack_push bs v s) = fstack_content s @ [v]"
proof (cases "f_ptr s = bs")
  case False
  then have "fstack_push bs v s
      = s\<lparr>f_blocks := fstack_put (f_ptr s) v (f_blocks s), f_ptr := f_ptr s + 1\<rparr>"
    by (simp add: fstack_push_def)
  with False assms fstack_put_wf [of bs s v] show ?thesis
    by (auto simp: fstack_wf_def split: if_splits)
next
  case True
  let ?t = "fstack_expand bs s"
  have full: "concat (butlast (f_blocks s)) @ take bs (last (f_blocks s)) = concat (f_blocks s)"
    if "f_count s \<noteq> 0"
    using assms that by (intro concat_butlast_take) (auto simp: fstack_wf_def split: if_splits)
  have t: "fstack_cells ?t = fstack_cells s" "length (f_blocks ?t) = f_count ?t" "0 < f_count ?t"
    "f_ptr ?t = 0" "\<forall>b \<in> set (f_blocks ?t). length b = bs"
    using assms True full
    by (cases "f_blocks s"; auto simp: fstack_expand_def fstack_cells_def fstack_wf_def Let_def split: if_splits)+
  have "fstack_push bs v s = ?t\<lparr>f_blocks := fstack_put (f_ptr ?t) v (f_blocks ?t), f_ptr := f_ptr ?t + 1\<rparr>"
    using True by (simp add: fstack_push_def Let_def)
  moreover have "fstack_content ?t = fstack_content s" by (simp add: fstack_content_def t)
  ultimately show ?thesis using assms t fstack_put_wf [of bs ?t v] by (simp add: fstack_wf_def)
qed

lemma fstack_cells_content:
  "fstack_wf bs s \<Longrightarrow> fstack_cells s = map Some (fstack_content s)"
  unfolding fstack_content_def map_map
  by (rule sym, rule map_idI) (metis fstack_wf_def comp_apply option.collapse)

lemma fstack_contentD:
  assumes wf: "fstack_wf bs s" and c: "fstack_content s = vs @ [v]"
  shows "0 < f_count s" and "f_blocks s \<noteq> []" and "length (last (f_blocks s)) = bs"
    and "last (f_blocks s) ! (f_ptr s - 1) = Some v"
    and "concat (butlast (f_blocks s)) @ take (f_ptr s - 1) (last (f_blocks s)) = map Some vs"
    and "0 < f_ptr s" and "f_ptr s \<le> bs" and "length (f_blocks s) = f_count s"
proof -
  note cells = fstack_cells_content [OF wf, unfolded c]
  show n: "0 < f_count s" using cells by (auto simp: fstack_cells_def split: if_splits)
  then show ne: "f_blocks s \<noteq> []" and p: "0 < f_ptr s" "f_ptr s \<le> bs"
    and "length (f_blocks s) = f_count s"
    using wf by (auto simp: fstack_wf_def)
  then show len: "length (last (f_blocks s)) = bs" using wf by (simp add: fstack_wf_def)
  have "take (f_ptr s) (last (f_blocks s))
      = take (f_ptr s - 1) (last (f_blocks s)) @ [last (f_blocks s) ! (f_ptr s - 1)]"
    using p len by (metis Suc_diff_1 diff_less less_le_trans take_Suc_conv_app_nth zero_less_one)
  with cells n show "last (f_blocks s) ! (f_ptr s - 1) = Some v"
    "concat (butlast (f_blocks s)) @ take (f_ptr s - 1) (last (f_blocks s)) = map Some vs"
    by (simp_all add: fstack_cells_def)
qed

lemma fstack_top_wf: "fstack_wf bs s \<Longrightarrow> fstack_content s = vs @ [v] \<Longrightarrow> fstack_top s = Done v"
  using fstack_contentD [of bs s vs v] by (simp add: fstack_top_def)

lemma fstack_pop_wf:
  assumes wf: "fstack_wf bs s" and c: "fstack_content s = vs @ [v]"
  shows "\<exists>s'. fstack_pop bs s = Done s' \<and> fstack_wf bs s' \<and> fstack_content s' = vs"
proof -
  note d = fstack_contentD [OF wf c]
  have len: "\<forall>b \<in> set (f_blocks s). length b = bs" "0 < bs" using wf by (auto simp: fstack_wf_def)
  define t where "t = s\<lparr>f_ptr := f_ptr s - 1\<rparr>"
  have pop: "fstack_pop bs s = Done (if f_ptr t = 0 then fstack_shrink bs t else t)"
    using d by (simp add: fstack_pop_def t_def Let_def)
  define u where "u = (if f_ptr t = 0 then fstack_shrink bs t else t)"
  have cells: "fstack_cells u = map Some vs"
  proof (cases "f_ptr t = 0")
    case False
    then show ?thesis using d by (simp add: u_def t_def fstack_cells_def)
  next
    case True
    then have vs: "concat (butlast (f_blocks s)) = map Some vs" using d(5) by (simp add: t_def)
    show ?thesis
    proof (cases "f_count s = 1")
      case True
      with d(8) have "butlast (f_blocks s) = []" by (cases "f_blocks s") auto
      then show ?thesis using True vs \<open>f_ptr t = 0\<close>
        by (simp add: u_def t_def fstack_shrink_def fstack_cells_def)
    next
      case False
      then have ne: "butlast (f_blocks s) \<noteq> []" using d by (cases "f_blocks s") auto
      then have "length (last (butlast (f_blocks s))) = bs"
        using len by (meson in_set_butlastD last_in_set)
      then have "concat (butlast (butlast (f_blocks s))) @ take bs (last (butlast (f_blocks s)))
        = concat (butlast (butlast (f_blocks s)) @ [last (butlast (f_blocks s))])" by simp
      also have "\<dots> = map Some vs" using ne vs by simp
      finally show ?thesis using False d True
        by (simp add: u_def t_def fstack_shrink_def fstack_cells_def Let_def)
    qed
  qed
  moreover have "fstack_wf bs u"
    unfolding fstack_wf_def cells
    using d len by (auto simp: u_def t_def fstack_shrink_def Let_def dest: in_set_butlastD)
  ultimately show ?thesis using pop by (simp add: u_def [symmetric] fstack_content_def o_def)
qed

definition fstack_take :: "nat \<Rightarrow> 'a FastStack \<Rightarrow> ('a \<times> 'a FastStack) outcome" where
  "fstack_take bs s = obind (fstack_top s) (\<lambda>v. obind (fstack_pop bs s) (\<lambda>s. Done (v, s)))"

lemma fstack_empty_content: "fstack_wf bs s \<Longrightarrow> fstack_empty s \<longleftrightarrow> fstack_content s = []"
proof -
  assume wf: "fstack_wf bs s"
  have "0 < fstack_size bs s" if "f_count s \<noteq> 0"
  proof -
    have "0 \<le> (int (f_count s) - 1) * int bs" using that by simp
    moreover have "0 < f_ptr s" using wf that by (simp add: fstack_wf_def)
    ultimately show ?thesis by (simp add: fstack_size_def)
  qed
  then have "f_count s \<noteq> 0 \<Longrightarrow> fstack_content s \<noteq> []" using fstack_size_content [OF wf] by auto
  then show ?thesis
    by (cases "f_count s = 0") (simp_all add: fstack_empty_def fstack_content_def fstack_cells_def)
qed

interpretation fstack: stack_adt "fstack_wf bs" fstack_content "\<lambda>_. True" fstack_empty
  "\<lambda>v s. Done (fstack_push bs v s)" fstack_top "fstack_take bs" for bs
proof unfold_locales
  show "fstack_wf bs s \<Longrightarrow> fstack_content s = vs @ [v] \<Longrightarrow>
      \<exists>s'. fstack_take bs s = Done (v, s') \<and> fstack_wf bs s' \<and> fstack_content s' = vs"
    for s :: "'a FastStack" and vs v
    using fstack_top_wf [of bs s vs v] fstack_pop_wf [of bs s vs v] by (auto simp: fstack_take_def)
qed (simp_all add: fstack_empty_content fstack_push_wf fstack_top_wf)

text \<open>Erasing goes page by page and keeps the first one.\<close>

lemma fstack_shrink_wf:
  assumes "fstack_wf bs s" and "f_count s \<noteq> 0"
  shows "fstack_wf bs (fstack_shrink bs s)"
proof -
  have blocks: "f_blocks s \<noteq> []" "length (f_blocks s) = f_count s" "0 < bs"
    "\<forall>b \<in> set (f_blocks s). length b = bs"
    using assms by (auto simp: fstack_wf_def)
  have none: "None \<notin> set (concat (butlast (f_blocks s)))"
    using assms by (simp add: fstack_wf_def fstack_cells_def)
  have "fstack_cells (fstack_shrink bs s) = concat (butlast (f_blocks s))" if "f_count s \<noteq> 1"
  proof -
    have "butlast (f_blocks s) \<noteq> []" using that assms(2) blocks by (cases "f_blocks s") auto
    then have "concat (butlast (butlast (f_blocks s))) @ take bs (last (butlast (f_blocks s)))
        = concat (butlast (f_blocks s))"
      by (rule concat_butlast_take) (use blocks in \<open>auto dest: in_set_butlastD\<close>)
    then show ?thesis using that assms(2) by (simp add: fstack_cells_def fstack_shrink_def Let_def)
  qed
  moreover have "fstack_cells (fstack_shrink bs s) = []" if "f_count s = 1"
    using that by (simp add: fstack_cells_def fstack_shrink_def)
  ultimately have "None \<notin> set (fstack_cells (fstack_shrink bs s))"
    using none by (cases "f_count s = 1") simp_all
  then show ?thesis
    using blocks by (auto simp: fstack_wf_def fstack_shrink_def Let_def dest: in_set_butlastD)
qed

lemma fstack_erase_wf:
  "fstack_wf bs s \<Longrightarrow> fstack_wf bs (fstack_erase bs s) \<and> f_count (fstack_erase bs s) = 0"
proof (induction bs s rule: fstack_erase.induct)
  case (1 bs s)
  then show ?case by (subst (1 2) fstack_erase.simps) (simp add: fstack_shrink_wf)
qed

lemma fold_take_blocks:
  assumes "\<forall>b \<in> set bl. length b = bs"
  shows "fold (\<lambda>i. fold f (take bs (bl ! i))) [0..<length bl] x = fold f (concat bl) x"
  using assms
proof (induction bl rule: rev_induct)
  case (snoc b bl)
  have "fold (\<lambda>i. fold f (take bs ((bl @ [b]) ! i))) [0..<length bl] x
      = fold (\<lambda>i. fold f (take bs (bl ! i))) [0..<length bl] x"
    by (rule fold_cong) (simp_all add: nth_append)
  with snoc show ?case by simp
qed simp

lemma fstack_for_each_content:
  assumes "fstack_wf bs s"
  shows "fstack_for_each bs f s x = fold f (map Some (fstack_content s)) x"
proof (cases "f_count s = 0")
  case True
  then show ?thesis by (simp add: fstack_for_each_def fstack_content_def fstack_cells_def)
next
  case False
  then have ne: "f_blocks s \<noteq> []" and len: "\<forall>b \<in> set (butlast (f_blocks s)). length b = bs"
    using assms by (auto simp: fstack_wf_def dest: in_set_butlastD)
  obtain bl b where bl: "f_blocks s = bl @ [b]" using ne by (metis rev_exhaust)
  have "fold (\<lambda>i. fold f (take (if i + 1 = length (f_blocks s) then f_ptr s else bs) (f_blocks s ! i)))
      [0..<length bl] x = fold (\<lambda>i. fold f (take bs (bl ! i))) [0..<length bl] x"
    by (rule fold_cong) (simp_all add: bl nth_append)
  then have "fstack_for_each bs f s x = fold f (fstack_cells s) x"
    using False len by (simp add: fstack_for_each_def fstack_cells_def bl fold_take_blocks)
  then show ?thesis using fstack_cells_content [OF assms] by simp
qed

text \<open>
  A \<open>FastStack\<close> holds its elements in order although they are spread over pages: the
  traversal visits every element once, bottom first, across the page boundaries; the size is
  right, also for the empty stack (where the number of full pages is -1); and the stack holds
  exactly the pages its elements need, or one spare page when it is empty.
\<close>

theorem fstack_pages:
  assumes "fstack_wf bs s"
  shows "fstack_for_each bs f s x = fold f (map Some (fstack_content s)) x
    \<and> fstack_size bs s = int (length (fstack_content s))
    \<and> (if fstack_content s = [] then length (f_blocks s) \<le> 1
       else (length (f_blocks s) - 1) * bs < length (fstack_content s)
         \<and> length (fstack_content s) \<le> length (f_blocks s) * bs)"
proof (intro conjI)
  note sz = fstack_size_content [OF assms]
  show "fstack_for_each bs f s x = fold f (map Some (fstack_content s)) x"
    "fstack_size bs s = int (length (fstack_content s))"
    using fstack_for_each_content [OF assms] sz by auto
  show "if fstack_content s = [] then length (f_blocks s) \<le> 1
       else (length (f_blocks s) - 1) * bs < length (fstack_content s)
         \<and> length (fstack_content s) \<le> length (f_blocks s) * bs"
  proof (cases "fstack_empty s")
    case True
    then show ?thesis using fstack_empty_content [OF assms] assms
      by (simp add: fstack_wf_def fstack_empty_def)
  next
    case False
    then have s: "fstack_content s \<noteq> []" "0 < f_count s" "length (f_blocks s) = f_count s"
      "0 < f_ptr s" "f_ptr s \<le> bs"
      using fstack_empty_content [OF assms] assms by (auto simp: fstack_wf_def fstack_empty_def)
    then obtain n where n: "f_count s = Suc n" by (cases "f_count s") auto
    have "int (length (fstack_content s)) = int (n * bs + f_ptr s)"
      using sz by (simp add: fstack_size_def n)
    then have "length (fstack_content s) = n * bs + f_ptr s" by (simp only: of_nat_eq_iff)
    then show ?thesis using s n by simp
  qed
qed

text \<open>Three elements in pages of two cells.\<close>

definition demo_fstack :: "nat FastStack" where
  "demo_fstack = fold (fstack_push 2) [5, 6, 7] (fstack_init 2)"

theorem fstack_pages_witness:
  "fstack_for_each 2 (\<lambda>v x. v # x) demo_fstack [] = [Some 7, Some 6, Some 5]
    \<and> length (f_blocks demo_fstack) = 2"
proof -
  have d: "demo_fstack = \<lparr>f_count = 2, f_blocks = [[Some 5, Some 6], [Some 7, None]], f_ptr = 1\<rparr>"
    by code_simp
  have "fstack_wf 2 demo_fstack" "fstack_content demo_fstack = [5, 6, 7]"
    by (simp_all add: d fstack_wf_def fstack_cells_def fstack_content_def)
  then show ?thesis using fstack_pages [of 2 demo_fstack "\<lambda>v x. v # x" "[]"] by (simp add: d)
qed

text \<open>
  C17: emptying a stack by popping, as \<open>_tr_unlock\<close> does with the acquired locks, ends and hands
  out every element exactly once, the last one pushed first; in particular pushing elements
  onto a fresh stack and draining it replays them in reverse, however often the array was
  reallocated on the way up and shrunk on the way down.
\<close>

theorem stack_drain_lifo:
  assumes "stack_wf s"
  shows "\<exists>s'. drain stack_empty (stack_pop 8) f (fold (stack_push 8) vs s) x
      = Some (Done (s', fold f (rev (stack_content s @ vs)) x)) \<and> stack_content s' = []"
proof -
  have "stack_wf (fold (stack_push 8) vs s)
      \<and> stack_content (fold (stack_push 8) vs s) = stack_content s @ vs"
    using assms by (induction vs arbitrary: s) (auto simp: stack_push_wf)
  then show ?thesis using stack.drain_all [of "fold (stack_push 8) vs s" f x] by auto
qed

theorem stack_drain_lifo_witness:
  "\<exists>s'. drain stack_empty (stack_pop 8) (\<lambda>v x. x @ [v]) (fold (stack_push 8) [3, 4 :: nat] stack_init) []
      = Some (Done (s', [4, 3])) \<and> stack_content s' = []"
  using stack_drain_lifo [OF stack_init_wf(1), of "\<lambda>v x. x @ [v]" "[3, 4 :: nat]" "[]"] by simp

end
