(* ===== verification/Bit_Array.thy ===== *)
theory Bit_Array
  imports Prelude
begin

text \<open>
  \<open>utils/bit_array.h\<close>: a set of small numbers as an array of 32-bit words. The read sets and
  the sets of locked records use it when the locks live in the global table. An access outside
  the array is a \<open>Fault\<close>.
\<close>

record BitArray =
  ba_data :: "u32 list"

definition bit_array_init :: "nat \<Rightarrow> BitArray" where
  "bit_array_init n = \<lparr>ba_data = replicate ((n + 31) div 32) 0\<rparr>"

definition bit_array_erase :: "BitArray \<Rightarrow> BitArray" where
  "bit_array_erase a = a\<lparr>ba_data := replicate (length (ba_data a)) 0\<rparr>"

definition bit_array_words :: "BitArray \<Rightarrow> nat" where
  "bit_array_words a = length (ba_data a)"

text \<open>\<open>1 << bit\<close>\<close>

definition ba_mask :: "nat \<Rightarrow> u32" where
  "ba_mask b = push_bit b 1"

definition bit_array_set :: "nat \<Rightarrow> BitArray \<Rightarrow> BitArray outcome" where
  "bit_array_set i a = (if i div 32 < length (ba_data a)
     then Done (a\<lparr>ba_data := (ba_data a)[i div 32 := (ba_data a ! (i div 32)) OR ba_mask (i mod 32)]\<rparr>)
     else Fault)"

definition bit_array_flip :: "nat \<Rightarrow> BitArray \<Rightarrow> BitArray outcome" where
  "bit_array_flip i a = (if i div 32 < length (ba_data a)
     then Done (a\<lparr>ba_data := (ba_data a)[i div 32 := (ba_data a ! (i div 32)) XOR ba_mask (i mod 32)]\<rparr>)
     else Fault)"

definition bit_array_get :: "nat \<Rightarrow> BitArray \<Rightarrow> u32 outcome" where
  "bit_array_get i a = (if i div 32 < length (ba_data a)
     then Done ((ba_data a ! (i div 32)) AND ba_mask (i mod 32)) else Fault)"

text \<open>\<open>bitArrayFor ... bitArrayForEnd\<close> with the body \<open>f\<close>.\<close>

definition bit_array_for :: "(nat \<Rightarrow> 'x \<Rightarrow> 'x) \<Rightarrow> BitArray \<Rightarrow> 'x \<Rightarrow> 'x" where
  "bit_array_for f a x =
    fold (\<lambda>w. fold (\<lambda>b x. if (ba_data a ! w) AND ba_mask b \<noteq> 0 then f (32 * w + b) x else x) [0..<32])
      [0..<bit_array_words a] x"

section \<open>The set it represents\<close>

definition ba_bit :: "BitArray \<Rightarrow> nat \<Rightarrow> bool" where
  "ba_bit a i \<longleftrightarrow> bit (ba_data a ! (i div 32)) (i mod 32)"

definition ba_set :: "BitArray \<Rightarrow> nat set" where
  "ba_set a = {i. i < 32 * bit_array_words a \<and> ba_bit a i}"

lemma in_range_iff: "i div 32 < n \<longleftrightarrow> i < 32 * (n :: nat)"
  by (simp add: less_mult_imp_div_less div_less_iff_less_mult mult.commute)

lemma bit_ba_mask: "k < 32 \<Longrightarrow> bit (ba_mask b) k \<longleftrightarrow> k = b"
  by (auto simp: ba_mask_def bit_exp_iff possible_bit_word)

lemma ba_mask_test: "b < 32 \<Longrightarrow> (w :: u32) AND ba_mask b \<noteq> 0 \<longleftrightarrow> bit w b"
proof -
  assume b: "b < 32"
  have "bit (w AND ba_mask b) k \<longleftrightarrow> bit w b \<and> k = b" for k
    using b bit_imp_le_length [of w k] by (cases "k < 32") (auto simp: bit_and_iff bit_ba_mask)
  then show ?thesis by (metis bit_0_eq bot_apply bot_bool_def bit_eq_iff)
qed

lemma bit_or_mask: "k < 32 \<Longrightarrow> bit ((w :: u32) OR ba_mask b) k \<longleftrightarrow> bit w k \<or> k = b"
  by (simp add: bit_or_iff bit_ba_mask)

lemma bit_xor_mask: "k < 32 \<Longrightarrow> bit ((w :: u32) XOR ba_mask b) k \<longleftrightarrow> (bit w k \<noteq> (k = b))"
  by (auto simp: bit_xor_iff bit_ba_mask)

lemma div_mod_eq_iff: "i = j \<longleftrightarrow> i div 32 = j div 32 \<and> i mod 32 = j mod (32 :: nat)"
  by (metis div_mult_mod_eq)

lemma ba_bit_set:
  "i < 32 * bit_array_words a \<Longrightarrow> bit_array_set i a = Done a' \<Longrightarrow> j < 32 * bit_array_words a \<Longrightarrow>
    ba_bit a' j \<longleftrightarrow> ba_bit a j \<or> j = i"
  by (auto simp: bit_array_set_def ba_bit_def in_range_iff bit_array_words_def bit_or_mask
      nth_list_update div_mod_eq_iff [of j i] split: if_splits)

lemma ba_bit_flip:
  "i < 32 * bit_array_words a \<Longrightarrow> bit_array_flip i a = Done a' \<Longrightarrow> j < 32 * bit_array_words a \<Longrightarrow>
    ba_bit a' j \<longleftrightarrow> (ba_bit a j \<noteq> (j = i))"
  by (auto simp: bit_array_flip_def ba_bit_def in_range_iff bit_array_words_def bit_xor_mask
      nth_list_update div_mod_eq_iff [of j i] split: if_splits)

lemma upt_blocks: "[0..<n * k] = concat (map (\<lambda>w. map (\<lambda>b. k * w + b) [0..<k]) [0..<n])"
proof (induction n)
  case (Suc n)
  have "[0..<Suc n * k] = [0..<n * k] @ [n * k..<n * k + k]"
    using upt_add_eq_append [of 0 "n * k" k] by (simp add: add.commute)
  also have "[n * k..<n * k + k] = map (\<lambda>b. k * n + b) [0..<k]"
    using map_add_upt [of "n * k" k] by (simp add: add.commute mult.commute)
  finally show ?case using Suc by simp
qed simp

lemma fold_filter: "fold (\<lambda>y x. if P y then f y x else x) ys x = fold f (filter P ys) x"
  by (induction ys arbitrary: x) auto

lemma fold_concat: "fold f (concat xss) x = fold (fold f) xss x"
  by (induction xss arbitrary: x) auto

lemma bit_array_for_fold:
  "bit_array_for f a x = fold f (filter (ba_bit a) [0..<bit_array_words a * 32]) x"
proof -
  let ?g = "\<lambda>i x. if ba_bit a i then f i x else x"
  have "bit_array_for f a x = fold (\<lambda>w. fold ?g (map (\<lambda>b. 32 * w + b) [0..<32])) [0..<bit_array_words a] x"
    unfolding bit_array_for_def fold_map
    by (intro fold_cong ext) (auto simp: ba_bit_def ba_mask_test intro!: fold_cong)
  also have "\<dots> = fold ?g (concat (map (\<lambda>w. map (\<lambda>b. 32 * w + b) [0..<32]) [0..<bit_array_words a])) x"
    by (simp add: fold_concat fold_map comp_def)
  finally show ?thesis by (simp add: upt_blocks fold_filter)
qed

text \<open>
  A bit array implements a set of numbers: setting inserts, flipping toggles, reading is
  membership, each for every index up to the end of the last word (the boundaries of the words
  included) and nothing else changes; an index beyond it is the only fault; and the traversal
  visits exactly the members, in ascending order, once each.
\<close>

theorem bit_array_is_set:
  "(case bit_array_set i a of Done a' \<Rightarrow> i < 32 * bit_array_words a \<and> ba_set a' = insert i (ba_set a)
      | Fault \<Rightarrow> 32 * bit_array_words a \<le> i | Failed \<Rightarrow> False)
   \<and> (case bit_array_flip i a of
        Done a' \<Rightarrow> i < 32 * bit_array_words a \<and> ba_set a' = (if i \<in> ba_set a then ba_set a - {i} else insert i (ba_set a))
      | Fault \<Rightarrow> 32 * bit_array_words a \<le> i | Failed \<Rightarrow> False)
   \<and> (case bit_array_get i a of Done w \<Rightarrow> w \<noteq> 0 \<longleftrightarrow> i \<in> ba_set a
      | Fault \<Rightarrow> 32 * bit_array_words a \<le> i | Failed \<Rightarrow> False)
   \<and> ba_set (bit_array_erase a) = {}
   \<and> bit_array_for f a x = fold f (sorted_list_of_set (ba_set a)) x"
proof (intro conjI)
  have words: "bit_array_set i a = Done a' \<or> bit_array_flip i a = Done a' \<Longrightarrow>
      bit_array_words a' = bit_array_words a" for a'
    by (auto simp: bit_array_set_def bit_array_flip_def bit_array_words_def split: if_splits)
  show "case bit_array_set i a of Done a' \<Rightarrow> i < 32 * bit_array_words a \<and> ba_set a' = insert i (ba_set a)
      | Fault \<Rightarrow> 32 * bit_array_words a \<le> i | Failed \<Rightarrow> False"
  proof (cases "bit_array_set i a")
    case (Done a')
    then have "i < 32 * bit_array_words a"
      by (auto simp: bit_array_set_def in_range_iff bit_array_words_def split: if_splits)
    then show ?thesis using Done words ba_bit_set [OF _ Done] by (auto simp: ba_set_def)
  qed (auto simp: bit_array_set_def in_range_iff bit_array_words_def split: if_splits)
  show "case bit_array_flip i a of
        Done a' \<Rightarrow> i < 32 * bit_array_words a \<and> ba_set a' = (if i \<in> ba_set a then ba_set a - {i} else insert i (ba_set a))
      | Fault \<Rightarrow> 32 * bit_array_words a \<le> i | Failed \<Rightarrow> False"
  proof (cases "bit_array_flip i a")
    case (Done a')
    then have "i < 32 * bit_array_words a"
      by (auto simp: bit_array_flip_def in_range_iff bit_array_words_def split: if_splits)
    then show ?thesis using Done words ba_bit_flip [OF _ Done] by (auto simp: ba_set_def)
  qed (auto simp: bit_array_flip_def in_range_iff bit_array_words_def split: if_splits)
  show "case bit_array_get i a of Done w \<Rightarrow> w \<noteq> 0 \<longleftrightarrow> i \<in> ba_set a
      | Fault \<Rightarrow> 32 * bit_array_words a \<le> i | Failed \<Rightarrow> False"
    by (auto simp: bit_array_get_def in_range_iff bit_array_words_def ba_mask_test ba_set_def ba_bit_def)
  show "ba_set (bit_array_erase a) = {}"
    by (auto simp: ba_set_def bit_array_erase_def bit_array_words_def ba_bit_def in_range_iff [symmetric])
  have "ba_set a = set (filter (ba_bit a) [0..<bit_array_words a * 32])"
    by (auto simp: ba_set_def)
  then have "sorted_list_of_set (ba_set a) = filter (ba_bit a) [0..<bit_array_words a * 32]"
    by (simp only: sorted_list_of_set.idem_if_sorted_distinct sorted_wrt_filter sorted_upt
        distinct_filter distinct_upt)
  then show "bit_array_for f a x = fold f (sorted_list_of_set (ba_set a)) x"
    by (simp add: bit_array_for_fold)
qed

end
