(* ===== verification/Single_List.thy ===== *)
theory Single_List
  imports Lock
begin

text \<open>
  \<open>utils/slist.h\<close>: singly linked lists, sequential and with the atomic operations the
  allocators use concurrently. Memory is a map from the addresses of \<open>struct SList\<close> to their
  \<open>next\<close> fields; 0 is \<open>NULL\<close>, -1 marks a list another thread is working on.
\<close>

section \<open>Lists in memory\<close>

type_synonym addr = u64
type_synonym heap = "addr \<Rightarrow> addr"

abbreviation BUSY :: addr where
  "BUSY \<equiv> - 1"

text \<open>The nodes reached from a first pointer.\<close>

fun chain :: "heap \<Rightarrow> addr \<Rightarrow> addr list \<Rightarrow> bool" where
  "chain H p [] \<longleftrightarrow> p = 0"
| "chain H p (a # as) \<longleftrightarrow> p = a \<and> a \<noteq> 0 \<and> a \<noteq> BUSY \<and> a \<notin> set as \<and> chain H (H a) as"

lemma chain_upd [simp]: "b \<notin> set as \<Longrightarrow> chain (H(b := v)) p as \<longleftrightarrow> chain H p as"
  by (induction as arbitrary: p) auto

lemma chain_hd: "chain H p as \<Longrightarrow> p = (case as of [] \<Rightarrow> 0 | a # _ \<Rightarrow> a)"
  by (cases as) auto

lemma chain_nodes: "chain H p as \<Longrightarrow> distinct as \<and> 0 \<notin> set as \<and> BUSY \<notin> set as"
  by (induction as arbitrary: p) auto

section \<open>Sequential operations\<close>

definition slist_push :: "addr \<Rightarrow> addr \<Rightarrow> heap \<Rightarrow> heap" where
  "slist_push head item H = (let H = H(item := H head) in H(head := item))"

definition slist_pop :: "addr \<Rightarrow> heap \<Rightarrow> addr \<times> heap" where
  "slist_pop head H = (let item = H head in (item, H(head := (if item \<noteq> 0 then H item else 0))))"

definition slist_swap :: "addr \<Rightarrow> addr \<Rightarrow> heap \<Rightarrow> heap" where
  "slist_swap head_a head_b H = (let tmp = H head_a; H = H(head_a := H head_b) in H(head_b := tmp))"

definition slist_empty :: "addr \<Rightarrow> heap \<Rightarrow> bool" where
  "slist_empty head H \<longleftrightarrow> H head = 0"

text \<open>\<open>head\<close> heads a list of the nodes \<open>as\<close>.\<close>

definition slist :: "heap \<Rightarrow> addr \<Rightarrow> addr list \<Rightarrow> bool" where
  "slist H head as \<longleftrightarrow> head \<notin> set as \<and> chain H (H head) as"

lemma slist_push_slist:
  "slist H head as \<Longrightarrow> item \<notin> set as \<Longrightarrow> item \<noteq> 0 \<Longrightarrow> item \<noteq> BUSY \<Longrightarrow> item \<noteq> head \<Longrightarrow>
    slist (slist_push head item H) head (item # as)"
  by (auto simp: slist_def slist_push_def Let_def)

lemma slist_pop_slist:
  "slist H head as \<Longrightarrow> (case as of
      [] \<Rightarrow> fst (slist_pop head H) = 0 \<and> slist (snd (slist_pop head H)) head []
    | a # as' \<Rightarrow> fst (slist_pop head H) = a \<and> slist (snd (slist_pop head H)) head as')"
  by (cases as) (auto simp: slist_def slist_pop_def Let_def)

text \<open>
  Pushing and popping singly linked lists in memory is last-in-first-out: after a push a
  pop returns the pushed node and leaves the old list, a pop of the empty list returns
  \<open>NULL\<close>, swapping the heads swaps the lists, and lists that share no node with the one
  operated on keep their contents.
\<close>

theorem slist_sequential:
  assumes "slist H head as" and "item \<notin> set as" and "item \<noteq> 0" and "item \<noteq> BUSY" and "item \<noteq> head"
    and "slist H other bs" and "other \<noteq> head" and "other \<noteq> item" and "head \<notin> set bs"
    and "item \<notin> set bs" and "other \<notin> set as"
  shows "slist (slist_push head item H) head (item # as)
    \<and> fst (slist_pop head (slist_push head item H)) = item
    \<and> slist (snd (slist_pop head (slist_push head item H))) head as
    \<and> (slist_empty head H \<longleftrightarrow> as = [])
    \<and> (case as of [] \<Rightarrow> fst (slist_pop head H) = 0 | a # _ \<Rightarrow> fst (slist_pop head H) = a)
    \<and> slist (slist_swap head other H) head bs \<and> slist (slist_swap head other H) other as
    \<and> slist (slist_push head item H) other bs \<and> slist (snd (slist_pop head H)) other bs"
proof (intro conjI)
  show push: "slist (slist_push head item H) head (item # as)" by (rule slist_push_slist [OF assms(1-5)])
  show "fst (slist_pop head (slist_push head item H)) = item"
    "slist (snd (slist_pop head (slist_push head item H))) head as"
    using slist_pop_slist [OF push] by simp_all
  show "slist_empty head H \<longleftrightarrow> as = []"
    using assms(1) by (cases as) (auto simp: slist_empty_def slist_def)
  show "case as of [] \<Rightarrow> fst (slist_pop head H) = 0 | a # _ \<Rightarrow> fst (slist_pop head H) = a"
    using slist_pop_slist [OF assms(1)] by (auto split: list.splits)
  show "slist (slist_swap head other H) head bs" "slist (slist_swap head other H) other as"
    using assms(1,6,7,9,11) by (simp_all add: slist_def slist_swap_def Let_def)
  show "slist (slist_push head item H) other bs" "slist (snd (slist_pop head H)) other bs"
    using assms by (simp_all add: slist_def slist_push_def slist_pop_def Let_def)
qed

theorem slist_sequential_witness:
  "slist (slist_push 1 3 ((\<lambda>_. 0)(1 := 2))) 1 [3, 2]"
  using slist_sequential [of "(\<lambda>_. 0)(1 := 2)" 1 "[2]" 3 5 "[]"] by (simp add: slist_def)

section \<open>Concurrent operations\<close>

text \<open>
  A thread in \<open>slist_atomic_pop\<close> or \<open>slist_atomic_push\<close>: spinning in \<open>slistGetFirst\<close>, or past
  it (with the list in its hands) and before the second \<open>atomic_swp\<close>. One list and its head
  word; \<open>c_abs\<close> is history, the list as the completed operations left it, \<open>c_ret\<close> the last
  node a thread's pop returned.
\<close>

datatype slist_pc = Ready | Pop_spin | Pop_got addr | Push_spin addr | Push_got addr

record conc =
  c_head :: addr
  c_next :: heap
  c_pc :: "nat \<Rightarrow> slist_pc"
  c_abs :: "addr list"
  c_ret :: "nat \<Rightarrow> addr option"

abbreviation set_pc :: "conc \<Rightarrow> nat \<Rightarrow> slist_pc \<Rightarrow> conc" where
  "set_pc C t p \<equiv> C\<lparr>c_pc := (c_pc C)(t := p)\<rparr>"

text \<open>One round of \<open>slistGetFirst\<close>: swap -1 in; -1 coming back means another thread has the list.\<close>

definition slist_get_first :: "addr \<Rightarrow> addr \<times> addr" where
  "slist_get_first head = atomic_swp head BUSY"

text \<open>
  \<open>slist_atomic_swap\<close>, for a list \<open>head_b\<close> of the caller's own: \<open>None\<close> while it spins. Taken
  together its two \<open>atomic_swp\<close> exchange the lists, as \<open>slist_swap\<close> does.
\<close>

definition slist_atomic_swap :: "addr \<Rightarrow> addr \<Rightarrow> heap \<Rightarrow> heap option" where
  "slist_atomic_swap head_a head_b H = (case slist_get_first (H head_a) of (tmp, h) \<Rightarrow>
     if tmp = BUSY then None
     else let H = H(head_a := h); H = H(head_a := snd (atomic_swp (H head_a) (H head_b))) in Some (H(head_b := tmp)))"

lemma slist_atomic_swap_swaps:
  assumes "slist H a as" and "slist H b bs" and "a \<noteq> b" and "b \<notin> set as" and "a \<notin> set bs"
  shows "slist_atomic_swap a b H = Some (slist_swap a b H)"
    and "slist (slist_swap a b H) a bs" and "slist (slist_swap a b H) b as"
proof -
  have "H a \<noteq> BUSY" using assms(1) by (cases as) (auto simp: slist_def)
  then show "slist_atomic_swap a b H = Some (slist_swap a b H)"
    using assms(3) by (simp add: slist_atomic_swap_def slist_get_first_def atomic_swp_def slist_swap_def Let_def)
  show "slist (slist_swap a b H) a bs" "slist (slist_swap a b H) b as"
    using assms by (simp_all add: slist_def slist_swap_def Let_def)
qed

inductive slist_step :: "conc \<Rightarrow> conc \<Rightarrow> bool" where
  pop_call: "c_pc C t = Ready \<Longrightarrow> slist_step C (set_pc C t Pop_spin)"
| pop_spin: "c_pc C t = Pop_spin \<Longrightarrow> slist_get_first (c_head C) = (var, h) \<Longrightarrow> var = BUSY \<Longrightarrow>
    slist_step C (C\<lparr>c_head := h\<rparr>)"
| pop_get: "c_pc C t = Pop_spin \<Longrightarrow> slist_get_first (c_head C) = (var, h) \<Longrightarrow> var \<noteq> BUSY \<Longrightarrow>
    slist_step C (set_pc (C\<lparr>c_head := h\<rparr>) t (Pop_got var))"
| pop_done: "c_pc C t = Pop_got item \<Longrightarrow>
    atomic_swp (c_head C) (if item \<noteq> 0 then c_next C item else 0) = (old, h) \<Longrightarrow>
    slist_step C ((set_pc C t Ready)\<lparr>c_head := h, c_abs := tl (c_abs C), c_ret := (c_ret C)(t := Some item)\<rparr>)"
| push_call: "c_pc C t = Ready \<Longrightarrow> item \<noteq> 0 \<Longrightarrow> item \<noteq> BUSY \<Longrightarrow> item \<notin> set (c_abs C) \<Longrightarrow>
    (\<forall>t'. c_pc C t' \<noteq> Push_spin item \<and> c_pc C t' \<noteq> Push_got item) \<Longrightarrow>
    slist_step C (set_pc C t (Push_spin item))"
| push_spin: "c_pc C t = Push_spin item \<Longrightarrow> slist_get_first (c_head C) = (var, h) \<Longrightarrow> var = BUSY \<Longrightarrow>
    slist_step C (C\<lparr>c_head := h, c_next := (c_next C)(item := var)\<rparr>)"
| push_get: "c_pc C t = Push_spin item \<Longrightarrow> slist_get_first (c_head C) = (var, h) \<Longrightarrow> var \<noteq> BUSY \<Longrightarrow>
    slist_step C ((set_pc C t (Push_got item))\<lparr>c_head := h, c_next := (c_next C)(item := var)\<rparr>)"
| push_done: "c_pc C t = Push_got item \<Longrightarrow> atomic_swp (c_head C) item = (old, h) \<Longrightarrow>
    slist_step C ((set_pc C t Ready)\<lparr>c_head := h, c_abs := item # c_abs C\<rparr>)"

inductive slist_reachable :: "conc \<Rightarrow> bool" where
  start: "slist_reachable \<lparr>c_head = 0, c_next = H, c_pc = (\<lambda>_. Ready), c_abs = [], c_ret = (\<lambda>_. None)\<rparr>"
| step: "slist_reachable C \<Longrightarrow> slist_step C C' \<Longrightarrow> slist_reachable C'"

inductive_cases slist_stepE: "slist_step C C'"

definition holds :: "slist_pc \<Rightarrow> bool" where
  "holds p \<longleftrightarrow> (\<exists>a. p = Pop_got a \<or> p = Push_got a)"

definition pushing :: "slist_pc \<Rightarrow> addr \<Rightarrow> bool" where
  "pushing p a \<longleftrightarrow> p = Push_spin a \<or> p = Push_got a"

text \<open>Where the list starts: in the head, or in the hands of the thread that has it.\<close>

definition first_of :: "conc \<Rightarrow> slist_pc \<Rightarrow> addr" where
  "first_of C p = (case p of Pop_got a \<Rightarrow> a | Push_got a \<Rightarrow> c_next C a | _ \<Rightarrow> c_head C)"

definition conc_inv :: "conc \<Rightarrow> bool" where
  "conc_inv C \<longleftrightarrow>
    (\<forall>t t'. holds (c_pc C t) \<longrightarrow> holds (c_pc C t') \<longrightarrow> t = t')
    \<and> (\<forall>t. holds (c_pc C t) \<longrightarrow> c_head C = BUSY \<and> chain (c_next C) (first_of C (c_pc C t)) (c_abs C))
    \<and> ((\<forall>t. \<not> holds (c_pc C t)) \<longrightarrow> chain (c_next C) (c_head C) (c_abs C))
    \<and> (\<forall>t a. pushing (c_pc C t) a \<longrightarrow> a \<noteq> 0 \<and> a \<noteq> BUSY \<and> a \<notin> set (c_abs C))
    \<and> (\<forall>t t' a. pushing (c_pc C t) a \<longrightarrow> pushing (c_pc C t') a \<longrightarrow> t = t')"

lemma holds_simps [simp]:
  "\<not> holds Ready" "\<not> holds Pop_spin" "\<not> holds (Push_spin a)" "holds (Pop_got a)" "holds (Push_got a)"
  by (simp_all add: holds_def)

lemma pushing_simps [simp]:
  "\<not> pushing Ready a" "\<not> pushing Pop_spin a" "\<not> pushing (Pop_got b) a"
  "pushing (Push_spin b) a \<longleftrightarrow> b = a" "pushing (Push_got b) a \<longleftrightarrow> b = a"
  by (simp_all add: pushing_def)

lemma first_of_simps [simp]:
  "first_of C (Pop_got a) = a" "first_of C (Push_got a) = c_next C a"
  by (simp_all add: first_of_def)

lemma conc_inv_free:
  assumes "conc_inv C" and "c_head C \<noteq> BUSY"
  shows "\<not> holds (c_pc C t)" and "chain (c_next C) (c_head C) (c_abs C)"
  using assms by (auto simp: conc_inv_def)

lemma conc_inv_held:
  "conc_inv C \<Longrightarrow> holds (c_pc C t) \<Longrightarrow>
    c_head C = BUSY \<and> chain (c_next C) (first_of C (c_pc C t)) (c_abs C)"
  unfolding conc_inv_def by blast

lemma conc_inv_pc:
  assumes inv: "conc_inv C" and "\<not> holds (c_pc C t)" and "\<not> holds p"
    and p: "\<And>a. pushing p a \<Longrightarrow> a \<noteq> 0 \<and> a \<noteq> BUSY \<and> a \<notin> set (c_abs C)
      \<and> (\<forall>t'. t' \<noteq> t \<longrightarrow> \<not> pushing (c_pc C t') a)"
  shows "conc_inv (set_pc C t p)"
proof -
  have "holds (((c_pc C)(t := p)) t') \<longleftrightarrow> holds (c_pc C t')" for t' using assms(2,3) by simp
  moreover have "first_of (set_pc C t p) q = first_of C q" for q
    by (simp add: first_of_def split: slist_pc.splits)
  ultimately show ?thesis
    using inv p assms(2,3) unfolding conc_inv_def by (auto split: if_splits)
qed

text \<open>Taking the list: nobody has it, and then this thread does.\<close>

lemma conc_inv_take:
  assumes inv: "conc_inv C" and head: "c_head C \<noteq> BUSY" and p: "holds p"
    and H: "chain H (first_of (C\<lparr>c_next := H\<rparr>) p) (c_abs C)"
    and push: "\<And>a. pushing p a \<Longrightarrow> pushing (c_pc C t) a"
  shows "conc_inv ((set_pc C t p)\<lparr>c_head := BUSY, c_next := H\<rparr>)"
proof -
  note free = conc_inv_free [OF inv head]
  have "first_of (C\<lparr>c_pc := f, c_head := BUSY, c_next := H\<rparr>) p = first_of (C\<lparr>c_next := H\<rparr>) p" for f
    using p by (auto simp: holds_def)
  moreover have "pushing p a \<Longrightarrow> a \<noteq> 0 \<and> a \<noteq> BUSY \<and> a \<notin> set (c_abs C)" for a
    using inv push [of a] unfolding conc_inv_def by blast
  ultimately show ?thesis
    using inv p H push free(1) unfolding conc_inv_def by (auto split: if_splits)
qed

text \<open>Giving it back.\<close>

lemma conc_inv_give:
  assumes inv: "conc_inv C" and t: "holds (c_pc C t)" and ch: "chain (c_next C) h as"
    and new: "\<And>a t'. a \<in> set as \<Longrightarrow> t' \<noteq> t \<Longrightarrow> \<not> pushing (c_pc C t') a"
  shows "conc_inv ((set_pc C t Ready)\<lparr>c_head := h, c_abs := as, c_ret := r\<rparr>)"
proof -
  have "\<not> holds (((c_pc C)(t := Ready)) t')" for t' using inv t by (auto simp: conc_inv_def)
  then show ?thesis
    using inv ch new unfolding conc_inv_def by (auto split: if_splits)
qed

lemma get_first_eq: "slist_get_first w = (var, h) \<longleftrightarrow> var = w \<and> h = BUSY"
  by (auto simp: slist_get_first_def atomic_swp_def)

lemma conc_inv_step: "slist_step C C' \<Longrightarrow> conc_inv C \<Longrightarrow> conc_inv C'"
proof (induction rule: slist_step.induct)
  case (pop_call C t)
  then show ?case by (intro conc_inv_pc) auto
next
  case (push_call C t item)
  then show ?case by (intro conc_inv_pc) (auto simp: pushing_def)
next
  case (pop_spin C t var h)
  then have "C\<lparr>c_head := h\<rparr> = C" by (cases C) (simp add: get_first_eq)
  then show ?case using pop_spin by simp
next
  case (pop_get C t var h)
  then have "chain (c_next C) var (c_abs C)" using conc_inv_free(2) by (auto simp: get_first_eq)
  then have "conc_inv ((set_pc C t (Pop_got var))\<lparr>c_head := BUSY, c_next := c_next C\<rparr>)"
    using pop_get by (intro conc_inv_take) (auto simp: get_first_eq)
  moreover have "(set_pc C t (Pop_got var))\<lparr>c_head := BUSY, c_next := c_next C\<rparr>
      = set_pc (C\<lparr>c_head := h\<rparr>) t (Pop_got var)"
    using pop_get by (cases C) (simp add: get_first_eq)
  ultimately show ?case by simp
next
  case (pop_done C t item old h)
  have ch: "chain (c_next C) item (c_abs C)" and t: "holds (c_pc C t)"
    using pop_done conc_inv_held [OF pop_done.prems, of t] by simp_all
  have "chain (c_next C) h (tl (c_abs C))"
    using ch pop_done(2) by (cases "c_abs C") (auto simp: atomic_swp_def)
  moreover have "\<not> pushing (c_pc C t') a" if "a \<in> set (tl (c_abs C))" for a t'
    using pop_done.prems that list.set_sel(2) [of "c_abs C" a] unfolding conc_inv_def
    by (metis list.sel(2) empty_iff list.set(1))
  ultimately show ?case by (intro conc_inv_give [OF pop_done.prems t]) auto
next
  case (push_spin C t item var h)
  have ok: "item \<notin> set (c_abs C)" "\<And>t'. c_pc C t' = Push_got item \<Longrightarrow> False"
    using push_spin.prems push_spin(1) unfolding conc_inv_def
    by (metis pushing_simps(4), metis pushing_simps(4,5) slist_pc.distinct(19))
  have "first_of (C\<lparr>c_head := h, c_next := (c_next C)(item := var)\<rparr>) (c_pc C t') = first_of C (c_pc C t')"
    if "holds (c_pc C t')" for t'
    using that ok(2) [of t'] by (auto simp: holds_def)
  then show ?case
    using push_spin ok unfolding conc_inv_def get_first_eq by (auto simp: chain_upd)
next
  case (push_get C t item var h)
  have ok: "item \<notin> set (c_abs C)"
    using push_get.prems push_get(1) unfolding conc_inv_def by (metis pushing_simps(4))
  have "chain (c_next C) var (c_abs C)" using push_get conc_inv_free(2) by (auto simp: get_first_eq)
  then show ?case
    using push_get ok unfolding get_first_eq by (auto intro!: conc_inv_take)
next
  case (push_done C t item old h)
  have t: "holds (c_pc C t)" and ch: "chain (c_next C) (c_next C item) (c_abs C)"
    using push_done conc_inv_held [OF push_done.prems, of t] by simp_all
  have ok: "item \<noteq> 0" "item \<noteq> BUSY" "item \<notin> set (c_abs C)"
    using push_done unfolding conc_inv_def by (metis pushing_simps(5))+
  have "chain (c_next C) h (item # c_abs C)" using ch ok push_done(2) by (simp add: atomic_swp_def)
  moreover have "\<not> pushing (c_pc C t') a" if "a \<in> set (item # c_abs C)" "t' \<noteq> t" for a t'
    using push_done.prems that push_done(1) unfolding conc_inv_def
    by (metis pushing_simps(5) set_ConsD)
  ultimately have "conc_inv ((set_pc C t Ready)\<lparr>c_head := h, c_abs := item # c_abs C, c_ret := c_ret C\<rparr>)"
    by (intro conc_inv_give [OF push_done.prems t]) auto
  then show ?case by (cases C) simp
qed

lemma conc_inv_reachable: "slist_reachable C \<Longrightarrow> conc_inv C"
proof (induction rule: slist_reachable.induct)
  case (start H)
  then show ?case by (simp add: conc_inv_def)
next
  case (step C C')
  show ?case by (rule conc_inv_step [OF step(2,3)])
qed

text \<open>
  C12: the atomic operations of the singly linked lists are linearizable. In every state that any
  number of threads can reach by any interleaving of \<open>slist_atomic_pop\<close> and
  \<open>slist_atomic_push\<close> (each caller pushing a node of its own), at most one thread has the list
  taken; it, or the head if nobody has, leads to exactly the nodes that the completed operations
  left, without cycles; and a pop that completes returns the topmost of these nodes, or
  \<open>NULL\<close> precisely when there is none.
\<close>

theorem slist_atomic_linearizable:
  assumes "slist_reachable C"
  shows "(c_head C = BUSY \<longleftrightarrow> (\<exists>t. holds (c_pc C t)))
    \<and> (holds (c_pc C t) \<and> holds (c_pc C t') \<longrightarrow> t = t')
    \<and> (c_head C \<noteq> BUSY \<longrightarrow> chain (c_next C) (c_head C) (c_abs C))
    \<and> (c_pc C t = Pop_got item \<longrightarrow> item = (case c_abs C of [] \<Rightarrow> 0 | a # _ \<Rightarrow> a))
    \<and> distinct (c_abs C) \<and> 0 \<notin> set (c_abs C)"
proof (intro conjI)
  note inv = conc_inv_reachable [OF assms]
  have nb: "\<not> chain H BUSY as" for H as by (cases as) auto
  show "c_head C = BUSY \<longleftrightarrow> (\<exists>t. holds (c_pc C t))"
    using inv nb unfolding conc_inv_def by metis
  show "holds (c_pc C t) \<and> holds (c_pc C t') \<longrightarrow> t = t'"
    using inv unfolding conc_inv_def by blast
  show "c_head C \<noteq> BUSY \<longrightarrow> chain (c_next C) (c_head C) (c_abs C)"
    using conc_inv_free [OF inv] by blast
  show "c_pc C t = Pop_got item \<longrightarrow> item = (case c_abs C of [] \<Rightarrow> 0 | a # _ \<Rightarrow> a)"
    using conc_inv_held [OF inv, of t] chain_hd by auto
  have "\<exists>p. chain (c_next C) p (c_abs C)"
    using conc_inv_held [OF inv] conc_inv_free [OF inv] inv unfolding conc_inv_def by blast
  then show "distinct (c_abs C)" "0 \<notin> set (c_abs C)" using chain_nodes by blast+
qed

text \<open>Thread 1 pushes node 5, thread 2 takes the list to pop it.\<close>

definition conc_demo :: "conc list" where
  "conc_demo =
    (let C0 = \<lparr>c_head = 0, c_next = (\<lambda>_. 0), c_pc = (\<lambda>_. Ready), c_abs = [], c_ret = (\<lambda>_. None)\<rparr>;
         C1 = set_pc C0 1 (Push_spin 5);
         C2 = (set_pc C1 1 (Push_got 5))\<lparr>c_head := BUSY, c_next := (c_next C1)(5 := 0)\<rparr>;
         C3 = (set_pc C2 1 Ready)\<lparr>c_head := 5, c_abs := 5 # c_abs C2\<rparr>;
         C4 = set_pc C3 2 Pop_spin;
         C5 = set_pc (C4\<lparr>c_head := BUSY\<rparr>) 2 (Pop_got 5)
     in [C0, C1, C2, C3, C4, C5])"

lemma conc_demo_steps:
  "slist_step (conc_demo ! 0) (conc_demo ! 1)" "slist_step (conc_demo ! 1) (conc_demo ! 2)"
  "slist_step (conc_demo ! 2) (conc_demo ! 3)" "slist_step (conc_demo ! 3) (conc_demo ! 4)"
  "slist_step (conc_demo ! 4) (conc_demo ! 5)"
proof -
  note [simp] = conc_demo_def Let_def get_first_eq atomic_swp_def
  show "slist_step (conc_demo ! 0) (conc_demo ! 1)"
    using slist_step.push_call [of "conc_demo ! 0" 1 5] by simp
  show "slist_step (conc_demo ! 1) (conc_demo ! 2)"
    using slist_step.push_get [of "conc_demo ! 1" 1 5 0 BUSY] by simp
  show "slist_step (conc_demo ! 2) (conc_demo ! 3)"
    using slist_step.push_done [of "conc_demo ! 2" 1 5 BUSY 5] by simp
  show "slist_step (conc_demo ! 3) (conc_demo ! 4)"
    using slist_step.pop_call [of "conc_demo ! 3" 2] by simp
  show "slist_step (conc_demo ! 4) (conc_demo ! 5)"
    using slist_step.pop_get [of "conc_demo ! 4" 2 5 BUSY] by simp
qed

lemma conc_demo_reachable: "slist_reachable (conc_demo ! 5)"
proof -
  have "slist_reachable (conc_demo ! 0)"
    using slist_reachable.start [of "\<lambda>_. 0"] by (simp add: conc_demo_def Let_def)
  then show ?thesis using conc_demo_steps slist_reachable.step by metis
qed

theorem slist_atomic_linearizable_witness:
  "c_head (conc_demo ! 5) = BUSY \<and> 5 = (case c_abs (conc_demo ! 5) of [] \<Rightarrow> 0 | a # _ \<Rightarrow> a)"
proof -
  have pc: "c_pc (conc_demo ! 5) 2 = Pop_got 5" by (simp add: conc_demo_def Let_def)
  then have "\<exists>t. holds (c_pc (conc_demo ! 5) t)" by (metis holds_simps(4))
  then show ?thesis using slist_atomic_linearizable [OF conc_demo_reachable, of 2 2 5] pc by blast
qed

end
