(* ===== verification/Double_List.thy ===== *)
theory Double_List
  imports Prelude
begin

text \<open>
  \<open>utils/list.h\<close>: circular doubly linked lists with a head, in an explicit memory. The lists of
  handles, of the pages of a \<open>FastStack\<close>, of vector pages and of the nodes of a type are these.
\<close>

record links =
  l_next :: "nat \<Rightarrow> nat"
  l_prev :: "nat \<Rightarrow> nat"

section \<open>Operations\<close>

definition list_init_head :: "nat \<Rightarrow> links \<Rightarrow> links" where
  "list_init_head h L = L\<lparr>l_next := (l_next L)(h := h), l_prev := (l_prev L)(h := h)\<rparr>"

definition list_empty :: "nat \<Rightarrow> links \<Rightarrow> bool" where
  "list_empty h L \<longleftrightarrow> l_next L h = h"

definition list_join_items :: "nat \<Rightarrow> nat \<Rightarrow> links \<Rightarrow> links" where
  "list_join_items a b L = L\<lparr>l_next := (l_next L)(a := b), l_prev := (l_prev L)(b := a)\<rparr>"

definition list_join_lists :: "nat \<Rightarrow> nat \<Rightarrow> links \<Rightarrow> links" where
  "list_join_lists a b L =
    (if list_empty b L then L
     else let L = list_join_items (l_prev L a) (l_next L b) L;
              L = list_join_items (l_prev L b) a L
          in list_init_head b L)"

definition list_add_begin :: "nat \<Rightarrow> nat \<Rightarrow> links \<Rightarrow> links" where
  "list_add_begin h item L = list_join_items h item (list_join_items item (l_next L h) L)"

definition list_add_end :: "nat \<Rightarrow> nat \<Rightarrow> links \<Rightarrow> links" where
  "list_add_end h item L = list_join_items item h (list_join_items (l_prev L h) item L)"

definition list_remove :: "nat \<Rightarrow> links \<Rightarrow> nat \<times> links" where
  "list_remove item L = (item, list_join_items (l_prev L item) (l_next L item) L)"

text \<open>The two structures exchange their contents; then each side's neighbours are redirected.\<close>

definition list_fix :: "nat \<Rightarrow> nat \<Rightarrow> links \<Rightarrow> links" where
  "list_fix a b L =
    (if l_next L a \<noteq> b
     then let L = L\<lparr>l_prev := (l_prev L)(l_next L a := a)\<rparr>
          in L\<lparr>l_next := (l_next L)(l_prev L a := a)\<rparr>
     else L\<lparr>l_next := (l_next L)(a := a), l_prev := (l_prev L)(a := a)\<rparr>)"

definition list_swap :: "nat \<Rightarrow> nat \<Rightarrow> links \<Rightarrow> links" where
  "list_swap a b L =
    (let L = \<lparr>l_next = (l_next L)(a := l_next L b, b := l_next L a),
              l_prev = (l_prev L)(a := l_prev L b, b := l_prev L a)\<rparr>
     in list_fix b a (list_fix a b L))"

text \<open>
  \<open>for (var = list->next; var != list; var = var->next)\<close> and its reverse; \<open>None\<close> if the loop
  does not end.
\<close>

partial_function (option) list_walk :: "(nat \<Rightarrow> nat) \<Rightarrow> nat \<Rightarrow> (nat \<Rightarrow> 'x \<Rightarrow> 'x) \<Rightarrow> nat \<Rightarrow> 'x \<Rightarrow> 'x option" where
  "list_walk step h f var x = (if var = h then Some x else list_walk step h f (step var) (f var x))"

definition list_for_each :: "(nat \<Rightarrow> 'x \<Rightarrow> 'x) \<Rightarrow> nat \<Rightarrow> links \<Rightarrow> 'x \<Rightarrow> 'x option" where
  "list_for_each f h L x = list_walk (l_next L) h f (l_next L h) x"

definition list_for_each_reverse :: "(nat \<Rightarrow> 'x \<Rightarrow> 'x) \<Rightarrow> nat \<Rightarrow> links \<Rightarrow> 'x \<Rightarrow> 'x option" where
  "list_for_each_reverse f h L x = list_walk (l_prev L) h f (l_prev L h) x"

section \<open>The list in memory\<close>

fun linked :: "links \<Rightarrow> nat list \<Rightarrow> bool" where
  "linked L [] \<longleftrightarrow> True"
| "linked L [a] \<longleftrightarrow> True"
| "linked L (a # b # as) \<longleftrightarrow> l_next L a = b \<and> l_prev L b = a \<and> linked L (b # as)"

definition dlist :: "links \<Rightarrow> nat \<Rightarrow> nat list \<Rightarrow> bool" where
  "dlist L h xs \<longleftrightarrow> distinct (h # xs) \<and> linked L (h # xs @ [h])"

lemma linked_Cons: "as \<noteq> [] \<Longrightarrow> linked L (a # as) \<longleftrightarrow> l_next L a = hd as \<and> l_prev L (hd as) = a \<and> linked L as"
  by (cases as) auto

lemma linked_append:
  "as \<noteq> [] \<Longrightarrow> bs \<noteq> [] \<Longrightarrow> linked L (as @ bs) \<longleftrightarrow>
    linked L as \<and> linked L bs \<and> l_next L (last as) = hd bs \<and> l_prev L (hd bs) = last as"
proof (induction as)
  case (Cons a as)
  then show ?case by (cases "as = []") (auto simp: linked_Cons)
qed simp

lemma linked_cong:
  "(\<And>a. a \<in> set (butlast as) \<Longrightarrow> l_next L a = l_next M a) \<Longrightarrow>
   (\<And>a. a \<in> set (tl as) \<Longrightarrow> l_prev L a = l_prev M a) \<Longrightarrow> linked L as \<longleftrightarrow> linked M as"
  by (induction L as rule: linked.induct) auto

lemma linked_join:
  "a \<notin> set (butlast as) \<Longrightarrow> b \<notin> set (tl as) \<Longrightarrow> linked (list_join_items a b L) as \<longleftrightarrow> linked L as"
  by (rule linked_cong) (auto simp: list_join_items_def)

lemma join_simps [simp]:
  "l_next (list_join_items a b L) c = (if c = a then b else l_next L c)"
  "l_prev (list_join_items a b L) c = (if c = b then a else l_prev L c)"
  by (auto simp: list_join_items_def)

lemma init_simps [simp]:
  "l_next (list_init_head h L) c = (if c = h then h else l_next L c)"
  "l_prev (list_init_head h L) c = (if c = h then h else l_prev L c)"
  by (auto simp: list_init_head_def)

lemma join_commute:
  "p \<noteq> y \<Longrightarrow> x \<noteq> q \<Longrightarrow>
    list_join_items p x (list_join_items y q L) = list_join_items y q (list_join_items p x L)"
  by (simp add: list_join_items_def fun_upd_twist)

text \<open>A list as its head and nodes in front of a point, and nodes and head behind it.\<close>

lemma dlist_split:
  "dlist L h (as @ bs) \<longleftrightarrow> distinct (h # as @ bs) \<and> linked L (h # as) \<and> linked L (bs @ [h])
     \<and> l_next L (last (h # as)) = hd (bs @ [h]) \<and> l_prev L (hd (bs @ [h])) = last (h # as)"
  unfolding dlist_def using linked_append [of "h # as" "bs @ [h]" L] by auto

lemmas dlist_begin = dlist_split [where as = "[]", simplified]
lemmas dlist_end = dlist_split [where bs = "[]", simplified]

lemma dlist_cong:
  assumes "\<And>a. a \<in> set (h # xs) \<Longrightarrow> l_next L a = l_next M a \<and> l_prev L a = l_prev M a"
  shows "dlist L h xs \<longleftrightarrow> dlist M h xs"
proof -
  have "linked L (h # xs @ [h]) \<longleftrightarrow> linked M (h # xs @ [h])"
    by (rule linked_cong) (use assms in \<open>auto simp: butlast_append split: if_splits\<close>)
  then show ?thesis by (simp add: dlist_def)
qed

lemma list_init_dlist [simp]: "dlist (list_init_head h L) h []"
  by (simp add: dlist_def)

lemma list_empty_dlist: "dlist L h xs \<Longrightarrow> list_empty h L \<longleftrightarrow> xs = []"
  by (cases xs) (auto simp: dlist_def list_empty_def)

lemma dlist_prev_next:
  assumes "dlist L h (as @ x # bs)"
  shows "l_prev L x = last (h # as)" and "l_next L x = hd (bs @ [h])"
  using assms dlist_split [of L h as "x # bs"] dlist_split [of L h "as @ [x]" bs] by auto

lemma linked_other:
  "linked L as \<Longrightarrow> (\<And>a. a \<in> set as \<Longrightarrow> l_next M a = l_next L a \<and> l_prev M a = l_prev L a) \<Longrightarrow> linked M as"
  by (induction L as rule: linked.induct) auto

lemma dlist_inner: "dlist L h xs \<Longrightarrow> linked L xs"
  by (cases "xs = []") (auto simp: dlist_def linked_append linked_Cons)

text \<open>Joining the two sides of a gap.\<close>

lemma dlist_join:
  assumes "distinct (h # as @ bs)" and "linked L (h # as)" and "linked L (bs @ [h])"
  shows "dlist (list_join_items (last (h # as)) (hd (bs @ [h])) L) h (as @ bs)"
proof -
  let ?p = "last (h # as)" and ?q = "hd (bs @ [h])"
  have d: "distinct (h # as)" "distinct (bs @ [h])" using assms(1) by auto
  have "?p \<notin> set (butlast (h # as))"
    using d(1) by (metis append_butlast_last_id distinct_butlast list.distinct(1) not_distinct_conv_prefix)
  moreover have "?q \<notin> set (tl (h # as))" using assms(1) by (cases bs) auto
  moreover have "?p \<notin> set (butlast (bs @ [h]))" using assms(1) last_in_set [of "h # as"] by auto
  moreover have "?q \<notin> set (tl (bs @ [h]))" using d(2) by (cases "bs @ [h]") auto
  ultimately have "linked (list_join_items ?p ?q L) (h # as)" "linked (list_join_items ?p ?q L) (bs @ [h])"
    using assms(2,3) linked_join [of ?p "h # as" ?q L] linked_join [of ?p "bs @ [h]" ?q L] by blast+
  with assms(1) show ?thesis by (simp only: dlist_split join_simps if_True simp_thms)
qed

lemma dlist_remove:
  assumes "dlist L h (as @ x # bs)"
  shows "dlist (snd (list_remove x L)) h (as @ bs)"
proof -
  have "linked L (h # as)" "linked L (bs @ [h])" "distinct (h # as @ bs)"
    using assms dlist_split [of L h as "x # bs"] dlist_split [of L h "as @ [x]" bs] by auto
  then show ?thesis
    using dlist_join [of h as bs L] by (simp add: list_remove_def dlist_prev_next [OF assms])
qed

lemma dlist_insert:
  assumes "dlist L h (as @ bs)" and "x \<notin> set (h # as @ bs)"
  shows "dlist (list_join_items (last (h # as)) x (list_join_items x (hd (bs @ [h])) L)) h (as @ x # bs)"
    and "dlist (list_join_items x (hd (bs @ [h])) (list_join_items (last (h # as)) x L)) h (as @ x # bs)"
proof -
  let ?p = "last (h # as)" and ?q = "hd (bs @ [h])"
  have l: "linked L (h # as)" "linked L (bs @ [h])" "distinct (h # as @ x # bs)"
    using assms by (auto simp: dlist_split)
  have p: "?p \<in> set (h # as)" "?q \<in> set (bs @ [h])" by (rule last_in_set, simp) (rule hd_in_set, simp)
  have pq: "?p \<noteq> x" "?q \<noteq> x" "?q \<notin> set as"
    using p l(3) by (force, force, cases bs, auto)
  have q: "?q \<notin> set (tl (bs @ [h]))" using l(3) by (cases bs) auto
  have b: "x \<notin> set (butlast (h # as))" "x \<notin> set (butlast (bs @ [h]))"
    using l(3) by (auto dest: in_set_butlastD)
  have "linked (list_join_items x ?q L) (h # as)" "linked (list_join_items x ?q L) (x # bs @ [h])"
    using l pq q b by (simp_all add: linked_join linked_Cons)
  from dlist_join [OF _ this(1), of "x # bs"] this(2) l(3)
  show "dlist (list_join_items ?p x (list_join_items x ?q L)) h (as @ x # bs)" by simp
  have "list_join_items ?p x (list_join_items x ?q L) = list_join_items x ?q (list_join_items ?p x L)"
    using pq by (auto simp: list_join_items_def fun_upd_twist)
  with \<open>dlist (list_join_items ?p x (list_join_items x ?q L)) h (as @ x # bs)\<close>
  show "dlist (list_join_items x ?q (list_join_items ?p x L)) h (as @ x # bs)" by simp
qed

lemma dlist_add_begin:
  "dlist L h xs \<Longrightarrow> x \<notin> set (h # xs) \<Longrightarrow> dlist (list_add_begin h x L) h (x # xs)"
  using dlist_insert(1) [of L h "[]" xs x] dlist_begin [of L h xs] by (simp add: list_add_begin_def)

lemma dlist_add_end:
  "dlist L h xs \<Longrightarrow> x \<notin> set (h # xs) \<Longrightarrow> dlist (list_add_end h x L) h (xs @ [x])"
  using dlist_insert(2) [of L h xs "[]" x] dlist_end [of L h xs] by (simp add: list_add_end_def)

text \<open>Whatever an operation does not touch keeps its links.\<close>

lemma dlist_other:
  assumes "dlist L h xs" and "\<And>c. c \<in> set (h # xs) \<Longrightarrow> l_next M c = l_next L c \<and> l_prev M c = l_prev L c"
  shows "dlist M h xs"
  using assms dlist_cong [of h xs M L] by simp

lemma dlist_join_lists:
  assumes a: "dlist L a xs" and b: "dlist L b ys" and d: "distinct (a # b # xs @ ys)"
  shows "dlist (list_join_lists a b L) a (xs @ ys) \<and> dlist (list_join_lists a b L) b []"
proof (cases "ys = []")
  case True
  then show ?thesis using a b by (simp add: list_join_lists_def list_empty_dlist)
next
  case False
  let ?p = "last (a # xs)" and ?L1 = "list_join_items (l_prev L b) a L"
  have lb: "l_prev L b = last ys" "l_next L b = hd ys" "linked L ys" and pa: "l_prev L a = ?p"
    and la: "linked L (a # xs)"
    using a b False dlist_begin [of L b ys] dlist_end [of L b ys] dlist_end [of L a xs]
      linked_append [of ys "[b]" L] by (auto simp: dlist_def)
  have neq: "hd ys \<noteq> a" "hd ys \<noteq> b" "last ys \<noteq> ?p" "last ys \<notin> set (a # xs)" "a \<notin> set ys"
  proof -
    have "hd ys \<in> set ys" "last ys \<in> set ys" "?p \<in> set (a # xs)"
      using False by (simp, simp, intro last_in_set) simp
    moreover have "set ys \<inter> set (a # xs) = {}" "b \<notin> set ys" using d by auto
    ultimately show "hd ys \<noteq> a" "hd ys \<noteq> b" "last ys \<noteq> ?p" "last ys \<notin> set (a # xs)" "a \<notin> set ys"
      using d by (auto simp del: last.simps)
  qed
  have L1: "linked ?L1 (a # xs)" "linked ?L1 (ys @ [a])"
  proof -
    have "last ys \<notin> set (butlast (a # xs))" using neq(4) in_set_butlastD [of "last ys" "a # xs"] by blast
    moreover have "a \<notin> set (tl (a # xs))" using d by simp
    ultimately show "linked ?L1 (a # xs)" using la lb by (simp add: linked_join)
    have "last ys \<notin> set (butlast ys)" using d False
      by (metis append_butlast_last_id distinct_append distinct.simps(2) not_distinct_conv_prefix)
    moreover have "a \<notin> set (tl ys)" using neq(5) list.set_sel(2) [of ys a] False by blast
    ultimately have "linked ?L1 ys" using lb by (simp add: linked_join)
    then show "linked ?L1 (ys @ [a])" using False lb by (simp add: linked_append)
  qed
  have "dlist (list_join_items ?p (hd (ys @ [a])) ?L1) a (xs @ ys)"
    by (rule dlist_join) (use d L1 in auto)
  moreover have "l_prev (list_join_items ?p (hd ys) L) b = l_prev L b" using neq(2) by simp
  moreover have "list_join_items ?p (hd ys) ?L1 = list_join_items (l_prev L b) a (list_join_items ?p (hd ys) L)"
    by (rule join_commute) (use neq lb in simp_all)
  ultimately have j: "dlist (list_join_items (l_prev (list_join_items ?p (hd ys) L) b) a (list_join_items ?p (hd ys) L))
      a (xs @ ys)" using False by (metis hd_append2)
  have eq: "list_join_lists a b L = list_init_head b (list_join_items
      (l_prev (list_join_items ?p (hd ys) L) b) a (list_join_items ?p (hd ys) L))"
    unfolding list_join_lists_def list_empty_dlist [OF b] lb(2) pa Let_def using False by (simp only: if_False)
  have "dlist (list_join_lists a b L) a (xs @ ys)"
    unfolding eq
  proof (rule dlist_other [OF j])
    fix c assume "c \<in> set (a # xs @ ys)"
    then have "c \<noteq> b" using d by auto
    then show "l_next (list_init_head b M) c = l_next M c \<and> l_prev (list_init_head b M) c = l_prev M c" for M
      by simp
  qed
  moreover have "dlist (list_join_lists a b L) b []" unfolding eq by (rule list_init_dlist)
  ultimately show ?thesis ..
qed

lemma list_fix_spec:
  assumes "linked L ys" and "l_next L a = hd (ys @ [b])" and "l_prev L a = last (b # ys)"
    and d: "distinct (a # b # ys)"
  shows "dlist (list_fix a b L) a ys"
    and "c \<notin> set (a # ys) \<Longrightarrow>
      l_next (list_fix a b L) c = l_next L c \<and> l_prev (list_fix a b L) c = l_prev L c"
proof -
  have "dlist (list_fix a b L) a ys \<and> (c \<notin> set (a # ys) \<longrightarrow>
      l_next (list_fix a b L) c = l_next L c \<and> l_prev (list_fix a b L) c = l_prev L c)"
  proof (cases "ys = []")
    case True
    then show ?thesis using assms by (simp add: list_fix_def dlist_def)
  next
    case False
    let ?M = "L\<lparr>l_next := (l_next L)(last ys := a), l_prev := (l_prev L)(hd ys := a)\<rparr>"
    have m: "hd ys \<in> set ys" "last ys \<in> set ys" using False by simp_all
    then have eq: "list_fix a b L = ?M" using assms False by (auto simp: list_fix_def Let_def)
    have "last ys \<notin> set (butlast ys)" using d False
      by (metis append_butlast_last_id distinct_append distinct.simps(2) not_distinct_conv_prefix)
    moreover have "hd ys \<notin> set (tl ys)" using d False by (cases ys) auto
    ultimately have "linked ?M ys" using assms(1) by (subst linked_cong [where M = L]) auto
    then have "dlist ?M a ys"
      using assms False d m by (auto simp: dlist_def linked_Cons linked_append)
    then show ?thesis using eq m by auto
  qed
  then show "dlist (list_fix a b L) a ys"
    and "c \<notin> set (a # ys) \<Longrightarrow>
      l_next (list_fix a b L) c = l_next L c \<and> l_prev (list_fix a b L) c = l_prev L c" by blast+
qed

lemma dlist_swap:
  assumes a: "dlist L a xs" and b: "dlist L b ys" and d: "distinct (a # b # xs @ ys)"
  shows "dlist (list_swap a b L) a ys \<and> dlist (list_swap a b L) b xs"
proof -
  let ?L = "\<lparr>l_next = (l_next L)(a := l_next L b, b := l_next L a),
              l_prev = (l_prev L)(a := l_prev L b, b := l_prev L a)\<rparr>"
  let ?M = "list_fix a b ?L"
  have la: "l_next L a = hd (xs @ [a])" "l_prev L a = last (a # xs)"
    "l_next L b = hd (ys @ [b])" "l_prev L b = last (b # ys)"
    using a b dlist_begin [of L a xs] dlist_end [of L a xs] dlist_begin [of L b ys] dlist_end [of L b ys]
    by auto
  have Ly: "linked ?L ys" and Lx: "linked ?L xs"
    by (rule linked_other [OF dlist_inner [OF b]], use d in auto)
      (rule linked_other [OF dlist_inner [OF a]], use d in auto)
  have d1: "distinct (a # b # ys)" and d2: "distinct (b # a # xs)" using d by auto
  have "l_next ?L a = hd (ys @ [b])" "l_prev ?L a = last (b # ys)"
    using la d by auto
  note M = list_fix_spec [OF Ly this d1]
  have Mx: "linked ?M xs"
  proof (rule linked_other [OF Lx])
    fix c assume "c \<in> set xs"
    then have "c \<notin> set (a # ys)" using d by auto
    then show "l_next ?M c = l_next ?L c \<and> l_prev ?M c = l_prev ?L c" by (rule M(2))
  qed
  have "hd (xs @ [a]) = l_next ?M b" "last (a # xs) = l_prev ?M b"
    using M(2) [of b] la d by auto
  note N = list_fix_spec [OF Mx this [symmetric] d2]
  have eq: "list_swap a b L = list_fix b a ?M" by (simp add: list_swap_def Let_def)
  have "dlist (list_swap a b L) a ys"
    unfolding eq
  proof (rule dlist_other [OF M(1)])
    fix c assume "c \<in> set (a # ys)"
    then have "c \<notin> set (b # xs)" using d by auto
    then show "l_next (list_fix b a ?M) c = l_next ?M c \<and> l_prev (list_fix b a ?M) c = l_prev ?M c"
      by (rule N(2))
  qed
  with N(1) show ?thesis by (simp add: eq)
qed

text \<open>Traversals.\<close>

lemma list_walk_next:
  "dlist L h (as @ bs) \<Longrightarrow> list_walk (l_next L) h f (hd (bs @ [h])) x = Some (fold f bs x)"
proof (induction bs arbitrary: as x)
  case Nil
  then show ?case by (simp add: list_walk.simps)
next
  case (Cons b bs)
  have "l_next L b = hd (bs @ [h])" using dlist_prev_next(2) [of L h as b bs] Cons.prems by simp
  moreover have "b \<noteq> h" using Cons.prems by (auto simp: dlist_def)
  ultimately show ?case using Cons.IH [of "as @ [b]" "f b x"] Cons.prems by (subst list_walk.simps) simp
qed

lemma list_walk_prev:
  "dlist L h (as @ bs) \<Longrightarrow> list_walk (l_prev L) h f (last (h # as)) x = Some (fold f (rev as) x)"
proof (induction as arbitrary: bs x rule: rev_induct)
  case Nil
  then show ?case by (simp add: list_walk.simps)
next
  case (snoc a as)
  have "l_prev L a = last (h # as)" using dlist_prev_next(1) [of L h as a bs] snoc.prems by simp
  moreover have "a \<noteq> h" using snoc.prems by (auto simp: dlist_def)
  ultimately show ?case using snoc.IH [of "a # bs" "f a x"] snoc.prems by (subst list_walk.simps) simp
qed

text \<open>
  C16: the circular lists implement sequences: adding in front, at the end, removing any member,
  appending one list to another, exchanging two lists by their heads (empty ones included) and
  the traversals in both directions -- which end and visit every member once, in order -- do on
  the linked structure what they say, whatever the addresses.
\<close>

theorem list_implements_sequences:
  assumes "dlist L h xs"
  shows "(x \<notin> set (h # xs) \<longrightarrow>
      dlist (list_add_begin h x L) h (x # xs) \<and> dlist (list_add_end h x L) h (xs @ [x]))
    \<and> (xs = as @ x # bs \<longrightarrow> dlist (snd (list_remove x L)) h (as @ bs))
    \<and> (dlist L k ys \<and> distinct (h # k # xs @ ys) \<longrightarrow>
      dlist (list_join_lists h k L) h (xs @ ys) \<and> dlist (list_join_lists h k L) k []
      \<and> dlist (list_swap h k L) h ys \<and> dlist (list_swap h k L) k xs)
    \<and> (list_empty h L \<longleftrightarrow> xs = [])
    \<and> list_for_each f h L z = Some (fold f xs z)
    \<and> list_for_each_reverse f h L z = Some (fold f (rev xs) z)"
proof (intro conjI impI)
  show "dlist (list_add_begin h x L) h (x # xs)" if "x \<notin> set (h # xs)"
    by (rule dlist_add_begin [OF assms that])
  show "dlist (list_add_end h x L) h (xs @ [x])" if "x \<notin> set (h # xs)"
    by (rule dlist_add_end [OF assms that])
  show "dlist (snd (list_remove x L)) h (as @ bs)" if "xs = as @ x # bs"
    using assms by (auto simp: that intro: dlist_remove)
  assume k: "dlist L k ys \<and> distinct (h # k # xs @ ys)"
  note two = assms conjunct1 [OF k] conjunct2 [OF k]
  show "dlist (list_join_lists h k L) h (xs @ ys)" by (rule dlist_join_lists [OF two, THEN conjunct1])
  show "dlist (list_join_lists h k L) k []" by (rule dlist_join_lists [OF two, THEN conjunct2])
  show "dlist (list_swap h k L) h ys" by (rule dlist_swap [OF two, THEN conjunct1])
  show "dlist (list_swap h k L) k xs" by (rule dlist_swap [OF two, THEN conjunct2])
next
  show "list_empty h L \<longleftrightarrow> xs = []" by (rule list_empty_dlist [OF assms])
  show "list_for_each f h L z = Some (fold f xs z)"
    using list_walk_next [of L h "[]" xs f z] assms dlist_begin [of L h xs]
    by (simp add: list_for_each_def)
  show "list_for_each_reverse f h L z = Some (fold f (rev xs) z)"
    using list_walk_prev [of L h xs "[]" f z] assms dlist_end [of L h xs]
    by (simp add: list_for_each_reverse_def)
qed

theorem list_implements_sequences_witness:
  "list_for_each (\<lambda>v x. x @ [v]) 1
     (list_add_end 1 3 (list_add_begin 1 2 (list_init_head 1 \<lparr>l_next = id, l_prev = id\<rparr>))) [] = Some [2, 3]"
proof -
  let ?L = "list_init_head 1 \<lparr>l_next = id, l_prev = id\<rparr>"
  have 1: "dlist ?L 1 []" by simp
  have 2: "dlist (list_add_begin 1 2 ?L) 1 [2]" 
    by (rule list_implements_sequences [OF 1, THEN conjunct1, THEN mp, THEN conjunct1]) simp
  have 3: "dlist (list_add_end 1 3 (list_add_begin 1 2 ?L)) 1 [2, 3]"
    
    by (rule list_implements_sequences [OF 2, THEN conjunct1, THEN mp, THEN conjunct2, unfolded append.simps]) simp
  have "list_for_each f 1 (list_add_end 1 3 (list_add_begin 1 2 ?L)) z = Some (fold f [2, 3] z)"
    for f :: "nat \<Rightarrow> nat list \<Rightarrow> nat list" and z
    by (rule list_implements_sequences [OF 3, THEN conjunct2, THEN conjunct2, THEN conjunct2,
          THEN conjunct2, THEN conjunct1])
  then show ?thesis by simp
qed

end
