(* ===== verification/Num_Dictionary.thy ===== *)
theory Num_Dictionary
  imports Prelude "HOL-Library.Multiset"
begin

text \<open>
  \<open>utils/num_dictionary.h\<close>: the hash table with chaining that maps node ids to nodes while a
  database is loaded, and the contract its client relies on. A table node is its address, key
  and value; a bucket is the chain of its nodes. Pages come from \<open>page_alloc\<close>, whose result is
  an argument of the operations that may need one.
\<close>

section \<open>The contract\<close>

text \<open>
  What the loader (\<open>database.include/read.c\<close>) needs of a dictionary: \<open>fresh\<close> says which
  additional memory an insertion may be given.
\<close>

locale dictionary =
  fixes wf :: "'d \<Rightarrow> bool" and lookup :: "'d \<Rightarrow> 'k \<Rightarrow> 'v option"
    and room :: "'d \<Rightarrow> bool" and fresh :: "'m \<Rightarrow> 'd \<Rightarrow> bool"
    and insert :: "'m \<Rightarrow> 'k \<Rightarrow> 'v \<Rightarrow> 'd \<Rightarrow> (bool \<times> 'd) outcome"
    and remove :: "'k \<Rightarrow> 'd \<Rightarrow> (bool \<times> 'd) outcome"
  assumes insert_law: "wf d \<Longrightarrow> room d \<Longrightarrow> fresh m d \<Longrightarrow> \<exists>d'. insert m k v d = Done (lookup d k = None, d')
      \<and> wf d' \<and> lookup d' = (if lookup d k = None then (lookup d)(k \<mapsto> v) else lookup d)"
    and remove_law: "wf d \<Longrightarrow> \<exists>d'. remove k d = Done (lookup d k \<noteq> None, d')
      \<and> wf d' \<and> lookup d' = (lookup d)(k := None)"
begin

lemma insert_lookup:
  "wf d \<Longrightarrow> room d \<Longrightarrow> fresh m d \<Longrightarrow> insert m k v d = Done (b, d') \<Longrightarrow>
    wf d' \<and> lookup d' k = (if b then Some v else lookup d k) \<and> b = (lookup d k = None)
    \<and> (\<forall>j. j \<noteq> k \<longrightarrow> lookup d' j = lookup d j)"
  using insert_law [of d m k v] by auto

lemma insert_remove:
  assumes "wf d" and "room d" and "fresh m d" and "lookup d k = None" and "insert m k v d = Done (b, d')"
  shows "\<exists>d''. remove k d' = Done (True, d'') \<and> wf d'' \<and> lookup d'' = lookup d"
proof -
  have "wf d'" "lookup d' = (lookup d)(k \<mapsto> v)" using insert_law [OF assms(1-3), of k v] assms(4,5) by auto
  then show ?thesis using remove_law [of d' k] assms(4) by (auto simp: fun_upd_idem)
qed

lemma remove_twice: "wf d \<Longrightarrow> remove k d = Done (b, d') \<Longrightarrow> \<exists>d''. remove k d' = Done (False, d'')"
  using remove_law [of d k] remove_law [of d' k] by auto

end

section \<open>State\<close>

record 'v NdNode =
  n_addr :: nat
  n_key :: u64
  n_value :: 'v

record 'v NumDictionary =
  nd_size :: nat
  nd_capacity :: nat
  nd_cap_index :: nat
  nd_buckets :: "'v NdNode list list"
  nd_pages :: "nat list"
  nd_free :: "nat list"

definition ndict_capacities :: "nat list" where
  "ndict_capacities =
    [0, 29, 53, 89, 137, 211, 331, 499, 727, 1061, 1543, 2239, 3229, 4657, 6761, 9767, 14083, 20287,
     29243, 42131, 60703, 87433, 125927, 181361, 261223, 376171, 541699, 780119, 1123391, 1617739,
     2329559, 3354581, 4830619, 6956203, 10017011, 14424539, 20771371, 29910821, 43071601, 51685939,
     74427803, 107176057, 154333591, 222240413, 320026249, 460837813, 663606499, 955593439,
     1376054569, 1981518631, 2853386881, 4108877153, 4294967291, 8294967337, 12294967297,
     16294967303, 24294967309, 32294967307, 48294967321, 64294967299, 0]"

definition ndict_hash :: "nat \<Rightarrow> u64 \<Rightarrow> nat" where
  "ndict_hash capacity key = unat (key * 2971215073) mod capacity"

definition ndict_init :: "'v NumDictionary" where
  "ndict_init = \<lparr>nd_size = 0, nd_capacity = 0, nd_cap_index = 0, nd_buckets = [], nd_pages = [],
     nd_free = []\<rparr>"

section \<open>Operations\<close>

text \<open>The pages are handed to \<open>page_free\<close>, in the order of the first component.\<close>

definition ndict_destroy :: "'v NumDictionary \<Rightarrow> nat list \<times> 'v NumDictionary" where
  "ndict_destroy d = (nd_pages d, ndict_init)"

definition ndict_get_node :: "'v NumDictionary \<Rightarrow> u64 \<Rightarrow> 'v NdNode option" where
  "ndict_get_node d key =
    (if nd_capacity d = 0 then None
     else List.find (\<lambda>n. n_key n = key) (nd_buckets d ! ndict_hash (nd_capacity d) key))"

definition ndict_contains :: "'v NumDictionary \<Rightarrow> u64 \<Rightarrow> bool" where
  "ndict_contains d key \<longleftrightarrow> ndict_get_node d key \<noteq> None"

definition ndict_at :: "'v NumDictionary \<Rightarrow> u64 \<Rightarrow> 'v outcome" where
  "ndict_at d key = (case ndict_get_node d key of Some n \<Rightarrow> Done (n_value n) | None \<Rightarrow> Fault)"

text \<open>Link a node in front of the chain of its bucket.\<close>

definition ndict_link :: "nat \<Rightarrow> 'v NdNode \<Rightarrow> 'v NdNode list list \<Rightarrow> 'v NdNode list list" where
  "ndict_link cap n bs = bs[ndict_hash cap (n_key n) := n # bs ! ndict_hash cap (n_key n)]"

definition ndict_resize :: "int \<Rightarrow> 'v NumDictionary \<Rightarrow> 'v NumDictionary outcome" where
  "ndict_resize diff d =
    (let new_index = nat (int (nd_cap_index d) + diff); new_cap = ndict_capacities ! new_index in
     if new_cap = 0 then (if diff = - 1 then Done d else Fault)
     else Done (d\<lparr>nd_buckets := fold (fold (ndict_link new_cap)) (nd_buckets d) (replicate new_cap []),
                  nd_cap_index := new_index, nd_capacity := new_cap\<rparr>))"

definition ndict_generic_insert :: "'v NdNode \<Rightarrow> 'v NumDictionary \<Rightarrow> (bool \<times> 'v NumDictionary) outcome" where
  "ndict_generic_insert node d =
    (if ndict_get_node d (n_key node) \<noteq> None then Done (False, d\<lparr>nd_free := n_addr node # nd_free d\<rparr>)
     else obind (if nd_capacity d < nd_size d * 2 + 1 then ndict_resize 1 d else Done d) (\<lambda>d.
       Done (True, d\<lparr>nd_buckets := ndict_link (nd_capacity d) node (nd_buckets d),
                     nd_size := nd_size d + 1\<rparr>)))"

text \<open>
  \<open>page\<close> is the address \<open>page_alloc\<close> would return; its header takes 16 bytes, the rest is cut
  into nodes, which are pushed one by one, so that the last is the first to be used.
\<close>

definition ndict_alloc_nodes :: "nat \<Rightarrow> nat \<Rightarrow> 'v NumDictionary \<Rightarrow> nat \<times> 'v NumDictionary" where
  "ndict_alloc_nodes page node_size d =
    (let items = (4096 - 16) div node_size;
         free = fold (\<lambda>i f. (page + 16 + node_size * i) # f) [0..<items] (nd_free d)
     in (hd free, d\<lparr>nd_pages := page # nd_pages d, nd_free := tl free\<rparr>))"

definition ndict_insert :: "nat \<Rightarrow> nat \<Rightarrow> u64 \<Rightarrow> 'v \<Rightarrow> 'v NumDictionary \<Rightarrow> (bool \<times> 'v NumDictionary) outcome" where
  "ndict_insert node_size page key v d =
    (case (case nd_free d of a # f \<Rightarrow> (a, d\<lparr>nd_free := f\<rparr>) | [] \<Rightarrow> ndict_alloc_nodes page node_size d) of
      (a, d) \<Rightarrow> ndict_generic_insert \<lparr>n_addr = a, n_key = key, n_value = v\<rparr> d)"

definition ndict_remove :: "u64 \<Rightarrow> 'v NumDictionary \<Rightarrow> (bool \<times> 'v NumDictionary) outcome" where
  "ndict_remove key d =
    (if nd_capacity d = 0 then Done (False, d)
     else let h = ndict_hash (nd_capacity d) key; chain = nd_buckets d ! h in
       case List.find (\<lambda>n. n_key n = key) chain of
         None \<Rightarrow> Done (False, d)
       | Some n \<Rightarrow>
           let d = d\<lparr>nd_buckets := (nd_buckets d)[h := takeWhile (\<lambda>n. n_key n \<noteq> key) chain
                        @ tl (dropWhile (\<lambda>n. n_key n \<noteq> key) chain)],
                     nd_free := n_addr n # nd_free d, nd_size := nd_size d - 1\<rparr>
           in obind (if nd_capacity d > nd_size d * 4 then ndict_resize (- 1) d else Done d)
                (\<lambda>d. Done (True, d)))"

definition ndict_for :: "('v NdNode \<Rightarrow> 'x \<Rightarrow> 'x) \<Rightarrow> 'v NumDictionary \<Rightarrow> 'x \<Rightarrow> 'x" where
  "ndict_for f d x = fold (\<lambda>i. fold f (nd_buckets d ! i)) [0..<nd_capacity d] x"

section \<open>The invariant\<close>

definition nd_nodes :: "'v NumDictionary \<Rightarrow> 'v NdNode list" where
  "nd_nodes d = concat (nd_buckets d)"

definition nd_placed :: "nat \<Rightarrow> 'v NdNode list list \<Rightarrow> bool" where
  "nd_placed cap bs \<longleftrightarrow> length bs = cap \<and> (\<forall>i < cap. \<forall>n \<in> set (bs ! i). ndict_hash cap (n_key n) = i)"

text \<open>
  Every node is in the bucket of its key, no key occurs twice, no node is both free and in use,
  and the chains have half an element on average.
\<close>

definition nd_wf :: "'v NumDictionary \<Rightarrow> bool" where
  "nd_wf d \<longleftrightarrow> nd_cap_index d < 60 \<and> nd_capacity d = ndict_capacities ! nd_cap_index d
    \<and> nd_placed (nd_capacity d) (nd_buckets d)
    \<and> nd_size d = length (nd_nodes d) \<and> distinct (map n_key (nd_nodes d))
    \<and> distinct (nd_free d @ map n_addr (nd_nodes d))
    \<and> nd_size d * 2 \<le> nd_capacity d + 1"

definition nd_lookup :: "'v NumDictionary \<Rightarrow> u64 \<Rightarrow> 'v option" where
  "nd_lookup d key = map_option n_value (ndict_get_node d key)"

definition nd_room :: "'v NumDictionary \<Rightarrow> bool" where
  "nd_room d \<longleftrightarrow> nd_cap_index d < 59"

text \<open>A page that no node of the dictionary lies in, and nodes that fit into a page.\<close>

definition nd_fresh :: "nat \<Rightarrow> nat \<Rightarrow> 'v NumDictionary \<Rightarrow> bool" where
  "nd_fresh node_size page d \<longleftrightarrow> 0 < node_size \<and> node_size \<le> 4080
    \<and> (\<forall>a \<in> set (nd_free d) \<union> n_addr ` set (nd_nodes d). a < page \<or> page + 4096 \<le> a)"

lemma ndict_hash_less: "0 < cap \<Longrightarrow> ndict_hash cap k < cap"
  by (simp add: ndict_hash_def)

lemma find_placed:
  assumes "nd_placed cap bs" and "0 < cap"
  shows "List.find (\<lambda>n. n_key n = k) (bs ! ndict_hash cap k) = None \<longleftrightarrow> k \<notin> n_key ` set (concat bs)"
proof -
  have "n \<in> set (bs ! ndict_hash cap k)" if n: "n \<in> set (concat bs)" and k: "n_key n = k" for n
  proof -
    obtain b where "b \<in> set bs" "n \<in> set b" using n by auto
    then obtain i where "i < length bs" "n \<in> set (bs ! i)" by (metis in_set_conv_nth)
    then show ?thesis using assms(1) k by (auto simp: nd_placed_def)
  qed
  moreover have "bs ! ndict_hash cap k \<in> set bs"
    using assms ndict_hash_less [of cap k] by (simp add: nd_placed_def)
  ultimately show ?thesis by (auto simp: find_None_iff)
qed

lemma nd_wfD:
  assumes "nd_wf d"
  shows "nd_placed (nd_capacity d) (nd_buckets d)" and "distinct (map n_key (nd_nodes d))"
    and "distinct (nd_free d @ map n_addr (nd_nodes d))" and "nd_size d = length (nd_nodes d)"
  using assms unfolding nd_wf_def by blast+

lemma get_node_Some:
  assumes "ndict_get_node d k = Some n" and "nd_wf d"
  shows "n \<in> set (nd_nodes d) \<and> n_key n = k"
proof -
  let ?b = "nd_buckets d ! ndict_hash (nd_capacity d) k"
  have c: "0 < nd_capacity d" and f: "List.find (\<lambda>n. n_key n = k) ?b = Some n"
    using assms(1) by (auto simp: ndict_get_node_def split: if_splits)
  have "?b \<in> set (nd_buckets d)"
    using ndict_hash_less [OF c, of k] nd_wfD(1) [OF assms(2)] by (auto simp: nd_placed_def)
  moreover have "n \<in> set ?b" "n_key n = k" using f by (auto simp: find_Some_iff)
  ultimately show ?thesis by (auto simp: nd_nodes_def)
qed

lemma get_node_None:
  assumes "nd_wf d" shows "ndict_get_node d k = None \<longleftrightarrow> k \<notin> n_key ` set (nd_nodes d)"
proof (cases "nd_capacity d = 0")
  case True
  then have "nd_buckets d = []" using assms by (simp add: nd_wf_def nd_placed_def)
  then show ?thesis using True by (simp add: ndict_get_node_def nd_nodes_def)
next
  case False
  then show ?thesis using find_placed [OF nd_wfD(1) [OF assms], of k]
    by (simp add: ndict_get_node_def nd_nodes_def)
qed

text \<open>The lookup as a map is determined by the set of nodes.\<close>

lemma nd_lookup_map_of:
  assumes "nd_wf d" shows "nd_lookup d = map_of (map (\<lambda>n. (n_key n, n_value n)) (nd_nodes d))"
proof
  fix k
  let ?ps = "map (\<lambda>n. (n_key n, n_value n)) (nd_nodes d)"
  have dist: "distinct (map fst ?ps)" using assms by (simp add: nd_wf_def comp_def)
  show "nd_lookup d k = map_of ?ps k"
  proof (cases "ndict_get_node d k")
    case None
    then have "k \<notin> fst ` set ?ps" using get_node_None [OF assms] by force
    then show ?thesis using None by (simp add: nd_lookup_def map_of_eq_None_iff [THEN iffD2])
  next
    case (Some n)
    then have "(k, n_value n) \<in> set ?ps" using get_node_Some [OF Some assms] by force
    then show ?thesis using dist Some by (simp add: nd_lookup_def map_of_is_SomeI)
  qed
qed

lemma map_of_mset:
  assumes "distinct (map fst ps)" and "mset ps = mset qs"
  shows "map_of ps = map_of qs"
proof -
  have "distinct (map fst qs)" using assms by (metis mset_eq_imp_distinct_iff mset_map)
  then show ?thesis using map_of_inject_set [OF assms(1)] mset_eq_setD [OF assms(2)] by blast
qed

section \<open>Resizing\<close>

lemma mset_concat_upd:
  "i < length bs \<Longrightarrow> mset (concat (bs[i := n # bs ! i])) = add_mset n (mset (concat bs))"
proof (induction bs arbitrary: i)
  case (Cons b bs)
  then show ?case by (cases i) auto
qed simp

lemma ndict_link_placed:
  assumes "nd_placed cap bs" and "0 < cap"
  shows "nd_placed cap (ndict_link cap n bs)
    \<and> mset (concat (ndict_link cap n bs)) = add_mset n (mset (concat bs))"
  using assms ndict_hash_less [OF assms(2), of "n_key n"]
  by (auto simp: nd_placed_def ndict_link_def mset_concat_upd nth_list_update)

lemma ndict_links_placed:
  assumes "nd_placed cap bs" and "0 < cap"
  shows "nd_placed cap (fold (ndict_link cap) ns bs)
    \<and> mset (concat (fold (ndict_link cap) ns bs)) = mset ns + mset (concat bs)"
  using assms(1)
proof (induction ns arbitrary: bs)
  case (Cons n ns)
  then show ?case using Cons.IH [of "ndict_link cap n bs"] ndict_link_placed [OF Cons.prems assms(2), of n]
    by simp
qed simp

lemma fold_fold_concat: "fold (fold f) xss x = fold f (concat xss) x"
  by (induction xss arbitrary: x) auto

lemma ndict_resize_Done:
  assumes "nd_wf d" and "0 < ndict_capacities ! i" and "int i = int (nd_cap_index d) + diff"
  shows "\<exists>bs. ndict_resize diff d = Done (d\<lparr>nd_buckets := bs, nd_cap_index := i,
      nd_capacity := ndict_capacities ! i\<rparr>)
    \<and> nd_placed (ndict_capacities ! i) bs \<and> mset (concat bs) = mset (nd_nodes d)"
proof -
  let ?cap = "ndict_capacities ! i"
  have i: "nat (int (nd_cap_index d) + diff) = i" using assms(3) by simp
  have "nd_placed ?cap (replicate ?cap [] :: 'a NdNode list list)" by (simp add: nd_placed_def)
  note l = ndict_links_placed [OF this assms(2), of "concat (nd_buckets d)"]
  show ?thesis
    by (rule exI [where x = "fold (ndict_link ?cap) (concat (nd_buckets d)) (replicate ?cap [])"])
      (use l assms(2) in \<open>simp add: ndict_resize_def i fold_fold_concat nd_nodes_def Let_def\<close>)
qed

text \<open>A dictionary is well-formed again once its new table holds the same nodes.\<close>

lemma nd_wf_rebuild:
  assumes "nd_wf d" and "i < 60" and "nd_placed (ndict_capacities ! i) bs"
    and "mset (concat bs) = mset (nd_nodes d)" and "nd_size d * 2 \<le> ndict_capacities ! i + 1"
  shows "nd_wf (d\<lparr>nd_buckets := bs, nd_cap_index := i, nd_capacity := ndict_capacities ! i\<rparr>)"
proof -
  have "length (concat bs) = length (nd_nodes d)" using assms(4) by (rule mset_eq_length)
  moreover have "mset (map n_key (concat bs)) = mset (map n_key (nd_nodes d))" using assms(4) by simp
  moreover have "mset (nd_free d @ map n_addr (concat bs)) = mset (nd_free d @ map n_addr (nd_nodes d))"
    using assms(4) by simp
  ultimately have "length (concat bs) = nd_size d" "distinct (map n_key (concat bs))"
    "distinct (nd_free d @ map n_addr (concat bs))"
    using nd_wfD [OF assms(1)] mset_eq_imp_distinct_iff by metis+
  then show ?thesis using assms(2,3,5) unfolding nd_wf_def nd_nodes_def by simp
qed

lemma nd_lookup_mset:
  assumes "nd_wf d" and "nd_wf d'" and "mset (nd_nodes d') = mset (nd_nodes d)"
  shows "nd_lookup d' = nd_lookup d"
proof -
  have "distinct (map fst (map (\<lambda>n. (n_key n, n_value n)) (nd_nodes d')))"
    using nd_wfD(2) [OF assms(2)] by (simp add: comp_def)
  then show ?thesis
    unfolding nd_lookup_map_of [OF assms(1)] nd_lookup_map_of [OF assms(2)]
    by (rule map_of_mset) (use assms(3) in simp)
qed

text \<open>The table of capacities grows by at least two and at most to about the double.\<close>

lemma capacities_steps:
  "\<forall>p \<in> set (zip (take 60 ndict_capacities) (tl (take 60 ndict_capacities))).
     fst p + 2 \<le> snd p \<and> (fst p \<noteq> 0 \<longrightarrow> snd p \<le> 2 * fst p)"
  by (simp add: ndict_capacities_def)

lemma length_capacities: "length ndict_capacities = 61"
  by (simp add: ndict_capacities_def)

lemma capacities_step:
  assumes "i < 59"
  shows "ndict_capacities ! i + 2 \<le> ndict_capacities ! Suc i"
    and "i \<noteq> 0 \<Longrightarrow> ndict_capacities ! Suc i \<le> 2 * ndict_capacities ! i"
proof -
  let ?c = "take 60 ndict_capacities"
  have len: "length ?c = 60" by (simp add: length_capacities)
  have "zip ?c (tl ?c) ! i = (ndict_capacities ! i, ndict_capacities ! Suc i)"
    using assms len by (simp add: nth_tl)
  moreover have "zip ?c (tl ?c) ! i \<in> set (zip ?c (tl ?c))"
    by (rule nth_mem) (use assms len in simp)
  ultimately have *: "(ndict_capacities ! i, ndict_capacities ! Suc i) \<in> set (zip ?c (tl ?c))" by simp
  from bspec [OF capacities_steps this]
  show 1: "ndict_capacities ! i + 2 \<le> ndict_capacities ! Suc i" by simp
  assume "i \<noteq> 0"
  have "0 < ndict_capacities ! i"
    using \<open>i \<noteq> 0\<close> assms
  proof (cases i)
    case (Suc j)
    then have "(ndict_capacities ! j, ndict_capacities ! Suc j) \<in> set (zip ?c (tl ?c))"
      using assms len nth_mem [of j "zip ?c (tl ?c)"] by (simp add: nth_tl)
    from bspec [OF capacities_steps this] Suc show ?thesis by simp
  qed simp
  then show "ndict_capacities ! Suc i \<le> 2 * ndict_capacities ! i"
    using bspec [OF capacities_steps *] by simp
qed

section \<open>Insertion\<close>

lemma nd_lookup_free [simp]: "nd_lookup (d\<lparr>nd_free := f\<rparr>) = nd_lookup d"
  by (rule ext) (simp add: nd_lookup_def ndict_get_node_def)

lemma nd_nodes_free [simp]:
  "nd_nodes (d\<lparr>nd_free := f\<rparr>) = nd_nodes d" "nd_nodes (d\<lparr>nd_size := k\<rparr>) = nd_nodes d"
  "nd_nodes (d\<lparr>nd_buckets := bs\<rparr>) = concat bs"
  by (simp_all add: nd_nodes_def)

lemma nd_wf_free:
  "nd_wf d \<Longrightarrow> distinct (f @ map n_addr (nd_nodes d)) \<Longrightarrow> nd_wf (d\<lparr>nd_free := f\<rparr>)"
  by (auto simp: nd_wf_def)

lemma generic_insert_law:
  assumes wf: "nd_wf d" and room: "nd_room d"
    and addr: "n_addr node \<notin> set (nd_free d) \<union> n_addr ` set (nd_nodes d)"
  shows "\<exists>d'. ndict_generic_insert node d = Done (nd_lookup d (n_key node) = None, d') \<and> nd_wf d'
    \<and> nd_lookup d' = (if nd_lookup d (n_key node) = None then (nd_lookup d)(n_key node \<mapsto> n_value node)
        else nd_lookup d)"
proof (cases "ndict_get_node d (n_key node)")
  case (Some n)
  have "nd_wf (d\<lparr>nd_free := n_addr node # nd_free d\<rparr>)"
    by (rule nd_wf_free [OF wf]) (use addr nd_wfD(3) [OF wf] in auto)
  then show ?thesis using Some by (simp add: ndict_generic_insert_def nd_lookup_def [of d])
next
  case None
  let ?r = "if nd_capacity d < nd_size d * 2 + 1 then ndict_resize 1 d else Done d"
  have "\<exists>e. ?r = Done e \<and> nd_wf e \<and> mset (nd_nodes e) = mset (nd_nodes d) \<and> nd_free e = nd_free d
      \<and> nd_size e = nd_size d \<and> nd_size d * 2 + 1 \<le> nd_capacity e"
  proof (cases "nd_capacity d < nd_size d * 2 + 1")
    case False
    then show ?thesis using wf by simp
  next
    case True
    let ?i = "Suc (nd_cap_index d)"
    have i: "nd_cap_index d < 59" "nd_capacity d = ndict_capacities ! nd_cap_index d"
      "nd_size d * 2 \<le> nd_capacity d + 1"
      using room wf by (simp_all add: nd_room_def nd_wf_def)
    have c: "nd_size d * 2 + 1 \<le> ndict_capacities ! ?i" using capacities_step(1) [OF i(1)] i(2,3) by simp
    then obtain bs where bs: "ndict_resize 1 d = Done (d\<lparr>nd_buckets := bs, nd_cap_index := ?i,
        nd_capacity := ndict_capacities ! ?i\<rparr>)"
      "nd_placed (ndict_capacities ! ?i) bs" "mset (concat bs) = mset (nd_nodes d)"
      using ndict_resize_Done [OF wf, of ?i 1] by auto
    moreover have "nd_wf (d\<lparr>nd_buckets := bs, nd_cap_index := ?i, nd_capacity := ndict_capacities ! ?i\<rparr>)"
      by (rule nd_wf_rebuild [OF wf _ bs(2,3)]) (use i c in simp_all)
    ultimately show ?thesis using True c by (simp add: nd_nodes_def)
  qed
  then obtain e where e: "?r = Done e" "nd_wf e" "mset (nd_nodes e) = mset (nd_nodes d)"
    "nd_free e = nd_free d" "nd_size e = nd_size d" "nd_size d * 2 + 1 \<le> nd_capacity e" by blast
  let ?bs = "ndict_link (nd_capacity e) node (nd_buckets e)"
  let ?e = "e\<lparr>nd_buckets := ?bs, nd_size := nd_size e + 1\<rparr>"
  have ins: "ndict_generic_insert node d = Done (True, ?e)"
    using None e(1) by (simp add: ndict_generic_insert_def)
  have bs: "nd_placed (nd_capacity e) ?bs" "mset (concat ?bs) = add_mset node (mset (nd_nodes e))"
    using ndict_link_placed [of "nd_capacity e" "nd_buckets e" node] nd_wfD(1) [OF e(2)] e(6)
    by (simp_all add: nd_nodes_def)
  have keys: "n_key node \<notin> n_key ` set (nd_nodes e)"
    using None get_node_None [OF wf] mset_eq_setD [OF e(3)] by simp
  have "mset (concat ?bs) = mset (node # nd_nodes e)" using bs(2) by simp
  then have eqs: "mset (map n_key (concat ?bs)) = mset (map n_key (node # nd_nodes e))"
    "mset (nd_free e @ map n_addr (concat ?bs)) = mset (nd_free e @ map n_addr (node # nd_nodes e))"
    "length (concat ?bs) = length (node # nd_nodes e)"
    by (metis mset_map, metis mset_append mset_map, metis mset_eq_length)
  have "distinct (map n_key (node # nd_nodes e))" using keys nd_wfD(2) [OF e(2)] by simp
  moreover have "distinct (nd_free e @ map n_addr (node # nd_nodes e))"
    using addr nd_wfD(3) [OF e(2)] e(4) mset_eq_setD [OF e(3)] by auto
  ultimately have d: "distinct (map n_key (concat ?bs))" "distinct (nd_free e @ map n_addr (concat ?bs))"
    using eqs mset_eq_imp_distinct_iff by metis+
  have wf': "nd_wf ?e"
    using e(2,5,6) bs(1) d eqs(3) unfolding nd_wf_def by (simp add: nd_nodes_def)
  have "nd_lookup ?e = map_of (map (\<lambda>n. (n_key n, n_value n)) (node # nd_nodes e))"
    unfolding nd_lookup_map_of [OF wf']
    by (rule map_of_mset) (use d(1) bs(2) in \<open>simp_all add: comp_def nd_nodes_def\<close>)
  also have "\<dots> = (nd_lookup e)(n_key node \<mapsto> n_value node)"
    using nd_lookup_map_of [OF e(2)] by simp
  also have "nd_lookup e = nd_lookup d" by (rule nd_lookup_mset [OF wf e(2,3)])
  finally have "nd_lookup ?e = (nd_lookup d)(n_key node \<mapsto> n_value node)" .
  moreover have "nd_lookup d (n_key node) = None" using None by (simp add: nd_lookup_def)
  ultimately show ?thesis using ins wf' by simp
qed

lemma alloc_nodes_law:
  assumes wf: "nd_wf d" and fresh: "nd_fresh node_size page d" and free: "nd_free d = []"
    and eq: "ndict_alloc_nodes page node_size d = (a, e)"
  shows "nd_wf e \<and> a \<notin> set (nd_free e) \<union> n_addr ` set (nd_nodes e) \<and> nd_lookup e = nd_lookup d
    \<and> nd_room e = nd_room d"
proof -
  let ?items = "(4096 - 16) div node_size" and ?f = "\<lambda>i. page + 16 + node_size * i"
  have fold: "fold (\<lambda>i f. ?f i # f) xs ys = rev (map ?f xs) @ ys" for xs ys
    by (induction xs arbitrary: ys) auto
  let ?free = "rev (map ?f [0..<?items])"
  have n: "0 < node_size" "0 < ?items" using fresh by (auto simp: nd_fresh_def div_greater_zero_iff)
  have ae: "a = hd ?free" "e = d\<lparr>nd_pages := page # nd_pages d, nd_free := tl ?free\<rparr>"
    using eq free by (simp_all add: ndict_alloc_nodes_def Let_def fold)
  have "?f i < page + 4096" if "i < ?items" for i
  proof -
    have "node_size * (i + 1) \<le> node_size * ?items" using that by (intro mult_le_mono2) simp
    also have "\<dots> \<le> 4080" using div_times_less_eq_dividend [of 4080 node_size] by (simp add: mult.commute)
    finally show ?thesis using n(1) by simp
  qed
  then have "page \<le> b \<and> b < page + 4096" if "b \<in> set ?free" for b using that by auto
  moreover have "b < page \<or> page + 4096 \<le> b" if "b \<in> n_addr ` set (nd_nodes d)" for b
    using fresh that by (simp add: nd_fresh_def)
  ultimately have "set ?free \<inter> n_addr ` set (nd_nodes d) = {}"
    by (meson disjoint_iff not_le)
  moreover have "distinct ?free" using n(1) by (simp add: distinct_map inj_on_def)
  ultimately have "distinct (?free @ map n_addr (nd_nodes d))" using nd_wfD(3) [OF wf] by simp
  moreover have "?free = a # tl ?free" using n(2) ae(1) by (simp add: hd_Cons_tl)
  ultimately have d: "distinct (a # tl ?free @ map n_addr (nd_nodes d))" by (metis append_Cons)
  have "nd_nodes e = nd_nodes d" "nd_lookup e = nd_lookup d"
    by (auto simp: ae(2) nd_nodes_def nd_lookup_def ndict_get_node_def fun_eq_iff)
  moreover have "nd_wf e" using wf d by (auto simp add: nd_wf_def ae(2) nd_nodes_def)
  ultimately show ?thesis using d by (simp add: ae(2) nd_room_def)
qed

lemma ndict_insert_law:
  assumes wf: "nd_wf d" and room: "nd_room d" and fresh: "nd_fresh node_size page d"
  shows "\<exists>d'. ndict_insert node_size page k v d = Done (nd_lookup d k = None, d') \<and> nd_wf d'
    \<and> nd_lookup d' = (if nd_lookup d k = None then (nd_lookup d)(k \<mapsto> v) else nd_lookup d)"
proof -
  define r where "r = (case nd_free d of a # f \<Rightarrow> (a, d\<lparr>nd_free := f\<rparr>)
    | [] \<Rightarrow> ndict_alloc_nodes page node_size d)"
  obtain a e where r: "r = (a, e)" by (cases r)
  have e: "nd_wf e \<and> a \<notin> set (nd_free e) \<union> n_addr ` set (nd_nodes e) \<and> nd_lookup e = nd_lookup d
      \<and> nd_room e = nd_room d"
  proof (cases "nd_free d")
    case Nil
    then show ?thesis using alloc_nodes_law [OF wf fresh Nil, of a e] r by (simp add: r_def)
  next
    case (Cons b f)
    then have "e = d\<lparr>nd_free := f\<rparr>" "a = b" using r by (simp_all add: r_def)
    moreover have "distinct (b # f @ map n_addr (nd_nodes d))" using nd_wfD(3) [OF wf] Cons by simp
    ultimately show ?thesis using nd_wf_free [OF wf, of f] by (auto simp: nd_room_def)
  qed
  have eq: "nd_lookup e = nd_lookup d" using e by blast
  have "nd_wf e" "nd_room e" "n_addr \<lparr>n_addr = a, n_key = k, n_value = v\<rparr> \<notin> set (nd_free e) \<union> n_addr ` set (nd_nodes e)"
    using e room by simp_all
  from generic_insert_law [OF this] show ?thesis
    by (cases "nd_lookup d k") (simp_all add: ndict_insert_def r_def [symmetric] r eq)
qed

section \<open>Removal\<close>

lemma find_split:
  assumes "List.find P xs = Some n"
  shows "xs = takeWhile (\<lambda>x. \<not> P x) xs @ n # tl (dropWhile (\<lambda>x. \<not> P x) xs)"
  using assms by (induction xs) (auto split: if_splits)

lemma mset_concat_replace:
  "i < length bs \<Longrightarrow> mset (concat (bs[i := ys])) + mset (bs ! i) = mset (concat bs) + mset ys"
proof (induction bs arbitrary: i)
  case (Cons b bs)
  then show ?case by (cases i) (auto simp: ac_simps)
qed simp

text \<open>Unlinking a node leaves a well-formed dictionary, before any shrinking.\<close>

lemma unlink_law:
  assumes wf: "nd_wf d" and cap: "nd_capacity d \<noteq> 0"
    and find: "List.find (\<lambda>n. n_key n = k) (nd_buckets d ! ndict_hash (nd_capacity d) k) = Some n"
  defines "h \<equiv> ndict_hash (nd_capacity d) k"
  defines "ch \<equiv> takeWhile (\<lambda>n. n_key n \<noteq> k) (nd_buckets d ! h) @ tl (dropWhile (\<lambda>n. n_key n \<noteq> k) (nd_buckets d ! h))"
  defines "e \<equiv> d\<lparr>nd_buckets := (nd_buckets d)[h := ch], nd_free := n_addr n # nd_free d, nd_size := nd_size d - 1\<rparr>"
  shows "nd_wf e" and "nd_lookup e = (nd_lookup d)(k := None)"
proof -
  have k: "n_key n = k" using find by (auto simp: find_Some_iff)
  have h: "h < length (nd_buckets d)"
    using ndict_hash_less [of "nd_capacity d" k] cap nd_wfD(1) [OF wf] by (simp add: h_def nd_placed_def)
  have split: "mset (nd_buckets d ! h) = add_mset n (mset ch)"
    using arg_cong [OF find_split [OF find], of mset] by (simp add: ch_def h_def)
  have ms: "mset (nd_nodes d) = add_mset n (mset (concat ((nd_buckets d)[h := ch])))"
    using mset_concat_replace [OF h, of ch] split by (simp add: nd_nodes_def)
  let ?ns = "concat ((nd_buckets d)[h := ch])"
  have ms': "mset (n # ?ns) = mset (nd_nodes d)" using ms by simp
  have "distinct (map n_key (n # ?ns))"
    using nd_wfD(2) [OF wf] ms' by (metis mset_eq_imp_distinct_iff mset_map)
  moreover have "distinct (nd_free d @ map n_addr (n # ?ns))"
    using nd_wfD(3) [OF wf] ms' by (metis mset_append mset_eq_imp_distinct_iff mset_map)
  ultimately have dist: "distinct (map n_key ?ns)" "k \<notin> n_key ` set ?ns"
    "distinct (n_addr n # nd_free d @ map n_addr ?ns)"
    using k by auto
  have len: "nd_size d = Suc (length ?ns)" using nd_wfD(4) [OF wf] mset_eq_length [OF ms'] by simp
  have "set ch \<subseteq> set (nd_buckets d ! h)"
    using mset_eq_setD [of "n # ch" "nd_buckets d ! h"] split by auto
  then have "nd_placed (nd_capacity d) ((nd_buckets d)[h := ch])"
    using nd_wfD(1) [OF wf] h by (auto simp: nd_placed_def nth_list_update)
  then show wf': "nd_wf e"
    using wf dist len unfolding nd_wf_def e_def by (auto simp: nd_nodes_def)
  have "nd_lookup d = map_of (map (\<lambda>n. (n_key n, n_value n)) (n # ?ns))"
    unfolding nd_lookup_map_of [OF wf]
  proof (rule map_of_mset)
    show "distinct (map fst (map (\<lambda>n. (n_key n, n_value n)) (nd_nodes d)))"
      using nd_wfD(2) [OF wf] by (simp add: comp_def)
    show "mset (map (\<lambda>n. (n_key n, n_value n)) (nd_nodes d)) = mset (map (\<lambda>n. (n_key n, n_value n)) (n # ?ns))"
      using ms' by (metis mset_map)
  qed
  moreover have "nd_lookup e = map_of (map (\<lambda>n. (n_key n, n_value n)) ?ns)"
    unfolding nd_lookup_map_of [OF wf'] by (simp add: e_def nd_nodes_def)
  moreover have "map_of (map (\<lambda>n. (n_key n, n_value n)) ?ns) k = None"
    using dist(2) by (force simp: map_of_eq_None_iff)
  ultimately show "nd_lookup e = (nd_lookup d)(k := None)" using k by (auto simp: fun_eq_iff)
qed

lemma ndict_remove_law:
  assumes wf: "nd_wf d"
  shows "\<exists>d'. ndict_remove k d = Done (nd_lookup d k \<noteq> None, d') \<and> nd_wf d'
    \<and> nd_lookup d' = (nd_lookup d)(k := None)"
proof (cases "nd_lookup d k")
  case None
  then have "ndict_remove k d = Done (False, d)"
    by (auto simp: nd_lookup_def ndict_get_node_def ndict_remove_def Let_def split: if_splits)
  then show ?thesis using None wf by (simp add: fun_upd_idem)
next
  case (Some v)
  let ?h = "ndict_hash (nd_capacity d) k"
  obtain n where cap: "nd_capacity d \<noteq> 0"
    and find: "List.find (\<lambda>n. n_key n = k) (nd_buckets d ! ?h) = Some n"
    using Some by (auto simp: nd_lookup_def ndict_get_node_def split: if_splits)
  define e where "e = d\<lparr>nd_buckets := (nd_buckets d)[?h := takeWhile (\<lambda>n. n_key n \<noteq> k) (nd_buckets d ! ?h)
      @ tl (dropWhile (\<lambda>n. n_key n \<noteq> k) (nd_buckets d ! ?h))],
    nd_free := n_addr n # nd_free d, nd_size := nd_size d - 1\<rparr>"
  have e: "nd_wf e" "nd_lookup e = (nd_lookup d)(k := None)"
    using unlink_law [OF wf cap find] by (simp_all add: e_def)
  have rem: "ndict_remove k d = obind (if nd_capacity e > nd_size e * 4 then ndict_resize (- 1) e else Done e)
      (\<lambda>d. Done (True, d))"
    using cap find by (simp add: ndict_remove_def Let_def e_def)
  show ?thesis
  proof (cases "nd_capacity e > nd_size e * 4")
    case False
    then show ?thesis using rem e Some by simp
  next
    case True
    have idx: "nd_cap_index e < 60" "nd_capacity e = ndict_capacities ! nd_cap_index e"
      using e(1) by (auto simp: nd_wf_def)
    have "ndict_capacities ! 0 = 0" by (simp add: ndict_capacities_def)
    then obtain i where i: "nd_cap_index e = Suc i"
      using idx True by (cases "nd_cap_index e") auto
    show ?thesis
    proof (cases i)
      case 0
      then have "ndict_resize (- 1) e = Done e"
        using i \<open>ndict_capacities ! 0 = 0\<close> by (simp add: ndict_resize_def)
      then show ?thesis using rem True e Some by simp
    next
      case (Suc j)
      have i59: "i < 59" using idx(1) i by simp
      have big: "ndict_capacities ! Suc i \<le> 2 * ndict_capacities ! i"
        by (rule capacities_step(2) [OF i59]) (simp add: Suc)
      have pos: "0 < ndict_capacities ! i" "nd_size e * 2 \<le> ndict_capacities ! i + 1"
        using big True idx(2) i by simp_all
      obtain bs where bs: "ndict_resize (- 1) e = Done (e\<lparr>nd_buckets := bs, nd_cap_index := i,
          nd_capacity := ndict_capacities ! i\<rparr>)"
        "nd_placed (ndict_capacities ! i) bs" "mset (concat bs) = mset (nd_nodes e)"
        using ndict_resize_Done [OF e(1) pos(1), of "- 1"] i by auto
      let ?f = "e\<lparr>nd_buckets := bs, nd_cap_index := i, nd_capacity := ndict_capacities ! i\<rparr>"
      have wf': "nd_wf ?f" by (rule nd_wf_rebuild [OF e(1) _ bs(2,3) pos(2)]) (use i59 in simp)
      have "nd_lookup ?f = nd_lookup e"
        by (rule nd_lookup_mset [OF e(1) wf']) (use bs(3) in \<open>simp add: nd_nodes_def\<close>)
      then show ?thesis using rem True e Some bs(1) wf' by simp
    qed
  qed
qed

interpretation ndict: dictionary nd_wf nd_lookup nd_room "nd_fresh node_size"
  "ndict_insert node_size" ndict_remove for node_size
  by unfold_locales (simp_all only: ndict_insert_law ndict_remove_law)

text \<open>
  C13: the hash table is a dictionary: an insertion returns whether the key was new and binds
  it exactly then, a removal unbinds the key and reports whether it was bound; no other key is
  affected, through growing and shrinking of the table, collisions and node reuse; every
  operation keeps each node in the bucket of its key, the keys distinct, the free nodes apart
  from the ones in use, and at most one element per two buckets; and nothing faults while the
  table of capacities lasts.
\<close>

theorem ndict_is_dictionary:
  assumes "nd_wf d"
  shows "(nd_room d \<and> nd_fresh node_size page d \<longrightarrow>
      (\<exists>d'. ndict_insert node_size page k v d = Done (nd_lookup d k = None, d') \<and> nd_wf d'
        \<and> nd_lookup d' = (if nd_lookup d k = None then (nd_lookup d)(k \<mapsto> v) else nd_lookup d)))
    \<and> (\<exists>d'. ndict_remove k d = Done (nd_lookup d k \<noteq> None, d') \<and> nd_wf d'
        \<and> nd_lookup d' = (nd_lookup d)(k := None))
    \<and> ndict_at d k = (case nd_lookup d k of Some v \<Rightarrow> Done v | None \<Rightarrow> Fault)
    \<and> (ndict_contains d k \<longleftrightarrow> nd_lookup d k \<noteq> None)"
proof (intro conjI impI)
  show "\<exists>d'. ndict_insert node_size page k v d = Done (nd_lookup d k = None, d') \<and> nd_wf d'
        \<and> nd_lookup d' = (if nd_lookup d k = None then (nd_lookup d)(k \<mapsto> v) else nd_lookup d)"
    if "nd_room d \<and> nd_fresh node_size page d"
    using ndict.insert_law [OF assms] that by blast
  show "\<exists>d'. ndict_remove k d = Done (nd_lookup d k \<noteq> None, d') \<and> nd_wf d'
        \<and> nd_lookup d' = (nd_lookup d)(k := None)"
    by (rule ndict.remove_law [OF assms])
qed (auto simp: ndict_at_def ndict_contains_def nd_lookup_def split: option.splits)

lemma ndict_init_wf: "nd_wf ndict_init" "nd_lookup ndict_init = (\<lambda>_. None)"
  by (auto simp: nd_wf_def ndict_init_def nd_placed_def nd_nodes_def ndict_capacities_def
      nd_lookup_def ndict_get_node_def)

theorem ndict_is_dictionary_witness:
  "\<exists>d'. ndict_insert 32 4096 7 ''n'' ndict_init = Done (True, d') \<and> nd_wf d'
     \<and> nd_lookup d' = (\<lambda>_. None)(7 \<mapsto> ''n'')"
proof -
  have "nd_room (ndict_init :: string NumDictionary)" "nd_fresh 32 4096 (ndict_init :: string NumDictionary)"
    by (simp_all add: nd_room_def nd_fresh_def ndict_init_def nd_nodes_def)
  then show ?thesis
    using ndict_is_dictionary [OF ndict_init_wf(1), of 32 4096 7 "''n''"]
    by (simp add: ndict_init_wf(2))
qed

lemma fold_upt_concat: "fold (\<lambda>i. fold f (bs ! i)) [0..<length bs] x = fold f (concat bs) x"
proof (induction bs arbitrary: x rule: rev_induct)
  case (snoc b bs)
  have "fold (\<lambda>i. fold f ((bs @ [b]) ! i)) [0..<length bs] x = fold (\<lambda>i. fold f (bs ! i)) [0..<length bs] x"
    by (rule fold_cong) (simp_all add: nth_append)
  then show ?case using snoc by simp
qed simp

text \<open>The traversal visits every entry exactly once.\<close>

lemma ndict_for_entries:
  assumes "nd_wf d"
  shows "ndict_for f d x = fold f (nd_nodes d) x" and "distinct (map n_key (nd_nodes d))"
    and "(k, v) \<in> (\<lambda>n. (n_key n, n_value n)) ` set (nd_nodes d) \<longleftrightarrow> nd_lookup d k = Some v"
proof -
  have len: "nd_capacity d = length (nd_buckets d)" using nd_wfD(1) [OF assms] by (simp add: nd_placed_def)
  show "ndict_for f d x = fold f (nd_nodes d) x"
    by (simp only: ndict_for_def len nd_nodes_def fold_upt_concat)
  show "distinct (map n_key (nd_nodes d))" by (rule nd_wfD(2) [OF assms])
  then show "(k, v) \<in> (\<lambda>n. (n_key n, n_value n)) ` set (nd_nodes d) \<longleftrightarrow> nd_lookup d k = Some v"
    unfolding nd_lookup_map_of [OF assms]
    by (subst map_of_eq_Some_iff) (auto simp: comp_def)
qed

end
