(* ===== verification/Allocators.thy ===== *)
theory Allocators
  imports Single_List "HOL-Library.Multiset"
begin

text \<open>
  The allocators of \<open>allocators/\<close>: pages from the system (\<open>page_allocator\<close>), pages and
  blocks whose release is put off until no transaction can see them (\<open>vpage_allocator\<close>,
  \<open>generic_allocator\<close>), and constructed objects (\<open>simple_allocator\<close>). The lists they keep
  free memory on are the lists of \<open>Single_List\<close>, whose atomic operations it shows to be
  linearizable; here a list is the sequence of its nodes, with the time stamp stored in each
  where there is one. Counters are 64-bit words. An operation returns, with the new state,
  the memory it gave back to the layer below.
\<close>

section \<open>Pages from the system\<close>

definition PAGE_ALLOCATOR_PAGE_SIZE :: u64 where
  "PAGE_ALLOCATOR_PAGE_SIZE = 4096"

definition page_allocator_get_page :: "addr \<Rightarrow> addr" where
  "page_allocator_get_page ptr = ptr AND NOT (PAGE_ALLOCATOR_PAGE_SIZE - 1)"

record PageAllocator =
  pa_gc_threshold :: u64
  pa_free_pages_counter :: u64
  pa_free_pages :: "addr list"

definition page_allocator_init :: "u64 \<Rightarrow> PageAllocator" where
  "page_allocator_init gc_threshold =
    \<lparr>pa_gc_threshold = (if gc_threshold > 2 then gc_threshold else 2),
     pa_free_pages_counter = 0, pa_free_pages = []\<rparr>"

definition pa_get_page :: "PageAllocator \<Rightarrow> addr \<times> PageAllocator" where
  "pa_get_page A = (case pa_free_pages A of
      [] \<Rightarrow> (0, A)
    | page # pages \<Rightarrow> (page, A\<lparr>pa_free_pages := pages,
        pa_free_pages_counter := atomic_dec (pa_free_pages_counter A)\<rparr>))"

text \<open>The second result collects the pages passed to \<open>munmap\<close>.\<close>

function pa_collect_garbage :: "PageAllocator \<Rightarrow> u64 \<Rightarrow> PageAllocator \<times> addr list" where
  "pa_collect_garbage A threshold =
    (if pa_free_pages_counter A > threshold \<and> pa_free_pages A \<noteq> [] then
       let (page, A) = pa_get_page A; (A, unmapped) = pa_collect_garbage A threshold in
       (A, page # unmapped)
     else (A, []))"
  by pat_completeness auto
termination
  by (relation "measure (\<lambda>(A, _). length (pa_free_pages A))")
    (auto simp: pa_get_page_def split: list.splits)

declare pa_collect_garbage.simps [simp del]

definition page_allocator_free :: "PageAllocator \<Rightarrow> addr \<Rightarrow> PageAllocator \<times> addr list" where
  "page_allocator_free A page =
    (let A = A\<lparr>pa_free_pages_counter := atomic_inc (pa_free_pages_counter A),
               pa_free_pages := page # pa_free_pages A\<rparr> in
     if pa_free_pages_counter A > pa_gc_threshold A
     then pa_collect_garbage A (pa_gc_threshold A div 2) else (A, []))"

fun page_frees :: "PageAllocator \<Rightarrow> addr list \<Rightarrow> PageAllocator \<times> addr list" where
  "page_frees A [] = (A, [])"
| "page_frees A (page # pages) =
    (let (A, us) = page_allocator_free A page; (A, vs) = page_frees A pages in (A, us @ vs))"

text \<open>
  \<open>mmap\<close> maps so many bytes and answers with their address, or with \<open>MAP_FAILED\<close>
  (\<open>None\<close>, and the program dies).
\<close>

definition pa_alloc_bytes :: "PageAllocator \<Rightarrow> u64" where
  "pa_alloc_bytes A = (let pages = PAGE_ALLOCATOR_PAGE_SIZE * pa_gc_threshold A div 2 in
     if pages \<noteq> 0 then pages else 1)"

definition pa_alloc_pages ::
    "PageAllocator \<Rightarrow> (u64 \<Rightarrow> addr option) \<Rightarrow> (addr \<times> PageAllocator \<times> addr list) outcome" where
  "pa_alloc_pages A mmap =
    (case pa_get_page A of (block, A) \<Rightarrow>
     if block \<noteq> 0 then Done (block, A, [])
     else case mmap (pa_alloc_bytes A) of
        None \<Rightarrow> Fault
      | Some block \<Rightarrow>
          Done (block, page_frees A (map (\<lambda>i. block + of_nat i * PAGE_ALLOCATOR_PAGE_SIZE)
            [1..<unat (pa_gc_threshold A div 2)])))"

definition page_allocator_alloc ::
    "PageAllocator \<Rightarrow> (u64 \<Rightarrow> addr option) \<Rightarrow> (addr \<times> PageAllocator \<times> addr list) outcome" where
  "page_allocator_alloc A mmap =
    (case pa_get_page A of (page, A) \<Rightarrow>
     if page \<noteq> 0 then Done (page, A, []) else pa_alloc_pages A mmap)"

definition page_allocator_collect_garbage :: "PageAllocator \<Rightarrow> PageAllocator \<times> addr list" where
  "page_allocator_collect_garbage A = pa_collect_garbage A 0"

definition page_allocator_destroy :: "PageAllocator \<Rightarrow> addr list" where
  "page_allocator_destroy A = snd (pa_collect_garbage A 0)"

text \<open>The counter is exact and the buffer holds distinct pages, never more than the threshold.\<close>

definition pa_inv :: "PageAllocator \<Rightarrow> bool" where
  "pa_inv A \<longleftrightarrow> 2 \<le> pa_gc_threshold A \<and> pa_free_pages_counter A = of_nat (length (pa_free_pages A))
     \<and> length (pa_free_pages A) \<le> unat (pa_gc_threshold A)
     \<and> distinct (pa_free_pages A) \<and> 0 \<notin> set (pa_free_pages A)"

lemma pa_inv_init [pool_simps]: "pa_inv (page_allocator_init n)"
  by (simp add: pa_inv_def page_allocator_init_def order_less_imp_le)

lemma of_nat_u64_inj:
  assumes "(of_nat m :: u64) = of_nat n" and "m < 2 ^ 64" and "n < 2 ^ 64"
  shows "m = n"
proof -
  have "unat (of_nat m :: u64) = m" using assms(2) by (intro unat_of_nat_small) simp
  moreover have "unat (of_nat n :: u64) = n" using assms(3) by (intro unat_of_nat_small) simp
  ultimately show ?thesis using assms(1) by metis
qed

lemma of_nat_less_iff_unat:
  "n < 2 ^ LENGTH('a) \<Longrightarrow> (t :: 'a::len word) < of_nat n \<longleftrightarrow> unat t < n"
  by (simp add: word_less_nat_alt unsigned_of_nat take_bit_nat_eq_self)

text \<open>Collecting unmaps the excess over the threshold, from the front of the list.\<close>

lemma pa_collect_eq:
  assumes "pa_free_pages_counter A = of_nat (length (pa_free_pages A))"
    and "length (pa_free_pages A) < 2 ^ 64"
  shows "pa_collect_garbage A threshold = (let k = length (pa_free_pages A) - unat threshold in
    (A\<lparr>pa_free_pages := drop k (pa_free_pages A),
       pa_free_pages_counter := of_nat (length (pa_free_pages A) - k)\<rparr>, take k (pa_free_pages A)))"
  using assms
proof (induction "pa_free_pages A" arbitrary: A)
  case Nil
  then show ?case by (simp add: pa_collect_garbage.simps)
next
  case (Cons page pages)
  let ?B = "snd (pa_get_page A)"
  have A: "pa_free_pages A = page # pages" using Cons.hyps(2) by simp
  have B: "pa_free_pages ?B = pages" "pa_free_pages_counter ?B = of_nat (length pages)"
    using A Cons.prems(1) by (simp_all add: pa_get_page_def atomic_simps)
  have gt: "pa_free_pages_counter A > threshold \<longleftrightarrow> unat threshold < Suc (length pages)"
    using Cons.prems of_nat_less_iff_unat [of "Suc (length pages)" threshold] A by simp
  show ?case
  proof (cases "unat threshold < Suc (length pages)")
    case True
    have IH: "pa_collect_garbage ?B threshold = (let k = length pages - unat threshold in
      (?B\<lparr>pa_free_pages := drop k pages, pa_free_pages_counter := of_nat (length pages - k)\<rparr>,
       take k pages))"
      using Cons.hyps(1) [of ?B] B Cons.prems(2) A by simp
    have k: "Suc (length pages) - unat threshold = Suc (length pages - unat threshold)"
      using True by simp
    have "pa_collect_garbage A threshold = (fst (pa_collect_garbage ?B threshold),
        page # snd (pa_collect_garbage ?B threshold))"
      using True gt A by (subst pa_collect_garbage.simps)
        (simp add: pa_get_page_def Let_def split: prod.splits)
    also have "\<dots> = (let k = length (pa_free_pages A) - unat threshold in
      (A\<lparr>pa_free_pages := drop k (pa_free_pages A),
         pa_free_pages_counter := of_nat (length (pa_free_pages A) - k)\<rparr>, take k (pa_free_pages A)))"
      using A by (simp only: IH Let_def list.size add_0_right add_Suc_right k)
        (simp add: pa_get_page_def)
    finally show ?thesis .
  next
    case False
    then have "pa_collect_garbage A threshold = (A, [])"
      using gt by (subst pa_collect_garbage.simps) simp
    with False A Cons.prems(1) show ?thesis by (simp add: Let_def)
  qed
qed

lemma mset_drop_take: "mset (drop k xs) + mset (take k xs) = mset xs"
proof -
  have "mset (take k xs) + mset (drop k xs) = mset (take k xs @ drop k xs)" by (simp only: mset_append)
  then show ?thesis by (simp only: append_take_drop_id add.commute)
qed

lemma pa_collect_spec:
  assumes "pa_collect_garbage A t = (A', unmapped)"
    and "pa_free_pages_counter A = of_nat (length (pa_free_pages A))"
    and "length (pa_free_pages A) < 2 ^ 64" and "distinct (pa_free_pages A)"
    and "0 \<notin> set (pa_free_pages A)"
  shows "pa_free_pages_counter A' = of_nat (length (pa_free_pages A'))
    \<and> mset (pa_free_pages A') + mset unmapped = mset (pa_free_pages A)
    \<and> distinct (pa_free_pages A') \<and> 0 \<notin> set (pa_free_pages A')
    \<and> length (pa_free_pages A') \<le> unat t \<and> pa_gc_threshold A' = pa_gc_threshold A"
proof -
  define k where "k = length (pa_free_pages A) - unat t"
  have A': "A' = A\<lparr>pa_free_pages := drop k (pa_free_pages A),
      pa_free_pages_counter := of_nat (length (pa_free_pages A) - k)\<rparr>"
    and un: "unmapped = take k (pa_free_pages A)"
    using assms(1) pa_collect_eq [OF assms(2,3), of t] by (simp_all add: Let_def k_def)
  have 1: "pa_free_pages A' = drop k (pa_free_pages A)" "pa_gc_threshold A' = pa_gc_threshold A"
    "pa_free_pages_counter A' = of_nat (length (pa_free_pages A) - k)" by (simp_all add: A')
  have 2: "mset (pa_free_pages A') + mset unmapped = mset (pa_free_pages A)"
    unfolding 1(1) un by (rule mset_drop_take)
  have 3: "distinct (pa_free_pages A')" "0 \<notin> set (pa_free_pages A')"
    unfolding 1(1) using assms(4,5) by (blast intro: distinct_drop dest: in_set_dropD)+
  have "length (pa_free_pages A') \<le> unat t" unfolding 1(1) by (simp add: k_def)
  with 1 2 3 show ?thesis by (simp only: length_drop simp_thms)
qed

lemma page_allocator_free_spec:
  assumes "pa_inv A" and "page \<noteq> 0" and "page \<notin> set (pa_free_pages A)"
    and "page_allocator_free A page = (A', unmapped)"
  shows "pa_inv A' \<and> mset (pa_free_pages A') + mset unmapped = add_mset page (mset (pa_free_pages A))
    \<and> pa_gc_threshold A' = pa_gc_threshold A
    \<and> (length (pa_free_pages A) < unat (pa_gc_threshold A) \<longrightarrow>
        unmapped = [] \<and> pa_free_pages A' = page # pa_free_pages A)"
proof -
  let ?ps = "page # pa_free_pages A" and ?t = "unat (pa_gc_threshold A)"
  let ?B = "A\<lparr>pa_free_pages_counter := atomic_inc (pa_free_pages_counter A), pa_free_pages := ?ps\<rparr>"
  have len: "length (pa_free_pages A) \<le> ?t" and cnt: "pa_free_pages_counter ?B = of_nat (length ?ps)"
    and dist: "distinct ?ps" "0 \<notin> set ?ps" and two: "2 \<le> pa_gc_threshold A" "2 \<le> ?t"
    using assms(1-3) by (auto simp: pa_inv_def atomic_simps word_le_nat_alt)
  have max: "?t < 2 ^ 64" using unsigned_less [of "pa_gc_threshold A"] by simp
  show ?thesis
  proof (cases "length ?ps > ?t")
    case False
    then have "\<not> pa_free_pages_counter ?B > pa_gc_threshold A"
      using cnt of_nat_less_iff_unat [of "length ?ps" "pa_gc_threshold A"] max by simp
    then have "A' = ?B" "unmapped = []" using assms(4) by (simp_all add: page_allocator_free_def Let_def)
    then show ?thesis using dist cnt False two by (auto simp: pa_inv_def)
  next
    case True
    have "pa_free_pages_counter ?B > pa_gc_threshold A \<or> length ?ps = 2 ^ 64"
      using cnt of_nat_less_iff_unat [of "length ?ps" "pa_gc_threshold A"] max len True by auto
    show ?thesis
    proof (cases "length ?ps = 2 ^ 64")
      case True
      then have "set ?ps \<subseteq> UNIV - {0}" "card (set ?ps) = 2 ^ 64"
        using dist by (auto simp: distinct_card)
      then have "2 ^ 64 \<le> card (UNIV - {0} :: addr set)" by (metis card_mono finite)
      then show ?thesis by (simp add: card_Diff_singleton_if card_word)
    next
      case False
      then have gt: "pa_free_pages_counter ?B > pa_gc_threshold A" and lt: "length ?ps < 2 ^ 64"
        using \<open>_ \<or> length ?ps = 2 ^ 64\<close> len max by auto
      have un2: "unat (pa_gc_threshold A div 2) = ?t div 2" by (simp add: unat_div)
      have "pa_collect_garbage ?B (pa_gc_threshold A div 2) = (A', unmapped)"
        using gt assms(4) by (simp add: page_allocator_free_def Let_def)
      from pa_collect_spec [OF this _ _ _ _] have "pa_free_pages_counter A' = of_nat (length (pa_free_pages A'))
          \<and> mset (pa_free_pages A') + mset unmapped = mset ?ps \<and> distinct (pa_free_pages A')
          \<and> 0 \<notin> set (pa_free_pages A') \<and> length (pa_free_pages A') \<le> ?t div 2
          \<and> pa_gc_threshold A' = pa_gc_threshold A"
        using cnt lt dist un2 by simp
      moreover from this have "length (pa_free_pages A') \<le> ?t" by (meson div_le_dividend order_trans)
      ultimately show ?thesis using two \<open>length ?ps > ?t\<close> by (simp add: pa_inv_def)
    qed
  qed
qed

text \<open>Freeing what the buffer has room for only fills it.\<close>

lemma page_frees_room:
  assumes "pa_inv A" and "length pages + length (pa_free_pages A) \<le> unat (pa_gc_threshold A)"
    and "distinct (pages @ pa_free_pages A)" and "0 \<notin> set pages"
    and "page_frees A pages = (A', unmapped)"
  shows "pa_inv A' \<and> unmapped = [] \<and> pa_free_pages A' = rev pages @ pa_free_pages A
    \<and> pa_gc_threshold A' = pa_gc_threshold A"
  using assms
proof (induction pages arbitrary: A A' unmapped)
  case Nil
  then show ?case by simp
next
  case (Cons page pages)
  obtain B us where B: "page_allocator_free A page = (B, us)" by fastforce
  from page_allocator_free_spec [OF Cons.prems(1) _ _ B] Cons.prems(2-4)
  have 1: "pa_inv B" "us = []" "pa_free_pages B = page # pa_free_pages A"
    "pa_gc_threshold B = pa_gc_threshold A" by auto
  obtain C vs where C: "page_frees B pages = (C, vs)" by fastforce
  have "pa_inv C \<and> vs = [] \<and> pa_free_pages C = rev pages @ pa_free_pages B
      \<and> pa_gc_threshold C = pa_gc_threshold B"
    by (rule Cons.IH [OF 1(1) _ _ _ C]) (use 1 Cons.prems in auto)
  with 1 B C Cons.prems(5) show ?case by simp
qed

text \<open>What \<open>mmap\<close> promises: a page-aligned region that does not wrap around.\<close>

definition mmap_ok :: "(u64 \<Rightarrow> addr option) \<Rightarrow> bool" where
  "mmap_ok mmap \<longleftrightarrow> (\<forall>n block. mmap n = Some block \<longrightarrow> block \<noteq> 0 \<and> unat block + unat n \<le> 2 ^ 64
     \<and> page_allocator_get_page block = block)"

definition pages_of :: "addr \<Rightarrow> nat \<Rightarrow> addr list" where
  "pages_of block k = map (\<lambda>i. block + of_nat i * PAGE_ALLOCATOR_PAGE_SIZE) [1..<k]"

lemma unat_page_of:
  assumes "unat block + 4096 * k \<le> 2 ^ 64" and "i < k"
  shows "unat (block + of_nat i * PAGE_ALLOCATOR_PAGE_SIZE) = unat block + 4096 * i"
proof -
  have "4096 * i < 2 ^ 64" using assms by simp
  then have "unat (of_nat i * PAGE_ALLOCATOR_PAGE_SIZE) = i * 4096"
    by (simp add: unat_word_ariths PAGE_ALLOCATOR_PAGE_SIZE_def unsigned_of_nat take_bit_nat_eq_self)
  moreover have "unat block + 4096 * i < 2 ^ 64" using assms by linarith
  ultimately show ?thesis by (simp add: unat_word_ariths mult.commute)
qed

lemma pages_of_props:
  assumes "unat block + 4096 * k \<le> 2 ^ 64" and "block \<noteq> 0"
  shows "distinct (block # pages_of block k) \<and> 0 \<notin> set (pages_of block k)"
proof -
  have inj: "unat (block + of_nat i * PAGE_ALLOCATOR_PAGE_SIZE) = unat block + 4096 * i" if "i < k" for i
    by (rule unat_page_of [OF assms(1) that])
  have "inj_on (\<lambda>i. block + of_nat i * PAGE_ALLOCATOR_PAGE_SIZE) {1..<k}"
    by (rule inj_onI) (metis (no_types, lifting) inj atLeastLessThan_iff add_left_cancel
        mult_cancel1 zero_neq_numeral)
  then have "distinct (pages_of block k)" by (simp add: pages_of_def distinct_map)
  moreover have "block \<notin> set (pages_of block k)" "0 \<notin> set (pages_of block k)"
    using inj assms(2) by (force simp: pages_of_def)+
  ultimately show ?thesis by simp
qed

lemma pa_alloc_bytes_eq:
  assumes "2 \<le> pa_gc_threshold A" and "pa_gc_threshold A < 2 ^ 51"
  shows "unat (pa_alloc_bytes A) = 2048 * unat (pa_gc_threshold A)"
proof -
  let ?t = "pa_gc_threshold A"
  have t: "unat ?t < 2 ^ 51" "2 \<le> unat ?t"
    using assms by (simp_all add: word_less_nat_alt word_le_nat_alt)
  then have "unat (PAGE_ALLOCATOR_PAGE_SIZE * ?t) = 4096 * unat ?t"
    by (simp add: unat_word_ariths PAGE_ALLOCATOR_PAGE_SIZE_def)
  then have "unat (PAGE_ALLOCATOR_PAGE_SIZE * ?t div 2) = 2048 * unat ?t" by (simp add: unat_div)
  moreover from this t have "PAGE_ALLOCATOR_PAGE_SIZE * ?t div 2 \<noteq> 0" by auto
  ultimately show ?thesis by (simp add: pa_alloc_bytes_def Let_def)
qed

text \<open>
  Allocating a page: a buffered page if there is one, else the first page of a region
  taken from the system whose other pages fill the buffer, every one of them completely
  inside the region; the buffer never holds the page that was handed out, its counter stays
  exact and nothing is unmapped on the way.
\<close>

theorem page_allocator_alloc_ok:
  assumes "pa_inv A" and "mmap_ok mmap" and "pa_gc_threshold A < 2 ^ 51"
    and "page_allocator_alloc A mmap = Done (page, A', unmapped)"
  shows "pa_inv A' \<and> unmapped = [] \<and> page \<noteq> 0 \<and> page \<notin> set (pa_free_pages A')
    \<and> (pa_free_pages A \<noteq> [] \<longrightarrow> page # pa_free_pages A' = pa_free_pages A)
    \<and> (pa_free_pages A = [] \<longrightarrow> mmap (pa_alloc_bytes A) = Some page
        \<and> pa_free_pages A' = rev (pages_of page (unat (pa_gc_threshold A) div 2))
        \<and> (\<forall>p \<in> set (page # pa_free_pages A'). unat page \<le> unat p
            \<and> unat p + 4096 \<le> unat page + unat (pa_alloc_bytes A)))"
proof (cases "pa_free_pages A")
  case (Cons p ps)
  then have "p \<noteq> 0" "page = p" "A' = snd (pa_get_page A)" "unmapped = []"
    using assms(1,4) by (auto simp: page_allocator_alloc_def pa_get_page_def pa_inv_def)
  with Cons assms(1) show ?thesis by (auto simp: pa_inv_def pa_get_page_def atomic_simps)
next
  case Nil
  let ?k = "unat (pa_gc_threshold A) div 2"
  have thr: "2 \<le> pa_gc_threshold A" "2 \<le> unat (pa_gc_threshold A)"
    using assms(1) by (auto simp: pa_inv_def word_le_nat_alt)
  note bytes = pa_alloc_bytes_eq [OF thr(1) assms(3)]
  have k: "unat (pa_gc_threshold A div 2) = ?k" by (simp add: unat_div)
  have get: "pa_get_page A = (0, A)" using Nil by (simp add: pa_get_page_def)
  have "page_allocator_alloc A mmap = (case mmap (pa_alloc_bytes A) of None \<Rightarrow> Fault
      | Some block \<Rightarrow> Done (block, page_frees A (pages_of block ?k)))"
    by (simp add: page_allocator_alloc_def pa_alloc_pages_def get pages_of_def k split: option.split)
  with assms(4) have mm: "mmap (pa_alloc_bytes A) = Some page"
    and fr: "page_frees A (pages_of page ?k) = (A', unmapped)"
    by (auto split: option.splits)
  have blk: "page \<noteq> 0" "unat page + unat (pa_alloc_bytes A) \<le> 2 ^ 64"
    using assms(2) mm by (auto simp: mmap_ok_def)
  have le: "4096 * ?k \<le> unat (pa_alloc_bytes A)" using bytes by simp
  with blk have reg: "unat page + 4096 * ?k \<le> 2 ^ 64" by linarith
  note pp = pages_of_props [OF reg blk(1)]
  have room: "length (pages_of page ?k) + length (pa_free_pages A) \<le> unat (pa_gc_threshold A)"
    using Nil by (simp add: pages_of_def)
  have A': "pa_inv A' \<and> unmapped = [] \<and> pa_free_pages A' = rev (pages_of page ?k) @ pa_free_pages A
      \<and> pa_gc_threshold A' = pa_gc_threshold A"
    by (rule page_frees_room [OF assms(1) room _ _ fr]) (use pp Nil in auto)
  have "unat page \<le> unat p \<and> unat p + 4096 \<le> unat page + unat (pa_alloc_bytes A)"
    if "p \<in> set (page # pages_of page ?k)" for p
  proof -
    have "\<exists>i. i < ?k \<and> p = page + of_nat i * PAGE_ALLOCATOR_PAGE_SIZE"
      using that thr(2) by (force simp: pages_of_def intro: exI [of _ "0::nat"])
    then obtain i where i: "i < ?k" "unat p = unat page + 4096 * i" using unat_page_of [OF reg] by blast
    then have "4096 * i + 4096 \<le> 4096 * ?k" by simp
    with i le show ?thesis by linarith
  qed
  with A' Nil mm pp blk(1) show ?thesis by auto
qed

theorem page_allocator_alloc_ok_witness:
  "pa_inv (page_allocator_init 4) \<and>
   page_allocator_alloc (page_allocator_init 4) (\<lambda>n. if n = 8192 then Some 8192 else None) =
     Done (8192, \<lparr>pa_gc_threshold = 4, pa_free_pages_counter = 1, pa_free_pages = [12288]\<rparr>, [])
   \<and> pa_inv \<lparr>pa_gc_threshold = 4, pa_free_pages_counter = 1, pa_free_pages = [12288]\<rparr>"
proof -
  let ?A = "page_allocator_init 4"
  have m: "mmap_ok (\<lambda>n. if n = 8192 then Some 8192 else None)"
    by (simp add: mmap_ok_def page_allocator_get_page_def PAGE_ALLOCATOR_PAGE_SIZE_def)
  have e: "page_allocator_alloc ?A (\<lambda>n. if n = 8192 then Some 8192 else None) = Done (8192,
      \<lparr>pa_gc_threshold = 4, pa_free_pages_counter = 1, pa_free_pages = [12288]\<rparr>, [])"
    by code_simp
  have "pa_gc_threshold ?A < 2 ^ 51" by (simp add: page_allocator_init_def)
  from page_allocator_alloc_ok [OF pa_inv_init m this e, THEN conjunct1] e
  show ?thesis by (simp only: pa_inv_init simp_thms)
qed

section \<open>Pages released with a delay\<close>

text \<open>A free page holds its time stamp; the list is the sequence of the pages with theirs.\<close>

record VPageAllocator =
  va_gc_threshold :: u64
  va_free_pages_count :: u64
  va_free_pages :: "(addr \<times> u64) list"

definition vpage_allocator_init :: "u64 \<Rightarrow> VPageAllocator" where
  "vpage_allocator_init gc_threshold =
    \<lparr>va_gc_threshold = gc_threshold, va_free_pages_count = 0, va_free_pages = []\<rparr>"

definition va_get_page :: "VPageAllocator \<Rightarrow> (addr \<times> u64) option \<times> VPageAllocator" where
  "va_get_page A = (case va_free_pages A of
      [] \<Rightarrow> (None, A)
    | page # pages \<Rightarrow> (Some page, A\<lparr>va_free_pages := pages,
        va_free_pages_count := atomic_dec (va_free_pages_count A)\<rparr>))"

definition vpage_allocator_alloc :: "VPageAllocator \<Rightarrow> PageAllocator \<Rightarrow> (u64 \<Rightarrow> addr option)
    \<Rightarrow> (addr \<times> VPageAllocator \<times> PageAllocator) outcome" where
  "vpage_allocator_alloc A P mmap = (case va_get_page A of
      (Some (page, t), A) \<Rightarrow> Done (page, A, P)
    | (None, A) \<Rightarrow> obind (page_allocator_alloc P mmap) (\<lambda>(page, P, _). Done (page, A, P)))"

text \<open>
  The collection is two loops. The first pops and frees until the counter is 0, the list is
  empty, or the page popped is too young; then (\<open>complicated_way\<close>) that page and the rest of
  the list are taken over and swept. The second result is the pages given to \<open>page_free\<close>.
\<close>

function vpage_gc_pop ::
    "VPageAllocator \<Rightarrow> u64 \<Rightarrow> (addr \<times> u64) list \<Rightarrow> (addr \<times> u64) option \<times> VPageAllocator \<times> (addr \<times> u64) list" where
  "vpage_gc_pop A time freed =
    (if va_free_pages_count A \<noteq> 0 then
       (case va_get_page A of
          (None, A) \<Rightarrow> (None, A, freed)
        | (Some page, A') \<Rightarrow>
            if snd page > time then (Some page, A', freed)
            else vpage_gc_pop A' time (freed @ [page]))
     else (None, A, freed))"
  by pat_completeness auto
termination
  by (relation "measure (\<lambda>(A, _). length (va_free_pages A))")
    (auto simp: va_get_page_def split: list.splits)

declare vpage_gc_pop.simps [simp del]

fun vpage_gc_sweep ::
    "(addr \<times> u64) list \<Rightarrow> u64 \<Rightarrow> VPageAllocator \<Rightarrow> (addr \<times> u64) list \<Rightarrow> VPageAllocator \<times> (addr \<times> u64) list" where
  "vpage_gc_sweep [] time A freed = (A, freed)"
| "vpage_gc_sweep (page # pages) time A freed =
    (if snd page > time
     then vpage_gc_sweep pages time (A\<lparr>va_free_pages := page # va_free_pages A\<rparr>) freed
     else vpage_gc_sweep pages time
       (A\<lparr>va_free_pages_count := atomic_dec (va_free_pages_count A)\<rparr>) (freed @ [page]))"

definition vpage_gc :: "VPageAllocator \<Rightarrow> u64 \<Rightarrow> VPageAllocator \<times> (addr \<times> u64) list" where
  "vpage_gc A time = (case vpage_gc_pop A time [] of
      (None, A, freed) \<Rightarrow> (A, freed)
    | (Some page, A, freed) \<Rightarrow>
        vpage_gc_sweep (page # va_free_pages A) time (A\<lparr>va_free_pages := []\<rparr>) freed)"

definition vpage_allocator_free ::
    "VPageAllocator \<Rightarrow> addr \<Rightarrow> u64 \<Rightarrow> u64 \<Rightarrow> VPageAllocator \<times> (addr \<times> u64) list" where
  "vpage_allocator_free A page time now =
    (let A = A\<lparr>va_free_pages_count := atomic_inc (va_free_pages_count A),
               va_free_pages := (page, time) # va_free_pages A\<rparr> in
     if va_free_pages_count A > va_gc_threshold A then vpage_gc A now else (A, []))"

definition vpage_allocator_destroy :: "VPageAllocator \<Rightarrow> VPageAllocator \<times> (addr \<times> u64) list" where
  "vpage_allocator_destroy A = vpage_gc (A\<lparr>va_gc_threshold := 0\<rparr>) (NOT 0)"

definition vpage_allocator_collect_garbage ::
    "VPageAllocator \<Rightarrow> u64 \<Rightarrow> VPageAllocator \<times> (addr \<times> u64) list" where
  "vpage_allocator_collect_garbage A now = vpage_gc A now"

section \<open>Memory released with a delay\<close>

record GenericAllocator =
  ga_gc_threshold :: u64
  ga_counter :: u64
  ga_free_list :: "(addr \<times> u64) list"

definition generic_allocator_init :: "u64 \<Rightarrow> GenericAllocator" where
  "generic_allocator_init gc_threshold =
    \<lparr>ga_gc_threshold = gc_threshold, ga_counter = 0, ga_free_list = []\<rparr>"

text \<open>\<open>sizeof(struct GenericAllocatorItem)\<close> is 16; \<open>xmalloc\<close> dies when memory is exhausted.\<close>

definition generic_allocator_alloc :: "(u64 \<Rightarrow> addr option) \<Rightarrow> u64 \<Rightarrow> addr outcome" where
  "generic_allocator_alloc malloc sz =
    (let sz = (if sz < 16 then 16 else sz) in
     case malloc sz of None \<Rightarrow> Fault | Some ptr \<Rightarrow> Done ptr)"

definition generic_allocator_collect_garbage ::
    "GenericAllocator \<Rightarrow> u64 \<Rightarrow> GenericAllocator \<times> (addr \<times> u64) list" where
  "generic_allocator_collect_garbage A time =
    fold (\<lambda>item (A, freed).
      if snd item > time then (A\<lparr>ga_free_list := item # ga_free_list A\<rparr>, freed)
      else (A\<lparr>ga_counter := atomic_dec (ga_counter A)\<rparr>, freed @ [item]))
    (ga_free_list A) (A\<lparr>ga_free_list := []\<rparr>, [])"

definition generic_allocator_free ::
    "GenericAllocator \<Rightarrow> addr \<Rightarrow> u64 \<Rightarrow> u64 \<Rightarrow> GenericAllocator \<times> (addr \<times> u64) list" where
  "generic_allocator_free A ptr end_time now =
    (if ptr = 0 then (A, [])
     else let A = A\<lparr>ga_counter := atomic_inc (ga_counter A),
                    ga_free_list := (ptr, end_time) # ga_free_list A\<rparr> in
       if ga_counter A > ga_gc_threshold A then generic_allocator_collect_garbage A now else (A, []))"

definition generic_allocator_destroy :: "GenericAllocator \<Rightarrow> (addr \<times> u64) list" where
  "generic_allocator_destroy A = ga_free_list A"

section \<open>The contract of delayed release\<close>

text \<open>
  \<open>pend\<close> is what waits to be released. A release or a collection at the time \<open>now\<close> only
  gives back what carries a stamp not later than \<open>now\<close>, and loses nothing else.
\<close>

locale deferred_free =
  fixes pend :: "'s \<Rightarrow> (addr \<times> u64) list"
    and release :: "'s \<Rightarrow> addr \<Rightarrow> u64 \<Rightarrow> u64 \<Rightarrow> 's \<times> (addr \<times> u64) list"
    and collect :: "'s \<Rightarrow> u64 \<Rightarrow> 's \<times> (addr \<times> u64) list"
  assumes collect_mset: "collect s now = (s', freed) \<Longrightarrow> mset (pend s') + mset freed = mset (pend s)"
    and collect_old: "collect s now = (s', freed) \<Longrightarrow> (p, t) \<in> set freed \<Longrightarrow> t \<le> now"
    and release_mset: "p \<noteq> 0 \<Longrightarrow> release s p t now = (s', freed) \<Longrightarrow>
      mset (pend s') + mset freed = add_mset (p, t) (mset (pend s))"
    and release_old: "p \<noteq> 0 \<Longrightarrow> release s p t now = (s', freed) \<Longrightarrow> (q, u) \<in> set freed \<Longrightarrow> u \<le> now"

datatype reclaim = Release addr u64 u64 | Collect u64

fun reclaim_now :: "reclaim \<Rightarrow> u64" where
  "reclaim_now (Release p t now) = now"
| "reclaim_now (Collect now) = now"

fun reclaim_item :: "reclaim \<Rightarrow> (addr \<times> u64) list" where
  "reclaim_item (Release p t now) = [(p, t)]"
| "reclaim_item (Collect now) = []"

fun reclaims :: "('s \<Rightarrow> addr \<Rightarrow> u64 \<Rightarrow> u64 \<Rightarrow> 's \<times> (addr \<times> u64) list)
    \<Rightarrow> ('s \<Rightarrow> u64 \<Rightarrow> 's \<times> (addr \<times> u64) list) \<Rightarrow> reclaim list \<Rightarrow> 's \<Rightarrow> 's \<times> (addr \<times> u64) list" where
  "reclaims release collect [] s = (s, [])"
| "reclaims release collect (r # rs) s =
    (let (s, freed) = (case r of Release p t now \<Rightarrow> release s p t now | Collect now \<Rightarrow> collect s now);
         (s, freed') = reclaims release collect rs s
     in (s, freed @ freed'))"

context deferred_free
begin

lemma reclaims_mset:
  assumes "reclaims release collect rs s = (s', freed)" and "\<forall>r \<in> set rs. \<forall>x \<in> set (reclaim_item r). fst x \<noteq> 0"
  shows "mset (pend s') + mset freed = mset (concat (map reclaim_item rs)) + mset (pend s)"
  using assms
proof (induction rs arbitrary: s freed)
  case Nil
  then show ?case by simp
next
  case (Cons r rs)
  obtain s1 f1 where 1: "(case r of Release p t now \<Rightarrow> release s p t now | Collect now \<Rightarrow> collect s now) = (s1, f1)"
    by fastforce
  obtain f2 where 2: "reclaims release collect rs s1 = (s', f2)" "freed = f1 @ f2"
    using Cons.prems(1) 1 by (auto split: prod.splits)
  have "mset (pend s') + mset f2 = mset (concat (map reclaim_item rs)) + mset (pend s1)"
    using Cons.IH [OF 2(1)] Cons.prems(2) by simp
  moreover have "mset (pend s1) + mset f1 = mset (reclaim_item r) + mset (pend s)"
    using 1 Cons.prems(2) by (cases r) (auto dest: release_mset collect_mset)
  ultimately show ?case using 2(2) by (simp add: union_ac)
qed

lemma reclaims_old:
  assumes "reclaims release collect rs s = (s', freed)" and "\<forall>r \<in> set rs. \<forall>x \<in> set (reclaim_item r). fst x \<noteq> 0"
    and "(p, t) \<in> set freed"
  shows "\<exists>r \<in> set rs. t \<le> reclaim_now r"
  using assms
proof (induction rs arbitrary: s freed)
  case Nil
  then show ?case by simp
next
  case (Cons r rs)
  obtain s1 f1 where 1: "(case r of Release p t now \<Rightarrow> release s p t now | Collect now \<Rightarrow> collect s now) = (s1, f1)"
    by fastforce
  obtain f2 where 2: "reclaims release collect rs s1 = (s', f2)" "freed = f1 @ f2"
    using Cons.prems(1) 1 by (auto split: prod.splits)
  show ?case
  proof (cases "(p, t) \<in> set f1")
    case True
    then have "t \<le> reclaim_now r"
      using 1 Cons.prems(2) by (cases r) (auto dest: release_old collect_old)
    then show ?thesis by simp
  next
    case False
    then have "(p, t) \<in> set f2" using Cons.prems(3) 2(2) by simp
    with Cons.IH [OF 2(1)] Cons.prems(2) show ?thesis by auto
  qed
qed

text \<open>What is younger than every collection stays pending.\<close>

lemma young_kept:
  assumes run: "reclaims release collect rs s = (s', freed)"
    and nz: "\<forall>r \<in> set rs. \<forall>x \<in> set (reclaim_item r). fst x \<noteq> 0"
    and young: "\<forall>r \<in> set rs. reclaim_now r < t"
    and item: "(p, t) \<in> set (pend s) \<or> (\<exists>r \<in> set rs. (p, t) \<in> set (reclaim_item r))"
    and once: "distinct (map fst (concat (map reclaim_item rs) @ pend s))"
  shows "(p, t) \<in> set (pend s') \<and> p \<notin> fst ` set freed"
proof -
  have all: "mset (pend s' @ freed) = mset (concat (map reclaim_item rs) @ pend s)"
    using reclaims_mset [OF run nz] by simp
  have "(p, t) \<in> set (concat (map reclaim_item rs) @ pend s)" using item by auto
  then have "(p, t) \<in> set (pend s' @ freed)" using mset_eq_setD [OF all] by blast
  moreover have "(p, t) \<notin> set freed"
    using reclaims_old [OF run nz] young by (meson leD)
  ultimately have mem: "(p, t) \<in> set (pend s')" by simp
  have "distinct (map fst (pend s' @ freed))"
    using once mset_eq_imp_distinct_iff [of "map fst (pend s' @ freed)"] arg_cong [OF all, of "image_mset fst"]
    by (metis mset_map)
  with mem have "p \<notin> fst ` set freed" by (force simp: distinct_append)
  with mem show ?thesis by blast
qed

end

lemma mset_partition: "mset (filter P xs) + mset (filter (\<lambda>x. \<not> P x) xs) = mset xs"
  by (induction xs) auto

lemma vpage_gc_pop_spec:
  assumes "vpage_gc_pop A time freed = (res, A', freed')"
  shows "\<exists>old. freed' = freed @ old \<and> (\<forall>x \<in> set old. snd x \<le> time)
    \<and> va_free_pages A = old @ (case res of None \<Rightarrow> [] | Some page \<Rightarrow> [page]) @ va_free_pages A'
    \<and> va_free_pages_count A' = va_free_pages_count A - of_nat (length old)
        - (case res of None \<Rightarrow> 0 | Some _ \<Rightarrow> 1)
    \<and> (case res of None \<Rightarrow> va_free_pages_count A' = 0 \<or> va_free_pages A' = [] | Some page \<Rightarrow> time < snd page)
    \<and> va_gc_threshold A' = va_gc_threshold A \<and> (\<forall>k < length old. va_free_pages_count A \<noteq> of_nat k)"
  using assms
proof (induction A time freed arbitrary: res A' freed' rule: vpage_gc_pop.induct)
  case (1 A time freed)
  show ?case
  proof (cases "va_free_pages_count A \<noteq> 0 \<and> va_free_pages A \<noteq> []")
    case False
    with 1(2) have "res = None" "A' = A" "freed' = freed"
      by (auto simp: vpage_gc_pop.simps [of A] va_get_page_def split: if_splits)
    with False show ?thesis by auto
  next
    case True
    then obtain page pages where A: "va_free_pages A = page # pages" by (cases "va_free_pages A") auto
    let ?B = "A\<lparr>va_free_pages := pages, va_free_pages_count := va_free_pages_count A - 1\<rparr>"
    have get: "va_get_page A = (Some page, ?B)" using A by (simp add: va_get_page_def atomic_simps)
    show ?thesis
    proof (cases "snd page > time")
      case young: True
      with 1(2) True get have "res = Some page" "A' = ?B" "freed' = freed"
        by (auto simp: vpage_gc_pop.simps [of A])
      with A young show ?thesis by simp
    next
      case False
      with 1(2) True get have rec: "vpage_gc_pop ?B time (freed @ [page]) = (res, A', freed')"
        by (auto simp: vpage_gc_pop.simps [of A])
      from 1(1) [OF _ get [symmetric] refl False this] True obtain old where
        "freed' = freed @ page # old" "\<forall>x \<in> set old. snd x \<le> time"
        "pages = old @ (case res of None \<Rightarrow> [] | Some page \<Rightarrow> [page]) @ va_free_pages A'"
        "va_free_pages_count A' = va_free_pages_count A - 1 - of_nat (length old)
          - (case res of None \<Rightarrow> 0 | Some _ \<Rightarrow> 1)"
        "(case res of None \<Rightarrow> va_free_pages_count A' = 0 \<or> va_free_pages A' = [] | Some page \<Rightarrow> time < snd page)"
        "va_gc_threshold A' = va_gc_threshold A"
        and cnt: "\<forall>k < length old. va_free_pages_count A - 1 \<noteq> of_nat k"
        by auto
      moreover have "va_free_pages_count A \<noteq> of_nat k" if "k < length (page # old)" for k
        using that True cnt by (cases k) auto
      ultimately show ?thesis using A False by (intro exI [of _ "page # old"]) auto
    qed
  qed
qed

lemma vpage_gc_sweep_eq:
  "vpage_gc_sweep pages time A freed =
    (A\<lparr>va_free_pages := rev (filter (\<lambda>x. time < snd x) pages) @ va_free_pages A,
       va_free_pages_count := va_free_pages_count A - of_nat (length (filter (\<lambda>x. \<not> time < snd x) pages))\<rparr>,
     freed @ filter (\<lambda>x. \<not> time < snd x) pages)"
  by (induction pages arbitrary: A freed) (simp_all add: atomic_simps algebra_simps)

text \<open>
  A collection frees what is old enough, keeps the rest, and leaves the counter one too low
  if it had to keep anything: the page that was popped and found too young was counted out,
  and is put back without being counted in.
\<close>

lemma vpage_gc_spec:
  assumes "vpage_gc A time = (A', freed)"
  shows "mset (va_free_pages A') + mset freed = mset (va_free_pages A)
    \<and> (\<forall>x \<in> set freed. snd x \<le> time) \<and> va_gc_threshold A' = va_gc_threshold A"
proof -
  obtain res B f where pop: "vpage_gc_pop A time [] = (res, B, f)" by (metis prod_cases3)
  from vpage_gc_pop_spec [OF this] obtain old where old: "f = old" "\<forall>x \<in> set old. snd x \<le> time"
    "va_free_pages A = old @ (case res of None \<Rightarrow> [] | Some page \<Rightarrow> [page]) @ va_free_pages B"
    "va_gc_threshold B = va_gc_threshold A"
    by auto
  show ?thesis
  proof (cases res)
    case None
    with pop assms old show ?thesis by (auto simp: vpage_gc_def)
  next
    case (Some page)
    let ?l = "page # va_free_pages B"
    have "A' = B\<lparr>va_free_pages := rev (filter (\<lambda>x. time < snd x) ?l),
        va_free_pages_count := va_free_pages_count B - of_nat (length (filter (\<lambda>x. \<not> time < snd x) ?l))\<rparr>"
      "freed = old @ filter (\<lambda>x. \<not> time < snd x) ?l"
      using pop assms Some old(1) by (simp_all add: vpage_gc_def vpage_gc_sweep_eq del: filter.simps)
    then show ?thesis
      using old Some mset_partition [of "\<lambda>x. time < snd x" ?l]
      by (auto simp: union_ac simp del: filter.simps)
  qed
qed

lemma vpage_gc_count:
  assumes "vpage_gc A time = (A', freed)"
    and "va_free_pages_count A = of_nat (length (va_free_pages A))"
    and "length (va_free_pages A) < 2 ^ 64"
  shows "va_free_pages_count A' = of_nat (length (va_free_pages A'))
    - (if \<exists>x \<in> set (va_free_pages A). time < snd x then 1 else 0)"
proof -
  obtain res B f where pop: "vpage_gc_pop A time [] = (res, B, f)" by (metis prod_cases3)
  from vpage_gc_pop_spec [OF this] obtain old where old: "\<forall>x \<in> set old. snd x \<le> time"
    "va_free_pages A = old @ (case res of None \<Rightarrow> [] | Some page \<Rightarrow> [page]) @ va_free_pages B"
    "va_free_pages_count B = va_free_pages_count A - of_nat (length old)
        - (case res of None \<Rightarrow> 0 | Some _ \<Rightarrow> 1)"
    "case res of None \<Rightarrow> va_free_pages_count B = 0 \<or> va_free_pages B = [] | Some page \<Rightarrow> time < snd page"
    by auto
  show ?thesis
  proof (cases res)
    case None
    then have "va_free_pages_count B = of_nat (length (va_free_pages B))" using old assms(2) by simp
    moreover have "length (va_free_pages B) < 2 ^ 64" using old(2) assms(3) by simp
    moreover have "va_free_pages_count B = 0 \<or> va_free_pages B = []" using old(4) None by simp
    ultimately have "va_free_pages B = []"
      using of_nat_u64_inj [of "length (va_free_pages B)" 0] by auto
    then show ?thesis using pop assms(1) old None assms(2) by (auto simp: vpage_gc_def)
  next
    case (Some page)
    let ?l = "page # va_free_pages B"
    have A': "va_free_pages A' = rev (filter (\<lambda>x. time < snd x) ?l)"
      "va_free_pages_count A' = va_free_pages_count B - of_nat (length (filter (\<lambda>x. \<not> time < snd x) ?l))"
      using pop assms(1) Some by (auto simp add: vpage_gc_def vpage_gc_sweep_eq simp del: filter.simps)
    define young old' where "young = length (filter (\<lambda>x. time < snd x) ?l)"
      and "old' = length (filter (\<lambda>x. \<not> time < snd x) ?l)"
    have "young + old' = length ?l" unfolding young_def old'_def by (rule sum_length_filter_compl)
    then have "(of_nat (length ?l) :: u64) = of_nat young + of_nat old'" by (metis of_nat_add)
    moreover have "va_free_pages_count B = of_nat (length ?l) - 1"
      using old(2,3) Some assms(2) by simp
    moreover have "va_free_pages_count A' = va_free_pages_count B - of_nat old'"
      "length (va_free_pages A') = young" using A' by (simp_all only: young_def old'_def length_rev)
    ultimately have "va_free_pages_count A' = of_nat (length (va_free_pages A')) - 1" by simp
    moreover have "\<exists>x \<in> set (va_free_pages A). time < snd x" using old(2,4) Some by auto
    ultimately show ?thesis by simp
  qed
qed

text \<open>
  The counter of the page list drifts. A collection that starts with an exact counter
  and has to keep a page leaves the counter one below the number of pages kept, and
  destroying the allocator then, the list being walked only while the counter is not 0,
  leaves exactly one page that is never given back.
\<close>

theorem vpage_gc_loses_a_page:
  assumes "va_free_pages_count A = of_nat (length (va_free_pages A))"
    and "length (va_free_pages A) < 2 ^ 64"
    and "x \<in> set (va_free_pages A)" and "now < snd x"
    and "vpage_allocator_collect_garbage A now = (A', freed)"
    and "vpage_allocator_destroy A' = (A'', freed')"
  shows "va_free_pages_count A' = of_nat (length (va_free_pages A')) - 1
    \<and> length (va_free_pages A'') = 1"
proof -
  have gc: "vpage_gc A now = (A', freed)" using assms(5) by (simp add: vpage_allocator_collect_garbage_def)
  have cnt: "va_free_pages_count A' = of_nat (length (va_free_pages A')) - 1"
    using vpage_gc_count [OF gc assms(1,2)] assms(3,4) by auto
  have ms: "mset (va_free_pages A') + mset freed = mset (va_free_pages A)"
    and old: "\<forall>x \<in> set freed. snd x \<le> now" using vpage_gc_spec [OF gc] by auto
  then have "size (mset (va_free_pages A')) \<le> size (mset (va_free_pages A))"
    by (metis mset_subset_eq_add_left size_mset_mono)
  then have len: "length (va_free_pages A') < 2 ^ 64" using assms(2) by simp
  have "x \<in> set (va_free_pages A') \<union> set freed"
    using assms(3) arg_cong [OF ms, of set_mset] by auto
  with old assms(4) have ne: "va_free_pages A' \<noteq> []" by (metis UnE leD list.set(1) empty_iff)
  let ?D = "A'\<lparr>va_gc_threshold := 0\<rparr>"
  obtain res B f where pop: "vpage_gc_pop ?D (NOT 0) [] = (res, B, f)" by (metis prod_cases3)
  from vpage_gc_pop_spec [OF this] obtain old where o: "f = old"
    "va_free_pages A' = old @ (case res of None \<Rightarrow> [] | Some page \<Rightarrow> [page]) @ va_free_pages B"
    "va_free_pages_count B = va_free_pages_count A' - of_nat (length old)
        - (case res of None \<Rightarrow> 0 | Some _ \<Rightarrow> 1)"
    "case res of None \<Rightarrow> va_free_pages_count B = 0 \<or> va_free_pages B = [] | Some page \<Rightarrow> NOT 0 < snd page"
    "\<forall>k < length old. va_free_pages_count A' \<noteq> of_nat k"
    by auto
  have "res = None" using o(4) by (cases res) (auto simp: not_less)
  then have B: "A'' = B" using assms(6) pop by (simp add: vpage_allocator_destroy_def vpage_gc_def)
  have "length old = length (va_free_pages A') - 1"
  proof -
    have c: "va_free_pages_count A' = of_nat (length (va_free_pages A') - 1)"
      using cnt ne by (simp add: of_nat_diff Suc_le_eq)
    have "\<not> length (va_free_pages A') - 1 < length old" using o(5) c by blast
    moreover have "va_free_pages_count B = 0 \<or> length old = length (va_free_pages A')"
      using o(2,4) \<open>res = None\<close> by auto
    moreover have "length old \<le> length (va_free_pages A')" using o(2) by simp
    moreover have "length old = length (va_free_pages A') - 1"
      if "va_free_pages_count B = 0"
    proof -
      have "(of_nat (length old) :: u64) = of_nat (length (va_free_pages A') - 1)"
        using that o(3) \<open>res = None\<close> c by simp
      moreover have "length old < 2 ^ 64" using o(2) len by simp
      moreover have "length (va_free_pages A') - 1 < 2 ^ 64" using len by simp
      ultimately show ?thesis by (rule of_nat_u64_inj)
    qed
    ultimately show ?thesis using ne by (cases "va_free_pages A'") auto
  qed
  moreover have "length (va_free_pages A') = length old + length (va_free_pages B)" "0 < length (va_free_pages A')"
    using o(2) \<open>res = None\<close> ne by simp_all
  ultimately have "length (va_free_pages B) = 1" by linarith
  with cnt B show ?thesis by simp
qed

theorem vpage_gc_loses_a_page_witness:
  defines "A \<equiv> \<lparr>va_gc_threshold = 128, va_free_pages_count = 1, va_free_pages = [(4096, 7)]\<rparr>"
  shows "vpage_allocator_collect_garbage A 5 = (A\<lparr>va_free_pages_count := 0\<rparr>, [])
    \<and> length (va_free_pages (fst (vpage_allocator_destroy (A\<lparr>va_free_pages_count := 0\<rparr>)))) = 1"
proof -
  have 1: "vpage_allocator_collect_garbage A 5 = (A\<lparr>va_free_pages_count := 0\<rparr>, [])"
    unfolding A_def by code_simp
  obtain B f where 2: "vpage_allocator_destroy (A\<lparr>va_free_pages_count := 0\<rparr>) = (B, f)" by fastforce
  have "length (va_free_pages B) = 1"
    using vpage_gc_loses_a_page [OF _ _ _ _ 1 2, of "(4096, 7)"] by (simp add: A_def)
  with 1 2 show ?thesis by simp
qed

section \<open>The two allocators keep the contract\<close>

lemma generic_collect_eq:
  "generic_allocator_collect_garbage A time =
    (A\<lparr>ga_free_list := rev (filter (\<lambda>x. time < snd x) (ga_free_list A)),
       ga_counter := ga_counter A - of_nat (length (filter (\<lambda>x. \<not> time < snd x) (ga_free_list A)))\<rparr>,
     filter (\<lambda>x. \<not> time < snd x) (ga_free_list A))"
proof -
  have "fold (\<lambda>item (A, freed).
      if snd item > time then (A\<lparr>ga_free_list := item # ga_free_list A\<rparr>, freed)
      else (A\<lparr>ga_counter := atomic_dec (ga_counter A)\<rparr>, freed @ [item])) items (A, freed)
    = (A\<lparr>ga_free_list := rev (filter (\<lambda>x. time < snd x) items) @ ga_free_list A,
         ga_counter := ga_counter A - of_nat (length (filter (\<lambda>x. \<not> time < snd x) items))\<rparr>,
       freed @ filter (\<lambda>x. \<not> time < snd x) items)" for items freed A
    by (induction items arbitrary: A freed) (simp_all add: atomic_simps algebra_simps)
  from this [of "ga_free_list A" "A\<lparr>ga_free_list := []\<rparr>" "[]"]
  show ?thesis by (simp add: generic_allocator_collect_garbage_def)
qed

interpretation generic: deferred_free ga_free_list generic_allocator_free generic_allocator_collect_garbage
proof unfold_locales
  fix A :: GenericAllocator and A' freed now p t
  show "mset (ga_free_list A') + mset freed = mset (ga_free_list A)"
    if "generic_allocator_collect_garbage A now = (A', freed)"
    using that mset_partition [of "\<lambda>x. now < snd x" "ga_free_list A"] by (auto simp: generic_collect_eq)
  show "t \<le> now" if "generic_allocator_collect_garbage A now = (A', freed)" "(p, t) \<in> set freed"
    using that by (auto simp: generic_collect_eq)
  show "mset (ga_free_list A') + mset freed = add_mset (p, t) (mset (ga_free_list A))"
    if "p \<noteq> 0" "generic_allocator_free A p t now = (A', freed)"
    using that mset_partition [of "\<lambda>x. now < snd x" "(p, t) # ga_free_list A"]
    by (auto simp: generic_allocator_free_def generic_collect_eq Let_def split: if_splits)
  show "u \<le> now" if "p \<noteq> 0" "generic_allocator_free A p t now = (A', freed)" "(q, u) \<in> set freed" for q u
    using that by (auto simp: generic_allocator_free_def generic_collect_eq Let_def split: if_splits)
qed

interpretation vpage: deferred_free va_free_pages vpage_allocator_free vpage_allocator_collect_garbage
proof unfold_locales
  fix A :: VPageAllocator and A' freed now p t
  show "mset (va_free_pages A') + mset freed = mset (va_free_pages A)"
    if "vpage_allocator_collect_garbage A now = (A', freed)"
    using that by (auto simp: vpage_allocator_collect_garbage_def dest: vpage_gc_spec)
  show "t \<le> now" if "vpage_allocator_collect_garbage A now = (A', freed)" "(p, t) \<in> set freed"
    using that by (auto simp: vpage_allocator_collect_garbage_def dest!: vpage_gc_spec)
  show "mset (va_free_pages A') + mset freed = add_mset (p, t) (mset (va_free_pages A))"
    if "p \<noteq> 0" "vpage_allocator_free A p t now = (A', freed)"
    using that by (auto simp: vpage_allocator_free_def Let_def dest: vpage_gc_spec split: if_splits)
  show "u \<le> now" if "p \<noteq> 0" "vpage_allocator_free A p t now = (A', freed)" "(q, u) \<in> set freed" for q u
    using that by (auto simp: vpage_allocator_free_def Let_def dest!: vpage_gc_spec split: if_splits)
qed

text \<open>
  \<open>get_time\<close> (\<open>database.include/threads.c\<close>) is the clock of both allocators: the earliest
  start of the running transactions, given the start times found in the handles (0: none).
\<close>

definition get_time :: "u64 list \<Rightarrow> u64" where
  "get_time start_times =
    fold (\<lambda>t current_time. if t \<noteq> 0 \<and> t < current_time then t else current_time) start_times (NOT 0)"

lemma get_time_fold_le:
  "fold (\<lambda>t c. if t \<noteq> 0 \<and> t < c then t else c) ts c \<le> (c :: u64)
   \<and> (s \<in> set ts \<longrightarrow> s \<noteq> 0 \<longrightarrow> fold (\<lambda>t c. if t \<noteq> 0 \<and> t < c then t else c) ts c \<le> s)"
proof (induction ts arbitrary: c)
  case Nil
  then show ?case by simp
next
  case (Cons t ts)
  let ?c = "if t \<noteq> 0 \<and> t < c then t else c"
  have "?c \<le> c" "t \<noteq> 0 \<Longrightarrow> ?c \<le> t" by auto
  with Cons.IH [of ?c] show ?case by (auto intro: order_trans)
qed

lemma get_time_le: "s \<in> set ts \<Longrightarrow> s \<noteq> 0 \<Longrightarrow> get_time ts \<le> s"
  using get_time_fold_le [of ts "NOT 0" s] by (simp add: get_time_def)

text \<open>
  C18: memory a running transaction may still read is not given back. While a transaction that
  started at \<open>s\<close> is among the handles at every release and collection, what was released at
  a later time \<open>t\<close> stays on the list it was put on, and its address is not freed; this holds
  for blocks of memory and for the pages of nodes alike.
\<close>

theorem running_transactions_keep_memory:
  assumes "\<forall>r \<in> set rs. \<exists>hs. reclaim_now r = get_time hs \<and> s \<in> set hs" and "s \<noteq> 0" and "s < t"
    and "\<forall>r \<in> set rs. \<forall>x \<in> set (reclaim_item r). fst x \<noteq> 0"
    and "distinct (map fst (concat (map reclaim_item rs) @ pending))"
    and "(p, t) \<in> set (concat (map reclaim_item rs) @ pending)"
  shows "(ga_free_list A = pending
        \<and> reclaims generic_allocator_free generic_allocator_collect_garbage rs A = (A', freed)
      \<longrightarrow> (p, t) \<in> set (ga_free_list A') \<and> p \<notin> fst ` set freed)
    \<and> (va_free_pages V = pending
        \<and> reclaims vpage_allocator_free vpage_allocator_collect_garbage rs V = (V', freed')
      \<longrightarrow> (p, t) \<in> set (va_free_pages V') \<and> p \<notin> fst ` set freed')"
proof -
  have young: "\<forall>r \<in> set rs. reclaim_now r < t"
  proof
    fix r assume "r \<in> set rs"
    then obtain hs where "reclaim_now r = get_time hs" "s \<in> set hs" using assms(1) by blast
    with get_time_le [of s hs] assms(2,3) show "reclaim_now r < t" by simp
  qed
  have item: "(p, t) \<in> set pending \<or> (\<exists>r \<in> set rs. (p, t) \<in> set (reclaim_item r))"
    using assms(6) by (simp only: set_append set_concat set_map Un_iff UN_iff image_iff) blast
  show ?thesis
  proof (intro conjI impI)
    assume G: "ga_free_list A = pending
        \<and> reclaims generic_allocator_free generic_allocator_collect_garbage rs A = (A', freed)"
    have "(p, t) \<in> set (ga_free_list A') \<and> p \<notin> fst ` set freed"
      by (rule generic.young_kept [OF G [THEN conjunct2] assms(4) young])
        (simp_all only: G [THEN conjunct1] item assms(5))
    then show "(p, t) \<in> set (ga_free_list A')" "p \<notin> fst ` set freed" by blast+
  next
    assume V: "va_free_pages V = pending
        \<and> reclaims vpage_allocator_free vpage_allocator_collect_garbage rs V = (V', freed')"
    have "(p, t) \<in> set (va_free_pages V') \<and> p \<notin> fst ` set freed'"
      by (rule vpage.young_kept [OF V [THEN conjunct2] assms(4) young])
        (simp_all only: V [THEN conjunct1] item assms(5))
    then show "(p, t) \<in> set (va_free_pages V')" "p \<notin> fst ` set freed'" by blast+
  qed
qed

theorem running_transactions_keep_memory_witness:
  defines "rs \<equiv> [Release 64 9 (get_time [0, 5, 7]), Collect (get_time [5])]"
    and "A \<equiv> \<lparr>ga_gc_threshold = 0, ga_counter = 1, ga_free_list = [(32, 3)]\<rparr>"
  shows "(64, 9) \<in> set (ga_free_list (fst (reclaims generic_allocator_free
      generic_allocator_collect_garbage rs A)))"
proof -
  obtain A' freed where run: "reclaims generic_allocator_free generic_allocator_collect_garbage rs A = (A', freed)"
    by fastforce
  have "\<forall>r \<in> set rs. \<exists>hs. reclaim_now r = get_time hs \<and> 5 \<in> set hs"
    by (auto simp: rs_def intro: exI [of _ "[0, 5, 7]"] exI [of _ "[5]"])
  from running_transactions_keep_memory [OF this, of 9 "[(32, 3)]" 64 A A' freed] run
  show ?thesis by (simp add: rs_def A_def)
qed

section \<open>Cached objects\<close>

text \<open>
  The cached objects stay constructed. \<open>malloc\<close> is asked for a fresh one when there is none;
  the Boolean of the result says whether \<open>init\<close> was called on it.
\<close>

record SimpleAllocator =
  sa_obj_size :: u64
  sa_gc_threshold :: u64
  sa_free_objs_count :: u64
  sa_free_objs :: "addr list"

definition SimpleAllocatorInit :: "u64 \<Rightarrow> u64 \<Rightarrow> SimpleAllocator" where
  "SimpleAllocatorInit sz gc_threshold =
    \<lparr>sa_obj_size = sz, sa_gc_threshold = gc_threshold, sa_free_objs_count = 0, sa_free_objs = []\<rparr>"

definition simple_allocator_init :: "u64 \<Rightarrow> u64 \<Rightarrow> SimpleAllocator" where
  "simple_allocator_init block_size gc_threshold = SimpleAllocatorInit block_size gc_threshold"

text \<open>The second result collects the objects that were destroyed and freed.\<close>

function simple_allocator_gc :: "SimpleAllocator \<Rightarrow> u64 \<Rightarrow> SimpleAllocator \<times> addr list" where
  "simple_allocator_gc A threshold =
    (if sa_free_objs_count A > threshold then
       (case sa_free_objs A of
          [] \<Rightarrow> (A, [])
        | obj # objs \<Rightarrow>
            (let A = A\<lparr>sa_free_objs := objs, sa_free_objs_count := atomic_dec (sa_free_objs_count A)\<rparr>;
                 (A, destroyed) = simple_allocator_gc A threshold in (A, obj # destroyed)))
     else (A, []))"
  by pat_completeness auto
termination
  by (relation "measure (\<lambda>(A, _). length (sa_free_objs A))") auto

declare simple_allocator_gc.simps [simp del]

definition simple_allocator_alloc ::
    "SimpleAllocator \<Rightarrow> (u64 \<Rightarrow> addr option) \<Rightarrow> (addr \<times> bool \<times> SimpleAllocator) outcome" where
  "simple_allocator_alloc A malloc = (case sa_free_objs A of
      obj # objs \<Rightarrow> Done (obj, False,
        A\<lparr>sa_free_objs := objs, sa_free_objs_count := atomic_dec (sa_free_objs_count A)\<rparr>)
    | [] \<Rightarrow> (case malloc (sa_obj_size A) of None \<Rightarrow> Fault | Some obj \<Rightarrow> Done (obj, True, A)))"

definition simple_allocator_free :: "SimpleAllocator \<Rightarrow> addr \<Rightarrow> SimpleAllocator \<times> addr list" where
  "simple_allocator_free A obj =
    (let A = A\<lparr>sa_free_objs_count := atomic_inc (sa_free_objs_count A),
               sa_free_objs := obj # sa_free_objs A\<rparr> in
     if sa_free_objs_count A > sa_gc_threshold A
     then simple_allocator_gc A (sa_gc_threshold A div 2) else (A, []))"

definition simple_allocator_collect_garbage :: "SimpleAllocator \<Rightarrow> SimpleAllocator \<times> addr list" where
  "simple_allocator_collect_garbage A = simple_allocator_gc A 0"

definition simple_allocator_destroy :: "SimpleAllocator \<Rightarrow> SimpleAllocator \<times> addr list" where
  "simple_allocator_destroy A = simple_allocator_gc A 0"

lemma simple_allocator_gc_eq:
  assumes "sa_free_objs_count A = of_nat (length (sa_free_objs A))" and "length (sa_free_objs A) < 2 ^ 64"
  shows "simple_allocator_gc A threshold = (let k = length (sa_free_objs A) - unat threshold in
    (A\<lparr>sa_free_objs := drop k (sa_free_objs A),
       sa_free_objs_count := of_nat (length (sa_free_objs A) - k)\<rparr>, take k (sa_free_objs A)))"
  using assms
proof (induction "sa_free_objs A" arbitrary: A)
  case Nil
  then show ?case by (simp add: simple_allocator_gc.simps)
next
  case (Cons obj objs)
  let ?B = "A\<lparr>sa_free_objs := objs, sa_free_objs_count := atomic_dec (sa_free_objs_count A)\<rparr>"
  have A: "sa_free_objs A = obj # objs" using Cons.hyps(2) by simp
  have gt: "sa_free_objs_count A > threshold \<longleftrightarrow> unat threshold < Suc (length objs)"
    using Cons.prems of_nat_less_iff_unat [of "Suc (length objs)" threshold] A by simp
  show ?case
  proof (cases "unat threshold < Suc (length objs)")
    case True
    have IH: "simple_allocator_gc ?B threshold = (let k = length objs - unat threshold in
      (?B\<lparr>sa_free_objs := drop k objs, sa_free_objs_count := of_nat (length objs - k)\<rparr>, take k objs))"
      using Cons.hyps(1) [of ?B] A Cons.prems by (simp add: atomic_simps)
    have k: "Suc (length objs) - unat threshold = Suc (length objs - unat threshold)"
      using True by simp
    have "simple_allocator_gc A threshold = (fst (simple_allocator_gc ?B threshold),
        obj # snd (simple_allocator_gc ?B threshold))"
      using True gt A by (subst simple_allocator_gc.simps) (simp add: Let_def split: prod.splits)
    then show ?thesis using A by (simp only: IH Let_def list.size add_0_right add_Suc_right k) simp
  next
    case False
    then have "simple_allocator_gc A threshold = (A, [])"
      using gt by (subst simple_allocator_gc.simps) simp
    with False A Cons.prems(1) show ?thesis by (simp add: Let_def)
  qed
qed

text \<open>
  The cache of constructed objects: an object handed back is kept or destroyed, nothing
  else appears or is lost; at most \<open>gc_threshold\<close> objects are kept, with an exact count; and
  the next allocation returns the object handed back last without constructing it again,
  unless the cache overflowed.
\<close>

theorem simple_allocator_caches:
  assumes "sa_free_objs_count A = of_nat (length (sa_free_objs A))"
    and "length (sa_free_objs A) \<le> unat (sa_gc_threshold A)" and "unat (sa_gc_threshold A) < 2 ^ 63"
    and "simple_allocator_free A obj = (A', destroyed)"
  shows "obj # sa_free_objs A = destroyed @ sa_free_objs A'
    \<and> sa_free_objs_count A' = of_nat (length (sa_free_objs A'))
    \<and> length (sa_free_objs A') \<le> unat (sa_gc_threshold A')
    \<and> (length (sa_free_objs A) < unat (sa_gc_threshold A) \<longrightarrow>
        destroyed = [] \<and> simple_allocator_alloc A' malloc = Done (obj, False, A))"
proof -
  let ?B = "A\<lparr>sa_free_objs_count := atomic_inc (sa_free_objs_count A), sa_free_objs := obj # sa_free_objs A\<rparr>"
  have B: "sa_free_objs_count ?B = of_nat (length (sa_free_objs ?B))" "length (sa_free_objs ?B) < 2 ^ 64"
    using assms(1-3) by (simp_all add: atomic_simps)
  have gt: "sa_free_objs_count ?B > sa_gc_threshold A \<longleftrightarrow> unat (sa_gc_threshold A) < Suc (length (sa_free_objs A))"
    using B of_nat_less_iff_unat [of "length (sa_free_objs ?B)" "sa_gc_threshold A"] by simp
  show ?thesis
  proof (cases "sa_free_objs_count ?B > sa_gc_threshold A")
    case False
    with assms(4) have "A' = ?B" "destroyed = []" by (simp_all add: simple_allocator_free_def Let_def)
    with B gt False assms(1) show ?thesis by (simp add: simple_allocator_alloc_def atomic_simps)
  next
    case True
    with assms(4) have gc: "simple_allocator_gc ?B (sa_gc_threshold A div 2) = (A', destroyed)"
      by (simp add: simple_allocator_free_def Let_def)
    let ?k = "Suc (length (sa_free_objs A)) - unat (sa_gc_threshold A) div 2"
    have A': "A' = ?B\<lparr>sa_free_objs := drop ?k (obj # sa_free_objs A),
        sa_free_objs_count := of_nat (Suc (length (sa_free_objs A)) - ?k)\<rparr>"
      and d: "destroyed = take ?k (obj # sa_free_objs A)"
      using gc simple_allocator_gc_eq [OF B, of "sa_gc_threshold A div 2"]
      by (simp_all add: Let_def unat_div)
    have objs: "sa_free_objs A' = drop ?k (obj # sa_free_objs A)"
      "sa_free_objs_count A' = of_nat (Suc (length (sa_free_objs A)) - ?k)"
      "sa_gc_threshold A' = sa_gc_threshold A" by (simp_all add: A')
    have "length (drop ?k (obj # sa_free_objs A)) = Suc (length (sa_free_objs A)) - ?k"
      by (simp only: length_drop list.size add_Suc_right add_0_right)
    with gt True show ?thesis
      by (simp only: objs d append_take_drop_id) auto
  qed
qed

theorem simple_allocator_caches_witness:
  defines "A \<equiv> simple_allocator_init 64 1"
  shows "simple_allocator_alloc (fst (simple_allocator_free A 4096)) (\<lambda>_. None) = Done (4096, False, A)"
proof -
  obtain A' d where f: "simple_allocator_free A 4096 = (A', d)" by fastforce
  from simple_allocator_caches [OF _ _ _ f, of "\<lambda>_. None"]
  have "simple_allocator_alloc A' (\<lambda>_. None) = Done (4096, False, A)"
    by (simp add: A_def simple_allocator_init_def SimpleAllocatorInit_def)
  with f show ?thesis by simp
qed

end
