(* ===== verification/Node_Allocator.thy ===== *)
theory Node_Allocator
  imports Allocators
begin

text \<open>
  \<open>allocators/node_allocator.h\<close> and \<open>node_allocator.include.c\<close>: the nodes of one type, cut
  from pages, and the cursor by which the database is written out while nodes come and go.
  A node is the address of its page and its position there; the two circular lists of blocks
  are the sequences of the blocks' addresses (\<open>Double_List\<close>), the list of the free nodes of
  a block the sequence of their positions (\<open>Single_List\<close>). The allocator's mutex makes each
  operation one step.
\<close>

section \<open>State\<close>

type_synonym node_ref = "addr \<times> nat"

record NodeAllocatorBlock =
  nb_free :: "nat list"
  nb_used :: int

record NodeAllocator =
  na_slots :: nat
  na_blocks :: "addr list"
  na_dump_blocks :: "addr list"
  na_dump_ptr :: "node_ref option"
  na_block :: "addr \<Rightarrow> NodeAllocatorBlock"
  na_id :: "node_ref \<Rightarrow> u64"

text \<open>\<open>sizeof(struct NodeAllocatorBlock)\<close> is 56.\<close>

definition nodes_per_block :: "nat \<Rightarrow> nat" where
  "nodes_per_block sz = (4096 - 56) div sz"

definition node_address :: "nat \<Rightarrow> node_ref \<Rightarrow> addr" where
  "node_address sz n = fst n + 56 + of_nat (snd n * sz)"

definition node_allocator_init :: "nat \<Rightarrow> (node_ref \<Rightarrow> u64) \<Rightarrow> NodeAllocator" where
  "node_allocator_init sz ids =
    \<lparr>na_slots = nodes_per_block sz, na_blocks = [], na_dump_blocks = [], na_dump_ptr = None,
     na_block = (\<lambda>_. \<lparr>nb_free = [], nb_used = 0\<rparr>), na_id = ids\<rparr>"

abbreviation upd_block :: "addr \<Rightarrow> (NodeAllocatorBlock \<Rightarrow> NodeAllocatorBlock) \<Rightarrow> NodeAllocator \<Rightarrow> NodeAllocator" where
  "upd_block b f A \<equiv> A\<lparr>na_block := (na_block A)(b := f (na_block A b))\<rparr>"

section \<open>Allocation\<close>

text \<open>\<open>page\<close> is the page \<open>vpage_allocator_alloc\<close> supplies.\<close>

definition na_alloc_page :: "NodeAllocator \<Rightarrow> addr \<Rightarrow> node_ref option \<times> NodeAllocator" where
  "na_alloc_page A page =
    (let block = \<lparr>nb_free = [], nb_used = 1\<rparr>;
         (block, ids) = fold (\<lambda>i (block, ids).
             (block\<lparr>nb_free := i # nb_free block\<rparr>, ids((page, i) := 0))) [0..<na_slots A] (block, na_id A);
         (ret, block) = (case nb_free block of
             [] \<Rightarrow> (None, block)
           | i # is \<Rightarrow> (Some (page, i), block\<lparr>nb_free := is\<rparr>)) in
     (ret, A\<lparr>na_id := ids, na_block := (na_block A)(page := block),
             na_blocks := na_blocks A @ [page], na_dump_blocks := na_dump_blocks A @ [page]\<rparr>))"

text \<open>
  With no blocks \<open>A->blocks.prev\<close> is the head itself: what lies at the place of \<open>free_nodes\<close>
  there is \<open>dump_ptr\<close>, and moving the head of an empty list in front of itself changes nothing.
\<close>

definition node_allocator_alloc :: "NodeAllocator \<Rightarrow> addr \<Rightarrow> node_ref option \<times> NodeAllocator" where
  "node_allocator_alloc A page =
    (if na_blocks A = [] then na_alloc_page A page
     else let block = last (na_blocks A);
       (ret, A) = (case nb_free (na_block A block) of
           [] \<Rightarrow> (None, A)
         | i # is \<Rightarrow> (Some (block, i),
             upd_block block (\<lambda>B. B\<lparr>nb_free := is, nb_used := nb_used B + 1\<rparr>) A));
       A = (if nb_free (na_block A block) = []
            then A\<lparr>na_blocks := block # remove1 block (na_blocks A)\<rparr> else A) in
     if ret \<noteq> None then (ret, A) else na_alloc_page A page)"

section \<open>Walking over the nodes\<close>

text \<open>A position: the blocks from the current one on, and the place in it.\<close>

fun node_get_next_step :: "NodeAllocator \<Rightarrow> addr list \<times> nat \<Rightarrow> (addr list \<times> nat) option" where
  "node_get_next_step A ([], i) = None"
| "node_get_next_step A (block # blocks, i) =
    (if Suc i \<ge> na_slots A then (if blocks = [] then None else Some (blocks, 0))
     else Some (block # blocks, Suc i))"

definition node_at :: "addr list \<times> nat \<Rightarrow> node_ref" where
  "node_at pos = (hd (fst pos), snd pos)"

text \<open>\<open>while (!node->id) if (!_node_get_next_step(...)) ...\<close>: the first node in use from a position on.\<close>

function na_seek :: "NodeAllocator \<Rightarrow> addr list \<times> nat \<Rightarrow> node_ref option" where
  "na_seek A pos =
    (if na_id A (node_at pos) \<noteq> 0 then Some (node_at pos)
     else case node_get_next_step A pos of None \<Rightarrow> None | Some pos' \<Rightarrow> na_seek A pos')"
  by pat_completeness auto
termination
  by (relation "measures [\<lambda>(A, pos). length (fst pos), \<lambda>(A, pos). na_slots A - snd pos]")
    (auto elim!: node_get_next_step.elims split: if_splits)

declare na_seek.simps [simp del]

definition blocks_from :: "addr \<Rightarrow> addr list \<Rightarrow> addr list" where
  "blocks_from block blocks = dropWhile (\<lambda>b. b \<noteq> block) blocks"

definition node_allocator_dump_init :: "NodeAllocator \<Rightarrow> NodeAllocator" where
  "node_allocator_dump_init A = (let A = A\<lparr>na_dump_ptr := None\<rparr> in
     if na_dump_blocks A = [] then A
     else A\<lparr>na_dump_ptr := na_seek A (na_dump_blocks A, 0)\<rparr>)"

text \<open>Called without a current node the function would look into the page at address 0.\<close>

definition node_allocator_dump_next :: "NodeAllocator \<Rightarrow> NodeAllocator outcome" where
  "node_allocator_dump_next A = (case na_dump_ptr A of
      None \<Rightarrow> Fault
    | Some (block, i) \<Rightarrow>
        Done (A\<lparr>na_dump_ptr := (case node_get_next_step A (blocks_from block (na_dump_blocks A), i) of
            None \<Rightarrow> None
          | Some pos \<Rightarrow> na_seek A pos)\<rparr>))"

text \<open>The second result is the page given to \<open>vpage_allocator_free\<close>, if any.\<close>

definition node_allocator_free :: "NodeAllocator \<Rightarrow> node_ref \<Rightarrow> (NodeAllocator \<times> addr option) outcome" where
  "node_allocator_free A node = (let block = fst node; A = A\<lparr>na_id := (na_id A)(node := 0)\<rparr> in
     obind (if na_dump_ptr A = Some node then node_allocator_dump_next A else Done A) (\<lambda>A.
     let A = upd_block block (\<lambda>B. B\<lparr>nb_used := nb_used B - 1\<rparr>) A in
     Done (if nb_used (na_block A block) = 0
       then (A\<lparr>na_blocks := remove1 block (na_blocks A), na_dump_blocks := remove1 block (na_dump_blocks A)\<rparr>,
             Some block)
       else let A = (if nb_free (na_block A block) = []
                     then A\<lparr>na_blocks := remove1 block (na_blocks A) @ [block]\<rparr> else A) in
            (upd_block block (\<lambda>B. B\<lparr>nb_free := snd node # nb_free B\<rparr>) A, None))))"

text \<open>\<open>node_for_each\<close> (\<open>database.c\<close>): the nodes its body is run on, in order.\<close>

fun node_for_each_from :: "NodeAllocator \<Rightarrow> nat \<Rightarrow> node_ref list" where
  "node_for_each_from A 0 = []"
| "node_for_each_from A (Suc fuel) = (case na_dump_ptr A of
      None \<Rightarrow> []
    | Some node \<Rightarrow> node # (case node_allocator_dump_next A of
        Done A \<Rightarrow> node_for_each_from A fuel | _ \<Rightarrow> []))"

definition node_allocator_destroy :: "NodeAllocator \<Rightarrow> addr list" where
  "node_allocator_destroy A = rev (na_blocks A)"

text \<open>\<open>page_allocator_get_page\<close> finds the block of a node: every node lies inside its page.\<close>

lemma page_of_address:
  assumes "page_allocator_get_page page = page" and "k < 4096"
  shows "page_allocator_get_page (page + of_nat k) = page"
proof -
  have m: "PAGE_ALLOCATOR_PAGE_SIZE - 1 = mask 12" by (simp add: PAGE_ALLOCATOR_PAGE_SIZE_def mask_eq_exp_minus_1)
  have p: "take_bit 12 page = 0"
  proof -
    have "page AND mask 12 = (page AND NOT (mask 12)) AND mask 12"
      using assms(1) by (simp add: page_allocator_get_page_def m)
    also have "\<dots> = 0" by (rule bit_word_eqI) (auto simp: bit_simps)
    finally show ?thesis by (simp add: take_bit_eq_mask)
  qed
  have k: "take_bit 12 (of_nat k :: addr) = of_nat k"
    using assms(2) by (simp add: take_bit_nat_eq_self flip: of_nat_take_bit)
  have "page AND of_nat k = 0"
  proof (rule bit_word_eqI)
    fix n
    have "bit page n \<Longrightarrow> \<not> n < 12" using p by (metis bit_0_eq bit_take_bit_iff bot_apply bot_bool_def)
    moreover have "bit (of_nat k :: addr) n \<Longrightarrow> n < 12" using k by (metis bit_take_bit_iff)
    ultimately show "bit (page AND of_nat k) n = bit 0 n" by (auto simp: bit_simps)
  qed
  then have "page + of_nat k = page OR of_nat k" by (simp add: disjunctive_add_eq_or)
  moreover have "(page OR of_nat k) AND NOT (mask 12) = page"
  proof (rule bit_word_eqI)
    fix n
    have "bit page n \<Longrightarrow> \<not> n < 12" using p by (metis bit_0_eq bit_take_bit_iff bot_apply bot_bool_def)
    moreover have "bit (of_nat k :: addr) n \<Longrightarrow> n < 12" using k by (metis bit_take_bit_iff)
    moreover assume "n < LENGTH(64)"
    ultimately show "bit ((page OR of_nat k) AND NOT (mask 12)) n = bit page n"
      by (auto simp: bit_simps)
  qed
  ultimately show ?thesis by (simp add: page_allocator_get_page_def m)
qed

lemma node_address_page:
  assumes "page_allocator_get_page (fst n) = fst n" and "snd n < nodes_per_block sz"
  shows "page_allocator_get_page (node_address sz n) = fst n"
proof -
  have "0 < sz" using assms(2) by (cases sz) (auto simp: nodes_per_block_def)
  have "Suc (snd n) * sz \<le> nodes_per_block sz * sz" using assms(2) by (intro mult_le_mono1) simp
  also have "\<dots> \<le> 4040" by (simp add: nodes_per_block_def)
  finally have "56 + snd n * sz < 4096" using \<open>0 < sz\<close> by simp
  from page_of_address [OF assms(1) this] show ?thesis by (simp add: node_address_def add.assoc)
qed

section \<open>What the cursor has still to visit\<close>

definition block_nodes :: "nat \<Rightarrow> addr \<Rightarrow> node_ref list" where
  "block_nodes k b = map (Pair b) [0..<k]"

fun nodes_from :: "nat \<Rightarrow> addr list \<times> nat \<Rightarrow> node_ref list" where
  "nodes_from k ([], i) = []"
| "nodes_from k (b # bs, i) = map (Pair b) [i..<k] @ concat (map (block_nodes k) bs)"

abbreviation live :: "NodeAllocator \<Rightarrow> node_ref \<Rightarrow> bool" where
  "live A n \<equiv> na_id A n \<noteq> 0"

definition all_live :: "NodeAllocator \<Rightarrow> node_ref list" where
  "all_live A = filter (live A) (concat (map (block_nodes (na_slots A)) (na_dump_blocks A)))"

definition remaining :: "NodeAllocator \<Rightarrow> node_ref list" where
  "remaining A = (case na_dump_ptr A of None \<Rightarrow> []
     | Some (b, i) \<Rightarrow> filter (live A) (nodes_from (na_slots A) (blocks_from b (na_dump_blocks A), i)))"

lemma remaining_upd [simp]:
  "remaining (A\<lparr>na_blocks := bl\<rparr>) = remaining A"
  "remaining (A\<lparr>na_block := bk\<rparr>) = remaining A"
  by (simp_all add: remaining_def cong: option.case_cong)

definition pos_ok :: "NodeAllocator \<Rightarrow> addr list \<times> nat \<Rightarrow> bool" where
  "pos_ok A pos \<longleftrightarrow> fst pos \<noteq> [] \<and> snd pos < na_slots A \<and> (\<exists>pre. na_dump_blocks A = pre @ fst pos)"

definition ptr_ok :: "NodeAllocator \<Rightarrow> bool" where
  "ptr_ok A \<longleftrightarrow> (\<forall>b i. na_dump_ptr A = Some (b, i) \<longrightarrow>
     b \<in> set (na_dump_blocks A) \<and> i < na_slots A \<and> live A (b, i))"

lemma blocks_from_append [simp]: "b \<notin> set pre \<Longrightarrow> blocks_from b (pre @ b # bs) = b # bs"
  unfolding blocks_from_def by (induction pre) auto

lemma blocks_from_ex: "b \<in> set bs \<Longrightarrow> \<exists>pre post. bs = pre @ b # post \<and> b \<notin> set pre \<and> blocks_from b bs = b # post"
  using split_list_first [of b bs] by auto

lemma node_get_next_step_nodes:
  assumes "pos_ok A pos"
  shows "nodes_from (na_slots A) pos = node_at pos # (case node_get_next_step A pos of
      None \<Rightarrow> [] | Some pos' \<Rightarrow> nodes_from (na_slots A) pos')"
    and "node_get_next_step A pos = Some pos' \<Longrightarrow> pos_ok A pos'"
proof -
  obtain b bs i pre where pos: "pos = (b # bs, i)" "i < na_slots A" "na_dump_blocks A = pre @ b # bs"
    using assms by (cases pos; cases "fst pos") (auto simp: pos_ok_def)
  have i: "[i..<na_slots A] = i # [Suc i..<na_slots A]" using pos(2) by (rule upt_conv_Cons)
  show "nodes_from (na_slots A) pos = node_at pos # (case node_get_next_step A pos of
      None \<Rightarrow> [] | Some pos' \<Rightarrow> nodes_from (na_slots A) pos')"
    using pos i by (cases bs) (auto simp: node_at_def block_nodes_def)
  show "pos_ok A pos'" if "node_get_next_step A pos = Some pos'"
  proof -
    have "pre @ [b] @ bs = (pre @ [b]) @ bs" by simp
    then show ?thesis using that pos by (auto simp: pos_ok_def split: if_splits)
  qed
qed

lemma na_seek_remaining:
  assumes "pos_ok A pos" and "distinct (na_dump_blocks A)"
  shows "remaining (A\<lparr>na_dump_ptr := na_seek A pos\<rparr>) = filter (live A) (nodes_from (na_slots A) pos)
    \<and> ptr_ok (A\<lparr>na_dump_ptr := na_seek A pos\<rparr>)"
  using assms
proof (induction A pos rule: na_seek.induct)
  case (1 A pos)
  obtain b bs i pre where pos: "pos = (b # bs, i)" "i < na_slots A" "na_dump_blocks A = pre @ b # bs"
    using 1(2) by (cases pos; cases "fst pos") (auto simp: pos_ok_def)
  show ?case
  proof (cases "live A (node_at pos)")
    case True
    then have "na_seek A pos = Some (b, i)" by (simp add: na_seek.simps [of A] pos node_at_def)
    moreover have "b \<notin> set pre" using 1(3) pos by simp
    ultimately show ?thesis
      using True pos by (simp add: remaining_def ptr_ok_def node_at_def)
  next
    case False
    show ?thesis
    proof (cases "node_get_next_step A pos")
      case None
      with False have "na_seek A pos = None" by (simp add: na_seek.simps [of A])
      with False None node_get_next_step_nodes(1) [OF 1(2)] show ?thesis
        by (simp add: remaining_def ptr_ok_def)
    next
      case (Some pos')
      with False have "na_seek A pos = na_seek A pos'" by (simp add: na_seek.simps [of A pos])
      with 1(1) [OF _ Some node_get_next_step_nodes(2) [OF 1(2) Some] 1(3)] False Some
        node_get_next_step_nodes(1) [OF 1(2)] show ?thesis by simp
    qed
  qed
qed

lemma ptr_pos:
  assumes "ptr_ok A" and "na_dump_ptr A = Some (b, i)"
  shows "pos_ok A (blocks_from b (na_dump_blocks A), i)"
    and "node_at (blocks_from b (na_dump_blocks A), i) = (b, i)"
  using assms blocks_from_ex [of b "na_dump_blocks A"] by (auto simp: ptr_ok_def pos_ok_def node_at_def)

lemma dump_next_nodes:
  assumes "na_dump_ptr A = Some (b, i)" and "pos_ok A (blocks_from b (na_dump_blocks A), i)"
    and "distinct (na_dump_blocks A)"
  shows "\<exists>ptr. node_allocator_dump_next A = Done (A\<lparr>na_dump_ptr := ptr\<rparr>)
    \<and> remaining (A\<lparr>na_dump_ptr := ptr\<rparr>)
        = filter (live A) (tl (nodes_from (na_slots A) (blocks_from b (na_dump_blocks A), i)))
    \<and> ptr_ok (A\<lparr>na_dump_ptr := ptr\<rparr>)"
proof -
  let ?pos = "(blocks_from b (na_dump_blocks A), i)"
  note nodes = node_get_next_step_nodes(1) [OF assms(2)]
  show ?thesis
  proof (cases "node_get_next_step A ?pos")
    case None
    then show ?thesis using assms(1) nodes
      by (intro exI [of _ None]) (simp add: node_allocator_dump_next_def remaining_def ptr_ok_def)
  next
    case (Some pos')
    with na_seek_remaining [OF node_get_next_step_nodes(2) [OF assms(2) Some] assms(3)] show ?thesis
      using assms(1) nodes
      by (intro exI [of _ "na_seek A pos'"]) (simp add: node_allocator_dump_next_def)
  qed
qed

lemma remaining_ptr:
  assumes "ptr_ok A" and "na_dump_ptr A = Some (b, i)"
  shows "nodes_from (na_slots A) (blocks_from b (na_dump_blocks A), i)
      = (b, i) # tl (nodes_from (na_slots A) (blocks_from b (na_dump_blocks A), i))"
    and "remaining A = (b, i) # filter (live A) (tl (nodes_from (na_slots A) (blocks_from b (na_dump_blocks A), i)))"
proof -
  note pos = ptr_pos [OF assms]
  show nodes: "nodes_from (na_slots A) (blocks_from b (na_dump_blocks A), i)
      = (b, i) # tl (nodes_from (na_slots A) (blocks_from b (na_dump_blocks A), i))"
    using node_get_next_step_nodes(1) [OF pos(1)] pos(2) by simp
  have "live A (b, i)" using assms by (simp add: ptr_ok_def)
  then show "remaining A = (b, i) # filter (live A) (tl (nodes_from (na_slots A) (blocks_from b (na_dump_blocks A), i)))"
    using assms(2) by (simp add: remaining_def) (subst nodes, simp)
qed

lemma dump_next_remaining:
  assumes "ptr_ok A" and "distinct (na_dump_blocks A)" and "na_dump_ptr A = Some n"
  shows "\<exists>ptr. node_allocator_dump_next A = Done (A\<lparr>na_dump_ptr := ptr\<rparr>)
    \<and> n # remaining (A\<lparr>na_dump_ptr := ptr\<rparr>) = remaining A \<and> ptr_ok (A\<lparr>na_dump_ptr := ptr\<rparr>)"
proof -
  obtain b i where n: "n = (b, i)" by fastforce
  note ptr = assms(3) [unfolded n]
  show ?thesis
    using dump_next_nodes [OF ptr ptr_pos(1) [OF assms(1) ptr] assms(2)] remaining_ptr(2) [OF assms(1) ptr] n
    by auto
qed

lemma dump_init_remaining:
  assumes "distinct (na_dump_blocks A)" and "0 < na_slots A"
  shows "remaining (node_allocator_dump_init A) = all_live A \<and> ptr_ok (node_allocator_dump_init A)"
proof (cases "na_dump_blocks A")
  case Nil
  then show ?thesis by (simp add: node_allocator_dump_init_def remaining_def ptr_ok_def all_live_def)
next
  case (Cons b bs)
  let ?A = "A\<lparr>na_dump_ptr := None\<rparr>"
  have "pos_ok ?A (b # bs, 0)" using Cons assms(2) by (simp add: pos_ok_def)
  from na_seek_remaining [OF this] assms(1) Cons show ?thesis
    by (simp add: node_allocator_dump_init_def Let_def all_live_def block_nodes_def)
qed

lemma node_for_each_remaining:
  assumes "ptr_ok A" and "distinct (na_dump_blocks A)" and "length (remaining A) \<le> fuel"
  shows "node_for_each_from A fuel = remaining A"
  using assms
proof (induction fuel arbitrary: A)
  case 0
  then show ?case by simp
next
  case (Suc fuel)
  show ?case
  proof (cases "na_dump_ptr A")
    case None
    then show ?thesis by (simp add: remaining_def)
  next
    case (Some n)
    from dump_next_remaining [OF Suc.prems(1,2) this] obtain ptr where
      ptr: "node_allocator_dump_next A = Done (A\<lparr>na_dump_ptr := ptr\<rparr>)"
      "n # remaining (A\<lparr>na_dump_ptr := ptr\<rparr>) = remaining A" "ptr_ok (A\<lparr>na_dump_ptr := ptr\<rparr>)" by blast
    have "length (n # remaining (A\<lparr>na_dump_ptr := ptr\<rparr>)) \<le> Suc fuel"
      unfolding ptr(2) by (rule Suc.prems(3))
    then have "node_for_each_from (A\<lparr>na_dump_ptr := ptr\<rparr>) fuel = remaining (A\<lparr>na_dump_ptr := ptr\<rparr>)"
      using Suc.prems(2) by (intro Suc.IH [OF ptr(3)]) simp_all
    then show ?thesis using Some ptr(1) by (simp add: ptr(2) [symmetric])
  qed
qed

section \<open>The invariant\<close>

definition full :: "NodeAllocator \<Rightarrow> addr \<Rightarrow> bool" where
  "full A b \<longleftrightarrow> nb_free (na_block A b) = []"

definition block_ok :: "NodeAllocator \<Rightarrow> addr \<Rightarrow> bool" where
  "block_ok A b \<longleftrightarrow> distinct (nb_free (na_block A b)) \<and> set (nb_free (na_block A b)) \<subseteq> {..<na_slots A}
     \<and> nb_used (na_block A b) = int (na_slots A) - int (length (nb_free (na_block A b)))
     \<and> 0 < nb_used (na_block A b) \<and> (\<forall>i \<in> set (nb_free (na_block A b)). na_id A (b, i) = 0)"

lemma block_ok_cong:
  "na_block A b = na_block B b \<Longrightarrow> na_slots A = na_slots B \<Longrightarrow> (\<And>i. na_id A (b, i) = na_id B (b, i)) \<Longrightarrow>
    block_ok A b = block_ok B b"
  by (simp add: block_ok_def)

lemma block_ok_mono:
  "block_ok A b \<Longrightarrow> na_block B b = na_block A b \<Longrightarrow> na_slots B = na_slots A \<Longrightarrow>
    (\<And>i. na_id A (b, i) = 0 \<Longrightarrow> na_id B (b, i) = 0) \<Longrightarrow> block_ok B b"
  by (simp add: block_ok_def)

definition na_core :: "NodeAllocator \<Rightarrow> bool" where
  "na_core A \<longleftrightarrow> 0 < na_slots A \<and> distinct (na_blocks A) \<and> distinct (na_dump_blocks A)
     \<and> set (na_blocks A) = set (na_dump_blocks A) \<and> (\<forall>b \<in> set (na_blocks A). block_ok A b) \<and> ptr_ok A"

text \<open>Full blocks come before blocks with free nodes.\<close>

definition na_sorted :: "NodeAllocator \<Rightarrow> bool" where
  "na_sorted A \<longleftrightarrow> sorted_wrt (\<lambda>b c. full A c \<longrightarrow> full A b) (na_blocks A)"

definition na_inv :: "NodeAllocator \<Rightarrow> bool" where
  "na_inv A \<longleftrightarrow> na_core A \<and> na_sorted A"

definition in_use :: "NodeAllocator \<Rightarrow> node_ref set" where
  "in_use A = {(b, i). b \<in> set (na_blocks A) \<and> i < na_slots A \<and> i \<notin> set (nb_free (na_block A b))}"

lemma na_inv_init: "0 < nodes_per_block sz \<Longrightarrow> na_inv (node_allocator_init sz ids)"
  by (simp add: na_inv_def na_core_def na_sorted_def node_allocator_init_def ptr_ok_def)

lemma live_in_use: "na_inv A \<Longrightarrow> n \<in> set (all_live A) \<Longrightarrow> n \<in> in_use A"
  by (auto simp: na_inv_def na_core_def block_ok_def in_use_def all_live_def block_nodes_def)

lemma last_full_all_full:
  assumes "na_sorted A" and "full A (last (na_blocks A))" and "b \<in> set (na_blocks A)"
  shows "full A b"
  using assms unfolding na_sorted_def
  by (cases "na_blocks A" rule: rev_cases) (auto simp: sorted_wrt_append)

lemma distinct_nodes_from:
  "distinct bs \<Longrightarrow> distinct (nodes_from k (bs, i)) \<and> fst ` set (nodes_from k (bs, i)) \<subseteq> set bs"
proof -
  have 1: "distinct (concat (map (block_nodes k) cs))" if "distinct cs" for cs
    using that by (induction cs) (auto simp: block_nodes_def distinct_map inj_on_def)
  assume "distinct bs"
  with 1 [of "tl bs"] show ?thesis by (cases bs) (auto simp: distinct_map inj_on_def block_nodes_def)
qed

text \<open>A fresh page.\<close>

lemma na_push_nodes:
  "fold (\<lambda>i (block, ids). (block\<lparr>nb_free := i # nb_free block\<rparr>, ids((page, i) := 0))) is (block, ids)
   = (block\<lparr>nb_free := rev is @ nb_free block\<rparr>, \<lambda>n. if fst n = page \<and> snd n \<in> set is then 0 else ids n)"
  by (induction "is" arbitrary: block ids) (auto simp: fun_eq_iff)

definition page_added :: "NodeAllocator \<Rightarrow> addr \<Rightarrow> NodeAllocator" where
  "page_added A page = A\<lparr>na_id := (\<lambda>n. if fst n = page \<and> snd n < na_slots A then 0 else na_id A n),
     na_block := (na_block A)(page := \<lparr>nb_free = rev [0..<na_slots A - 1], nb_used = 1\<rparr>),
     na_blocks := na_blocks A @ [page], na_dump_blocks := na_dump_blocks A @ [page]\<rparr>"

lemma page_added_sel [simp]:
  "na_slots (page_added A page) = na_slots A"
  "na_blocks (page_added A page) = na_blocks A @ [page]"
  "na_dump_blocks (page_added A page) = na_dump_blocks A @ [page]"
  "na_dump_ptr (page_added A page) = na_dump_ptr A"
  by (simp_all add: page_added_def)

lemma na_alloc_page_eq:
  assumes "0 < na_slots A"
  shows "na_alloc_page A page = (Some (page, na_slots A - 1), page_added A page)"
proof -
  have "rev [0..<na_slots A] = (na_slots A - 1) # rev [0..<na_slots A - 1]"
    using assms by (cases "na_slots A") auto
  then show ?thesis
    unfolding na_alloc_page_def na_push_nodes page_added_def
    using assms by (cases "na_slots A") (simp_all add: less_Suc_eq disj_commute)
qed

lemma nodes_from_append:
  "bs \<noteq> [] \<Longrightarrow> nodes_from k (bs @ cs, i) = nodes_from k (bs, i) @ concat (map (block_nodes k) cs)"
  by (cases bs) auto

lemma blocks_from_snoc: "b \<in> set bs \<Longrightarrow> blocks_from b (bs @ cs) = blocks_from b bs @ cs"
  by (auto simp: blocks_from_def)

lemma blocks_from_subset: "set (blocks_from b bs) \<subseteq> set bs"
  by (auto simp: blocks_from_def dest: set_dropWhileD)

lemma page_added_core:
  assumes "na_core A" and "page \<notin> set (na_blocks A)"
  shows "na_core (page_added A page) \<and> remaining (page_added A page) = remaining A
    \<and> in_use (page_added A page) = insert (page, na_slots A - 1) (in_use A)"
proof (intro conjI)
  let ?A = "page_added A page"
  have old: "na_block ?A b = na_block A b" "na_id ?A (b, i) = na_id A (b, i)" "b \<noteq> page"
    if "b \<in> set (na_blocks A)" for b i using that assms(2) by (auto simp: page_added_def)
  have blk: "block_ok ?A page"
    using assms(1) by (auto simp add: block_ok_def page_added_def na_core_def of_nat_diff)
  have "block_ok ?A b" if "b \<in> set (na_blocks A)" for b
    using block_ok_cong [of ?A b A] old [OF that] that assms(1) by (simp add: na_core_def page_added_def)
  moreover have "ptr_ok ?A"
    using assms(1,2) by (auto simp: ptr_ok_def na_core_def page_added_def)
  ultimately show "na_core ?A"
    using assms(1,2) blk by (auto simp: na_core_def)
  show "in_use ?A = insert (page, na_slots A - 1) (in_use A)"
    using assms(1,2) by (auto simp: in_use_def page_added_def na_core_def split: if_splits)
  show "remaining ?A = remaining A"
  proof (cases "na_dump_ptr A")
    case None
    then show ?thesis by (simp add: remaining_def page_added_def)
  next
    case (Some n)
    obtain b i where n: "n = (b, i)" by fastforce
    have b: "b \<in> set (na_dump_blocks A)" using assms(1) Some n by (auto simp: na_core_def ptr_ok_def)
    then have ne: "blocks_from b (na_dump_blocks A) \<noteq> []" using blocks_from_ex by fastforce
    have "page \<notin> set (blocks_from b (na_dump_blocks A))"
      using assms(1,2) blocks_from_subset by (auto simp: na_core_def)
    then have "\<forall>m \<in> set (nodes_from (na_slots A) (blocks_from b (na_dump_blocks A), i)). fst m \<noteq> page"
      by (cases "blocks_from b (na_dump_blocks A)") (auto simp: block_nodes_def)
    then have "filter (live ?A) (nodes_from (na_slots A) (blocks_from b (na_dump_blocks A), i))
        = filter (live A) (nodes_from (na_slots A) (blocks_from b (na_dump_blocks A), i))"
      by (intro filter_cong) (auto simp: page_added_def)
    moreover have "filter (live ?A) (block_nodes (na_slots A) page) = []"
      by (auto simp: block_nodes_def page_added_def filter_empty_conv)
    ultimately show ?thesis using Some n b ne
      by (simp add: remaining_def page_added_def blocks_from_snoc nodes_from_append)
  qed
qed

lemma all_sorted: "(\<And>x. x \<in> set xs \<Longrightarrow> P x) \<Longrightarrow> sorted_wrt (\<lambda>x y. P y \<longrightarrow> P x) (xs @ [z])"
  by (induction xs) auto

lemma full_sorted_cong:
  "sorted_wrt (\<lambda>b c. full A c \<longrightarrow> full A b) bl \<Longrightarrow> (\<And>c. c \<in> set bl \<Longrightarrow> full B c = full A c) \<Longrightarrow>
    sorted_wrt (\<lambda>b c. full B c \<longrightarrow> full B b) bl"
  by (induction bl) auto

lemma sorted_take:
  assumes "sorted_wrt (\<lambda>b c. full A c \<longrightarrow> full A b) bl" and "\<And>c. c \<in> set bl \<Longrightarrow> full B c = full A c"
    and "na_blocks B = (if full B b then b # bl else bl @ [b])"
  shows "na_sorted B"
  using full_sorted_cong [OF assms(1,2)] assms(3)
  by (cases "full B b") (simp_all add: na_sorted_def sorted_wrt_append)

lemma page_added_sorted:
  assumes "na_core A" and "page \<notin> set (na_blocks A)" and "\<forall>b \<in> set (na_blocks A). full A b"
  shows "na_sorted (page_added A page)"
proof -
  have "full (page_added A page) b" if "b \<in> set (na_blocks A)" for b
    using that assms(2,3) by (auto simp: full_def page_added_def)
  then have "sorted_wrt (\<lambda>b c. full (page_added A page) c \<longrightarrow> full (page_added A page) b) (na_blocks A @ [page])"
    by (rule all_sorted)
  then show ?thesis by (simp add: na_sorted_def)
qed

text \<open>Reordering the blocks, and taking a free node of one.\<close>

lemma core_reorder:
  assumes "na_core A" and "distinct bl" and "set bl = set (na_blocks A)"
  shows "na_core (A\<lparr>na_blocks := bl\<rparr>) \<and> in_use (A\<lparr>na_blocks := bl\<rparr>) = in_use A
    \<and> remaining (A\<lparr>na_blocks := bl\<rparr>) = remaining A"
proof -
  let ?A = "A\<lparr>na_blocks := bl\<rparr>"
  have "block_ok ?A b = block_ok A b" for b by (rule block_ok_cong) simp_all
  moreover have "ptr_ok ?A = ptr_ok A" by (simp add: ptr_ok_def)
  moreover have "remaining ?A = remaining A" by simp
  ultimately show ?thesis using assms by (auto simp: na_core_def in_use_def)
qed

lemma core_take:
  assumes "na_core A" and "b \<in> set (na_blocks A)" and "nb_free (na_block A b) = i # is"
  defines "A1 \<equiv> upd_block b (\<lambda>B. B\<lparr>nb_free := is, nb_used := nb_used B + 1\<rparr>) A"
  shows "na_core A1 \<and> in_use A1 = insert (b, i) (in_use A) \<and> (b, i) \<notin> in_use A
    \<and> na_id A (b, i) = 0 \<and> remaining A1 = remaining A"
proof -
  have b: "block_ok A b" using assms(1,2) by (auto simp: na_core_def)
  then have i: "i < na_slots A" "i \<notin> set is" "na_id A (b, i) = 0"
    using assms(3) by (auto simp: block_ok_def)
  have "block_ok A1 b" using assms(3) b by (auto simp: block_ok_def A1_def)
  moreover have "block_ok A1 c = block_ok A c" if "c \<noteq> b" for c
    by (rule block_ok_cong) (use that in \<open>simp_all add: A1_def\<close>)
  ultimately have "block_ok A1 c" if "c \<in> set (na_blocks A)" for c
    using that assms(1) by (cases "c = b") (auto simp: na_core_def)
  then have "na_core A1"
    using assms(1) by (auto simp: na_core_def A1_def ptr_ok_def)
  moreover have "in_use A1 = insert (b, i) (in_use A)" "(b, i) \<notin> in_use A"
    using i assms(2,3) by (auto simp: in_use_def A1_def split: if_splits)
  moreover have "remaining A1 = remaining A" by (simp add: A1_def)
  ultimately show ?thesis using i by blast
qed

text \<open>
  C19: allocating a node: a node nobody uses, from a block that has one, and from a fresh page
  only when every block is full; the cursor of a running dump has the same nodes still to
  visit.
\<close>

theorem node_allocator_alloc_ok:
  assumes "na_inv A" and "page \<notin> set (na_blocks A)"
  shows "\<exists>n A'. node_allocator_alloc A page = (Some n, A') \<and> na_inv A' \<and> n \<notin> in_use A
    \<and> in_use A' = insert n (in_use A) \<and> na_id A' n = 0 \<and> remaining A' = remaining A
    \<and> (fst n = page \<longleftrightarrow> (\<forall>b \<in> set (na_blocks A). full A b))"
proof -
  have core: "na_core A" and sorted: "na_sorted A" using assms(1) by (simp_all add: na_inv_def)
  have fresh: "\<exists>n A'. na_alloc_page B page = (Some n, A') \<and> na_inv A' \<and> n \<notin> in_use A
      \<and> in_use A' = insert n (in_use A) \<and> na_id A' n = 0 \<and> remaining A' = remaining A \<and> fst n = page"
    if B: "na_core B" "set (na_blocks B) = set (na_blocks A)" "in_use B = in_use A"
      "remaining B = remaining A" "\<forall>b \<in> set (na_blocks B). full B b" for B
  proof -
    have page: "page \<notin> set (na_blocks B)" and slots: "0 < na_slots B"
      using B(1,2) assms(2) by (auto simp: na_core_def)
    have "(page, na_slots B - 1) \<notin> in_use A" using assms(2) by (simp add: in_use_def)
    with page_added_core [OF B(1) page] page_added_sorted [OF B(1) page B(5)] slots B(3,4)
    show ?thesis by (simp add: na_alloc_page_eq na_inv_def) (simp add: page_added_def)
  qed
  show ?thesis
  proof (cases "na_blocks A = []")
    case True
    with fresh [OF core] show ?thesis by (auto simp: node_allocator_alloc_def)
  next
    case False
    define b where "b = last (na_blocks A)"
    obtain bl where bl: "na_blocks A = bl @ [b]"
      using False append_butlast_last_id [of "na_blocks A"] unfolding b_def by metis
    have dist: "distinct (bl @ [b])" using core bl by (simp add: na_core_def)
    then have rem1: "remove1 b (na_blocks A) = bl" by (simp add: bl remove1_append)
    show ?thesis
    proof (cases "nb_free (na_block A b)")
      case Nil
      let ?B = "A\<lparr>na_blocks := b # bl\<rparr>"
      have all: "\<forall>c \<in> set (na_blocks A). full A c"
        using last_full_all_full [OF sorted] Nil by (simp add: full_def b_def)
      have "na_core ?B \<and> in_use ?B = in_use A \<and> remaining ?B = remaining A"
        by (rule core_reorder [OF core]) (use dist bl in auto)
      moreover have "\<forall>c \<in> set (na_blocks ?B). full ?B c" using all bl by (auto simp: full_def)
      moreover have "node_allocator_alloc A page = na_alloc_page ?B page"
        using Nil False rem1 by (simp add: node_allocator_alloc_def Let_def flip: b_def)
      ultimately show ?thesis using fresh [of ?B] all bl by auto
    next
      case (Cons i "is")
      let ?A1 = "upd_block b (\<lambda>B. B\<lparr>nb_free := is, nb_used := nb_used B + 1\<rparr>) A"
      let ?bl = "if is = [] then b # bl else bl @ [b]"
      let ?A2 = "?A1\<lparr>na_blocks := ?bl\<rparr>"
      have take: "na_core ?A1 \<and> in_use ?A1 = insert (b, i) (in_use A) \<and> (b, i) \<notin> in_use A
          \<and> na_id A (b, i) = 0 \<and> remaining ?A1 = remaining A"
        by (rule core_take [OF core _ Cons]) (simp add: bl)
      have "na_core ?A2 \<and> in_use ?A2 = in_use ?A1 \<and> remaining ?A2 = remaining ?A1"
        by (rule core_reorder) (use take dist bl in auto)
      moreover have "na_sorted ?A2"
      proof -
        have s: "sorted_wrt (\<lambda>b c. full A c \<longrightarrow> full A b) bl"
          using sorted bl by (simp add: na_sorted_def sorted_wrt_append)
        show ?thesis by (rule sorted_take [OF s]) (use dist in \<open>auto simp: full_def\<close>)
      qed
      moreover have "node_allocator_alloc A page = (Some (b, i), ?A2)"
        using Cons False rem1 bl by (simp add: node_allocator_alloc_def Let_def flip: b_def)
      moreover have "b \<noteq> page" "\<not> full A b" using assms(2) bl Cons by (auto simp: full_def)
      ultimately show ?thesis using take bl by (auto simp: na_inv_def)
    qed
  qed
qed

theorem node_allocator_alloc_ok_witness:
  "\<exists>n A'. node_allocator_alloc (node_allocator_init 64 (\<lambda>_. 7)) 8192 = (Some n, A') \<and> na_inv A'
    \<and> fst n = 8192"
proof -
  have "na_inv (node_allocator_init 64 (\<lambda>_. 7))"
    by (rule na_inv_init) (simp add: nodes_per_block_def)
  from node_allocator_alloc_ok [OF this, of 8192] show ?thesis
    by (auto simp: node_allocator_init_def)
qed

text \<open>Freeing: the identifier first, with the cursor moving off the node.\<close>

lemma filter_concat_remove1:
  "filter P (f b) = [] \<Longrightarrow> filter P (concat (map f (remove1 b bs))) = filter P (concat (map f bs))"
  by (induction bs) auto

lemma id_cleared:
  assumes "na_core A" and "n \<in> in_use A"
  defines "A0 \<equiv> A\<lparr>na_id := (na_id A)(n := 0)\<rparr>"
  shows "\<exists>ptr. (if na_dump_ptr A0 = Some n then node_allocator_dump_next A0 else Done A0)
      = Done (A0\<lparr>na_dump_ptr := ptr\<rparr>)
    \<and> na_core (A0\<lparr>na_dump_ptr := ptr\<rparr>) \<and> remaining (A0\<lparr>na_dump_ptr := ptr\<rparr>) = remove1 n (remaining A)"
proof -
  have d: "distinct (na_dump_blocks A)" using assms(1) by (simp add: na_core_def)
  have blk: "block_ok (A0\<lparr>na_dump_ptr := ptr\<rparr>) b" if "b \<in> set (na_blocks A)" for b ptr
    by (rule block_ok_mono [of A]) (use that assms(1) in \<open>auto simp: na_core_def A0_def\<close>)
  have core: "na_core (A0\<lparr>na_dump_ptr := ptr\<rparr>)" if "ptr_ok (A0\<lparr>na_dump_ptr := ptr\<rparr>)" for ptr
    using that assms(1) blk by (auto simp: na_core_def A0_def)
  have live0: "filter (live A0) ns = remove1 n (filter (live A) ns)" if "distinct ns" for ns
    using that by (induction ns) (auto simp: A0_def remove1_idem)
  show ?thesis
  proof (cases "na_dump_ptr A")
    case None
    then have A0: "na_dump_ptr A0 = None" "remaining A = []" "A0\<lparr>na_dump_ptr := None\<rparr> = A0"
      by (simp_all add: remaining_def A0_def)
    then have "remaining A0 = []" by (simp add: remaining_def)
    moreover have "ptr_ok (A0\<lparr>na_dump_ptr := None\<rparr>)" by (simp add: ptr_ok_def)
    then have "na_core A0" using core A0(3) by metis
    ultimately show ?thesis using A0(1,2) by (intro exI [of _ None]) (simp add: A0(3))
  next
    case (Some m)
    obtain b i where m: "m = (b, i)" by fastforce
    have ok: "ptr_ok A" and p: "na_dump_ptr A = Some (b, i)" using assms(1) Some m by (simp_all add: na_core_def)
    let ?ns = "nodes_from (na_slots A) (blocks_from b (na_dump_blocks A), i)"
    obtain pre post where "na_dump_blocks A = pre @ b # post" "blocks_from b (na_dump_blocks A) = b # post"
      using blocks_from_ex ok p by (metis ptr_ok_def)
    then have dns: "distinct ?ns" using d distinct_nodes_from [of "b # post" "na_slots A" i] by simp
    show ?thesis
    proof (cases "m = n")
      case True
      have "pos_ok A0 (blocks_from b (na_dump_blocks A0), i)"
        using ptr_pos(1) [OF ok p] by (simp add: pos_ok_def A0_def)
      moreover have "na_dump_ptr A0 = Some (b, i)" "distinct (na_dump_blocks A0)"
        using p d by (simp_all add: A0_def)
      ultimately obtain ptr where ptr: "node_allocator_dump_next A0 = Done (A0\<lparr>na_dump_ptr := ptr\<rparr>)"
        "remaining (A0\<lparr>na_dump_ptr := ptr\<rparr>) = filter (live A0) (tl ?ns)" "ptr_ok (A0\<lparr>na_dump_ptr := ptr\<rparr>)"
        using dump_next_nodes [of A0 b i] by (auto simp: A0_def)
      have "distinct (tl ?ns)" "n \<notin> set (tl ?ns)"
        using dns remaining_ptr(1) [OF ok p] True m by (metis distinct.simps(2))+
      then have "filter (live A0) (tl ?ns) = filter (live A) (tl ?ns)"
        by (auto simp: A0_def intro!: filter_cong)
      then have "filter (live A0) (tl ?ns) = remove1 n (remaining A)"
        using remaining_ptr(2) [OF ok p] True m by simp
      with ptr core p m True show ?thesis by (auto simp: A0_def)
    next
      case False
      have eq: "A0\<lparr>na_dump_ptr := Some m\<rparr> = A0" using Some by (simp add: A0_def)
      have "ptr_ok A0" using ok p m False by (auto simp: ptr_ok_def A0_def)
      moreover have "remaining A0 = filter (live A0) ?ns" "remaining A = filter (live A) ?ns"
        using p by (simp_all add: remaining_def A0_def)
      ultimately show ?thesis using core [of "Some m"] live0 [OF dns] Some False
        by (intro exI [of _ "Some m"]) (simp add: eq, simp add: A0_def)
    qed
  qed
qed

lemma block_removed:
  assumes "na_core A" and "\<forall>i < na_slots A. na_id A (b, i) = 0"
  defines "A' \<equiv> A\<lparr>na_blocks := remove1 b (na_blocks A), na_dump_blocks := remove1 b (na_dump_blocks A)\<rparr>"
  shows "na_core A' \<and> remaining A' = remaining A \<and> in_use A' = {n \<in> in_use A. fst n \<noteq> b}"
proof (intro conjI)
  have dist: "distinct (na_blocks A)" "distinct (na_dump_blocks A)" and ok: "ptr_ok A"
    using assms(1) by (simp_all add: na_core_def)
  have ptr: "fst n \<noteq> b" if "na_dump_ptr A = Some n" for n
    using ok that assms(2) by (cases n) (auto simp: ptr_ok_def)
  have "ptr_ok A'" using ok ptr dist by (auto simp: ptr_ok_def A'_def)
  moreover have "block_ok A' c = block_ok A c" for c by (rule block_ok_cong) (simp_all add: A'_def)
  ultimately show "na_core A'" using assms(1) by (auto simp: na_core_def A'_def)
  show "in_use A' = {n \<in> in_use A. fst n \<noteq> b}" using dist by (auto simp: in_use_def A'_def)
  show "remaining A' = remaining A"
  proof (cases "na_dump_ptr A")
    case None
    then show ?thesis by (simp add: remaining_def A'_def)
  next
    case (Some n)
    obtain c i where n: "n = (c, i)" by fastforce
    then have c: "c \<noteq> b" "c \<in> set (na_dump_blocks A)" using ptr Some ok by (auto simp: ptr_ok_def)
    obtain pre post where pp: "na_dump_blocks A = pre @ c # post" "c \<notin> set pre"
      "blocks_from c (na_dump_blocks A) = c # post"
      using blocks_from_ex [OF c(2)] by blast
    have "remove1 b (na_dump_blocks A) = (if b \<in> set pre then remove1 b pre @ c # post else pre @ c # remove1 b post)"
      using pp(1) c(1) by (simp add: remove1_append)
    moreover have "c \<notin> set (remove1 b pre)" using pp(2) by (meson notin_set_remove1)
    ultimately have "blocks_from c (remove1 b (na_dump_blocks A)) = c # (if b \<in> set pre then post else remove1 b post)"
      using pp(2) by simp
    moreover have "filter (live A) (block_nodes (na_slots A) b) = []"
      using assms(2) by (simp add: block_nodes_def filter_empty_conv)
    ultimately show ?thesis using Some n pp(3)
      by (simp add: remaining_def A'_def filter_concat_remove1)
  qed
qed

lemma nb_eta: "B\<lparr>nb_used := u, nb_free := f\<rparr> = \<lparr>nb_free = f, nb_used = u\<rparr>"
  by (cases B) simp

lemma core_give:
  assumes "na_core A" and "b \<in> set (na_blocks A)" and "i < na_slots A" and "i \<notin> set (nb_free (na_block A b))"
    and "na_id A (b, i) = 0" and "nb_used (na_block A b) \<noteq> 1"
  defines "A1 \<equiv> upd_block b (\<lambda>B. \<lparr>nb_free = i # nb_free B, nb_used = nb_used B - 1\<rparr>) A"
  shows "na_core A1 \<and> in_use A1 = in_use A - {(b, i)} \<and> remaining A1 = remaining A"
proof -
  have b: "block_ok A b" using assms(1,2) by (auto simp: na_core_def)
  then have "block_ok A1 b" using assms(3-6) by (auto simp: block_ok_def A1_def)
  moreover have "block_ok A1 c = block_ok A c" if "c \<noteq> b" for c
    by (rule block_ok_cong) (use that in \<open>simp_all add: A1_def\<close>)
  ultimately have "block_ok A1 c" if "c \<in> set (na_blocks A)" for c
    using that assms(1) by (cases "c = b") (auto simp: na_core_def)
  then have "na_core A1" using assms(1) by (auto simp: na_core_def A1_def ptr_ok_def)
  moreover have "in_use A1 = in_use A - {(b, i)}" by (auto simp: in_use_def A1_def split: if_splits)
  moreover have "remaining A1 = remaining A" by (simp add: A1_def)
  ultimately show ?thesis by blast
qed

lemma core_upd_absent:
  assumes "na_core A" and "b \<notin> set (na_blocks A)"
  shows "na_core (upd_block b f A) \<and> in_use (upd_block b f A) = in_use A"
proof -
  have "block_ok (upd_block b f A) c = block_ok A c" if "c \<in> set (na_blocks A)" for c
    by (rule block_ok_cong) (use that assms(2) in auto)
  then show ?thesis using assms by (auto simp: na_core_def ptr_ok_def in_use_def split: if_splits)
qed

lemma sorted_wrt_remove1: "sorted_wrt R xs \<Longrightarrow> sorted_wrt R (remove1 x xs)"
  by (induction xs) (auto dest: notin_set_remove1 set_remove1_subset [THEN subsetD])

lemma sorted_give:
  assumes "na_sorted A" and "b \<in> set (na_blocks A)" and "distinct (na_blocks A)"
    and "\<And>c. c \<in> set (na_blocks A) \<Longrightarrow> c \<noteq> b \<Longrightarrow> full B c = full A c" and "\<not> full B b"
    and "na_blocks B = (if full A b then remove1 b (na_blocks A) @ [b] else na_blocks A)"
  shows "na_sorted B"
proof (cases "full A b")
  case True
  have s: "sorted_wrt (\<lambda>b c. full A c \<longrightarrow> full A b) (remove1 b (na_blocks A))"
    using assms(1) by (simp add: na_sorted_def sorted_wrt_remove1)
  have "sorted_wrt (\<lambda>b c. full B c \<longrightarrow> full B b) (remove1 b (na_blocks A))"
    by (rule full_sorted_cong [OF s]) (use assms(3,4) in auto)
  with True assms(5,6) show ?thesis by (simp add: na_sorted_def sorted_wrt_append)
next
  case False
  have s: "sorted_wrt (\<lambda>b c. full A c \<longrightarrow> full A b) (na_blocks A)"
    using assms(1) by (simp add: na_sorted_def)
  have "sorted_wrt (\<lambda>b c. full B c \<longrightarrow> full B b) (na_blocks A)"
    by (rule full_sorted_cong [OF s]) (use assms(4,5) False in metis)
  with False assms(6) show ?thesis by (simp add: na_sorted_def)
qed

text \<open>
  C20: freeing a node: it is no longer in use and its identifier is cleared; the page goes back
  exactly when it was the last node of its block; and a dump that is under way skips it if
  it has not visited it yet, moving on if it stands on it, and visits everything else it had
  still to visit.
\<close>

theorem node_allocator_free_ok:
  assumes "na_inv A" and "n \<in> in_use A"
  shows "\<exists>A' page. node_allocator_free A n = Done (A', page) \<and> na_inv A'
    \<and> in_use A' = in_use A - {n} \<and> na_id A' n = 0 \<and> remaining A' = remove1 n (remaining A)
    \<and> page = (if {m \<in> in_use A. fst m = fst n} = {n} then Some (fst n) else None)"
proof -
  obtain b i where n: "n = (b, i)" by fastforce
  let ?A0 = "A\<lparr>na_id := (na_id A)(n := 0)\<rparr>"
  have core: "na_core A" and sorted: "na_sorted A" using assms(1) by (simp_all add: na_inv_def)
  obtain ptr where ptr: "(if na_dump_ptr ?A0 = Some n then node_allocator_dump_next ?A0 else Done ?A0)
        = Done (?A0\<lparr>na_dump_ptr := ptr\<rparr>)"
      "na_core (?A0\<lparr>na_dump_ptr := ptr\<rparr>)" "remaining (?A0\<lparr>na_dump_ptr := ptr\<rparr>) = remove1 n (remaining A)"
    using id_cleared [OF core assms(2)] by blast
  define A1 where "A1 = ?A0\<lparr>na_dump_ptr := ptr\<rparr>"
  note A1 = ptr(2,3) [folded A1_def]
  have sel: "na_blocks A1 = na_blocks A" "na_dump_blocks A1 = na_dump_blocks A" "na_block A1 = na_block A"
    "na_slots A1 = na_slots A" "na_id A1 = (na_id A)(n := 0)" "in_use A1 = in_use A"
    "\<And>c. full A1 c = full A c"
    by (simp_all add: A1_def in_use_def full_def)
  have b: "b \<in> set (na_blocks A)" "i < na_slots A" "i \<notin> set (nb_free (na_block A b))"
    using assms(2) n by (auto simp: in_use_def)
  let ?f = "nb_free (na_block A b)"
  have ok: "block_ok A b" "distinct (na_blocks A)" using core b(1) by (auto simp: na_core_def)
  then have used: "nb_used (na_block A b) = int (na_slots A) - int (length ?f)"
    and f: "distinct ?f" "set ?f \<subseteq> {..<na_slots A} - {i}" using b(3) by (auto simp: block_ok_def)
  have cnt: "nb_used (na_block A b) = 1 \<longleftrightarrow> set ?f = {..<na_slots A} - {i}"
  proof -
    have "card ({..<na_slots A} - {i}) = na_slots A - 1" using b(2) by simp
    moreover have "card (set ?f) = length ?f" using f(1) by (rule distinct_card)
    moreover have "set ?f = {..<na_slots A} - {i} \<longleftrightarrow> card (set ?f) = card ({..<na_slots A} - {i})"
    proof
      assume "set ?f = {..<na_slots A} - {i}"
      then show "card (set ?f) = card ({..<na_slots A} - {i})" by (rule arg_cong)
    next
      assume "card (set ?f) = card ({..<na_slots A} - {i})"
      then show "set ?f = {..<na_slots A} - {i}" by (intro card_subset_eq f(2)) simp
    qed
    ultimately show ?thesis using used b(2) by linarith
  qed
  have last: "{m \<in> in_use A. fst m = fst n} = {n} \<longleftrightarrow> nb_used (na_block A b) = 1"
    unfolding cnt using b n f(2) by (auto simp: in_use_def)
  have free: "node_allocator_free A n = (let A = upd_block b (\<lambda>B. B\<lparr>nb_used := nb_used B - 1\<rparr>) A1 in
     Done (if nb_used (na_block A b) = 0
       then (A\<lparr>na_blocks := remove1 b (na_blocks A), na_dump_blocks := remove1 b (na_dump_blocks A)\<rparr>, Some b)
       else let A = (if nb_free (na_block A b) = []
                     then A\<lparr>na_blocks := remove1 b (na_blocks A) @ [b]\<rparr> else A) in
            (upd_block b (\<lambda>B. B\<lparr>nb_free := i # nb_free B\<rparr>) A, None)))"
    unfolding node_allocator_free_def Let_def ptr(1) obind.simps by (simp only: n fst_conv snd_conv A1_def)
  show ?thesis
  proof (cases "nb_used (na_block A b) = 1")
    case True
    let ?R = "A1\<lparr>na_blocks := remove1 b (na_blocks A1), na_dump_blocks := remove1 b (na_dump_blocks A1)\<rparr>"
    let ?A' = "upd_block b (\<lambda>B. B\<lparr>nb_used := nb_used B - 1\<rparr>) ?R"
    have zero: "\<forall>j < na_slots A1. na_id A1 (b, j) = 0"
      using True cnt ok n by (auto simp: sel block_ok_def)
    note R = block_removed [OF A1(1) zero]
    have "b \<notin> set (na_blocks ?R)" using ok(2) sel by simp
    from core_upd_absent [OF _ this, of "\<lambda>B. B\<lparr>nb_used := nb_used B - 1\<rparr>"] R
    have "na_core ?A'" "in_use ?A' = {m \<in> in_use A. fst m \<noteq> b}" using sel(6) by simp_all
    moreover have "{m \<in> in_use A. fst m \<noteq> b} = in_use A - {n}" using last True n by auto
    moreover have "na_sorted ?A'"
    proof -
      have s: "sorted_wrt (\<lambda>b c. full A c \<longrightarrow> full A b) (remove1 b (na_blocks A))"
        using sorted by (simp add: na_sorted_def sorted_wrt_remove1)
      have "sorted_wrt (\<lambda>b c. full ?A' c \<longrightarrow> full ?A' b) (remove1 b (na_blocks A))"
        by (rule full_sorted_cong [OF s]) (auto simp: full_def sel)
      then show ?thesis by (simp add: na_sorted_def sel)
    qed
    moreover have "node_allocator_free A n = Done (?A', Some b)" using True by (simp add: free sel)
    moreover have "remaining ?A' = remove1 n (remaining A)" using R A1(2) by simp
    moreover have "na_id ?A' n = 0" by (simp add: sel)
    ultimately show ?thesis using last True n by (auto simp: na_inv_def)
  next
    case False
    let ?bl = "if full A b then remove1 b (na_blocks A) @ [b] else na_blocks A"
    let ?G = "upd_block b (\<lambda>B. \<lparr>nb_free = i # nb_free B, nb_used = nb_used B - 1\<rparr>) A1"
    let ?A' = "?G\<lparr>na_blocks := ?bl\<rparr>"
    have G: "na_core ?G \<and> in_use ?G = in_use A1 - {(b, i)} \<and> remaining ?G = remaining A1"
      by (rule core_give [OF A1(1)]) (use b False n in \<open>simp_all add: sel\<close>)
    have "na_core ?A' \<and> in_use ?A' = in_use ?G \<and> remaining ?A' = remaining ?G"
      by (rule core_reorder) (use G b(1) ok(2) in \<open>auto simp: sel\<close>)
    moreover have "na_sorted ?A'"
      by (rule sorted_give [OF sorted b(1) ok(2)]) (auto simp: full_def sel)
    moreover have "node_allocator_free A n = Done (?A', None)"
      using False by (auto simp: free sel Let_def full_def nb_eta intro!: NodeAllocator.equality)
    moreover have "na_id ?A' n = 0" by (simp add: sel)
    ultimately show ?thesis using G A1(2) last False n sel(6) by (auto simp: na_inv_def)
  qed
qed

theorem node_allocator_free_ok_witness:
  defines "A \<equiv> page_added (node_allocator_init 64 (\<lambda>_. 7)) 8192"
  shows "\<exists>A'. node_allocator_free A (8192, 62) = Done (A', Some 8192) \<and> na_inv A' \<and> in_use A' = {}"
proof -
  let ?I = "node_allocator_init 64 (\<lambda>_. 7)"
  have slots: "na_slots ?I = 63" by (simp add: node_allocator_init_def nodes_per_block_def)
  have "na_inv ?I" by (rule na_inv_init) (simp add: nodes_per_block_def)
  moreover have "na_blocks ?I = []" by (simp add: node_allocator_init_def)
  ultimately have "na_core A" "na_sorted A" "in_use A = insert (8192, 62) (in_use ?I)"
    using page_added_core [of ?I 8192] page_added_sorted [of ?I 8192] slots
    by (simp_all add: A_def na_inv_def)
  moreover have "in_use ?I = {}" by (simp add: in_use_def node_allocator_init_def)
  ultimately have "na_inv A" "in_use A = {(8192, 62)}" by (simp_all add: na_inv_def)
  with node_allocator_free_ok [of A "(8192, 62)"] show ?thesis by auto
qed

text \<open>
  C21: \<open>node_for_each\<close> runs its body on exactly the nodes with an identifier, block by block
  in the order of the list, once each, and comes to an end.
\<close>

theorem node_for_each_visits:
  assumes "na_inv A" and "length (all_live A) \<le> fuel"
  shows "node_for_each_from (node_allocator_dump_init A) fuel = all_live A
    \<and> distinct (all_live A) \<and> set (all_live A) = {n \<in> in_use A. na_id A n \<noteq> 0}"
proof (intro conjI)
  have inv: "0 < na_slots A" "distinct (na_dump_blocks A)" "set (na_blocks A) = set (na_dump_blocks A)"
    "\<forall>b \<in> set (na_blocks A). block_ok A b"
    using assms(1) by (simp_all add: na_inv_def na_core_def)
  let ?I = "node_allocator_dump_init A"
  have I: "remaining ?I = all_live A" "ptr_ok ?I"
    using dump_init_remaining [OF inv(2,1)] by simp_all
  have "na_dump_blocks ?I = na_dump_blocks A" by (simp add: node_allocator_dump_init_def Let_def)
  then show "node_for_each_from ?I fuel = all_live A"
    using node_for_each_remaining [OF I(2)] I(1) inv(2) assms(2) by simp
  show "distinct (all_live A)"
    using inv(2) distinct_nodes_from [of "na_dump_blocks A" "na_slots A" 0]
    by (cases "na_dump_blocks A") (auto simp: all_live_def block_nodes_def)
  show "set (all_live A) = {n \<in> in_use A. na_id A n \<noteq> 0}"
    using inv(3,4) by (auto simp: all_live_def in_use_def block_nodes_def block_ok_def image_iff)
qed

theorem node_for_each_visits_witness:
  defines "A \<equiv> (page_added (node_allocator_init 64 (\<lambda>_. 7)) 8192)\<lparr>na_id := (\<lambda>n. if n = (8192, 62) then 5 else 0)\<rparr>"
  shows "set (node_for_each_from (node_allocator_dump_init A) 100) = {n \<in> in_use A. na_id A n \<noteq> 0}"
proof -
  let ?I = "node_allocator_init 64 (\<lambda>_. 7)"
  let ?P = "page_added ?I 8192"
  have slots: "na_slots ?I = 63" by (simp add: node_allocator_init_def nodes_per_block_def)
  have "na_inv ?I" by (rule na_inv_init) (simp add: nodes_per_block_def)
  moreover have blocks: "na_blocks ?I = []" by (simp add: node_allocator_init_def)
  ultimately have P: "na_core ?P" "na_sorted ?P"
    using page_added_core [of ?I 8192] page_added_sorted [of ?I 8192] by (simp_all add: na_inv_def)
  have f: "nb_free (na_block ?P 8192) = rev [0..<62]" "na_dump_ptr ?P = None"
    using slots by (simp_all add: page_added_def node_allocator_init_def)
  have "na_inv A"
    using P f blocks
    by (auto simp: A_def na_inv_def na_core_def na_sorted_def block_ok_def ptr_ok_def full_def)
  moreover have "length (all_live A) \<le> 100"
  proof -
    have "length (all_live A) \<le> length (concat (map (block_nodes (na_slots A)) (na_dump_blocks A)))"
      unfolding all_live_def by (rule length_filter_le)
    then show ?thesis using slots by (simp add: A_def block_nodes_def node_allocator_init_def)
  qed
  ultimately show ?thesis using node_for_each_visits by simp
qed

end
