(* ===== verification/Database_Types.thy ===== *)
theory Database_Types
  imports Storage Allocators
begin

text \<open>
  The data the transaction layer works on: \<open>database.types/\<close> and the attribute types of
  \<open>attributes/defs.h\<close>. A node is a header and one cell per attribute; a cell holds the bytes
  of a number or a reference. Strings live in the blocks of the transactional allocator, a map
  from addresses to contents. The bit-fields of a log item keep their width.
\<close>

section \<open>Attribute types and schemas\<close>

datatype attr_type = Int8 | Int16 | Int32 | Int64 | UInt8 | UInt16 | UInt32 | UInt64
  | Float | Double | LDouble | String | RawString | Pointer

text \<open>The generated \<open>enum\<close> numbers the types in the order of \<open>defs.h\<close>.\<close>

fun attr_number :: "attr_type \<Rightarrow> nat" where
  "attr_number Int8 = 0" | "attr_number Int16 = 1" | "attr_number Int32 = 2" | "attr_number Int64 = 3"
| "attr_number UInt8 = 4" | "attr_number UInt16 = 5" | "attr_number UInt32 = 6" | "attr_number UInt64 = 7"
| "attr_number Float = 8" | "attr_number Double = 9" | "attr_number LDouble = 10"
| "attr_number String = 11" | "attr_number RawString = 12" | "attr_number Pointer = 13"

lemma attr_number_inj: "attr_number s = attr_number t \<longleftrightarrow> s = t"
  by (cases s; cases t) simp_all

lemma attr_number_less: "attr_number t < 14"
  by (cases t) simp_all

text \<open>The types are ordered as the \<open>enum\<close> orders them.\<close>

instantiation attr_type :: linorder
begin

definition less_eq_attr_type :: "attr_type \<Rightarrow> attr_type \<Rightarrow> bool" where
  "less_eq_attr_type s t \<longleftrightarrow> attr_number s \<le> attr_number t"

definition less_attr_type :: "attr_type \<Rightarrow> attr_type \<Rightarrow> bool" where
  "less_attr_type s t \<longleftrightarrow> attr_number s < attr_number t"

instance
  by standard (auto simp: less_eq_attr_type_def less_attr_type_def attr_number_inj)

end

fun attribute_size :: "attr_type \<Rightarrow> nat" where
  "attribute_size Int8 = 1" | "attribute_size Int16 = 2" | "attribute_size Int32 = 4" | "attribute_size Int64 = 8"
| "attribute_size UInt8 = 1" | "attribute_size UInt16 = 2" | "attribute_size UInt32 = 4" | "attribute_size UInt64 = 8"
| "attribute_size Float = 4" | "attribute_size Double = 8" | "attribute_size LDouble = 16"
| "attribute_size String = 8" | "attribute_size RawString = 8" | "attribute_size Pointer = 8"

text \<open>\<open>LogItem.size\<close> has 5 bits, \<open>LogItem.attr_type\<close> has 4: every size and every type fits.\<close>

lemma attribute_size_bits: "attribute_size t < 2 ^ 5"
  by (cases t) simp_all

lemma attr_number_bits: "attr_number t < 2 ^ 4"
  by (cases t) simp_all

record NodeAttribute =
  at_name :: "byte list"
  at_type :: attr_type

record NodeType =
  nt_name :: "byte list"
  nt_attributes :: "NodeAttribute list"

record DatabaseType =
  dt_name :: "byte list"
  dt_version :: "byte list"
  dt_node_types :: "NodeType list"

section \<open>Nodes\<close>

datatype cell = Bits "byte list" | Ref addr

record Node =
  n_ref_count :: u64
  n_id :: u64
  n_lock :: Lock
  n_type :: nat
  n_cells :: "cell list"

type_synonym tmem = "addr \<rightharpoonup> byte list"

section \<open>Transactions\<close>

datatype CommitType = CT_SYNC | CT_ASYNC | CT_FORCE_ASYNC

datatype CallbackEvent = CBE_NODE_CREATED | CBE_NODE_MODIFIED | CBE_NODE_DELETED | CBE_NODE_LOADED

fun cbe_number :: "CallbackEvent \<Rightarrow> u64" where
  "cbe_number CBE_NODE_CREATED = 0"
| "cbe_number CBE_NODE_MODIFIED = 1"
| "cbe_number CBE_NODE_DELETED = 2"
| "cbe_number CBE_NODE_LOADED = 3"

text \<open>
  A word of transactional memory: the reference counter of a node or a field of an index.
  A modified cell is recorded with its place (\<open>offset\<close>) and, in 8 bits, the index of the
  attribute.
\<close>

datatype location = Ref_count addr | Field addr

datatype LogItem =
    LI_TYPE_RAW location u64
  | LI_TYPE_NODE_MODIFY addr nat byte attr_type cell cell
  | LI_TYPE_NODE_ALLOC addr
  | LI_TYPE_NODE_DELETE addr
  | LI_TYPE_MEMORY_ALLOC addr
  | LI_TYPE_MEMORY_DELETE addr

text \<open>
  A nested transaction. \<open>tx_pos\<close> stands for the address of the log item that was on top when
  it began: the number of items in the log then, \<open>None\<close> for \<open>NULL\<close> (the log was empty).
\<close>

record Transaction =
  tx_read_set :: nat
  tx_pos :: "nat option"
  tx_acquired_locks :: nat
  tx_commit_type :: CommitType

text \<open>Which lock: that of a node or that of an index object.\<close>

datatype lock_ref = Node_lock addr | Obj_lock addr

text \<open>Stacks have their top in front; the read set is in the order of the reads.\<close>

record Handle =
  h_ptr :: u64
  h_start_time :: u64
  h_read_set :: "lock_ref list"
  h_transactions :: "Transaction list"
  h_log :: "LogItem list"
  h_commit_type :: CommitType
  h_acquired_locks :: "lock_ref list"

text \<open>
  The database. \<open>d_freed\<close> and \<open>d_nodes_freed\<close> are the calls of \<open>generic_allocator_free\<close> and
  \<open>node_allocator_free\<close> made so far; what those do is the business of \<open>Allocators\<close> and
  \<open>Node_Allocator\<close>, except that a freed node's identifier is cleared at once.
\<close>

record Database =
  d_type :: DatabaseType
  d_time :: u64
  d_node_id_counter :: u64
  d_nodes :: "addr \<Rightarrow> Node"
  d_fields :: "addr \<Rightarrow> u64"
  d_obj_locks :: "addr \<Rightarrow> Lock"
  d_tmem :: tmem
  d_freed :: "(addr \<times> u64) list"
  d_nodes_freed :: "(addr \<times> u64) list"

end
