(* ===== verification/Attributes.thy ===== *)
theory Attributes
  imports Database_Types
begin

text \<open>
  The attribute types of \<open>attributes/defs.h\<close>, with the default bodies \<open>attributes/generate.pl\<close>
  supplies where a type leaves one out: initialising, destroying, storing to disk and loading
  a cell. (Writing a cell is a transactional operation, see \<open>Transaction\<close>.) The abstract view
  of a cell is the value its disk encoding stands for.
\<close>

section \<open>Memory of the cells\<close>

text \<open>
  \<open>malloc\<close> answers requests given the blocks in use. A string is a block ending in a zero
  byte; \<open>strlen\<close> runs off a block without one. A \<open>struct RawString\<close> is a block with an
  8-byte length in front.
\<close>

type_synonym malloc = "tmem \<Rightarrow> u64 \<Rightarrow> addr option"

definition malloc_fresh :: "malloc \<Rightarrow> bool" where
  "malloc_fresh malloc \<longleftrightarrow> (\<forall>H n p. malloc H n = Some p \<longrightarrow> p \<noteq> 0 \<and> H p = None)"

definition tm_alloc :: "malloc \<Rightarrow> tmem \<Rightarrow> byte list \<Rightarrow> (addr \<times> tmem) outcome" where
  "tm_alloc malloc H bs =
    obind (generic_allocator_alloc (malloc H) (of_nat (length bs))) (\<lambda>p. Done (p, H(p \<mapsto> bs)))"

definition free_request :: "addr \<Rightarrow> u64 \<Rightarrow> (addr \<times> u64) list" where
  "free_request p time = (if p = 0 then [] else [(p, time)])"

definition deref :: "tmem \<Rightarrow> addr \<Rightarrow> byte list outcome" where
  "deref H p = (if p = 0 then Fault else case H p of None \<Rightarrow> Fault | Some bs \<Rightarrow> Done bs)"

definition c_string :: "byte list \<Rightarrow> byte list outcome" where
  "c_string bs = (if 0 \<in> set bs then Done (takeWhile (\<lambda>b. b \<noteq> 0) bs) else Fault)"

definition raw_block :: "byte list \<Rightarrow> byte list" where
  "raw_block bs = write_le 8 (of_nat (length bs) :: u64) @ bs"

definition raw_string :: "byte list \<Rightarrow> byte list outcome" where
  "raw_string block = (if length block < 8 then Fault
     else let len = unat (read_le 0 (take 8 block) :: u64) in
       if length block < 8 + len then Fault else Done (take len (drop 8 block)))"

lemma raw_string_block: "length bs < 2 ^ 64 \<Longrightarrow> raw_string (raw_block bs) = Done bs"
  by (simp add: raw_string_def raw_block_def read_le_write_le_full unat_of_nat_small)

lemma c_string_terminated: "0 \<notin> set bs \<Longrightarrow> c_string (bs @ [0]) = Done bs"
  by (auto simp: c_string_def takeWhile_append)

section \<open>Operations\<close>

definition attribute_init :: "attr_type \<Rightarrow> cell" where
  "attribute_init t = (if t \<in> {String, RawString, Pointer} then Ref 0
     else Bits (replicate (attribute_size t) 0))"

text \<open>The second result is the calls of \<open>generic_allocator_free\<close>. A string cell keeps its reference.\<close>

fun attribute_destroy :: "attr_type \<Rightarrow> u64 \<Rightarrow> cell \<Rightarrow> cell \<times> (addr \<times> u64) list" where
  "attribute_destroy String end_time (Ref p) = (Ref p, free_request p end_time)"
| "attribute_destroy RawString end_time (Ref p) = (Ref p, free_request p end_time)"
| "attribute_destroy t end_time c = (attribute_init t, [])"

text \<open>\<open>ids\<close> gives the identifier of the node at an address.\<close>

fun attribute_store :: "attr_type \<Rightarrow> tmem \<Rightarrow> (addr \<Rightarrow> u64) \<Rightarrow> Writer \<Rightarrow> cell \<Rightarrow> Writer outcome" where
  "attribute_store String H ids W (Ref p) =
    (if p = 0 then write_bytes W []
     else obind (deref H p) (\<lambda>bs. obind (c_string bs) (\<lambda>s. write_bytes W s)))"
| "attribute_store RawString H ids W (Ref p) =
    obind (deref H p) (\<lambda>block. obind (raw_string block) (\<lambda>bs.
    if bs \<noteq> [] then write_bytes W bs else write_number W 0))"
| "attribute_store Pointer H ids W (Ref p) = write_number W (if p \<noteq> 0 then ids p else 0)"
| "attribute_store t H ids W (Bits bs) =
    (if t \<in> {UInt8, UInt16, UInt32, UInt64} then write_number W (read_le 0 bs) else write_bytes W bs)"
| "attribute_store t H ids W c = Fault"

text \<open>
  A pointer is loaded as the identifier of its node; \<open>init_pointers\<close> replaces it later. The
  results are the cell, the memory and the calls of \<open>generic_allocator_free\<close>.
\<close>

definition cell_ref :: "cell \<Rightarrow> addr" where
  "cell_ref c = (case c of Ref p \<Rightarrow> p | Bits _ \<Rightarrow> 0)"

definition attribute_load :: "malloc \<Rightarrow> attr_type \<Rightarrow> tmem \<Rightarrow> cell \<Rightarrow> Reader
    \<Rightarrow> ((cell \<times> tmem \<times> (addr \<times> u64) list) \<times> Reader) outcome" where
  "attribute_load malloc t H c R =
    (if t = String then
       obind (read_string R) (\<lambda>(bs, R).
       obind (if bs \<noteq> [] then tm_alloc malloc H (bs @ [0]) else Done (0, H)) (\<lambda>(tmp, H).
       Done ((Ref tmp, H, free_request (cell_ref c) 0), R)))
     else if t = RawString then
       obind (read_string R) (\<lambda>(bs, R).
       obind (if bs \<noteq> [] then tm_alloc malloc H (raw_block bs) else Done (0, H)) (\<lambda>(tmp, H).
       Done ((Ref tmp, H, free_request (cell_ref c) 0), R)))
     else if t = Pointer then
       obind (read_number R) (\<lambda>(n, R). Done ((Ref n, H, []), R))
     else if t \<in> {UInt8, UInt16, UInt32, UInt64} then
       obind (read_number R) (\<lambda>(n, R). Done ((Bits (write_le (attribute_size t) n), H, []), R))
     else
       obind (read_string R) (\<lambda>(bs, R).
       obind (check (length bs = attribute_size t)) (\<lambda>_. Done ((Bits bs, H, []), R))))"

section \<open>What a cell stands for\<close>

datatype disk_value = DBytes "byte list" | DNum u64

fun enc_value :: "disk_value \<Rightarrow> byte list" where
  "enc_value (DBytes bs) = enc_string bs"
| "enc_value (DNum n) = enc_number n"

text \<open>
  The values an attribute of a type can have on disk: strings hold no zero byte, numbers fit.
\<close>

fun value_ok :: "attr_type \<Rightarrow> disk_value \<Rightarrow> bool" where
  "value_ok String (DBytes bs) \<longleftrightarrow> 0 \<notin> set bs \<and> length bs < 2 ^ 60"
| "value_ok RawString (DBytes bs) \<longleftrightarrow> length bs < 2 ^ 60"
| "value_ok Pointer (DNum n) \<longleftrightarrow> True"
| "value_ok t (DNum n) \<longleftrightarrow> t \<in> {UInt8, UInt16, UInt32, UInt64} \<and> unat n < 2 ^ (8 * attribute_size t)"
| "value_ok t (DBytes bs) \<longleftrightarrow> t \<in> {Int8, Int16, Int32, Int64, Float, Double, LDouble} \<and> length bs = attribute_size t"

text \<open>The value of a cell, \<open>None\<close> where storing it goes wrong.\<close>

fun cell_value :: "attr_type \<Rightarrow> tmem \<Rightarrow> (addr \<Rightarrow> u64) \<Rightarrow> cell \<Rightarrow> disk_value option" where
  "cell_value String H ids (Ref p) = (if p = 0 then Some (DBytes [])
     else case obind (deref H p) c_string of Done s \<Rightarrow> Some (DBytes s) | _ \<Rightarrow> None)"
| "cell_value RawString H ids (Ref p) =
    (case obind (deref H p) raw_string of Done bs \<Rightarrow> Some (DBytes bs) | _ \<Rightarrow> None)"
| "cell_value Pointer H ids (Ref p) = Some (DNum (if p \<noteq> 0 then ids p else 0))"
| "cell_value t H ids (Bits bs) = Some (if t \<in> {UInt8, UInt16, UInt32, UInt64} then DNum (read_le 0 bs) else DBytes bs)"
| "cell_value t H ids c = None"

lemma enc_string_Nil: "enc_string [] = enc_number 0"
  by (simp add: enc_string_def enc_number_def num_bytes.simps len_code_small st_defs)

lemma value_ok_length: "value_ok t (DBytes bs) \<Longrightarrow> length bs < 2 ^ 60"
  by (cases t) auto

text \<open>Storing a cell appends the encoding of its value.\<close>

lemma attribute_store_ok:
  assumes "cell_value t H ids c = Some v" and "value_ok t v" and "w_inv W"
  shows "\<exists>W'. attribute_store t H ids W c = Done W' \<and> w_appends W (enc_value v) 0 W'"
proof -
  have s: "\<exists>W'. write_bytes W bs = Done W' \<and> w_appends W (enc_string bs) 0 W'" if "length bs < 2 ^ 60" for bs
    by (rule write_bytes_ok [OF assms(3)]) (use that in simp)
  note n = write_number_ok [OF assms(3)]
  have raw: "\<exists>W'. (if bs \<noteq> [] then write_bytes W bs else write_number W 0) = Done W'
      \<and> w_appends W (enc_string bs) 0 W'" if "length bs < 2 ^ 60" for bs
    using s [OF that] n [of 0] enc_string_Nil by auto
  show ?thesis
  proof (cases "\<exists>p. t = RawString \<and> c = Ref p")
    case True
    then obtain p where t: "t = RawString" "c = Ref p" by blast
    with assms(1,2) obtain block bs where "deref H p = Done block" "raw_string block = Done bs"
      "v = DBytes bs" "length bs < 2 ^ 60"
      by (cases "deref H p") (auto split: outcome.splits)
    with raw [of bs] t show ?thesis by simp
  next
    case False
    then show ?thesis
      using assms(1,2) value_ok_length [of t] s [of "[]"] s n
      by (cases "(t, H, ids, c)" rule: cell_value.cases)
        (auto simp: obind_eq_Done split: if_splits outcome.splits)
  qed
qed

text \<open>
  Loading the encoding of a value leaves a cell that stands for it: the strings in fresh
  blocks, an empty string as a null reference, a pointer as the identifier itself.
\<close>

definition loaded :: "attr_type \<Rightarrow> tmem \<Rightarrow> disk_value \<Rightarrow> cell \<Rightarrow> bool" where
  "loaded t H v c \<longleftrightarrow> (case v of
      DNum n \<Rightarrow> (if t = Pointer then c = Ref n else \<exists>bs. c = Bits bs \<and> read_le 0 bs = n)
    | DBytes bs \<Rightarrow> (if t = String then (if bs = [] then c = Ref 0
          else \<exists>p. c = Ref p \<and> p \<noteq> 0 \<and> H p = Some (bs @ [0]))
        else if t = RawString then (if bs = [] then c = Ref 0
          else \<exists>p. c = Ref p \<and> p \<noteq> 0 \<and> H p = Some (raw_block bs))
        else c = Bits bs))"

text \<open>Memory only grows while the database is loaded.\<close>

definition grows :: "tmem \<Rightarrow> tmem \<Rightarrow> bool" where
  "grows H H' \<longleftrightarrow> (\<forall>p bs. H p = Some bs \<longrightarrow> H' p = Some bs)"

lemma grows_refl [simp]: "grows H H"
  by (simp add: grows_def)

lemma grows_trans: "grows H H' \<Longrightarrow> grows H' H'' \<Longrightarrow> grows H H''"
  by (simp add: grows_def)

lemma loaded_grows: "loaded t H v c \<Longrightarrow> grows H H' \<Longrightarrow> loaded t H' v c"
  by (auto simp: loaded_def grows_def split: disk_value.splits if_splits)

text \<open>Enough memory for \<open>k\<close> more blocks: each request is granted, with a fresh block.\<close>

primrec room :: "malloc \<Rightarrow> nat \<Rightarrow> tmem \<Rightarrow> bool" where
  "room malloc 0 H \<longleftrightarrow> True"
| "room malloc (Suc k) H \<longleftrightarrow> (\<forall>n. \<exists>p. malloc H n = Some p \<and> p \<noteq> 0 \<and> H p = None
     \<and> (\<forall>bs. room malloc k (H(p \<mapsto> bs))))"

lemma room_Suc: "room malloc (Suc k) H \<Longrightarrow> room malloc k H"
proof (induction k arbitrary: H)
  case 0
  then show ?case by simp
next
  case (Suc k)
  then show ?case by (subst room.simps) (metis room.simps(2))
qed

lemma room_mono: "room malloc k H \<Longrightarrow> j \<le> k \<Longrightarrow> room malloc j H"
  by (induction k) (auto simp: le_Suc_eq dest: room_Suc simp del: room.simps)

lemma tm_alloc_ok:
  assumes "room malloc (Suc k) H"
  shows "\<exists>p. tm_alloc malloc H bs = Done (p, H(p \<mapsto> bs)) \<and> p \<noteq> 0 \<and> grows H (H(p \<mapsto> bs))
    \<and> room malloc k (H(p \<mapsto> bs))"
proof -
  define n where "n = (if of_nat (length bs) < (16 :: u64) then 16 else of_nat (length bs) :: u64)"
  have "\<exists>p. malloc H n = Some p \<and> p \<noteq> 0 \<and> H p = None \<and> room malloc k (H(p \<mapsto> bs))"
    using assms by (simp only: room.simps) blast
  then obtain p where p: "malloc H n = Some p" "p \<noteq> 0" "H p = None" "room malloc k (H(p \<mapsto> bs))" by blast
  have "generic_allocator_alloc (malloc H) (of_nat (length bs)) = Done p"
    using p(1) by (simp add: generic_allocator_alloc_def Let_def flip: n_def)
  with p(2-4) show ?thesis by (simp add: tm_alloc_def grows_def)
qed

lemma read_le_write_le_small:
  assumes "unat (n :: u64) < 2 ^ (8 * k)"
  shows "read_le 0 (write_le k n) = n"
proof (rule read_le_write_le)
  have "unat (drop_bit (8 * k) n) = unat n div 2 ^ (8 * k)"
    by (simp only: unat_drop_bit_eq) (simp only: drop_bit_eq_div)
  also have "\<dots> = 0" using assms by simp
  finally show "drop_bit (8 * k) n = 0" by (simp add: unat_eq_zero)
qed

lemma attribute_load_ok:
  assumes "room malloc (Suc k) H" and "value_ok t v" and "r_ok R" and "r_rest R = enc_value v @ cs"
  shows "\<exists>c' H' fr. attribute_load malloc t H c R = Done ((c', H', fr), r_advance R (length (enc_value v)) 0)
    \<and> loaded t H' v c' \<and> grows H H' \<and> room malloc k H'"
proof (cases v)
  case (DNum n)
  then have "read_number R = Done (n, r_advance R (length (enc_number n)) 0)"
    using read_number_ok [OF assms(3)] assms(4) by simp
  moreover have "t = Pointer \<or> t \<in> {UInt8, UInt16, UInt32, UInt64} \<and> unat n < 2 ^ (8 * attribute_size t)"
    using assms(2) DNum by (cases t) auto
  ultimately show ?thesis
    using DNum read_le_write_le_small [of n "attribute_size t"] room_Suc [OF assms(1)]
    by (auto simp: attribute_load_def loaded_def)
next
  case (DBytes bs)
  then have rd: "read_string R = Done (bs, r_advance R (length (enc_string bs)) 0)"
    using read_string_ok [OF assms(3)] assms(4) by simp
  obtain p where p: "tm_alloc malloc H (bs @ [0]) = Done (p, H(p \<mapsto> bs @ [0]))" "p \<noteq> 0" "grows H (H(p \<mapsto> bs @ [0]))" "room malloc k (H(p \<mapsto> bs @ [0]))"
    using tm_alloc_ok [OF assms(1)] by blast
  obtain q where q: "tm_alloc malloc H (raw_block bs) = Done (q, H(q \<mapsto> raw_block bs))" "q \<noteq> 0" "grows H (H(q \<mapsto> raw_block bs))" "room malloc k (H(q \<mapsto> raw_block bs))"
    using tm_alloc_ok [OF assms(1)] by blast
  have "t = String \<or> t = RawString \<or> t \<notin> {String, RawString, Pointer, UInt8, UInt16, UInt32, UInt64} \<and> length bs = attribute_size t"
    using assms(2) DBytes by (cases t) auto
  then show ?thesis
    using DBytes rd p q room_Suc [OF assms(1)] by (auto simp: attribute_load_def loaded_def)
qed

lemma loaded_value:
  assumes "loaded t H v c" and "value_ok t v"
  shows "cell_value t H (\<lambda>p. p) c = (if t = RawString \<and> v = DBytes [] then None else Some v)"
proof (cases v)
  case (DNum n)
  with assms show ?thesis by (cases t) (auto simp: loaded_def)
next
  case (DBytes bs)
  then have "length bs < 2 ^ 64" using value_ok_length [of t bs] assms(2) by simp
  with assms DBytes show ?thesis
    by (cases t) (auto simp: loaded_def deref_def raw_string_block c_string_terminated split: if_splits)
qed

text \<open>
  C22: a cell of any type goes to disk and back: storing it appends the encoding of its value,
  and loading that encoding, at the same type and anywhere in an element, succeeds and leaves
  a cell of the same value -- except that an empty \<open>RawString\<close> comes back as a null
  reference, which cannot be stored again: \<open>Store\<close> of a \<open>RawString\<close> looks behind the
  reference without testing it, as it does for one never written.
\<close>

theorem attribute_roundtrip:
  assumes "cell_value t H ids c = Some v" and "value_ok t v" and "w_inv W"
  shows "\<exists>W'. attribute_store t H ids W c = Done W' \<and> w_cur W' = w_cur W @ enc_value v
    \<and> (\<forall>R rest H1 c1. r_ok R \<and> r_rest R = enc_value v @ rest \<and> room malloc 1 H1 \<longrightarrow>
        (\<exists>c' H' fr. attribute_load malloc t H1 c1 R = Done ((c', H', fr), r_advance R (length (enc_value v)) 0)
          \<and> cell_value t H' (\<lambda>p. p) c' = (if t = RawString \<and> v = DBytes [] then None else Some v)))
    \<and> attribute_store RawString H ids W (attribute_init RawString) = Fault"
proof -
  obtain W' where W': "attribute_store t H ids W c = Done W'" "w_appends W (enc_value v) 0 W'"
    using attribute_store_ok [OF assms(1-3)] by blast
  have "\<exists>c' H' fr. attribute_load malloc t H1 c1 R = Done ((c', H', fr), r_advance R (length (enc_value v)) 0)
      \<and> cell_value t H' (\<lambda>p. p) c' = (if t = RawString \<and> v = DBytes [] then None else Some v)"
    if "r_ok R" "r_rest R = enc_value v @ rest" "room malloc 1 H1" for R rest H1 c1
    using attribute_load_ok [of malloc 0 H1 t v R rest c1] that assms(2) loaded_value [OF _ assms(2)]
    by (simp only: One_nat_def) blast
  moreover have "attribute_store RawString H ids W (attribute_init RawString) = Fault"
    by (simp add: attribute_init_def deref_def)
  ultimately show ?thesis using W' by (auto simp: w_appends_def)
qed

theorem attribute_roundtrip_witness:
  "\<exists>W'. attribute_store UInt16 Map.empty id (writer_init (\<lambda>_. 0)) (Bits [1, 2]) = Done W'
     \<and> w_cur W' = enc_number 513"
proof -
  have v: "cell_value UInt16 Map.empty id (Bits [1, 2]) = Some (DNum 513)" by (simp add: read_le_def)
  have v': "value_ok UInt16 (DNum 513)" by simp
  have "\<exists>W'. attribute_store UInt16 Map.empty id (writer_init (\<lambda>_. 0)) (Bits [1, 2]) = Done W'
      \<and> w_cur W' = w_cur (writer_init (\<lambda>_. 0)) @ enc_value (DNum 513)"
    using attribute_roundtrip [OF v v' w_inv_writer_init] by blast
  moreover have "w_cur (writer_init (\<lambda>_. 0)) = []"
    by (simp add: w_cur_def writer_init_def)
  ultimately show ?thesis by (simp only: enc_value.simps append_Nil)
qed

end
