(* ===== verification/Transaction.thy ===== *)
theory Transaction
  imports Attributes Lock
begin

text \<open>
  The operations of a transaction: \<open>database.include/inline.h\<close>, \<open>transaction.c\<close>, \<open>node.c\<close>,
  \<open>handle.c\<close>, the access macros of \<open>macros.h\<close>, \<open>util_lock\<close> of \<open>utils/utils.h\<close> and the
  \<open>Write\<close> bodies of \<open>attributes/defs.h\<close>. How transactions interleave is the business of
  \<open>Stm\<close>; here one session, a handle and the database it works on, runs its operations one
  after the other, with all their bookkeeping: the log, the read set, the locks, reference
  counts, strings, nested transactions. \<open>Fault\<close> stands for a failed assertion or an access
  through a null pointer.
\<close>

type_synonym session = "Handle \<times> Database"

section \<open>Locking\<close>

fun lock_addr :: "lock_ref \<Rightarrow> addr" where
  "lock_addr (Node_lock n) = n"
| "lock_addr (Obj_lock p) = p"

fun get_lock :: "Database \<Rightarrow> lock_ref \<Rightarrow> Lock" where
  "get_lock D (Node_lock n) = n_lock (d_nodes D n)"
| "get_lock D (Obj_lock p) = d_obj_locks D p"

fun set_lock :: "lock_ref \<Rightarrow> Lock \<Rightarrow> Database \<Rightarrow> Database" where
  "set_lock (Node_lock n) l D = D\<lparr>d_nodes := (d_nodes D)(n := (d_nodes D n)\<lparr>n_lock := l\<rparr>)\<rparr>"
| "set_lock (Obj_lock p) l D = D\<lparr>d_obj_locks := (d_obj_locks D)(p := l)\<rparr>"

definition util_lock :: "lock_ref \<Rightarrow> session \<Rightarrow> (bool \<times> session) outcome" where
  "util_lock r = (\<lambda>(H, D).
    if lock_addr r = 0 then Fault
    else (case l_lock (get_lock D r) (h_ptr H) (h_start_time H) of (res, l) \<Rightarrow>
      if res = 0 then Done (False, H, D)
      else if res = 1 then Done (True, H\<lparr>h_acquired_locks := r # h_acquired_locks H\<rparr>, set_lock r l D)
      else Done (True, H, set_lock r l D)))"

text \<open>\<open>if (!f) return false; g\<close>.\<close>

definition and_then :: "(bool \<times> session) outcome \<Rightarrow> (session \<Rightarrow> (bool \<times> session) outcome) \<Rightarrow> (bool \<times> session) outcome" where
  "and_then m f = obind m (\<lambda>(ok, s). if ok then f s else Done (False, s))"

definition lock_check :: "lock_ref \<Rightarrow> session \<Rightarrow> bool" where
  "lock_check r = (\<lambda>(H, D). l_check (get_lock D r) (h_ptr H) (h_start_time H))"

section \<open>Log and memory\<close>

definition push_log :: "LogItem \<Rightarrow> session \<Rightarrow> session" where
  "push_log x = (\<lambda>(H, D). (H\<lparr>h_log := x # h_log H\<rparr>, D))"

fun read_loc :: "Database \<Rightarrow> location \<Rightarrow> u64" where
  "read_loc D (Ref_count n) = n_ref_count (d_nodes D n)"
| "read_loc D (Field p) = d_fields D p"

fun write_loc :: "location \<Rightarrow> u64 \<Rightarrow> Database \<Rightarrow> Database" where
  "write_loc (Ref_count n) v D = D\<lparr>d_nodes := (d_nodes D)(n := (d_nodes D n)\<lparr>n_ref_count := v\<rparr>)\<rparr>"
| "write_loc (Field p) v D = D\<lparr>d_fields := (d_fields D)(p := v)\<rparr>"

text \<open>
  The attribute array of a descriptor ends with an empty entry, whose type is 0 (\<open>Int8\<close>)
  and whose offset is 0: the cell with the number \<open>attributes_count\<close> is the low byte of the
  reference counter.
\<close>

definition get_cell :: "Node \<Rightarrow> nat \<Rightarrow> cell" where
  "get_cell N i = (if i < length (n_cells N) then n_cells N ! i else Bits [ucast (n_ref_count N)])"

definition set_cell :: "nat \<Rightarrow> cell \<Rightarrow> Node \<Rightarrow> Node" where
  "set_cell i c N = (if i < length (n_cells N) then N\<lparr>n_cells := (n_cells N)[i := c]\<rparr>
     else (case c of
         Bits [b] \<Rightarrow> N\<lparr>n_ref_count := (n_ref_count N AND NOT 0xFF) OR ucast b\<rparr>
       | _ \<Rightarrow> N))"

definition upd_node :: "addr \<Rightarrow> (Node \<Rightarrow> Node) \<Rightarrow> Database \<Rightarrow> Database" where
  "upd_node n f D = D\<lparr>d_nodes := (d_nodes D)(n := f (d_nodes D n))\<rparr>"

definition node_get_type :: "Database \<Rightarrow> addr \<Rightarrow> NodeType" where
  "node_get_type D n = dt_node_types (d_type D) ! n_type (d_nodes D n)"

definition attr_types :: "NodeType \<Rightarrow> attr_type list" where
  "attr_types T = map at_type (nt_attributes T)"

definition trMemoryInternalWrite :: "location \<Rightarrow> u64 \<Rightarrow> session \<Rightarrow> session" where
  "trMemoryInternalWrite loc v = (\<lambda>(H, D).
    push_log (LI_TYPE_RAW loc (read_loc D loc)) (H, write_loc loc v D))"

definition tr_memory_alloc :: "malloc \<Rightarrow> byte list \<Rightarrow> session \<Rightarrow> (addr \<times> session) outcome" where
  "tr_memory_alloc malloc bs = (\<lambda>(H, D).
    obind (tm_alloc malloc (d_tmem D) bs) (\<lambda>(p, M).
    Done (p, push_log (LI_TYPE_MEMORY_ALLOC p) (H, D\<lparr>d_tmem := M\<rparr>))))"

definition tr_memory_free :: "addr \<Rightarrow> session \<Rightarrow> session" where
  "tr_memory_free p = push_log (LI_TYPE_MEMORY_DELETE p)"

section \<open>Reference counts\<close>

definition node_ref_count_increase :: "addr \<Rightarrow> session \<Rightarrow> (bool \<times> session) outcome" where
  "node_ref_count_increase n s = and_then (util_lock (Node_lock n) s) (\<lambda>s.
    Done (True, trMemoryInternalWrite (Ref_count n) (n_ref_count (d_nodes (snd s) n) + 1) s))"

definition node_ref_count_decrease :: "addr \<Rightarrow> session \<Rightarrow> (bool \<times> session) outcome" where
  "node_ref_count_decrease n s = and_then (util_lock (Node_lock n) s) (\<lambda>s.
    obind (c_assert (n_ref_count (d_nodes (snd s) n) > 0)) (\<lambda>_.
    Done (True, trMemoryInternalWrite (Ref_count n) (n_ref_count (d_nodes (snd s) n) - 1) s)))"

section \<open>Writing attributes\<close>

text \<open>
  What the caller's \<open>value\<close> points to: the bytes of a number, a character pointer (the block
  it points to), a \<open>struct RawString\<close> pointer together with the bytes stored where the
  pointer variable itself lies, a node.
\<close>

datatype attr_value = VBits "byte list" | VString "byte list option"
  | VRaw "byte list option" "byte list" | VNode addr

definition put_cell :: "addr \<Rightarrow> nat \<Rightarrow> cell \<Rightarrow> session \<Rightarrow> session" where
  "put_cell n i c = (\<lambda>(H, D). (H, upd_node n (set_cell i c) D))"

text \<open>
  The \<open>Write\<close> bodies. \<open>RawString\<close> copies from \<open>value\<close> instead of \<open>*value\<close>: the new block
  receives what lies around the pointer variable. \<open>Pointer\<close> tests \<open>value\<close>, which is
  never null, instead of \<open>*value\<close>.
\<close>

definition attribute_write ::
  "malloc \<Rightarrow> attr_type \<Rightarrow> addr \<Rightarrow> nat \<Rightarrow> attr_value \<Rightarrow> session \<Rightarrow> (bool \<times> session) outcome" where
  "attribute_write malloc t n i v s =
    (let old = cell_ref (get_cell (d_nodes (snd s) n) i) in
    if t = String then
      (case v of VString str \<Rightarrow>
        let s = tr_memory_free old s in
        (case str of
          Some block \<Rightarrow>
            obind (c_string block) (\<lambda>str.
            obind (tr_memory_alloc malloc (str @ [0]) s) (\<lambda>(tmp, s).
            Done (True, put_cell n i (Ref tmp) s)))
        | None \<Rightarrow> Done (True, put_cell n i (Ref 0) s))
      | _ \<Rightarrow> Fault)
    else if t = RawString then
      (case v of VRaw str around \<Rightarrow>
        let s = tr_memory_free old s in
        (case str of
          Some bs \<Rightarrow>
            if length around < 8 + length bs then Fault
            else obind (tr_memory_alloc malloc (take (8 + length bs) around) s) (\<lambda>(tmp, s).
            Done (True, put_cell n i (Ref tmp) s))
        | None \<Rightarrow> Done (True, put_cell n i (Ref 0) s))
      | _ \<Rightarrow> Fault)
    else if t = Pointer then
      (case v of VNode m \<Rightarrow>
        and_then (if old \<noteq> 0 then node_ref_count_decrease old s else Done (True, s)) (\<lambda>s.
        and_then (node_ref_count_increase m s) (\<lambda>s.
        Done (True, put_cell n i (Ref m) s)))
      | _ \<Rightarrow> Fault)
    else
      (case v of VBits bs \<Rightarrow>
        if length bs = attribute_size t then Done (True, put_cell n i (Bits bs) s) else Fault
      | _ \<Rightarrow> Fault))"

definition is_primitive :: "attr_type \<Rightarrow> bool" where
  "is_primitive t \<longleftrightarrow> t \<notin> {String, RawString, Pointer}"

text \<open>\<open>trInternalWrite_\<close>: the attribute is named; naming one the type lacks does not compile.\<close>

definition trInternalWrite ::
  "malloc \<Rightarrow> addr \<Rightarrow> nat \<Rightarrow> attr_value \<Rightarrow> session \<Rightarrow> (bool \<times> session) outcome" where
  "trInternalWrite malloc n i v s =
    (if n = 0 \<or> length (n_cells (d_nodes (snd s) n)) \<le> i then Fault
     else let t = attr_types (node_get_type (snd s) n) ! i; old = get_cell (d_nodes (snd s) n) i in
      if is_primitive t then
        (case v of VBits bs \<Rightarrow>
          if length bs = attribute_size t
          then Done (True, push_log (LI_TYPE_NODE_MODIFY n i (of_nat i) t old (Bits bs)) (put_cell n i (Bits bs) s))
          else Fault
        | _ \<Rightarrow> Fault)
      else
        obind (attribute_write malloc t n i v s) (\<lambda>(ret, s).
        Done (ret, push_log (LI_TYPE_NODE_MODIFY n i (of_nat i) t old (get_cell (d_nodes (snd s) n) i)) s)))"

definition trWrite ::
  "malloc \<Rightarrow> addr \<Rightarrow> nat \<Rightarrow> attr_value \<Rightarrow> session \<Rightarrow> (bool \<times> session) outcome" where
  "trWrite malloc n i v s =
    and_then (util_lock (Node_lock n) s) (trInternalWrite malloc n i v)"

section \<open>Reading\<close>

definition readSetAdd :: "lock_ref \<Rightarrow> session \<Rightarrow> session" where
  "readSetAdd r = (\<lambda>(H, D). (H\<lparr>h_read_set := h_read_set H @ [r]\<rparr>, D))"

definition trInternalRead :: "addr \<Rightarrow> nat \<Rightarrow> session \<Rightarrow> cell outcome" where
  "trInternalRead n i s = (if n = 0 then Fault else Done (get_cell (d_nodes (snd s) n) i))"

definition trUncheckedRead :: "addr \<Rightarrow> nat \<Rightarrow> session \<Rightarrow> (cell \<times> session) outcome" where
  "trUncheckedRead n i s =
    (let s = readSetAdd (Node_lock n) s in obind (trInternalRead n i s) (\<lambda>c. Done (c, s)))"

text \<open>The first component of the result is \<open>None\<close> where the macro goes to \<open>trFail\<close>.\<close>

definition trRead :: "addr \<Rightarrow> nat \<Rightarrow> session \<Rightarrow> (cell option \<times> session) outcome" where
  "trRead n i s =
    (let s = readSetAdd (Node_lock n) s in
     obind (trInternalRead n i s) (\<lambda>ret.
     Done (if lock_check (Node_lock n) s then Some ret else None, s)))"

definition trMemoryUncheckedRead :: "addr \<Rightarrow> addr \<Rightarrow> session \<Rightarrow> (u64 \<times> session) outcome" where
  "trMemoryUncheckedRead obj p s =
    (let s = readSetAdd (Obj_lock obj) s in
     if obj = 0 then Fault else Done (d_fields (snd s) p, s))"

definition trMemoryRead :: "addr \<Rightarrow> addr \<Rightarrow> session \<Rightarrow> (u64 option \<times> session) outcome" where
  "trMemoryRead obj p s =
    (let s = readSetAdd (Obj_lock obj) s in
     if obj = 0 then Fault
     else let ret = d_fields (snd s) p in
       Done (if lock_check (Obj_lock obj) s then Some ret else None, s))"

definition trMemoryWrite :: "addr \<Rightarrow> addr \<Rightarrow> u64 \<Rightarrow> session \<Rightarrow> (bool \<times> session) outcome" where
  "trMemoryWrite obj p v s =
    and_then (util_lock (Obj_lock obj) s) (\<lambda>s. Done (True, trMemoryInternalWrite (Field p) v s))"

definition tr_validate :: "session \<Rightarrow> bool" where
  "tr_validate s = list_all (\<lambda>r. lock_check r s) (h_read_set (fst s))"

section \<open>Rollback\<close>

text \<open>\<open>type->destroy\<close>: the destructors of the attributes, in order.\<close>

definition node_destroy :: "Database \<Rightarrow> addr \<Rightarrow> u64 \<Rightarrow> cell list \<times> (addr \<times> u64) list" where
  "node_destroy D n end_time =
    (let r = map (\<lambda>(t, c). attribute_destroy t end_time c)
               (zip (attr_types (node_get_type D n)) (n_cells (d_nodes D n)))
     in (map fst r, concat (map snd r)))"

text \<open>Destroying a node and returning it to its allocator, which clears its identifier.\<close>

definition node_free :: "addr \<Rightarrow> u64 \<Rightarrow> Database \<Rightarrow> Database" where
  "node_free n end_time D = (upd_node n (\<lambda>N. N\<lparr>n_id := 0\<rparr>) D)\<lparr>d_nodes_freed := (n, end_time) # d_nodes_freed D\<rparr>"

definition node_destroy_free :: "addr \<Rightarrow> u64 \<Rightarrow> Database \<Rightarrow> Database" where
  "node_destroy_free n end_time D =
    (case node_destroy D n end_time of (cs, fr) \<Rightarrow>
      node_free n end_time ((upd_node n (\<lambda>N. N\<lparr>n_cells := cs\<rparr>) D)\<lparr>d_freed := rev fr @ d_freed D\<rparr>))"

fun log_undo_item :: "u64 \<Rightarrow> LogItem \<Rightarrow> Database \<Rightarrow> Database" where
  "log_undo_item end_time (LI_TYPE_RAW loc old) D = write_loc loc old D"
| "log_undo_item end_time (LI_TYPE_NODE_MODIFY n i index t old new) D = upd_node n (set_cell i old) D"
| "log_undo_item end_time (LI_TYPE_NODE_ALLOC n) D = node_destroy_free n end_time D"
| "log_undo_item end_time (LI_TYPE_MEMORY_ALLOC p) D = D\<lparr>d_freed := free_request p end_time @ d_freed D\<rparr>"
| "log_undo_item end_time (LI_TYPE_NODE_DELETE n) D = D"
| "log_undo_item end_time (LI_TYPE_MEMORY_DELETE p) D = D"

text \<open>
  \<open>while (&fstack_top(log) != pos) { undo; pop }\<close>: looking for a position that is not in the
  log runs off the stack.
\<close>

fun rollback_log :: "nat option \<Rightarrow> u64 \<Rightarrow> LogItem list \<Rightarrow> Database \<Rightarrow> (LogItem list \<times> Database) outcome" where
  "rollback_log None end_time [] D = Done ([], D)"
| "rollback_log (Some k) end_time [] D = Fault"
| "rollback_log pos end_time (x # log) D =
    (if pos = Some (length (x # log)) then Done (x # log, D)
     else rollback_log pos end_time log (log_undo_item end_time x D))"

definition tr_handle_rollback :: "Transaction \<Rightarrow> session \<Rightarrow> session outcome" where
  "tr_handle_rollback tr = (\<lambda>(H, D).
    let H = H\<lparr>h_read_set := take (tx_read_set tr) (h_read_set H)\<rparr> in
    obind (rollback_log (tx_pos tr) (d_time D) (h_log H) D) (\<lambda>(log, D).
    Done (H\<lparr>h_log := log, h_commit_type := tx_commit_type tr\<rparr>, D)))"

section \<open>Beginning and ending transactions\<close>

definition tr_is_main :: "session \<Rightarrow> bool" where
  "tr_is_main s \<longleftrightarrow> h_transactions (fst s) = []"

definition tr_begin :: "session \<Rightarrow> session" where
  "tr_begin = (\<lambda>(H, D).
    if h_start_time H \<noteq> 0 then
      let nt = \<lparr>tx_read_set = length (h_read_set H),
                tx_pos = (if h_log H = [] then None else Some (length (h_log H))),
                tx_acquired_locks = length (h_acquired_locks H),
                tx_commit_type = h_commit_type H\<rparr>
      in (H\<lparr>h_transactions := nt # h_transactions H\<rparr>, D)
    else (H\<lparr>h_start_time := d_time D\<rparr>, D))"

text \<open>\<open>while (!stack_empty(acquired_locks)) l_unlock(stack_pop(acquired_locks), H, ver)\<close>.\<close>

fun unlock_all :: "u64 \<Rightarrow> u64 \<Rightarrow> lock_ref list \<Rightarrow> Database \<Rightarrow> Database" where
  "unlock_all ptr ver [] D = D"
| "unlock_all ptr ver (r # rs) D = unlock_all ptr ver rs (set_lock r (snd (l_unlock (get_lock D r) ptr ver)) D)"

definition tr_unlock :: "u64 \<Rightarrow> session \<Rightarrow> session" where
  "tr_unlock ver = (\<lambda>(H, D).
    (H\<lparr>h_acquired_locks := []\<rparr>, unlock_all (h_ptr H) ver (h_acquired_locks H) D))"

definition handle_cleanup :: "Handle \<Rightarrow> Handle" where
  "handle_cleanup H = H\<lparr>h_start_time := 0, h_read_set := [], h_acquired_locks := [],
     h_transactions := [], h_log := [], h_commit_type := CT_ASYNC\<rparr>"

definition tr_abort_main :: "session \<Rightarrow> session outcome" where
  "tr_abort_main s =
    obind (tr_handle_rollback \<lparr>tx_read_set = 0, tx_pos = None, tx_acquired_locks = 0, tx_commit_type = CT_ASYNC\<rparr> s)
    (\<lambda>(H, D).
    case atomic_add_and_fetch (d_time D) 2 of (end_time, t) \<Rightarrow>
    case tr_unlock end_time (H, D\<lparr>d_time := t\<rparr>) of (H, D) \<Rightarrow>
    Done (handle_cleanup H, D))"

definition tr_hard_abort :: "session \<Rightarrow> session outcome" where
  "tr_hard_abort s = tr_abort_main s"

definition tr_abort :: "session \<Rightarrow> session outcome" where
  "tr_abort s =
    (case h_transactions (fst s) of
      [] \<Rightarrow> tr_abort_main s
    | tr # rest \<Rightarrow>
       obind (tr_handle_rollback tr s) (\<lambda>(H, D). Done (H\<lparr>h_transactions := tl (h_transactions H)\<rparr>, D)))"

text \<open>\<open>tr_commit\<close> of a nested transaction; the main one is committed in \<open>Commit\<close>.\<close>

definition tr_commit_nested :: "CommitType \<Rightarrow> session \<Rightarrow> session" where
  "tr_commit_nested ct = (\<lambda>(H, D).
    let H = H\<lparr>h_transactions := tl (h_transactions H)\<rparr> in
    (case ct of
      CT_SYNC \<Rightarrow> H\<lparr>h_commit_type := CT_SYNC\<rparr>
    | CT_FORCE_ASYNC \<Rightarrow> H\<lparr>h_commit_type := CT_ASYNC\<rparr>
    | CT_ASYNC \<Rightarrow> H, D))"

section \<open>Nodes\<close>

text \<open>
  \<open>update_indexes\<close> is the callback of the generated database type: it informs the indexes of
  an event. A type is named by its position in the database or by its descriptor elsewhere,
  whose name (in C the address of the name) is looked up. \<open>node_alloc\<close> is the answer of
  \<open>node_allocator_alloc\<close> for a type.
\<close>

type_synonym callback = "CallbackEvent \<Rightarrow> addr \<Rightarrow> session \<Rightarrow> (bool \<times> session) outcome"

definition tr_node_update_indexes :: "callback \<Rightarrow> addr \<Rightarrow> session \<Rightarrow> (bool \<times> session) outcome" where
  "tr_node_update_indexes update_indexes n s = update_indexes CBE_NODE_MODIFIED n s"

definition tr_node_check :: "addr \<Rightarrow> session \<Rightarrow> bool" where
  "tr_node_check n s = lock_check (Node_lock n) s"

datatype type_ref = Own nat | Foreign "byte list"

fun find_type :: "NodeType list \<Rightarrow> byte list \<Rightarrow> nat option" where
  "find_type [] name = None"
| "find_type (T # Ts) name = (if nt_name T = name then Some 0 else map_option Suc (find_type Ts name))"

definition resolve_type :: "Database \<Rightarrow> type_ref \<Rightarrow> nat option" where
  "resolve_type D r = (case r of
      Own k \<Rightarrow> if k < length (dt_node_types (d_type D)) then Some k else None
    | Foreign name \<Rightarrow> find_type (dt_node_types (d_type D)) name)"

definition node_init :: "u64 \<Rightarrow> nat \<Rightarrow> NodeType \<Rightarrow> Node \<Rightarrow> Node" where
  "node_init nid k T N = N\<lparr>n_id := nid, n_ref_count := 0, n_type := k, n_cells := map attribute_init (attr_types T)\<rparr>"

definition tr_node_create :: "(Database \<Rightarrow> nat \<Rightarrow> addr) \<Rightarrow> callback \<Rightarrow> type_ref \<Rightarrow> session \<Rightarrow> (addr option \<times> session) outcome" where
  "tr_node_create node_alloc update_indexes r s =
    (case resolve_type (snd s) r of
      None \<Rightarrow> Done (None, s)
    | Some k \<Rightarrow>
       let n = node_alloc (snd s) k in
       obind (util_lock (Node_lock n) s) (\<lambda>(ok, (H, D)).
       if \<not> ok then Done (None, (H, node_free n (d_time D) D))
       else
         case atomic_add_and_fetch (d_node_id_counter D) 1 of (nid, ctr) \<Rightarrow>
         let D = upd_node n (node_init nid k (dt_node_types (d_type D) ! k)) (D\<lparr>d_node_id_counter := ctr\<rparr>);
             s = push_log (LI_TYPE_NODE_ALLOC n) (H, D) in
         obind (update_indexes CBE_NODE_CREATED n s) (\<lambda>(ok, s).
         Done (if ok then Some n else None, s))))"

text \<open>\<open>destroy_pointers\<close>: a null pointer is written to every pointer, up to the first failure.\<close>

fun destroy_pointers :: "malloc \<Rightarrow> addr \<Rightarrow> attr_type list \<Rightarrow> nat \<Rightarrow> session \<Rightarrow> (bool \<times> session) outcome" where
  "destroy_pointers malloc n [] i s = Done (True, s)"
| "destroy_pointers malloc n (t # ts) i s =
    (if t = Pointer
     then and_then (attribute_write malloc Pointer n i (VNode 0) s) (destroy_pointers malloc n ts (Suc i))
     else destroy_pointers malloc n ts (Suc i) s)"

definition tr_node_delete :: "malloc \<Rightarrow> callback \<Rightarrow> addr \<Rightarrow> session \<Rightarrow> (bool \<times> session) outcome" where
  "tr_node_delete malloc update_indexes n s =
    and_then (util_lock (Node_lock n) s) (\<lambda>s.
    if n_ref_count (d_nodes (snd s) n) \<noteq> 0 then Done (False, s)
    else and_then (update_indexes CBE_NODE_DELETED n s) (\<lambda>s.
    obind (destroy_pointers malloc n (attr_types (node_get_type (snd s) n)) 0 s) (\<lambda>(_, s).
    Done (True, push_log (LI_TYPE_NODE_DELETE n) s))))"

text \<open>
  Access by number. The assertions of the two functions are the negation of what they should
  be; the entry behind the last attribute is the empty one.
\<close>

definition attr_entry :: "NodeType \<Rightarrow> int \<Rightarrow> (attr_type \<times> nat) outcome" where
  "attr_entry T attr = (let count = length (nt_attributes T) in
     if attr < 0 \<or> attr > int count then Fault
     else if attr = int count then Done (Int8, count)
     else Done (attr_types T ! nat attr, nat attr))"

definition tr_node_read :: "addr \<Rightarrow> int \<Rightarrow> session \<Rightarrow> (cell option \<times> session) outcome" where
  "tr_node_read n attr s =
    (if n = 0 then Fault else
    let T = node_get_type (snd s) n in
    obind (c_assert (attr \<ge> int (length (nt_attributes T)) \<or> attr < 0)) (\<lambda>_.
    obind (attr_entry T attr) (\<lambda>(t, i).
    let s = readSetAdd (Node_lock n) s; buffer = get_cell (d_nodes (snd s) n) i in
    Done (if tr_node_check n s then Some buffer else None, s))))"

definition tr_node_write :: "malloc \<Rightarrow> addr \<Rightarrow> int \<Rightarrow> attr_value \<Rightarrow> session \<Rightarrow> (bool \<times> session) outcome" where
  "tr_node_write malloc n attr v s =
    (if n = 0 then Fault else
    let T = node_get_type (snd s) n in
    obind (c_assert (attr \<ge> int (length (nt_attributes T)) \<or> attr < 0)) (\<lambda>_.
    obind (attr_entry T attr) (\<lambda>(t, i).
    let old = get_cell (d_nodes (snd s) n) i in
    and_then (util_lock (Node_lock n) s) (\<lambda>s.
    and_then (attribute_write malloc t n i v s) (\<lambda>s.
    Done (True, push_log (LI_TYPE_NODE_MODIFY n i (of_nat i) t old (get_cell (d_nodes (snd s) n) i)) s))))))"

definition tr_attr_count :: "NodeType \<Rightarrow> int" where
  "tr_attr_count T = int (length (nt_attributes T))"

definition tr_attr_get_name :: "NodeType \<Rightarrow> int \<Rightarrow> byte list option" where
  "tr_attr_get_name T index =
    (if index \<ge> int (length (nt_attributes T)) \<or> index < 0 then None
     else Some (at_name (nt_attributes T ! nat index)))"

fun attr_index_from :: "NodeAttribute list \<Rightarrow> int \<Rightarrow> byte list \<Rightarrow> int" where
  "attr_index_from [] i attr = - 1"
| "attr_index_from (a # as) i attr = (if at_name a = attr then i else attr_index_from as (i + 1) attr)"

definition tr_attr_get_index :: "NodeType \<Rightarrow> byte list \<Rightarrow> int" where
  "tr_attr_get_index T attr = attr_index_from (nt_attributes T) 0 attr"

definition tr_attr_get_type :: "NodeType \<Rightarrow> int \<Rightarrow> nat" where
  "tr_attr_get_type T index =
    (if index \<ge> int (length (nt_attributes T)) \<or> index < 0 then 0
     else attr_number (at_type (nt_attributes T ! nat index)))"

section \<open>Handles\<close>

definition db_handle_init :: "u64 \<Rightarrow> u64 list \<Rightarrow> Handle \<times> u64 list" where
  "db_handle_init ptr handles =
    (\<lparr>h_ptr = ptr, h_start_time = 0, h_read_set = [], h_transactions = [], h_log = [],
      h_commit_type = CT_ASYNC, h_acquired_locks = []\<rparr>, handles @ [ptr])"

text \<open>The last handle takes the place of the one that goes.\<close>

fun remove_handle :: "u64 \<Rightarrow> u64 list \<Rightarrow> u64 list" where
  "remove_handle h [] = []"
| "remove_handle h (x # xs) = (if x = h then (if xs = [] then [] else last xs # butlast xs) else x # remove_handle h xs)"

definition db_handle_destroy :: "u64 list \<Rightarrow> session \<Rightarrow> (u64 list \<times> session) outcome" where
  "db_handle_destroy handles s =
    obind (if h_start_time (fst s) \<noteq> 0 then tr_abort_main s else Done s) (\<lambda>s.
    Done (remove_handle (h_ptr (fst s)) handles, s))"

section \<open>Sessions\<close>

text \<open>
  What a program can do between beginning and ending its main transaction. \<open>trFail\<close> after an
  operation that reported failure is one of the continuations; the sequences below go on with
  any other as well.
\<close>

datatype access = Read addr nat | UncheckedRead addr nat | Write addr nat attr_value
  | FieldRead addr addr | FieldUncheckedRead addr addr | FieldWrite addr addr u64
  | Alloc "byte list" | Free addr | NodeRead addr int | NodeWrite addr int attr_value | LockOnly lock_ref

datatype tr_op = Access access | Create type_ref | Delete addr | UpdateIndexes addr
  | Begin | Commit CommitType | Abort

fun access_exec :: "malloc \<Rightarrow> access \<Rightarrow> session \<Rightarrow> session outcome" where
  "access_exec malloc (Read n i) s = obind (trRead n i s) (\<lambda>(_, s). Done s)"
| "access_exec malloc (UncheckedRead n i) s = obind (trUncheckedRead n i s) (\<lambda>(_, s). Done s)"
| "access_exec malloc (Write n i v) s = obind (trWrite malloc n i v s) (\<lambda>(_, s). Done s)"
| "access_exec malloc (FieldRead obj p) s = obind (trMemoryRead obj p s) (\<lambda>(_, s). Done s)"
| "access_exec malloc (FieldUncheckedRead obj p) s = obind (trMemoryUncheckedRead obj p s) (\<lambda>(_, s). Done s)"
| "access_exec malloc (FieldWrite obj p v) s = obind (trMemoryWrite obj p v s) (\<lambda>(_, s). Done s)"
| "access_exec malloc (Alloc bs) s = obind (tr_memory_alloc malloc bs s) (\<lambda>(_, s). Done s)"
| "access_exec malloc (Free p) s = Done (tr_memory_free p s)"
| "access_exec malloc (NodeRead n a) s = obind (tr_node_read n a s) (\<lambda>(_, s). Done s)"
| "access_exec malloc (NodeWrite n a v) s = obind (tr_node_write malloc n a v s) (\<lambda>(_, s). Done s)"
| "access_exec malloc (LockOnly r) s = obind (util_lock r s) (\<lambda>(_, s). Done s)"

primrec accesses :: "malloc \<Rightarrow> access list \<Rightarrow> session \<Rightarrow> session outcome" where
  "accesses malloc [] s = Done s"
| "accesses malloc (a # as) s = obind (access_exec malloc a s) (accesses malloc as)"

fun tr_exec :: "malloc \<Rightarrow> (Database \<Rightarrow> nat \<Rightarrow> addr) \<Rightarrow> callback \<Rightarrow> tr_op \<Rightarrow> session \<Rightarrow> session outcome" where
  "tr_exec malloc na cb (Access a) s = access_exec malloc a s"
| "tr_exec malloc na cb (Create r) s = obind (tr_node_create na cb r s) (\<lambda>(_, s). Done s)"
| "tr_exec malloc na cb (Delete n) s = obind (tr_node_delete malloc cb n s) (\<lambda>(_, s). Done s)"
| "tr_exec malloc na cb (UpdateIndexes n) s = obind (tr_node_update_indexes cb n s) (\<lambda>(_, s). Done s)"
| "tr_exec malloc na cb Begin s = Done (tr_begin s)"
| "tr_exec malloc na cb (Commit ct) s = Done (tr_commit_nested ct s)"
| "tr_exec malloc na cb Abort s = tr_abort s"

primrec tr_execs :: "malloc \<Rightarrow> (Database \<Rightarrow> nat \<Rightarrow> addr) \<Rightarrow> callback \<Rightarrow> tr_op list \<Rightarrow> session \<Rightarrow> session outcome" where
  "tr_execs malloc na cb [] s = Done s"
| "tr_execs malloc na cb (x # xs) s = obind (tr_exec malloc na cb x s) (tr_execs malloc na cb xs)"

text \<open>Every nested transaction begun is ended.\<close>

fun nested :: "nat \<Rightarrow> tr_op list \<Rightarrow> bool" where
  "nested k [] \<longleftrightarrow> k = 0"
| "nested k (x # xs) \<longleftrightarrow> (case x of Begin \<Rightarrow> nested (Suc k) xs
    | Commit ct \<Rightarrow> 0 < k \<and> nested (k - 1) xs
    | Abort \<Rightarrow> 0 < k \<and> nested (k - 1) xs
    | _ \<Rightarrow> nested k xs)"

text \<open>
  What the operations rely on: a node or block handed out is not in use, and the indexes go
  through the transactional operations.
\<close>

definition node_alloc_fresh :: "(Database \<Rightarrow> nat \<Rightarrow> addr) \<Rightarrow> bool" where
  "node_alloc_fresh na \<longleftrightarrow> (\<forall>D k. na D k = 0 \<or> n_id (d_nodes D (na D k)) = 0)"

definition callback_ok :: "malloc \<Rightarrow> callback \<Rightarrow> bool" where
  "callback_ok malloc cb \<longleftrightarrow>
    (\<forall>ev n s b s'. cb ev n s = Done (b, s') \<longrightarrow> (\<exists>as. accesses malloc as s = Done s'))"

section \<open>What a rollback restores\<close>

text \<open>A node whose identifier is 0 does not exist.\<close>

definition node_view :: "Node \<Rightarrow> (u64 \<times> u64 \<times> nat \<times> cell list) option" where
  "node_view N = (if n_id N = 0 then None else Some (n_id N, n_ref_count N, n_type N, n_cells N))"

definition same_view :: "Database \<Rightarrow> Database \<Rightarrow> bool" where
  "same_view D D' \<longleftrightarrow> (\<forall>n. node_view (d_nodes D n) = node_view (d_nodes D' n)) \<and> d_fields D = d_fields D'"

definition undo_all :: "u64 \<Rightarrow> LogItem list \<Rightarrow> Database \<Rightarrow> Database" where
  "undo_all t items D = fold (log_undo_item t) items D"

lemma undo_all_simps [simp]:
  "undo_all t [] D = D"
  "undo_all t (x # xs) D = undo_all t xs (log_undo_item t x D)"
  by (simp_all add: undo_all_def)

lemma undo_all_append: "undo_all t (xs @ ys) D = undo_all t ys (undo_all t xs D)"
  by (simp add: undo_all_def)

lemma same_view_refl [simp]: "same_view D D"
  by (simp add: same_view_def)

lemma same_view_trans: "same_view D D' \<Longrightarrow> same_view D' D'' \<Longrightarrow> same_view D D''"
  by (simp add: same_view_def)

lemma node_view_eq:
  "node_view N = node_view N' \<longleftrightarrow> n_id N = n_id N' \<and>
    (n_id N \<noteq> 0 \<longrightarrow> n_ref_count N = n_ref_count N' \<and> n_type N = n_type N' \<and> n_cells N = n_cells N')"
  by (auto simp: node_view_def)

lemma set_cell_id [simp]: "n_id (set_cell i c N) = n_id N"
  "n_type (set_cell i c N) = n_type N" "length (n_cells (set_cell i c N)) = length (n_cells N)"
  by (simp_all add: set_cell_def split: cell.split list.split)

lemma set_cell_view: "node_view N = node_view N' \<Longrightarrow> node_view (set_cell i c N) = node_view (set_cell i c N')"
  by (auto simp: node_view_eq) (auto simp: set_cell_def split: cell.split list.split)

text \<open>Undoing an event does the same to databases that look the same.\<close>

lemma node_destroy_free_view:
  "node_view (d_nodes (node_destroy_free n t D) m) = (if m = n then None else node_view (d_nodes D m))"
  "d_fields (node_destroy_free n t D) = d_fields D"
  by (simp_all add: node_destroy_free_def node_free_def upd_node_def node_view_def split: prod.split)

lemma undo_item_cong: "same_view D D' \<Longrightarrow> same_view (log_undo_item t x D) (log_undo_item t x D')"
proof (cases x)
  case (LI_TYPE_RAW loc old)
  assume "same_view D D'"
  with LI_TYPE_RAW show ?thesis by (cases loc) (auto simp: same_view_def node_view_eq)
next
  case (LI_TYPE_NODE_MODIFY n i j a old new)
  assume "same_view D D'"
  with LI_TYPE_NODE_MODIFY show ?thesis by (auto simp: same_view_def upd_node_def intro: set_cell_view)
qed (auto simp: same_view_def node_destroy_free_view)

lemma undo_all_cong: "same_view D D' \<Longrightarrow> same_view (undo_all t xs D) (undo_all t xs D')"
  by (induction xs arbitrary: D D') (auto intro: undo_item_cong)

lemma low_byte_back:
  "((n AND NOT 0xFF OR ucast b) AND NOT 0xFF) OR ucast (ucast n :: byte) = (n :: u64)"
  "(n AND NOT 0xFF) OR ucast (ucast n :: byte) = n"
  for b :: byte
proof -
  have m: "(0xFF :: u64) = mask 8" by (simp add: mask_eq_exp_minus_1)
  show "((n AND NOT 0xFF OR ucast b) AND NOT 0xFF) OR ucast (ucast n :: byte) = (n :: u64)"
    unfolding m by (rule bit_word_eqI) (auto simp: bit_simps dest: bit_imp_le_length)
  show "(n AND NOT 0xFF) OR ucast (ucast n :: byte) = n"
    unfolding m by (rule bit_word_eqI) (auto simp: bit_simps)
qed

lemma set_get_cell: "set_cell i (get_cell N i) (set_cell i c N) = N"
proof (cases "i < length (n_cells N)")
  case True
  then show ?thesis by (simp add: set_cell_def get_cell_def)
next
  case False
  note bytes = low_byte_back [of "n_ref_count N"]
  show ?thesis
  proof (cases "\<exists>b. c = Bits [b]")
    case True
    then obtain b where "c = Bits [b]" ..
    with False bytes(1) [of b] show ?thesis by (simp add: set_cell_def get_cell_def)
  next
    case no: False
    then have "set_cell i c N = N"
      using False by (auto simp: set_cell_def split: cell.split list.split)
    with False bytes(2) show ?thesis by (simp add: set_cell_def get_cell_def)
  qed
qed

lemma set_get_cell_same: "set_cell i (get_cell N i) N = N"
  using set_get_cell [of i N "Ref 0"] low_byte_back(2) [of "n_ref_count N"]
  by (simp add: set_cell_def get_cell_def split: if_splits)

section \<open>Every change is logged\<close>

declare split_paired_All [simp del] split_paired_Ex [simp del]

text \<open>
  \<open>logged s s'\<close>: the log of \<open>s'\<close> extends that of \<open>s\<close> by items whose undoing leads back to
  what \<open>s\<close> looked like; the read set and the locks only grow, memory in use is not touched.
\<close>

definition kept :: "session \<Rightarrow> session \<Rightarrow> bool" where
  "kept s s' \<longleftrightarrow> h_ptr (fst s') = h_ptr (fst s) \<and> h_start_time (fst s') = h_start_time (fst s)
     \<and> h_transactions (fst s') = h_transactions (fst s) \<and> h_commit_type (fst s') = h_commit_type (fst s)
     \<and> (\<exists>rs. h_read_set (fst s') = h_read_set (fst s) @ rs)
     \<and> (\<exists>ls. h_acquired_locks (fst s') = ls @ h_acquired_locks (fst s))
     \<and> grows (d_tmem (snd s)) (d_tmem (snd s'))"

definition undoes :: "session \<Rightarrow> LogItem list \<Rightarrow> session \<Rightarrow> bool" where
  "undoes s items s' \<longleftrightarrow> h_log (fst s') = items @ h_log (fst s)
     \<and> (\<forall>t. same_view (undo_all t items (snd s')) (snd s))"

definition logged :: "session \<Rightarrow> session \<Rightarrow> bool" where
  "logged s s' \<longleftrightarrow> kept s s' \<and> (\<exists>items. undoes s items s')"

lemma kept_refl [simp]: "kept s s"
  by (simp add: kept_def)

lemma kept_trans: "kept s s' \<Longrightarrow> kept s' s'' \<Longrightarrow> kept s s''"
  by (auto simp: kept_def intro: grows_trans)

lemma undoes_Nil: "h_log (fst s') = h_log (fst s) \<Longrightarrow> same_view (snd s') (snd s) \<Longrightarrow> undoes s [] s'"
  by (simp add: undoes_def)

lemma undoes_append:
  assumes "undoes s xs s'" and "undoes s' ys s''"
  shows "undoes s (ys @ xs) s''"
  unfolding undoes_def undo_all_append
proof (intro conjI allI)
  show "h_log (fst s'') = (ys @ xs) @ h_log (fst s)" using assms by (simp add: undoes_def)
  fix t
  have "same_view (undo_all t ys (snd s'')) (snd s')" using assms(2) by (simp add: undoes_def)
  then have "same_view (undo_all t xs (undo_all t ys (snd s''))) (undo_all t xs (snd s'))"
    by (rule undo_all_cong)
  moreover have "same_view (undo_all t xs (snd s')) (snd s)" using assms(1) by (simp add: undoes_def)
  ultimately show "same_view (undo_all t xs (undo_all t ys (snd s''))) (snd s)" by (rule same_view_trans)
qed

lemma logged_none:
  "kept s s' \<Longrightarrow> h_log (fst s') = h_log (fst s) \<Longrightarrow> same_view (snd s') (snd s) \<Longrightarrow> logged s s'"
  unfolding logged_def using undoes_Nil by blast

lemma logged_refl [simp]: "logged s s"
  by (rule logged_none) simp_all

lemma logged_trans: "logged s s' \<Longrightarrow> logged s' s'' \<Longrightarrow> logged s s''"
  unfolding logged_def by (meson kept_trans undoes_append)

text \<open>An operation that pushes one item, after changes only that item undoes.\<close>

lemma logged_item:
  assumes "kept s s'" and "h_log (fst s') = x # h_log (fst s)"
    and "\<And>t. same_view (log_undo_item t x (snd s')) (snd s)"
  shows "logged s s'"
  unfolding logged_def
proof (intro conjI exI)
  show "undoes s [x] s'" using assms by (simp add: undoes_def)
qed (rule assms(1))

definition same_cells :: "session \<Rightarrow> session \<Rightarrow> bool" where
  "same_cells s s' \<longleftrightarrow> (\<forall>n. n_cells (d_nodes (snd s') n) = n_cells (d_nodes (snd s) n))"

lemma same_cells_refl [simp]: "same_cells s s"
  by (simp add: same_cells_def)

lemma same_cells_trans: "same_cells s s' \<Longrightarrow> same_cells s' s'' \<Longrightarrow> same_cells s s''"
  by (simp add: same_cells_def)

lemma set_lock_view [simp]: "same_view (set_lock r l D) D" "d_tmem (set_lock r l D) = d_tmem D"
  "n_cells (d_nodes (set_lock r l D) n) = n_cells (d_nodes D n)"
  "n_ref_count (d_nodes (set_lock r l D) n) = n_ref_count (d_nodes D n)"
  "n_id (d_nodes (set_lock r l D) n) = n_id (d_nodes D n)"
  "d_type (set_lock r l D) = d_type D" "d_time (set_lock r l D) = d_time D"
  "d_freed (set_lock r l D) = d_freed D" "d_node_id_counter (set_lock r l D) = d_node_id_counter D"
  by (cases r; simp add: same_view_def node_view_def)+

lemma util_lock_logged:
  assumes "util_lock r s = Done (ok, s')"
  shows "logged s s'" and "same_cells s s'" and "get_cell (d_nodes (snd s') n) i = get_cell (d_nodes (snd s) n) i"
  using assms
  by (auto simp: util_lock_def kept_def same_cells_def get_cell_def split: if_splits prod.splits intro!: logged_none)

lemma raw_write_logged: "logged s (trMemoryInternalWrite loc v s)" "same_cells s (trMemoryInternalWrite loc v s)"
proof -
  obtain H D where s: "s = (H, D)" by force
  show "logged s (trMemoryInternalWrite loc v s)"
    by (rule logged_item [where x = "LI_TYPE_RAW loc (read_loc D loc)"])
      (cases loc; simp add: s trMemoryInternalWrite_def push_log_def kept_def same_view_def)+
  show "same_cells s (trMemoryInternalWrite loc v s)"
    by (cases loc) (simp_all add: s trMemoryInternalWrite_def push_log_def same_cells_def)
qed

lemma tr_memory_free_logged: "logged s (tr_memory_free p s)" "same_cells s (tr_memory_free p s)"
proof -
  show "logged s (tr_memory_free p s)"
    by (rule logged_item [where x = "LI_TYPE_MEMORY_DELETE p"])
      (simp_all add: tr_memory_free_def push_log_def kept_def split: prod.split)
  show "same_cells s (tr_memory_free p s)"
    by (simp add: tr_memory_free_def push_log_def same_cells_def split: prod.split)
qed

lemma tm_alloc_grows: "malloc_fresh malloc \<Longrightarrow> tm_alloc malloc M bs = Done (p, M') \<Longrightarrow> grows M M'"
  by (fastforce simp: tm_alloc_def generic_allocator_alloc_def obind_eq_Done malloc_fresh_def grows_def Let_def
      split: option.splits if_splits)

lemma tr_memory_alloc_logged:
  assumes "malloc_fresh malloc" and "tr_memory_alloc malloc bs s = Done (p, s')"
  shows "logged s s'" and "same_cells s s'"
proof -
  obtain H D where s: "s = (H, D)" by force
  obtain M where M: "tm_alloc malloc (d_tmem D) bs = Done (p, M)"
      and s': "s' = push_log (LI_TYPE_MEMORY_ALLOC p) (H, D\<lparr>d_tmem := M\<rparr>)"
    using assms(2) by (auto simp: s tr_memory_alloc_def obind_eq_Done)
  show "logged s s'"
    by (rule logged_item [where x = "LI_TYPE_MEMORY_ALLOC p"])
      (simp_all add: s s' push_log_def kept_def same_view_def tm_alloc_grows [OF assms(1) M])
  show "same_cells s s'"
    by (simp add: s s' push_log_def same_cells_def)
qed

lemma and_then_Done:
  "and_then m f = Done (ok, s') \<longleftrightarrow> (m = Done (False, s') \<and> \<not> ok) \<or> (\<exists>s. m = Done (True, s) \<and> f s = Done (ok, s'))"
proof (cases m)
  case (Done r)
  then show ?thesis by (cases r) (auto simp: and_then_def)
qed (simp_all add: and_then_def)

lemma and_thenE:
  assumes "and_then m f = Done (ok, s')"
  obtains "m = Done (False, s')" "\<not> ok" | s where "m = Done (True, s)" "f s = Done (ok, s')"
  using assms unfolding and_then_Done by blast

lemma obindE:
  assumes "obind m f = Done y"
  obtains x where "m = Done x" "f x = Done y"
  using assms unfolding obind_eq_Done by blast

lemma ref_count_logged:
  assumes "node_ref_count_increase n s = Done (ok, s') \<or> node_ref_count_decrease n s = Done (ok, s')"
  shows "logged s s'" and "same_cells s s'"
proof -
  obtain s1 where "util_lock (Node_lock n) s = Done (ok, s1)"
      "s' = s1 \<or> (\<exists>v. s' = trMemoryInternalWrite (Ref_count n) v s1)"
    using assms by (auto simp: node_ref_count_increase_def node_ref_count_decrease_def and_then_Done obind_c_assert
        split: if_splits)
  with util_lock_logged [OF this(1)] show "logged s s'" "same_cells s s'"
    by (auto intro: logged_trans same_cells_trans raw_write_logged)
qed

text \<open>
  The steps an operation takes apart from changing cells: they are logged and leave the cells
  alone.
\<close>

inductive quiet :: "malloc \<Rightarrow> session \<Rightarrow> session \<Rightarrow> bool" for malloc where
  quiet_refl: "quiet malloc s s"
| quiet_lock: "quiet malloc s s1 \<Longrightarrow> util_lock r s1 = Done (ok, s2) \<Longrightarrow> quiet malloc s s2"
| quiet_raw: "quiet malloc s s1 \<Longrightarrow> quiet malloc s (trMemoryInternalWrite loc v s1)"
| quiet_alloc: "quiet malloc s s1 \<Longrightarrow> tr_memory_alloc malloc bs s1 = Done (p, s2) \<Longrightarrow> quiet malloc s s2"
| quiet_free: "quiet malloc s s1 \<Longrightarrow> quiet malloc s (tr_memory_free p s1)"

lemma quiet_logged:
  assumes "malloc_fresh malloc" and "quiet malloc s s'"
  shows "logged s s' \<and> same_cells s s'"
  using assms(2)
proof induction
  case quiet_refl
  show ?case by simp
next
  case (quiet_lock s s1 r ok s2)
  with util_lock_logged [OF quiet_lock.hyps(2)] show ?case by (blast intro: logged_trans same_cells_trans)
next
  case (quiet_raw s s1 loc v)
  with raw_write_logged show ?case by (blast intro: logged_trans same_cells_trans)
next
  case (quiet_alloc s s1 bs p s2)
  with tr_memory_alloc_logged [OF assms(1) quiet_alloc.hyps(2)] show ?case by (blast intro: logged_trans same_cells_trans)
next
  case (quiet_free s s1 p)
  with tr_memory_free_logged show ?case by (blast intro: logged_trans same_cells_trans)
qed

lemma ref_count_quiet:
  assumes "node_ref_count_increase n s1 = Done (ok, s') \<or> node_ref_count_decrease n s1 = Done (ok, s')"
    and "quiet malloc s s1"
  shows "quiet malloc s s'"
proof -
  obtain s2 where "util_lock (Node_lock n) s1 = Done (ok, s2)"
      "s' = s2 \<or> (\<exists>v. s' = trMemoryInternalWrite (Ref_count n) v s2)"
    using assms(1) by (auto simp: node_ref_count_increase_def node_ref_count_decrease_def and_then_Done obind_c_assert
        split: if_splits)
  with quiet_lock [OF assms(2) this(1)] show ?thesis by (auto intro: quiet_raw)
qed

text \<open>
  The blocks asked to be released; the memory in use is what is left. A block that was asked
  for stays in the memory: when it is really released is the subject of \<open>Allocators\<close>.
\<close>

definition freed_blocks :: "Database \<Rightarrow> addr set" where
  "freed_blocks D = fst ` set (d_freed D)"

definition live_mem :: "Database \<Rightarrow> tmem" where
  "live_mem D = d_tmem D |` (- freed_blocks D)"

definition mem_ok :: "Database \<Rightarrow> bool" where
  "mem_ok D \<longleftrightarrow> freed_blocks D \<subseteq> dom (d_tmem D)"

lemma quiet_freed:
  "quiet malloc s s' \<Longrightarrow> d_freed (snd s') = d_freed (snd s) \<and> d_node_id_counter (snd s') = d_node_id_counter (snd s)"
proof (induction rule: quiet.induct)
  case quiet_refl
  show ?case by simp
next
  case (quiet_lock s s1 r ok s2)
  then show ?case by (auto simp: util_lock_def split: if_splits prod.splits)
next
  case (quiet_raw s s1 loc v)
  then show ?case
    by (cases loc) (auto simp: trMemoryInternalWrite_def push_log_def split: prod.splits)
next
  case (quiet_alloc s s1 bs p s2)
  then show ?case by (auto simp: tr_memory_alloc_def push_log_def obind_eq_Done split: prod.splits)
next
  case (quiet_free s s1 p)
  then show ?case by (auto simp: tr_memory_free_def push_log_def split: prod.splits)
qed

text \<open>
  A cell of a type: a number of its size, a null reference or a block that ends with a zero
  byte or is large enough for the length in front.
\<close>

fun cell_typed :: "tmem \<Rightarrow> attr_type \<Rightarrow> cell \<Rightarrow> bool" where
  "cell_typed M String (Ref p) \<longleftrightarrow> p = 0 \<or> (case M p of None \<Rightarrow> False | Some bs \<Rightarrow> 0 \<in> set bs)"
| "cell_typed M RawString (Ref p) \<longleftrightarrow> p = 0 \<or> (case M p of None \<Rightarrow> False | Some bs \<Rightarrow> 8 \<le> length bs)"
| "cell_typed M Pointer (Ref p) \<longleftrightarrow> True"
| "cell_typed M t (Bits bs) \<longleftrightarrow> is_primitive t \<and> length bs = attribute_size t"
| "cell_typed M t (Ref p) \<longleftrightarrow> False"

text \<open>
  Writing an attribute logs everything but the cell itself; its callers add that item.
\<close>

lemma same_cells_get:
  "same_cells s s' \<Longrightarrow> i < length (n_cells (d_nodes (snd s) n))
    \<Longrightarrow> get_cell (d_nodes (snd s') n) i = get_cell (d_nodes (snd s) n) i"
  by (simp add: same_cells_def get_cell_def)

text \<open>A block just allocated is in use: nobody asked for its release before.\<close>

lemma tr_memory_alloc_live:
  assumes "malloc_fresh malloc" and "quiet malloc s s1" and "mem_ok (snd s)"
    and "tr_memory_alloc malloc bs s1 = Done (p, s2)"
  shows "live_mem (snd s2) p = Some bs"
proof -
  have "grows (d_tmem (snd s)) (d_tmem (snd s1))"
    using quiet_logged [OF assms(1,2)] by (simp add: logged_def kept_def)
  then have "freed_blocks (snd s1) \<subseteq> dom (d_tmem (snd s1))"
    using assms(3) quiet_freed [OF assms(2)] by (auto simp: mem_ok_def freed_blocks_def grows_def)
  moreover have "d_tmem (snd s1) p = None" "d_tmem (snd s2) p = Some bs" "d_freed (snd s2) = d_freed (snd s1)"
    using assms(1,4)
    by (auto simp: tr_memory_alloc_def tm_alloc_def push_log_def obind_eq_Done malloc_fresh_def
        generic_allocator_alloc_def split: prod.splits option.splits if_splits)
  ultimately show ?thesis by (auto simp: live_mem_def freed_blocks_def restrict_map_def)
qed

lemma alloc_put:
  assumes "obind (tr_memory_alloc malloc bs s1) (\<lambda>(tmp, s). Done (True, put_cell n i (Ref tmp) s)) = Done (ok, s')"
    and "quiet malloc s s1"
  shows "\<exists>p s2. quiet malloc s s2 \<and> (malloc_fresh malloc \<and> mem_ok (snd s) \<longrightarrow> live_mem (snd s2) p = Some bs)
    \<and> s' = put_cell n i (Ref p) s2"
proof -
  obtain p s2 where "tr_memory_alloc malloc bs s1 = Done (p, s2)" "s' = put_cell n i (Ref p) s2"
    using assms(1) by (elim obindE) auto
  with tr_memory_alloc_live [OF _ assms(2)] quiet_alloc [OF assms(2)] show ?thesis by blast
qed

lemma attribute_write_form:
  assumes "attribute_write malloc t n i v s = Done (ok, s')"
  shows "\<exists>s1. quiet malloc s s1 \<and> (is_primitive t \<longrightarrow> s1 = s)
    \<and> (s' = s1 \<or> (\<exists>c. s' = put_cell n i c s1
        \<and> (malloc_fresh malloc \<and> mem_ok (snd s) \<longrightarrow> cell_typed (live_mem (snd s1)) t c)))"
proof -
  let ?old = "cell_ref (get_cell (d_nodes (snd s) n) i)"
  have free: "quiet malloc s (tr_memory_free ?old s)" by (rule quiet_free [OF quiet_refl])
  have put_null: "\<exists>s1. quiet malloc s s1 \<and> (s' = s1 \<or> (\<exists>c. s' = put_cell n i c s1 \<and>
      (malloc_fresh malloc \<and> mem_ok (snd s) \<longrightarrow> cell_typed (live_mem (snd s1)) t' c)))"
    if "s' = put_cell n i (Ref 0) (tr_memory_free ?old s)" "t' = String \<or> t' = RawString" for t'
    using free that by (intro exI [of _ "tr_memory_free ?old s"]) auto
  consider (S) "t = String" | (R) "t = RawString" | (P) "t = Pointer" | (O) "is_primitive t"
    by (auto simp: is_primitive_def)
  then show ?thesis
  proof cases
    case S
    with assms obtain str where v: "v = VString str"
      by (auto simp: attribute_write_def Let_def split: attr_value.splits)
    show ?thesis
    proof (cases str)
      case None
      with assms S v have "s' = put_cell n i (Ref 0) (tr_memory_free ?old s)"
        by (simp add: attribute_write_def Let_def)
      with put_null [of String] S show ?thesis by (simp add: is_primitive_def)
    next
      case (Some block)
      with assms S v obtain bs where
        "obind (tr_memory_alloc malloc (bs @ [0]) (tr_memory_free ?old s)) (\<lambda>(tmp, s). Done (True, put_cell n i (Ref tmp) s)) = Done (ok, s')"
        by (auto simp: attribute_write_def Let_def elim: obindE)
      from alloc_put [OF this free] S show ?thesis by (fastforce simp: is_primitive_def)
    qed
  next
    case R
    with assms obtain str around where v: "v = VRaw str around"
      by (auto simp: attribute_write_def Let_def split: attr_value.splits)
    show ?thesis
    proof (cases str)
      case None
      with assms R v have "s' = put_cell n i (Ref 0) (tr_memory_free ?old s)"
        by (simp add: attribute_write_def Let_def)
      with put_null [of RawString] R show ?thesis by (simp add: is_primitive_def)
    next
      case (Some bs')
      define bs where "bs = take (8 + length bs') around"
      from assms R v Some have bs: "8 \<le> length bs"
        "obind (tr_memory_alloc malloc bs (tr_memory_free ?old s)) (\<lambda>(tmp, s). Done (True, put_cell n i (Ref tmp) s)) = Done (ok, s')"
        by (simp_all add: attribute_write_def Let_def bs_def split: if_splits)
      from alloc_put [OF bs(2) free] bs(1) R show ?thesis by (fastforce simp: is_primitive_def)
    qed
  next
    case P
    from assms P obtain m where v: "v = VNode m"
      by (cases v) (simp_all add: attribute_write_def Let_def)
    define first where "first = (if ?old \<noteq> 0 then node_ref_count_decrease ?old s else Done (True, s))"
    have first: "quiet malloc s s1" if "first = Done (b, s1)" for b s1
      using that by (auto simp: first_def split: if_splits intro: ref_count_quiet quiet_refl)
    have "and_then first (\<lambda>s. and_then (node_ref_count_increase m s) (\<lambda>s. Done (True, put_cell n i (Ref m) s))) = Done (ok, s')"
      using assms P v by (simp add: attribute_write_def Let_def first_def)
    then consider "first = Done (False, s')"
      | s1 where "first = Done (True, s1)" "node_ref_count_increase m s1 = Done (False, s')"
      | s1 s2 where "first = Done (True, s1)" "node_ref_count_increase m s1 = Done (True, s2)" "s' = put_cell n i (Ref m) s2"
      by (auto simp: and_then_Done)
    then show ?thesis
    proof cases
      case 1
      with first P show ?thesis by (auto simp: is_primitive_def)
    next
      case (2 s1)
      have "quiet malloc s s'" using ref_count_quiet [OF disjI1 [OF 2(2)] first [OF 2(1)]] .
      with P show ?thesis by (auto simp: is_primitive_def)
    next
      case (3 s1 s2)
      have "quiet malloc s s2" using ref_count_quiet [OF disjI1 [OF 3(2)] first [OF 3(1)]] .
      with 3(3) P show ?thesis by (intro exI [of _ s2]) (auto simp: is_primitive_def)
    qed
  next
    case O
    with assms show ?thesis
      by (cases t) (auto simp: attribute_write_def is_primitive_def split: attr_value.splits if_splits intro!: exI [of _ s] quiet_refl)
  qed
qed

lemma put_cell_sel [simp]: "fst (put_cell n i c s) = fst s" "snd (put_cell n i c s) = upd_node n (set_cell i c) (snd s)"
  by (simp_all add: put_cell_def split: prod.split)

lemma push_log_sel [simp]: "fst (push_log x s) = (fst s)\<lparr>h_log := x # h_log (fst s)\<rparr>" "snd (push_log x s) = snd s"
  by (simp_all add: push_log_def split: prod.split)

lemma upd_node_sel_freed [simp]:
  "d_freed (upd_node n f D) = d_freed D" "d_node_id_counter (upd_node n f D) = d_node_id_counter D"
  by (simp_all add: upd_node_def)

lemma upd_node_sel [simp]:
  "d_nodes (upd_node n f D) = (d_nodes D)(n := f (d_nodes D n))"
  "d_fields (upd_node n f D) = d_fields D" "d_tmem (upd_node n f D) = d_tmem D"
  "d_type (upd_node n f D) = d_type D" "d_time (upd_node n f D) = d_time D"
  by (simp_all add: upd_node_def)

lemma modify_logged:
  assumes "logged s s1" and "old = get_cell (d_nodes (snd s1) n) i" and "s' = s1 \<or> (\<exists>c. s' = put_cell n i c s1)"
  shows "logged s (push_log (LI_TYPE_NODE_MODIFY n i j t old new) s')"
proof -
  have "logged s1 (push_log (LI_TYPE_NODE_MODIFY n i j t old new) s')"
  proof (rule logged_item [where x = "LI_TYPE_NODE_MODIFY n i j t old new"])
    show "kept s1 (push_log (LI_TYPE_NODE_MODIFY n i j t old new) s')"
      using assms(3) by (auto simp: kept_def)
    show "h_log (fst (push_log (LI_TYPE_NODE_MODIFY n i j t old new) s')) = LI_TYPE_NODE_MODIFY n i j t old new # h_log (fst s1)"
      using assms(3) by auto
    fix t'
    have "d_nodes (upd_node n (set_cell i old) (snd s')) = d_nodes (snd s1)"
      using assms(3) by (auto simp: assms(2) set_get_cell set_get_cell_same)
    then show "same_view (log_undo_item t' (LI_TYPE_NODE_MODIFY n i j t old new) (snd (push_log (LI_TYPE_NODE_MODIFY n i j t old new) s'))) (snd s1)"
      using assms(3) by (auto simp: same_view_def)
  qed
  with assms(1) show ?thesis by (rule logged_trans)
qed

lemma trInternalWrite_logged:
  assumes "malloc_fresh malloc" and "trInternalWrite malloc n i v s = Done (ok, s')"
  shows "logged s s'"
proof -
  let ?t = "attr_types (node_get_type (snd s) n) ! i" and ?old = "get_cell (d_nodes (snd s) n) i"
  have i: "i < length (n_cells (d_nodes (snd s) n))" using assms(2) by (auto simp: trInternalWrite_def split: if_splits)
  show ?thesis
  proof (cases "is_primitive ?t")
    case True
    then obtain bs where "s' = push_log (LI_TYPE_NODE_MODIFY n i (of_nat i) ?t ?old (Bits bs)) (put_cell n i (Bits bs) s)"
      using assms(2) by (auto simp: trInternalWrite_def Let_def split: if_splits attr_value.splits)
    then show ?thesis using modify_logged [of s s ?old n i "put_cell n i (Bits bs) s"] by auto
  next
    case False
    then obtain s2 new where s2: "attribute_write malloc ?t n i v s = Done (ok, s2)"
      and s': "s' = push_log (LI_TYPE_NODE_MODIFY n i (of_nat i) ?t ?old new) s2"
      using assms(2) by (auto simp: trInternalWrite_def Let_def obind_eq_Done split: if_splits)
    obtain s1 where s1: "logged s s1" "same_cells s s1" "s2 = s1 \<or> (\<exists>c. s2 = put_cell n i c s1)"
      using attribute_write_form [OF s2] quiet_logged [OF assms(1)] by blast
    show ?thesis unfolding s'
      by (rule modify_logged [OF s1(1) _ s1(3)]) (simp add: same_cells_get [OF s1(2) i])
  qed
qed

lemma trWrite_logged:
  assumes "malloc_fresh malloc" and "trWrite malloc n i v s = Done (ok, s')"
  shows "logged s s'"
  using assms(2) unfolding trWrite_def
  by (elim and_thenE) (blast intro: util_lock_logged trInternalWrite_logged [OF assms(1)] logged_trans)+

lemma readSetAdd_logged: "logged s (readSetAdd r s)"
  by (rule logged_none) (simp_all add: readSetAdd_def kept_def split: prod.split)

lemma tr_node_write_logged:
  assumes "malloc_fresh malloc" and "tr_node_write malloc n a v s = Done (ok, s')"
  shows "logged s s'"
proof -
  obtain t i where ti: "a \<ge> int (length (nt_attributes (node_get_type (snd s) n))) \<or> a < 0"
      "attr_entry (node_get_type (snd s) n) a = Done (t, i)"
    and w: "and_then (util_lock (Node_lock n) s) (\<lambda>s'. and_then (attribute_write malloc t n i v s') (\<lambda>s''.
      Done (True, push_log (LI_TYPE_NODE_MODIFY n i (of_nat i) t (get_cell (d_nodes (snd s) n) i) (get_cell (d_nodes (snd s'') n) i)) s''))) = Done (ok, s')"
    using assms(2) by (auto simp: tr_node_write_def Let_def obind_eq_Done obind_c_assert split: if_splits)
  have prim: "is_primitive t" using ti by (auto simp: attr_entry_def Let_def is_primitive_def split: if_splits)
  from w consider "util_lock (Node_lock n) s = Done (False, s')"
    | s1 where "util_lock (Node_lock n) s = Done (True, s1)" "attribute_write malloc t n i v s1 = Done (False, s')"
    | s1 s2 new where "util_lock (Node_lock n) s = Done (True, s1)" "attribute_write malloc t n i v s1 = Done (True, s2)"
        "s' = push_log (LI_TYPE_NODE_MODIFY n i (of_nat i) t (get_cell (d_nodes (snd s) n) i) new) s2"
    by (auto simp: and_then_Done)
  then show ?thesis
  proof cases
    case 1
    then show ?thesis by (rule util_lock_logged)
  next
    case (2 s1)
    with prim show ?thesis by (auto simp: attribute_write_def is_primitive_def split: attr_value.splits if_splits)
  next
    case (3 s1 s2)
    have "s2 = s1 \<or> (\<exists>c. s2 = put_cell n i c s1)"
      using attribute_write_form [OF 3(2)] prim by auto
    then show ?thesis unfolding 3(3)
      by (intro modify_logged [OF util_lock_logged(1) [OF 3(1)]]) (simp_all add: util_lock_logged(3) [OF 3(1)])
  qed
qed

lemma access_reads:
  assumes "access_exec malloc a s = Done s'"
    and "a \<in> {Read n i, UncheckedRead n i, FieldRead n p, FieldUncheckedRead n p, NodeRead n k}"
  shows "\<exists>r. s' = readSetAdd r s"
  using assms
  by (auto simp: trRead_def trUncheckedRead_def trMemoryRead_def trMemoryUncheckedRead_def tr_node_read_def
      obind_eq_Done Let_def split: if_splits) metis+

lemma access_logged:
  assumes "malloc_fresh malloc" and "access_exec malloc a s = Done s'"
  shows "logged s s'"
proof -
  have reads: "\<exists>r. s' = readSetAdd r s" if "a \<in> {Read n i, UncheckedRead n i, FieldRead n p, FieldUncheckedRead n p, NodeRead n k}" for n i p k
    by (rule access_reads [OF assms(2) that])
  show ?thesis
  proof (cases a)
    case (FieldWrite obj p v)
    with assms(2) obtain ok where "trMemoryWrite obj p v s = Done (ok, s')" by (auto elim: obindE)
    then show ?thesis unfolding trMemoryWrite_def
      by (elim and_thenE) (auto intro: util_lock_logged logged_trans raw_write_logged simp del: split_paired_All)
  next
    case (Write n i v)
    with assms(2) obtain ok where "trWrite malloc n i v s = Done (ok, s')" by (auto elim: obindE)
    then show ?thesis by (rule trWrite_logged [OF assms(1)])
  next
    case (NodeWrite n i v)
    with assms(2) obtain ok where "tr_node_write malloc n i v s = Done (ok, s')" by (auto elim: obindE)
    then show ?thesis by (rule tr_node_write_logged [OF assms(1)])
  next
    case (Alloc bs)
    with assms(2) obtain p where "tr_memory_alloc malloc bs s = Done (p, s')" by (auto elim: obindE)
    then show ?thesis by (rule tr_memory_alloc_logged [OF assms(1)])
  next
    case (LockOnly r)
    with assms(2) obtain ok where "util_lock r s = Done (ok, s')" by (auto elim: obindE)
    then show ?thesis by (rule util_lock_logged)
  next
    case (Free p)
    with assms(2) have "s' = tr_memory_free p s" by simp
    then show ?thesis by (simp add: tr_memory_free_logged)
  qed (use reads readSetAdd_logged in blast)+
qed

lemma accesses_logged: "malloc_fresh malloc \<Longrightarrow> accesses malloc as s = Done s' \<Longrightarrow> logged s s'"
  by (induction as arbitrary: s) (auto simp: obind_eq_Done intro: access_logged logged_trans)

text \<open>Creating and deleting nodes. Writing a null pointer faults, or fails before it changes a cell.\<close>

lemma callback_logged:
  "malloc_fresh malloc \<Longrightarrow> callback_ok malloc cb \<Longrightarrow> cb ev n s = Done (b, s') \<Longrightarrow> logged s s'"
  unfolding callback_ok_def using accesses_logged by blast

lemma increase_null: "node_ref_count_increase 0 s = Fault"
  by (simp add: node_ref_count_increase_def and_then_def util_lock_def split: prod.split)

lemma null_pointer_write:
  "attribute_write malloc Pointer n i (VNode 0) s =
    (let old = cell_ref (get_cell (d_nodes (snd s) n) i) in
     if old = 0 then Fault
     else case node_ref_count_decrease old s of Done (False, s') \<Rightarrow> Done (False, s') | Failed \<Rightarrow> Failed | _ \<Rightarrow> Fault)"
  by (auto simp: attribute_write_def Let_def and_then_def increase_null split: outcome.split bool.split)

lemma destroy_pointers_logged:
  "destroy_pointers malloc n ts i s = Done (b, s') \<Longrightarrow> logged s s'"
proof (induction ts arbitrary: i s)
  case Nil
  then show ?case by simp
next
  case (Cons t ts)
  show ?case
  proof (cases "t = Pointer")
    case True
    with Cons.prems show ?thesis
      by (auto simp: null_pointer_write Let_def and_then_Done split: if_splits outcome.splits bool.splits intro: ref_count_logged)
  next
    case False
    with Cons show ?thesis by simp
  qed
qed

lemma node_free_view: "n_id (d_nodes D n) = 0 \<Longrightarrow> same_view (node_free n t D) D"
  by (auto simp: same_view_def node_free_def upd_node_def node_view_def)

lemma node_free_tmem [simp]: "d_tmem (node_free n t D) = d_tmem D"
  by (simp add: node_free_def)

lemma find_type_less: "find_type Ts name = Some k \<Longrightarrow> k < length Ts"
  by (induction Ts arbitrary: k) (auto split: if_splits)

lemma resolve_type_less: "resolve_type D r = Some k \<Longrightarrow> k < length (dt_node_types (d_type D))"
  by (auto simp: resolve_type_def find_type_less split: type_ref.splits if_splits)

text \<open>What creating a node of a known type comes to.\<close>

lemma tr_node_create_cases:
  assumes "node_alloc_fresh na" and "tr_node_create na cb r s = Done (res, s')" and "resolve_type (snd s) r = Some k"
  shows "\<exists>ok H D. util_lock (Node_lock (na (snd s) k)) s = Done (ok, H, D) \<and>
    (if \<not> ok then Done (None, (H, node_free (na (snd s) k) (d_time D) D))
       else obind (cb CBE_NODE_CREATED (na (snd s) k) (push_log (LI_TYPE_NODE_ALLOC (na (snd s) k)) (H,
         upd_node (na (snd s) k) (node_init (d_node_id_counter D + 1) k (dt_node_types (d_type D) ! k)) (D\<lparr>d_node_id_counter := d_node_id_counter D + 1\<rparr>))))
         (\<lambda>(ok, s1). Done (if ok then Some (na (snd s) k) else None, s1))) = Done (res, s')
    \<and> n_id (d_nodes D (na (snd s) k)) = 0"
proof -
  define n where "n = na (snd s) k"
  obtain ok H D where lock: "util_lock (Node_lock n) s = Done (ok, H, D)"
    and rest: "(if \<not> ok then Done (None, (H, node_free n (d_time D) D))
       else obind (cb CBE_NODE_CREATED n (push_log (LI_TYPE_NODE_ALLOC n) (H,
         upd_node n (node_init (d_node_id_counter D + 1) k (dt_node_types (d_type D) ! k)) (D\<lparr>d_node_id_counter := d_node_id_counter D + 1\<rparr>))))
         (\<lambda>(ok, s). Done (if ok then Some n else None, s))) = Done (res, s')"
    using assms(2,3) unfolding tr_node_create_def n_def
    by (auto simp: atomic_simps Let_def cong: if_cong elim!: obindE)
  have "n \<noteq> 0" using lock by (auto simp: util_lock_def split: if_splits prod.splits)
  then have "n_id (d_nodes (snd s) n) = 0" using assms(1) by (auto simp: node_alloc_fresh_def n_def)
  moreover have "n_id (d_nodes D n) = n_id (d_nodes (snd s) n)"
    using lock by (auto simp: util_lock_def split: if_splits prod.splits)
  ultimately have free: "n_id (d_nodes D n) = 0" by simp
  with lock rest show ?thesis unfolding n_def by blast
qed

lemma node_alloc_logged:
  assumes "n_id (d_nodes D n) = 0"
  shows "logged (H, D) (push_log (LI_TYPE_NODE_ALLOC n) (H, upd_node n (node_init nid k T) (D\<lparr>d_node_id_counter := nid\<rparr>)))"
  by (rule logged_item [where x = "LI_TYPE_NODE_ALLOC n"])
    (simp_all add: kept_def same_view_def node_destroy_free_view, simp_all add: node_view_def assms)

lemma tr_node_create_logged:
  assumes "malloc_fresh malloc" and "node_alloc_fresh na" and "callback_ok malloc cb"
    and "tr_node_create na cb r s = Done (res, s')"
  shows "logged s s'"
proof (cases "resolve_type (snd s) r")
  case None
  with assms(4) show ?thesis by (simp add: tr_node_create_def)
next
  case (Some k)
  define n where "n = na (snd s) k"
  obtain ok H D where lock: "util_lock (Node_lock n) s = Done (ok, H, D)"
    and rest: "(if \<not> ok then Done (None, (H, node_free n (d_time D) D))
       else obind (cb CBE_NODE_CREATED n (push_log (LI_TYPE_NODE_ALLOC n) (H,
         upd_node n (node_init (d_node_id_counter D + 1) k (dt_node_types (d_type D) ! k)) (D\<lparr>d_node_id_counter := d_node_id_counter D + 1\<rparr>))))
         (\<lambda>(ok, s). Done (if ok then Some n else None, s))) = Done (res, s')"
    and free: "n_id (d_nodes D n) = 0"
    using tr_node_create_cases [OF assms(2,4) Some] unfolding n_def by blast
  have "logged (H, D) s'"
  proof (cases ok)
    case False
    with rest have "s' = (H, node_free n (d_time D) D)" by simp
    with node_free_view [OF free] show ?thesis by (auto intro!: logged_none simp: kept_def)
  next
    case True
    then have "\<exists>b. cb CBE_NODE_CREATED n (push_log (LI_TYPE_NODE_ALLOC n) (H,
         upd_node n (node_init (d_node_id_counter D + 1) k (dt_node_types (d_type D) ! k)) (D\<lparr>d_node_id_counter := d_node_id_counter D + 1\<rparr>))) = Done (b, s')"
      using rest by (auto elim!: obindE)
    with node_alloc_logged [OF free] show ?thesis using callback_logged [OF assms(1,3)] logged_trans by blast
  qed
  with util_lock_logged(1) [OF lock] show ?thesis by (rule logged_trans)
qed

lemma tr_node_delete_logged:
  assumes "malloc_fresh malloc" and "callback_ok malloc cb" and "tr_node_delete malloc cb n s = Done (ok, s')"
  shows "logged s s'"
  using assms(3) unfolding tr_node_delete_def
proof (rule and_thenE)
  assume "util_lock (Node_lock n) s = Done (False, s')"
  then show ?thesis by (rule util_lock_logged)
next
  fix s1
  assume lock: "util_lock (Node_lock n) s = Done (True, s1)"
    and rest: "(if n_ref_count (d_nodes (snd s1) n) \<noteq> 0 then Done (False, s1)
       else and_then (cb CBE_NODE_DELETED n s1) (\<lambda>s. obind (destroy_pointers malloc n (attr_types (node_get_type (snd s) n)) 0 s)
         (\<lambda>(_, s). Done (True, push_log (LI_TYPE_NODE_DELETE n) s)))) = Done (ok, s')"
  have "logged s1 s'"
  proof (cases "n_ref_count (d_nodes (snd s1) n) \<noteq> 0")
    case True
    with rest show ?thesis by simp
  next
    case False
    with rest have "and_then (cb CBE_NODE_DELETED n s1) (\<lambda>s. obind (destroy_pointers malloc n (attr_types (node_get_type (snd s) n)) 0 s)
         (\<lambda>(_, s). Done (True, push_log (LI_TYPE_NODE_DELETE n) s))) = Done (ok, s')" by simp
    then show ?thesis
    proof (rule and_thenE)
      assume "cb CBE_NODE_DELETED n s1 = Done (False, s')"
      then show ?thesis by (rule callback_logged [OF assms(1,2)])
    next
      fix s2
      assume cb: "cb CBE_NODE_DELETED n s1 = Done (True, s2)"
        and "obind (destroy_pointers malloc n (attr_types (node_get_type (snd s2) n)) 0 s2)
         (\<lambda>(_, s). Done (True, push_log (LI_TYPE_NODE_DELETE n) s)) = Done (ok, s')"
      then obtain b s3 where s3: "destroy_pointers malloc n (attr_types (node_get_type (snd s2) n)) 0 s2 = Done (b, s3)"
        and s': "s' = push_log (LI_TYPE_NODE_DELETE n) s3"
        by (auto elim!: obindE)
      have "logged s3 s'" unfolding s'
        by (rule logged_item [where x = "LI_TYPE_NODE_DELETE n"]) (simp_all add: kept_def)
      with callback_logged [OF assms(1,2) cb] destroy_pointers_logged [OF s3] show ?thesis
        by (blast intro: logged_trans)
    qed
  qed
  with util_lock_logged(1) [OF lock] show ?thesis by (rule logged_trans)
qed

section \<open>Nested transactions\<close>

definition pos_of :: "Transaction \<Rightarrow> nat" where
  "pos_of tr = (case tx_pos tr of None \<Rightarrow> 0 | Some k \<Rightarrow> k)"

lemma rollback_log_ok:
  assumes "k \<le> length log"
  shows "rollback_log (if k = 0 then None else Some k) t log D =
    Done (drop (length log - k) log, undo_all t (take (length log - k) log) D)"
  using assms
proof (induction log arbitrary: D)
  case Nil
  then show ?case by simp
next
  case (Cons x log)
  show ?case
  proof (cases "k = Suc (length log)")
    case True
    then show ?thesis by simp
  next
    case False
    with Cons.prems have "k \<le> length log" by simp
    with Cons.IH [OF this] False show ?thesis by (auto simp: Suc_diff_le)
  qed
qed

text \<open>Positions saved by nested transactions, the innermost first, between two bounds.\<close>

fun chain :: "nat \<Rightarrow> nat \<Rightarrow> nat list \<Rightarrow> bool" where
  "chain lo hi [] \<longleftrightarrow> lo \<le> hi"
| "chain lo hi (k # ks) \<longleftrightarrow> k \<le> hi \<and> chain lo k ks"

lemma chain_le: "chain lo hi ks \<Longrightarrow> lo \<le> hi"
  by (induction ks arbitrary: hi) force+

lemma chain_mono: "chain lo hi ks \<Longrightarrow> hi \<le> hi' \<Longrightarrow> chain lo hi' ks"
  by (cases ks) auto

text \<open>
  \<open>below s k s'\<close>: from \<open>s\<close>, \<open>k\<close> transactions were begun and not yet ended; undoing the items
  logged since leads back to what \<open>s\<close> looked like, and the innermost of them remembers how
  far.
\<close>

definition below :: "session \<Rightarrow> nat \<Rightarrow> session \<Rightarrow> bool" where
  "below s k s' \<longleftrightarrow> (\<exists>inner items rs ls.
       h_transactions (fst s') = inner @ h_transactions (fst s) \<and> length inner = k
     \<and> undoes s items s'
     \<and> h_read_set (fst s') = h_read_set (fst s) @ rs
     \<and> h_acquired_locks (fst s') = ls @ h_acquired_locks (fst s)
     \<and> h_start_time (fst s') = h_start_time (fst s) \<and> h_ptr (fst s') = h_ptr (fst s)
     \<and> grows (d_tmem (snd s)) (d_tmem (snd s'))
     \<and> (\<forall>tr \<in> set inner. tx_pos tr \<noteq> Some 0)
     \<and> chain (length (h_log (fst s))) (length (h_log (fst s'))) (map pos_of inner)
     \<and> chain (length (h_read_set (fst s))) (length (h_read_set (fst s'))) (map tx_read_set inner))"

lemma below_refl: "below s 0 s"
  unfolding below_def by (intro exI [of _ "[]"]) (simp add: undoes_def)

lemma logged_below:
  assumes "logged s s'"
  shows "below s 0 s'"
proof -
  obtain items rs ls where "undoes s items s'" "kept s s'"
      "h_read_set (fst s') = h_read_set (fst s) @ rs" "h_acquired_locks (fst s') = ls @ h_acquired_locks (fst s)"
    using assms unfolding logged_def kept_def by blast
  then show ?thesis unfolding below_def
    by (intro exI [of _ "[]"] exI [of _ items] exI [of _ rs] exI [of _ ls]) (simp add: kept_def undoes_def)
qed

lemma below_trans:
  assumes "below s k s1" and "below s1 0 s2"
  shows "below s k s2"
proof -
  obtain inner items rs ls where b:
      "h_transactions (fst s1) = inner @ h_transactions (fst s)" "length inner = k" "undoes s items s1"
      "h_read_set (fst s1) = h_read_set (fst s) @ rs" "h_acquired_locks (fst s1) = ls @ h_acquired_locks (fst s)"
      "h_start_time (fst s1) = h_start_time (fst s)" "h_ptr (fst s1) = h_ptr (fst s)"
      "grows (d_tmem (snd s)) (d_tmem (snd s1))" "\<forall>tr \<in> set inner. tx_pos tr \<noteq> Some 0"
      "chain (length (h_log (fst s))) (length (h_log (fst s1))) (map pos_of inner)"
      "chain (length (h_read_set (fst s))) (length (h_read_set (fst s1))) (map tx_read_set inner)"
    using assms(1) unfolding below_def by blast
  obtain items2 rs2 ls2 where l: "h_transactions (fst s2) = h_transactions (fst s1)" "undoes s1 items2 s2"
      "h_read_set (fst s2) = h_read_set (fst s1) @ rs2" "h_acquired_locks (fst s2) = ls2 @ h_acquired_locks (fst s1)"
      "h_start_time (fst s2) = h_start_time (fst s1)" "h_ptr (fst s2) = h_ptr (fst s1)"
      "grows (d_tmem (snd s1)) (d_tmem (snd s2))"
    using assms(2) unfolding below_def by auto
  have len: "length (h_log (fst s1)) \<le> length (h_log (fst s2))" using l(2) by (simp add: undoes_def)
  show ?thesis unfolding below_def
  proof (intro exI conjI)
    show "h_transactions (fst s2) = inner @ h_transactions (fst s)" "h_start_time (fst s2) = h_start_time (fst s)"
      "h_ptr (fst s2) = h_ptr (fst s)"
      using b l by simp_all
    show "undoes s (items2 @ items) s2" using b(3) l(2) by (rule undoes_append)
    show "h_read_set (fst s2) = h_read_set (fst s) @ rs @ rs2" "h_acquired_locks (fst s2) = (ls2 @ ls) @ h_acquired_locks (fst s)"
      using b l by simp_all
    show "grows (d_tmem (snd s)) (d_tmem (snd s2))" using b(8) l(7) by (rule grows_trans)
    show "chain (length (h_log (fst s))) (length (h_log (fst s2))) (map pos_of inner)"
      using b(10) len by (rule chain_mono)
    show "chain (length (h_read_set (fst s))) (length (h_read_set (fst s2))) (map tx_read_set inner)"
      using b(11) by (rule chain_mono) (simp add: l(3))
  qed (use b in auto)
qed

lemma below_logged: "below s k s1 \<Longrightarrow> logged s1 s2 \<Longrightarrow> below s k s2"
  by (rule below_trans [OF _ logged_below])

lemma below_begin:
  assumes "below s k s1" and "h_start_time (fst s) \<noteq> 0"
  shows "below s (Suc k) (tr_begin s1)"
proof -
  obtain H D where s1: "s1 = (H, D)" by force
  obtain inner items rs ls where b:
      "h_transactions H = inner @ h_transactions (fst s)" "length inner = k" "undoes s items s1"
      "h_read_set H = h_read_set (fst s) @ rs" "h_acquired_locks H = ls @ h_acquired_locks (fst s)"
      "h_start_time H = h_start_time (fst s)" "h_ptr H = h_ptr (fst s)"
      "grows (d_tmem (snd s)) (d_tmem D)" "\<forall>tr \<in> set inner. tx_pos tr \<noteq> Some 0"
      "chain (length (h_log (fst s))) (length (h_log H)) (map pos_of inner)"
      "chain (length (h_read_set (fst s))) (length (h_read_set H)) (map tx_read_set inner)"
    using assms(1) unfolding below_def s1 by auto
  define nt where "nt = \<lparr>tx_read_set = length (h_read_set H),
     tx_pos = (if h_log H = [] then None else Some (length (h_log H))),
     tx_acquired_locks = length (h_acquired_locks H), tx_commit_type = h_commit_type H\<rparr>"
  have e: "tr_begin s1 = (H\<lparr>h_transactions := nt # h_transactions H\<rparr>, D)"
    using assms(2) b(6) by (simp add: tr_begin_def s1 nt_def)
  have p: "pos_of nt = length (h_log H)" "tx_pos nt \<noteq> Some 0" "tx_read_set nt = length (h_read_set H)"
    by (simp_all add: nt_def pos_of_def)
  show ?thesis unfolding below_def e
    by (rule exI [of _ "nt # inner"], rule exI [of _ items], rule exI [of _ rs], rule exI [of _ ls])
      (use b p in \<open>simp add: undoes_def s1\<close>)
qed

text \<open>What an abort of the innermost transaction does.\<close>

lemma tr_abort_inner:
  assumes "h_transactions H = tr # trs"
    and "tx_pos tr \<noteq> Some 0" and "pos_of tr \<le> length (h_log H)"
  shows "tr_abort (H, D) = Done (H\<lparr>h_transactions := trs, h_read_set := take (tx_read_set tr) (h_read_set H),
      h_log := drop (length (h_log H) - pos_of tr) (h_log H), h_commit_type := tx_commit_type tr\<rparr>,
    undo_all (d_time D) (take (length (h_log H) - pos_of tr) (h_log H)) D)"
proof -
  have "tx_pos tr = (if pos_of tr = 0 then None else Some (pos_of tr))"
    using assms(2) by (auto simp: pos_of_def split: option.splits)
  then show ?thesis
    using assms(1) rollback_log_ok [OF assms(3)] by (simp add: tr_abort_def tr_handle_rollback_def Let_def)
qed

lemma write_loc_memory: "d_tmem (write_loc l v D) = d_tmem D" "d_time (write_loc l v D) = d_time D"
  by (cases l; simp)+

lemma undo_all_rest [simp]: "d_tmem (undo_all t xs D) = d_tmem D" "d_time (undo_all t xs D) = d_time D"
proof -
  have "d_tmem (log_undo_item t x D) = d_tmem D \<and> d_time (log_undo_item t x D) = d_time D" for x D
    by (induction t x D rule: log_undo_item.induct)
      (auto simp: node_destroy_free_def node_free_def upd_node_def write_loc_memory split: prod.split)
  then show "d_tmem (undo_all t xs D) = d_tmem D" "d_time (undo_all t xs D) = d_time D"
    by (induction xs arbitrary: D) simp_all
qed

lemma undo_all_any_time: "same_view (undo_all t xs D) (undo_all t' xs D)"
proof (induction xs arbitrary: D)
  case Nil
  then show ?case by simp
next
  case (Cons x xs)
  have "same_view (log_undo_item t x D) (log_undo_item t' x D)"
    by (cases x) (simp_all add: same_view_def node_destroy_free_view)
  then have "same_view (undo_all t xs (log_undo_item t x D)) (undo_all t xs (log_undo_item t' x D))"
    by (rule undo_all_cong)
  with Cons.IH show ?case by (auto intro: same_view_trans)
qed

lemma undoes_drop:
  assumes "undoes s items s'" and "m \<le> length items" and "h_log H = drop m items @ h_log (fst s)"
  shows "undoes s (drop m items) (H, undo_all t (take m items) (snd s'))"
  unfolding undoes_def
proof (intro conjI allI)
  show "h_log (fst (H, undo_all t (take m items) (snd s'))) = drop m items @ h_log (fst s)"
    using assms(3) by simp
  fix t'
  have "same_view (undo_all t' (drop m items) (undo_all t (take m items) (snd s')))
      (undo_all t' (drop m items) (undo_all t' (take m items) (snd s')))"
    by (rule undo_all_cong [OF undo_all_any_time])
  also have "undo_all t' (drop m items) (undo_all t' (take m items) (snd s')) = undo_all t' items (snd s')"
    by (simp flip: undo_all_append)
  finally show "same_view (undo_all t' (drop m items) (snd (H, undo_all t (take m items) (snd s')))) (snd s)"
    using assms(1) by (auto simp: undoes_def intro: same_view_trans)
qed

lemma below_abort:
  assumes "below s (Suc k) s1"
  shows "\<exists>s2. tr_abort s1 = Done s2 \<and> below s k s2"
proof -
  obtain H D where s1: "s1 = (H, D)" by force
  obtain tr inner items rs ls where b:
      "h_transactions H = tr # inner @ h_transactions (fst s)" "length inner = k" "undoes s items s1"
      "h_read_set H = h_read_set (fst s) @ rs" "h_acquired_locks H = ls @ h_acquired_locks (fst s)"
      "h_start_time H = h_start_time (fst s)" "h_ptr H = h_ptr (fst s)"
      "grows (d_tmem (snd s)) (d_tmem D)" "\<forall>tr \<in> set inner. tx_pos tr \<noteq> Some 0"
      and pos: "tx_pos tr \<noteq> Some 0" "pos_of tr \<le> length (h_log H)"
      "chain (length (h_log (fst s))) (pos_of tr) (map pos_of inner)"
      and reads: "tx_read_set tr \<le> length (h_read_set H)"
      "chain (length (h_read_set (fst s))) (tx_read_set tr) (map tx_read_set inner)"
    using assms unfolding below_def s1 by (auto simp: length_Suc_conv)
  let ?m = "length (h_log H) - pos_of tr"
  have log: "h_log H = items @ h_log (fst s)" using b(3) by (simp add: undoes_def s1)
  have m: "?m \<le> length items" using chain_le [OF pos(3)] log by simp
  let ?H = "H\<lparr>h_transactions := inner @ h_transactions (fst s), h_read_set := take (tx_read_set tr) (h_read_set H),
      h_log := drop ?m (h_log H), h_commit_type := tx_commit_type tr\<rparr>"
  let ?D = "undo_all (d_time D) (take ?m (h_log H)) D"
  have "tr_abort s1 = Done (?H, ?D)"
    unfolding s1 by (rule tr_abort_inner [OF b(1) pos(1,2)])
  moreover have "below s k (?H, ?D)" unfolding below_def
  proof (intro exI conjI)
    have "undoes s (drop ?m items) (?H, undo_all (d_time D) (take ?m items) (snd s1))"
      by (rule undoes_drop [OF b(3) m]) (use m in \<open>simp add: log\<close>)
    then show "undoes s (drop ?m items) (?H, ?D)" using m by (simp add: s1 log)
    have "length (h_read_set (fst s)) \<le> tx_read_set tr" by (rule chain_le [OF reads(2)])
    then show "h_read_set (fst (?H, ?D)) = h_read_set (fst s) @ take (tx_read_set tr - length (h_read_set (fst s))) rs"
      by (simp add: b(4))
    show "chain (length (h_log (fst s))) (length (h_log (fst (?H, ?D)))) (map pos_of inner)"
      using pos by (simp add: diff_diff_cancel)
    show "chain (length (h_read_set (fst s))) (length (h_read_set (fst (?H, ?D)))) (map tx_read_set inner)"
      using reads by simp
  qed (use b in simp_all)
  ultimately show ?thesis by blast
qed

lemma below_commit:
  assumes "below s (Suc k) s1"
  shows "below s k (tr_commit_nested ct s1)"
proof -
  obtain H D where s1: "s1 = (H, D)" by force
  obtain tr inner items rs ls where b:
      "h_transactions H = tr # inner @ h_transactions (fst s)" "length inner = k" "undoes s items s1"
      "h_read_set H = h_read_set (fst s) @ rs" "h_acquired_locks H = ls @ h_acquired_locks (fst s)"
      "h_start_time H = h_start_time (fst s)" "h_ptr H = h_ptr (fst s)"
      "grows (d_tmem (snd s)) (d_tmem D)" "\<forall>tr \<in> set inner. tx_pos tr \<noteq> Some 0"
      "pos_of tr \<le> length (h_log H)" "chain (length (h_log (fst s))) (pos_of tr) (map pos_of inner)"
      "tx_read_set tr \<le> length (h_read_set H)"
      "chain (length (h_read_set (fst s))) (tx_read_set tr) (map tx_read_set inner)"
    using assms unfolding below_def s1 by (auto simp: length_Suc_conv)
  show ?thesis unfolding below_def
    by (rule exI [of _ inner], rule exI [of _ items], rule exI [of _ rs], rule exI [of _ ls])
      (use b in \<open>auto simp: tr_commit_nested_def s1 Let_def undoes_def split: CommitType.split intro: chain_mono\<close>)
qed

text \<open>Sequences of operations.\<close>

lemma below_execs:
  assumes "malloc_fresh malloc" and "node_alloc_fresh na" and "callback_ok malloc cb" and "h_start_time (fst s) \<noteq> 0"
  shows "below s k s1 \<Longrightarrow> nested k ops \<Longrightarrow> tr_execs malloc na cb ops s1 = Done s2 \<Longrightarrow> below s 0 s2"
proof (induction ops arbitrary: k s1)
  case Nil
  then show ?case by simp
next
  case (Cons x ops)
  from Cons.prems(3) obtain s' where x: "tr_exec malloc na cb x s1 = Done s'" and ops: "tr_execs malloc na cb ops s' = Done s2"
    by (auto elim: obindE)
  have logged: "below s k s'" if "logged s1 s'" using Cons.prems(1) that by (rule below_logged)
  show ?case
  proof (cases x)
    case (Access a)
    with x have "logged s1 s'" by (auto intro: access_logged [OF assms(1)])
    with Access Cons.prems(2) ops logged show ?thesis by (auto intro: Cons.IH)
  next
    case (Create r)
    with x obtain res where "tr_node_create na cb r s1 = Done (res, s')" by (auto elim!: obindE)
    then have "logged s1 s'" by (rule tr_node_create_logged [OF assms(1-3)])
    with Create Cons.prems(2) ops logged show ?thesis by (auto intro: Cons.IH)
  next
    case (Delete n)
    with x obtain ok where "tr_node_delete malloc cb n s1 = Done (ok, s')" by (auto elim!: obindE)
    then have "logged s1 s'" by (rule tr_node_delete_logged [OF assms(1,3)])
    with Delete Cons.prems(2) ops logged show ?thesis by (auto intro: Cons.IH)
  next
    case (UpdateIndexes n)
    with x obtain ok where "cb CBE_NODE_MODIFIED n s1 = Done (ok, s')"
      by (auto simp: tr_node_update_indexes_def elim!: obindE)
    then have "logged s1 s'" by (rule callback_logged [OF assms(1,3)])
    with UpdateIndexes Cons.prems(2) ops logged show ?thesis by (auto intro: Cons.IH)
  next
    case Begin
    with x below_begin [OF Cons.prems(1) assms(4)] have "below s (Suc k) s'" by simp
    with Begin Cons.prems(2) ops show ?thesis by (auto intro: Cons.IH)
  next
    case (Commit ct)
    with Cons.prems(2) obtain j where j: "k = Suc j" by (cases k) auto
    with x Commit Cons.prems(1) have "below s j s'" by (auto intro: below_commit)
    with Commit j Cons.prems(2) ops show ?thesis by (auto intro: Cons.IH)
  next
    case Abort
    with Cons.prems(2) obtain j where j: "k = Suc j" by (cases k) auto
    with x Abort below_abort [of s j s1] Cons.prems(1) have "below s j s'" by auto
    with Abort j Cons.prems(2) ops show ?thesis by (auto intro: Cons.IH)
  qed
qed

text \<open>
  C23: a nested transaction is atomic. Whatever is done in it -- reads, writes of attributes
  and index fields, nodes created and deleted, memory, further nested transactions -- and
  whether or not the operations succeeded, aborting it never faults and gives back every
  existing node, its attributes, its reference counter and every index field as they were,
  with the log, the read set, the enclosing transactions and the commit type of the moment it
  began; no lock is released and no memory in use was changed. Committing it instead leaves
  in the log what undoes all of it, for the sake of the enclosing transaction.
\<close>

theorem tr_abort_restores:
  assumes "h_start_time (fst s) \<noteq> 0"
    and "malloc_fresh malloc" and "node_alloc_fresh na" and "callback_ok malloc cb"
    and "nested 0 ops" and "tr_execs malloc na cb ops (tr_begin s) = Done s'"
  shows "\<exists>s'' items. tr_abort s' = Done s'' \<and> same_view (snd s'') (snd s)
    \<and> h_log (fst s'') = h_log (fst s) \<and> h_read_set (fst s'') = h_read_set (fst s)
    \<and> h_transactions (fst s'') = h_transactions (fst s) \<and> h_commit_type (fst s'') = h_commit_type (fst s)
    \<and> h_start_time (fst s'') = h_start_time (fst s)
    \<and> (\<exists>ls. h_acquired_locks (fst s'') = ls @ h_acquired_locks (fst s))
    \<and> grows (d_tmem (snd s)) (d_tmem (snd s''))
    \<and> undoes s items (tr_commit_nested ct s')"
proof -
  obtain H D where s: "s = (H, D)" by force
  obtain H' D' where s': "s' = (H', D')" by force
  define nt where "nt = \<lparr>tx_read_set = length (h_read_set H),
     tx_pos = (if h_log H = [] then None else Some (length (h_log H))),
     tx_acquired_locks = length (h_acquired_locks H), tx_commit_type = h_commit_type H\<rparr>"
  have begin_eq: "tr_begin (H, D) = (H\<lparr>h_transactions := nt # h_transactions H\<rparr>, D)"
    using assms(1) by (simp add: tr_begin_def s nt_def)
  have "below (tr_begin s) 0 s'"
    by (rule below_execs [OF assms(2-4) _ below_refl assms(5,6)]) (use assms(1) in \<open>simp add: s begin_eq\<close>)
  then obtain items rs ls where b:
      "h_transactions H' = nt # h_transactions H" "undoes (tr_begin s) items s'"
      "h_read_set H' = h_read_set H @ rs" "h_acquired_locks H' = ls @ h_acquired_locks H"
      "h_start_time H' = h_start_time H" "grows (d_tmem D) (d_tmem D')"
    unfolding below_def by (auto simp: s begin_eq s')
  have log: "h_log H' = items @ h_log H" using b(2) by (simp add: undoes_def s begin_eq s')
  have "tx_pos nt \<noteq> Some 0" "pos_of nt = length (h_log H)" by (simp_all add: nt_def pos_of_def)
  with tr_abort_inner [OF b(1)] log
  have "tr_abort s' = Done (H'\<lparr>h_transactions := h_transactions H, h_read_set := take (tx_read_set nt) (h_read_set H'),
      h_log := h_log H, h_commit_type := tx_commit_type nt\<rparr>, undo_all (d_time D') items D')"
    by (simp add: s')
  moreover have "same_view (undo_all (d_time D') items D') D"
    using b(2) by (simp add: undoes_def s begin_eq s')
  moreover have "undoes s items (tr_commit_nested ct s')"
    using b(2) by (auto simp: undoes_def begin_eq s s' tr_commit_nested_def Let_def split: CommitType.split)
  ultimately show ?thesis
    by (intro exI conjI) (use b in \<open>auto simp: s nt_def\<close>)
qed

text \<open>A database with one node: an \<open>Int8\<close> and a \<open>String\<close>.\<close>

definition demo_type :: DatabaseType where
  "demo_type = \<lparr>dt_name = [68], dt_version = [49], dt_node_types =
     [\<lparr>nt_name = [78], nt_attributes = [\<lparr>at_name = [97], at_type = Int8\<rparr>, \<lparr>at_name = [98], at_type = String\<rparr>]\<rparr>]\<rparr>"

definition demo_database :: Database where
  "demo_database = \<lparr>d_type = demo_type, d_time = 3, d_node_id_counter = 1,
     d_nodes = (\<lambda>n. if n = 4096
       then \<lparr>n_ref_count = 0, n_id = 1, n_lock = l_init, n_type = 0, n_cells = [Bits [5], Ref 0]\<rparr>
       else \<lparr>n_ref_count = 0, n_id = 0, n_lock = l_init, n_type = 0, n_cells = []\<rparr>),
     d_fields = (\<lambda>_. 0), d_obj_locks = (\<lambda>_. l_init), d_tmem = Map.empty, d_freed = [], d_nodes_freed = []\<rparr>"

definition demo_malloc :: malloc where
  "demo_malloc H n = (if H 8192 = None then Some 8192 else None)"

definition demo_node_alloc :: "Database \<Rightarrow> nat \<Rightarrow> addr" where
  "demo_node_alloc D k = (if n_id (d_nodes D 4160) = 0 then 4160 else 0)"

abbreviation demo_session :: session where
  "demo_session \<equiv> tr_begin (fst (db_handle_init 2 []), demo_database)"

lemma demo_ok: "malloc_fresh demo_malloc" "node_alloc_fresh demo_node_alloc"
  "callback_ok malloc (\<lambda>ev n s. Done (True, s))"
  by (auto simp: malloc_fresh_def demo_malloc_def node_alloc_fresh_def demo_node_alloc_def callback_ok_def
      intro: exI [of _ "[]"])

lemmas demo_defs = demo_database_def demo_type_def demo_malloc_def demo_node_alloc_def db_handle_init_def l_init_def
  tr_begin_def trWrite_def trInternalWrite_def util_lock_def and_then_def attribute_write_def tr_memory_alloc_def
  tr_memory_free_def tm_alloc_def generic_allocator_alloc_def push_log_def put_cell_def get_cell_def set_cell_def
  node_get_type_def attr_types_def is_primitive_def c_string_def cell_ref_def l_lock_eq l_permits_def
  tr_node_create_def resolve_type_def tr_commit_nested_def node_init_def attribute_init_def atomic_simps upd_node_def

theorem tr_abort_restores_witness:
  "\<exists>s' s''. tr_execs demo_malloc demo_node_alloc (\<lambda>ev n s. Done (True, s))
       [Access (Write 4096 0 (VBits [7])), Begin, Access (Write 4096 1 (VString (Some [65, 0]))),
        Commit CT_SYNC, Create (Own 0)] (tr_begin demo_session) = Done s'
     \<and> n_cells (d_nodes (snd s') 4096) = [Bits [7], Ref 8192] \<and> n_id (d_nodes (snd s') 4160) = 2
     \<and> tr_abort s' = Done s'' \<and> same_view (snd s'') (snd demo_session)"
proof -
  let ?ops = "[Access (Write 4096 0 (VBits [7])), Begin, Access (Write 4096 1 (VString (Some [65, 0]))),
        Commit CT_SYNC, Create (Own 0)]"
  have started: "h_start_time (fst demo_session) \<noteq> 0" by (simp add: demo_defs)
  have nested: "nested 0 ?ops" by simp
  obtain s' where s': "tr_execs demo_malloc demo_node_alloc (\<lambda>ev n s. Done (True, s)) ?ops (tr_begin demo_session) = Done s'"
      "n_cells (d_nodes (snd s') 4096) = [Bits [7], Ref 8192]" "n_id (d_nodes (snd s') 4160) = 2"
    by (simp add: demo_defs Let_def)
  from tr_abort_restores [OF started demo_ok nested s'(1), of CT_ASYNC] s' show ?thesis by blast
qed

section \<open>Reference counters\<close>

text \<open>
  The counter of a node is the number of \<open>Pointer\<close> attributes of existing nodes that refer
  to it, and such an attribute is null or refers to an existing node.
\<close>

definition pointer_cells :: "Database \<Rightarrow> (addr \<times> nat) set" where
  "pointer_cells D = {(m, i). n_id (d_nodes D m) \<noteq> 0 \<and> i < length (n_cells (d_nodes D m))
     \<and> attr_types (node_get_type D m) ! i = Pointer}"

definition pointers_to :: "Database \<Rightarrow> addr \<Rightarrow> (addr \<times> nat) set" where
  "pointers_to D n = {(m, i) \<in> pointer_cells D. n_cells (d_nodes D m) ! i = Ref n}"

definition counts_ok :: "Database \<Rightarrow> bool" where
  "counts_ok D \<longleftrightarrow> finite (pointer_cells D) \<and> card (pointer_cells D) < 2 ^ 64
     \<and> (\<forall>n. n \<noteq> 0 \<and> n_id (d_nodes D n) \<noteq> 0 \<longrightarrow> n_ref_count (d_nodes D n) = of_nat (card (pointers_to D n)))
     \<and> (\<forall>(m, i) \<in> pointer_cells D. \<exists>p. n_cells (d_nodes D m) ! i = Ref p \<and> (p \<noteq> 0 \<longrightarrow> n_id (d_nodes D p) \<noteq> 0))"

text \<open>\<open>shifted f D D'\<close>: nothing but locks, and the counters by \<open>f\<close>, differs.\<close>

definition shifted :: "(addr \<Rightarrow> u64) \<Rightarrow> Database \<Rightarrow> Database \<Rightarrow> bool" where
  "shifted f D D' \<longleftrightarrow> d_type D' = d_type D \<and> (\<forall>x. n_id (d_nodes D' x) = n_id (d_nodes D x)
     \<and> n_type (d_nodes D' x) = n_type (d_nodes D x) \<and> n_cells (d_nodes D' x) = n_cells (d_nodes D x)
     \<and> n_ref_count (d_nodes D' x) = n_ref_count (d_nodes D x) + f x)"

definition at_addr :: "addr \<Rightarrow> u64 \<Rightarrow> addr \<Rightarrow> u64" where
  "at_addr n d x = (if x = n then d else 0)"

lemma shifted_trans: "shifted f D D' \<Longrightarrow> shifted g D' D'' \<Longrightarrow> shifted (\<lambda>x. f x + g x) D D''"
  by (simp add: shifted_def)

lemma shifted_refl: "shifted (\<lambda>_. 0) D D"
  by (simp add: shifted_def)

lemma shifted_pointers: "shifted f D D' \<Longrightarrow> pointer_cells D' = pointer_cells D"
  by (simp add: shifted_def pointer_cells_def node_get_type_def)

lemma set_lock_shifted: "shifted (\<lambda>_. 0) D (set_lock r l D)"
  by (cases r) (simp_all add: shifted_def)

lemma util_lock_shifted:
  assumes "lock_addr r \<noteq> 0"
  shows "\<exists>ok s'. util_lock r s = Done (ok, s') \<and> shifted (\<lambda>_. 0) (snd s) (snd s')"
  using assms by (auto simp: util_lock_def shifted_refl set_lock_shifted split: prod.split if_splits)

lemma increase_shifted:
  assumes "m \<noteq> 0"
  shows "\<exists>ok s'. node_ref_count_increase m s = Done (ok, s') \<and> (ok \<longrightarrow> shifted (at_addr m 1) (snd s) (snd s'))"
proof -
  obtain ok H D where l: "util_lock (Node_lock m) s = Done (ok, H, D)" "shifted (\<lambda>_. 0) (snd s) D"
    using util_lock_shifted [of "Node_lock m" s] assms by auto
  then have "shifted (at_addr m 1) (snd s) (snd (trMemoryInternalWrite (Ref_count m) (n_ref_count (d_nodes D m) + 1) (H, D)))"
    by (simp add: shifted_def trMemoryInternalWrite_def at_addr_def)
  with l(1) show ?thesis by (cases ok) (auto simp: node_ref_count_increase_def and_then_def)
qed

lemma decrease_shifted:
  assumes "m \<noteq> 0" and "n_ref_count (d_nodes (snd s) m) > 0"
  shows "\<exists>ok s'. node_ref_count_decrease m s = Done (ok, s') \<and> (ok \<longrightarrow> shifted (at_addr m (- 1)) (snd s) (snd s'))"
proof -
  obtain ok H D where l: "util_lock (Node_lock m) s = Done (ok, H, D)" "shifted (\<lambda>_. 0) (snd s) D"
    using util_lock_shifted [of "Node_lock m" s] assms by auto
  then have "shifted (at_addr m (- 1)) (snd s) (snd (trMemoryInternalWrite (Ref_count m) (n_ref_count (d_nodes D m) - 1) (H, D)))"
    by (simp add: shifted_def trMemoryInternalWrite_def at_addr_def)
  moreover have "n_ref_count (d_nodes D m) > 0" using l(2) assms(2) by (simp add: shifted_def)
  ultimately show ?thesis using l(1) by (cases ok) (auto simp: node_ref_count_decrease_def and_then_def)
qed

lemma pointers_to_count:
  assumes "counts_ok D" and "(n, i) \<in> pointer_cells D" and "n_cells (d_nodes D n) ! i = Ref p" and "p \<noteq> 0"
  shows "n_ref_count (d_nodes D p) > 0"
proof -
  have fin: "finite (pointer_cells D)" and small: "card (pointer_cells D) < 2 ^ 64"
    and cells: "\<exists>p'. n_cells (d_nodes D n) ! i = Ref p' \<and> (p' \<noteq> 0 \<longrightarrow> n_id (d_nodes D p') \<noteq> 0)"
    using assms(1,2) unfolding counts_ok_def by blast+
  with assms(3,4) have "n_id (d_nodes D p) \<noteq> 0" by auto
  then have c: "n_ref_count (d_nodes D p) = of_nat (card (pointers_to D p))"
    using assms(1,4) unfolding counts_ok_def by blast
  have sub: "pointers_to D p \<subseteq> pointer_cells D" by (auto simp: pointers_to_def)
  have "(n, i) \<in> pointers_to D p" using assms(2,3) by (simp add: pointers_to_def)
  moreover have "finite (pointers_to D p)" using sub fin by (rule finite_subset)
  ultimately have pos: "card (pointers_to D p) \<noteq> 0" by auto
  have "card (pointers_to D p) \<le> card (pointer_cells D)" using fin sub by (rule card_mono)
  then have "unat (of_nat (card (pointers_to D p)) :: u64) = card (pointers_to D p)"
    using small by (intro unat_of_nat_small) simp
  with pos have "(of_nat (card (pointers_to D p)) :: u64) \<noteq> 0" by (metis unat_0)
  then show ?thesis unfolding c by (simp add: word_gt_0)
qed

text \<open>The bookkeeping of replacing one pointer.\<close>

lemma counts_replace:
  assumes ok: "counts_ok D" and ni: "(n, i) \<in> pointer_cells D" and old: "n_cells (d_nodes D n) ! i = Ref p"
    and m: "m \<noteq> 0" "n_id (d_nodes D m) \<noteq> 0"
    and sh: "shifted (\<lambda>x. (if p = 0 then 0 else at_addr p (- 1) x) + at_addr m 1 x) D D1"
  shows "counts_ok (upd_node n (set_cell i (Ref m)) D1)"
proof -
  let ?D = "upd_node n (set_cell i (Ref m)) D1"
  have i: "i < length (n_cells (d_nodes D n))" using ni by (simp add: pointer_cells_def)
  have id: "n_id (d_nodes ?D x) = n_id (d_nodes D x)" for x
    using sh by (simp add: shifted_def)
  have cells: "n_cells (d_nodes ?D x) = (if x = n then (n_cells (d_nodes D x))[i := Ref m] else n_cells (d_nodes D x))" for x
    using sh i by (simp add: shifted_def set_cell_def)
  have count: "n_ref_count (d_nodes ?D x) = n_ref_count (d_nodes D x) + ((if p = 0 then 0 else at_addr p (- 1) x) + at_addr m 1 x)" for x
    using sh i by (simp add: shifted_def set_cell_def)
  have len: "length (n_cells (d_nodes ?D x)) = length (n_cells (d_nodes D x))" for x
    unfolding cells by simp
  have type: "n_type (d_nodes ?D x) = n_type (d_nodes D x)" "d_type ?D = d_type D" for x
    using sh by (simp_all add: shifted_def)
  have pc: "pointer_cells ?D = pointer_cells D"
    by (simp only: pointer_cells_def node_get_type_def id type len)
  have fin: "finite (pointers_to D x)" for x
    using ok finite_subset [of "pointers_to D x" "pointer_cells D"] by (auto simp: counts_ok_def pointers_to_def)
  have pt: "pointers_to ?D x = (if x = m then insert (n, i) (pointers_to D x) else pointers_to D x - {(n, i)})" for x
    using ni i unfolding pointers_to_def pc cells by (auto simp: nth_list_update split: if_splits)
  have mem: "(n, i) \<in> pointers_to D x \<longleftrightarrow> x = p" for x
    using ni old by (auto simp: pointers_to_def)
  show ?thesis unfolding counts_ok_def pc
  proof (intro conjI allI impI)
    show "finite (pointer_cells D)" "card (pointer_cells D) < 2 ^ 64"
      using ok unfolding counts_ok_def by blast+
    show "\<forall>(a, b)\<in>pointer_cells D. \<exists>q. n_cells (d_nodes ?D a) ! b = Ref q \<and> (q \<noteq> 0 \<longrightarrow> n_id (d_nodes ?D q) \<noteq> 0)"
    proof clarify
      fix a b
      assume ab: "(a, b) \<in> pointer_cells D"
      then have "\<exists>q. n_cells (d_nodes D a) ! b = Ref q \<and> (q \<noteq> 0 \<longrightarrow> n_id (d_nodes D q) \<noteq> 0)"
        using ok unfolding counts_ok_def by blast
      then show "\<exists>q. n_cells (d_nodes ?D a) ! b = Ref q \<and> (q \<noteq> 0 \<longrightarrow> n_id (d_nodes ?D q) \<noteq> 0)"
        using m i unfolding cells id by (auto simp: nth_list_update)
    qed
    fix x
    assume x: "x \<noteq> 0 \<and> n_id (d_nodes ?D x) \<noteq> 0"
    then have c: "n_ref_count (d_nodes D x) = of_nat (card (pointers_to D x))"
      using ok unfolding counts_ok_def id by blast
    have del: "card (pointers_to D x) = Suc (card (pointers_to D x - {(n, i)}))" if "x = p"
      using that mem fin by (metis card_Suc_Diff1)
    have same: "pointers_to D x - {(n, i)} = pointers_to D x" if "x \<noteq> p"
      using that mem by auto
    have ins: "card (insert (n, i) (pointers_to D x)) = (if x = p then card (pointers_to D x) else Suc (card (pointers_to D x)))"
      using mem fin by (simp add: card_insert_if)
    consider "x = m" "x = p" | "x = m" "x \<noteq> p" | "x \<noteq> m" "x = p" | "x \<noteq> m" "x \<noteq> p" by blast
    then show "n_ref_count (d_nodes ?D x) = of_nat (card (pointers_to ?D x))"
    proof cases
      case 1
      with x ins show ?thesis unfolding count pt c by (simp add: at_addr_def)
    next
      case 2
      with ins show ?thesis unfolding count pt c by (simp add: at_addr_def)
    next
      case 3
      with x del [OF 3(2)] show ?thesis unfolding count pt c by (simp add: at_addr_def)
    next
      case 4
      with same [OF 4(2)] show ?thesis unfolding count pt c by (simp add: at_addr_def)
    qed
  qed
qed

lemma shifted_id: "shifted f D D' \<Longrightarrow> n_id (d_nodes D' x) = n_id (d_nodes D x)"
  by (simp add: shifted_def)

lemma shifted_cells: "shifted f D D' \<Longrightarrow> n_cells (d_nodes D' x) = n_cells (d_nodes D x)"
  by (simp add: shifted_def)

lemma pointer_write_ok:
  assumes ok: "counts_ok D0" and ni: "(n, i) \<in> pointer_cells D0" and m: "m \<noteq> 0" "n_id (d_nodes D0 m) \<noteq> 0"
    and s: "shifted (\<lambda>_. 0) D0 (snd s)"
  shows "\<exists>ok s'. attribute_write malloc Pointer n i (VNode m) s = Done (ok, s')
    \<and> (ok \<longrightarrow> counts_ok (snd s') \<and> n_cells (d_nodes (snd s') n) ! i = Ref m)"
proof -
  have i: "i < length (n_cells (d_nodes D0 n))" using ni by (simp add: pointer_cells_def)
  obtain p where p: "n_cells (d_nodes D0 n) ! i = Ref p"
    using ok ni unfolding counts_ok_def by blast
  have old: "cell_ref (get_cell (d_nodes (snd s) n) i) = p"
    using i p shifted_cells [OF s, of n] by (simp add: get_cell_def cell_ref_def)
  define first where "first = (if p \<noteq> 0 then node_ref_count_decrease p s else Done (True, s))"
  have "\<exists>ok s1. first = Done (ok, s1) \<and> (ok \<longrightarrow> shifted (\<lambda>x. if p = 0 then 0 else at_addr p (- 1) x) (snd s) (snd s1))"
  proof (cases "p = 0")
    case True
    then show ?thesis by (auto simp: first_def shifted_refl)
  next
    case False
    have "n_ref_count (d_nodes (snd s) p) > 0"
      using pointers_to_count [OF ok ni p False] s by (simp add: shifted_def)
    from decrease_shifted [OF False this] False show ?thesis by (simp add: first_def)
  qed
  then obtain ok1 s1 where 1: "first = Done (ok1, s1)"
    "ok1 \<Longrightarrow> shifted (\<lambda>x. if p = 0 then 0 else at_addr p (- 1) x) (snd s) (snd s1)" by blast
  obtain ok2 s2 where 2: "node_ref_count_increase m s1 = Done (ok2, s2)"
    "ok2 \<Longrightarrow> shifted (at_addr m 1) (snd s1) (snd s2)"
    using increase_shifted [OF m(1), of s1] by blast
  have w: "attribute_write malloc Pointer n i (VNode m) s =
      and_then first (\<lambda>s. and_then (node_ref_count_increase m s) (\<lambda>s. Done (True, put_cell n i (Ref m) s)))"
    by (simp add: attribute_write_def Let_def old first_def)
  show ?thesis
  proof (cases "ok1 \<and> ok2")
    case True
    then have "shifted (\<lambda>x. (0 + (if p = 0 then 0 else at_addr p (- 1) x)) + at_addr m 1 x) D0 (snd s2)"
      using shifted_trans [OF shifted_trans [OF s 1(2)] 2(2)] by simp
    then have sh: "shifted (\<lambda>x. (if p = 0 then 0 else at_addr p (- 1) x) + at_addr m 1 x) D0 (snd s2)" by simp
    have "attribute_write malloc Pointer n i (VNode m) s = Done (True, put_cell n i (Ref m) s2)"
      using True 1(1) 2(1) by (simp add: w and_then_def)
    moreover have "counts_ok (snd (put_cell n i (Ref m) s2))"
      using counts_replace [OF ok ni p m sh] by simp
    moreover have "n_cells (d_nodes (snd (put_cell n i (Ref m) s2)) n) ! i = Ref m"
      using i shifted_cells [OF sh, of n] by (simp add: set_cell_def)
    ultimately show ?thesis by blast
  next
    case False
    then have "\<exists>s'. attribute_write malloc Pointer n i (VNode m) s = Done (False, s')"
      using 1(1) 2(1) by (cases ok1) (simp_all add: w and_then_def)
    then show ?thesis by blast
  qed
qed

text \<open>
  C27: writing a \<open>Pointer\<close> attribute keeps the reference counters exact. If every counter is
  the number of pointers to its node before, then writing a reference to an existing node --
  the old one or the node itself included -- never trips the assertion that the counter is
  positive, and if it reports success the attribute holds the new reference and every counter
  is exact again.
\<close>

theorem trWrite_keeps_ref_counts:
  assumes "counts_ok (snd s)" and "(n, i) \<in> pointer_cells (snd s)" and "n \<noteq> 0"
    and "m \<noteq> 0" and "n_id (d_nodes (snd s) m) \<noteq> 0"
  shows "\<exists>ok s'. trWrite malloc n i (VNode m) s = Done (ok, s')
    \<and> (ok \<longrightarrow> counts_ok (snd s') \<and> n_cells (d_nodes (snd s') n) ! i = Ref m)"
proof -
  obtain ok1 s1 where 1: "util_lock (Node_lock n) s = Done (ok1, s1)" "shifted (\<lambda>_. 0) (snd s) (snd s1)"
    using util_lock_shifted [of "Node_lock n" s] assms(3) by auto
  obtain ok2 s2 where 2: "attribute_write malloc Pointer n i (VNode m) s1 = Done (ok2, s2)"
    "ok2 \<Longrightarrow> counts_ok (snd s2) \<and> n_cells (d_nodes (snd s2) n) ! i = Ref m"
    using pointer_write_ok [OF assms(1,2,4,5) 1(2)] by blast
  have i: "i < length (n_cells (d_nodes (snd s1) n))" and t: "attr_types (node_get_type (snd s1) n) ! i = Pointer"
    using assms(2) shifted_pointers [OF 1(2)] by (auto simp: pointer_cells_def)
  have "\<exists>item. trInternalWrite malloc n i (VNode m) s1 = Done (ok2, push_log item s2)"
    using i t 2(1) assms(3) by (auto simp: trInternalWrite_def is_primitive_def Let_def)
  with 1(1) 2(2) show ?thesis by (cases ok1) (auto simp: trWrite_def and_then_def)
qed

text \<open>Two nodes with a pointer each; the first refers to the second.\<close>

definition demo_graph :: Database where
  "demo_graph = \<lparr>d_type = \<lparr>dt_name = [], dt_version = [], dt_node_types =
       [\<lparr>nt_name = [], nt_attributes = [\<lparr>at_name = [], at_type = Pointer\<rparr>]\<rparr>]\<rparr>,
     d_time = 3, d_node_id_counter = 2,
     d_nodes = (\<lambda>n. if n = 64
       then \<lparr>n_ref_count = 0, n_id = 1, n_lock = l_init, n_type = 0, n_cells = [Ref 128]\<rparr>
       else if n = 128
       then \<lparr>n_ref_count = 1, n_id = 2, n_lock = l_init, n_type = 0, n_cells = [Ref 0]\<rparr>
       else \<lparr>n_ref_count = 0, n_id = 0, n_lock = l_init, n_type = 0, n_cells = []\<rparr>),
     d_fields = (\<lambda>_. 0), d_obj_locks = (\<lambda>_. l_init), d_tmem = Map.empty, d_freed = [], d_nodes_freed = []\<rparr>"

lemma demo_graph_pointers: "pointer_cells demo_graph = {(64, 0), (128, 0)}"
  by (auto simp: pointer_cells_def demo_graph_def node_get_type_def attr_types_def split: if_splits)

lemma demo_graph_counts: "counts_ok demo_graph"
proof -
  have "pointers_to demo_graph x = (if x = 128 then {(64, 0)} else if x = 0 then {(128, 0)} else {})" for x
    by (auto simp: pointers_to_def demo_graph_pointers) (auto simp: demo_graph_def)
  then show ?thesis
    by (auto simp: counts_ok_def demo_graph_pointers) (auto simp: demo_graph_def)
qed

theorem trWrite_keeps_ref_counts_witness:
  "\<exists>ok s'. trWrite demo_malloc 64 0 (VNode 64) (tr_begin (fst (db_handle_init 2 []), demo_graph)) = Done (ok, s')
     \<and> ok \<and> counts_ok (snd s') \<and> n_ref_count (d_nodes (snd s') 64) = 1"
proof -
  let ?s = "tr_begin (fst (db_handle_init 2 []), demo_graph)"
  have s: "snd ?s = demo_graph" by (simp add: tr_begin_def db_handle_init_def)
  have run: "\<exists>s'. trWrite demo_malloc 64 0 (VNode 64) ?s = Done (True, s') \<and> n_ref_count (d_nodes (snd s') 64) = 1"
    by (simp add: demo_defs demo_graph_def node_ref_count_decrease_def node_ref_count_increase_def
        trMemoryInternalWrite_def Let_def)
  have "\<exists>ok s'. trWrite demo_malloc 64 0 (VNode 64) ?s = Done (ok, s')
      \<and> (ok \<longrightarrow> counts_ok (snd s') \<and> n_cells (d_nodes (snd s') 64) ! 0 = Ref 64)"
    by (rule trWrite_keeps_ref_counts) (simp_all add: s demo_graph_counts demo_graph_pointers, simp add: demo_graph_def)
  with run show ?thesis by fastforce
qed

text \<open>
  C28: a null reference cannot be written. The \<open>Write\<close> body tests where the value lies instead
  of the value, so it locks the node at address 0. Deleting an unreferenced node whose
  indexes agree therefore dies at its first \<open>Pointer\<close> attribute if that one is null; if it
  refers to a node, it dies as well, unless that node is locked by somebody else: then the
  deletion reports success although the counter of the node referred to stays as it is. And
  because their assertions are inverted, the functions that access an attribute by number
  die for every number that names one.
\<close>

theorem tr_node_delete_null_pointer:
  assumes "util_lock (Node_lock n) s = Done (True, s1)" and "n_ref_count (d_nodes (snd s1) n) = 0"
    and "cb CBE_NODE_DELETED n s1 = Done (True, s2)"
    and "attr_types (node_get_type (snd s2) n) = ts @ Pointer # ts'" and "Pointer \<notin> set ts"
    and "get_cell (d_nodes (snd s2) n) (length ts) = Ref p"
    and "0 \<le> a" and "a < int (length (nt_attributes (node_get_type (snd s) n)))"
  shows "tr_node_delete malloc cb n s =
      (if p = 0 then Fault
       else case node_ref_count_decrease p s2 of
         Done (False, s3) \<Rightarrow> Done (True, push_log (LI_TYPE_NODE_DELETE n) s3)
       | Failed \<Rightarrow> Failed | _ \<Rightarrow> Fault)
    \<and> tr_node_read n a s = Fault \<and> tr_node_write malloc n a v s = Fault"
proof -
  have skip: "destroy_pointers malloc n (ts @ us) i s2 = destroy_pointers malloc n us (i + length ts) s2"
    if "Pointer \<notin> set ts" for ts us i
    using that by (induction ts arbitrary: i) auto
  have "destroy_pointers malloc n (ts @ Pointer # ts') 0 s2 =
      and_then (if p = 0 then Fault else case node_ref_count_decrease p s2 of
          Done (False, s') \<Rightarrow> Done (False, s') | Failed \<Rightarrow> Failed | _ \<Rightarrow> Fault)
        (destroy_pointers malloc n ts' (Suc (length ts)))"
    by (simp add: skip [OF assms(5)] null_pointer_write assms(6) cell_ref_def)
  then have "tr_node_delete malloc cb n s =
      (if p = 0 then Fault
       else case node_ref_count_decrease p s2 of
         Done (False, s3) \<Rightarrow> Done (True, push_log (LI_TYPE_NODE_DELETE n) s3)
       | Failed \<Rightarrow> Failed | _ \<Rightarrow> Fault)"
    using assms(1-4) by (simp add: tr_node_delete_def and_then_def split: outcome.split prod.split bool.split)
  moreover have "n \<noteq> 0" using assms(1) by (auto simp: util_lock_def split: prod.splits if_splits)
  ultimately show ?thesis
    using assms(7,8) by (simp add: tr_node_read_def tr_node_write_def Let_def)
qed

theorem tr_node_delete_null_pointer_witness:
  "tr_node_delete demo_malloc (\<lambda>ev n s. Done (True, s)) 64 (tr_begin (fst (db_handle_init 2 []), demo_graph)) = Fault"
proof -
  let ?s = "tr_begin (fst (db_handle_init 2 []), demo_graph)"
  obtain s1 where s1: "util_lock (Node_lock 64) ?s = Done (True, s1)" "n_ref_count (d_nodes (snd s1) 64) = 0"
      "attr_types (node_get_type (snd s1) 64) = [] @ Pointer # []" "get_cell (d_nodes (snd s1) 64) (length ([] :: attr_type list)) = Ref 128"
      "case node_ref_count_decrease 128 s1 of Done (b, _) \<Rightarrow> b | _ \<Rightarrow> False"
    by (simp add: demo_defs demo_graph_def node_ref_count_decrease_def trMemoryInternalWrite_def Let_def)
  have a: "0 < int (length (nt_attributes (node_get_type (snd ?s) 64)))"
    by (simp add: demo_defs demo_graph_def)
  have n: "Pointer \<notin> set []" by simp
  have cb: "(\<lambda>ev n s. Done (True, s)) CBE_NODE_DELETED (64 :: addr) s1 = Done (True, s1)" by simp
  from tr_node_delete_null_pointer [where cb = "\<lambda>ev n s. Done (True, s)" and malloc = demo_malloc,
      OF s1(1,2) cb s1(3) n s1(4) order_refl a] s1(5)
  show ?thesis by (auto split: outcome.splits prod.splits bool.splits)
qed

end
