(* ===== verification/Typing.thy ===== *)
theory Typing
  imports Transaction
begin

text \<open>
  The types of the data. The C code trusts the schema: \<open>Store\<close>, \<open>Destroy\<close> and the readers look
  at a cell the way its attribute's type says and follow the reference they find. Here: the
  cells of every node that exists keep to the schema, whatever a session does, and every
  reference to a string leads to a block that holds one and that nobody asked to be released
  -- in the state reached, in every state a nested rollback leads back to, and after an abort.
\<close>

section \<open>Typed databases\<close>

definition node_typed :: "DatabaseType \<Rightarrow> tmem \<Rightarrow> Node \<Rightarrow> bool" where
  "node_typed dt M N \<longleftrightarrow> n_type N < length (dt_node_types dt)
     \<and> list_all2 (cell_typed M) (attr_types (dt_node_types dt ! n_type N)) (n_cells N)"

definition typed :: "Database \<Rightarrow> bool" where
  "typed D \<longleftrightarrow> mem_ok D
     \<and> (\<forall>n. n_id (d_nodes D n) \<noteq> 0 \<longrightarrow> node_typed (d_type D) (live_mem D) (d_nodes D n))"

lemma typedD: "typed D \<Longrightarrow> n_id (d_nodes D n) \<noteq> 0 \<Longrightarrow> node_typed (d_type D) (live_mem D) (d_nodes D n)"
  by (simp add: typed_def)

lemma typed_mem_ok: "typed D \<Longrightarrow> mem_ok D"
  by (simp add: typed_def)

lemma cell_typed_grows: "cell_typed M t c \<Longrightarrow> grows M M' \<Longrightarrow> cell_typed M' t c"
  by (induction M t c rule: cell_typed.induct) (auto simp: grows_def split: option.splits)

lemma node_typed_grows: "node_typed dt M N \<Longrightarrow> grows M M' \<Longrightarrow> node_typed dt M' N"
  by (auto simp: node_typed_def elim!: list_all2_mono intro: cell_typed_grows)

lemma cell_typed_init: "cell_typed M t (attribute_init t)"
  by (cases t) (simp_all add: attribute_init_def is_primitive_def)

lemma node_typed_init: "k < length (dt_node_types dt) \<Longrightarrow> node_typed dt M (node_init nid k (dt_node_types dt ! k) N)"
  by (simp add: node_typed_def node_init_def list_all2_conv_all_nth cell_typed_init)

text \<open>A new cell of the right type; the cell behind the last one is not a cell of the node.\<close>

lemma node_typed_set_cell:
  assumes "node_typed dt M N" and "i < length (n_cells N) \<Longrightarrow> cell_typed M (attr_types (dt_node_types dt ! n_type N) ! i) c"
  shows "node_typed dt M (set_cell i c N)"
  using assms by (auto simp: node_typed_def set_cell_def list_all2_conv_all_nth nth_list_update split: cell.split list.split)

text \<open>
  \<open>returns D E\<close>: \<open>E\<close> looks like \<open>D\<close> again. Its memory may have grown since, and of its blocks
  only new ones may have been asked for in between.
\<close>

definition returns :: "Database \<Rightarrow> Database \<Rightarrow> bool" where
  "returns D E \<longleftrightarrow> same_view E D \<and> d_type E = d_type D \<and> grows (d_tmem D) (d_tmem E)
     \<and> freed_blocks D \<subseteq> freed_blocks E
     \<and> freed_blocks E \<subseteq> freed_blocks D \<union> (dom (d_tmem E) - dom (d_tmem D))"

lemma returns_refl [simp]: "returns D D"
  by (simp add: returns_def)

lemma returns_live:
  assumes "returns D E" and "mem_ok D"
  shows "mem_ok E" and "grows (live_mem D) (live_mem E)"
proof -
  have g: "grows (d_tmem D) (d_tmem E)" using assms(1) by (simp add: returns_def)
  then have "dom (d_tmem D) \<subseteq> dom (d_tmem E)" by (auto simp: grows_def)
  moreover have "freed_blocks E \<subseteq> freed_blocks D \<union> dom (d_tmem E)" "freed_blocks D \<subseteq> dom (d_tmem D)"
    using assms by (auto simp: returns_def mem_ok_def)
  ultimately show "mem_ok E" unfolding mem_ok_def by blast
  show "grows (live_mem D) (live_mem E)"
    unfolding grows_def
  proof (intro allI impI)
    fix p bs
    assume "live_mem D p = Some bs"
    then have p: "d_tmem D p = Some bs" "p \<notin> freed_blocks D"
      by (auto simp: live_mem_def restrict_map_def split: if_splits)
    then have "p \<notin> freed_blocks E" using assms(1) by (auto simp: returns_def)
    with p g show "live_mem E p = Some bs" by (simp add: live_mem_def restrict_map_def grows_def)
  qed
qed

lemma returns_typed:
  assumes "typed D" and "returns D E"
  shows "typed E"
  unfolding typed_def
proof (intro conjI allI impI)
  note l = returns_live [OF assms(2) typed_mem_ok [OF assms(1)]]
  show "mem_ok E" by (rule l(1))
  fix n
  assume id: "n_id (d_nodes E n) \<noteq> 0"
  have v: "node_view (d_nodes E n) = node_view (d_nodes D n)"
    using assms(2) by (simp add: returns_def same_view_def)
  then have "n_id (d_nodes D n) \<noteq> 0" using id by (simp add: node_view_eq)
  then have "node_typed (d_type E) (live_mem E) (d_nodes D n)"
    using assms typedD node_typed_grows [OF _ l(2)] by (metis returns_def)
  with v id show "node_typed (d_type E) (live_mem E) (d_nodes E n)" by (simp add: node_view_eq node_typed_def)
qed

text \<open>What the types are good for: every cell but a \<open>RawString\<close> has a value that can be stored.\<close>

lemma cell_typed_value:
  "cell_typed M t c \<Longrightarrow> t \<noteq> RawString \<Longrightarrow> cell_value t M ids c \<noteq> None"
  by (induction M t c rule: cell_typed.induct)
    (auto simp: deref_def c_string_def is_primitive_def split: option.splits)

section \<open>Every state a rollback can lead to is typed\<close>

text \<open>
  Undoing the log item by item passes only through typed databases, and a node whose creation
  is undone exists until then.
\<close>

definition item_ready :: "LogItem \<Rightarrow> Database \<Rightarrow> bool" where
  "item_ready x D \<longleftrightarrow> (\<forall>n. x = LI_TYPE_NODE_ALLOC n \<longrightarrow> n_id (d_nodes D n) \<noteq> 0)"

primrec undo_typed :: "u64 \<Rightarrow> LogItem list \<Rightarrow> Database \<Rightarrow> bool" where
  "undo_typed t [] D \<longleftrightarrow> typed D"
| "undo_typed t (x # xs) D \<longleftrightarrow> typed D \<and> item_ready x D \<and> undo_typed t xs (log_undo_item t x D)"

definition back_typed :: "session \<Rightarrow> bool" where
  "back_typed s \<longleftrightarrow> (\<forall>t. undo_typed t (h_log (fst s)) (snd s))"

lemma undo_typedD: "undo_typed t xs D \<Longrightarrow> typed D"
  by (cases xs) simp_all

lemma back_typedD: "back_typed s \<Longrightarrow> typed (snd s)"
  unfolding back_typed_def using undo_typedD by blast

lemma undo_typed_drop: "undo_typed t xs D \<Longrightarrow> undo_typed t (drop k xs) (undo_all t (take k xs) D)"
proof (induction xs arbitrary: k D)
  case (Cons x xs)
  then show ?case by (cases k) simp_all
qed simp

lemma write_loc_rest [simp]: "d_type (write_loc l v D) = d_type D" "d_tmem (write_loc l v D) = d_tmem D"
  "d_freed (write_loc l v D) = d_freed D" "d_node_id_counter (write_loc l v D) = d_node_id_counter D"
  by (cases l; simp)+

lemma node_destroy_free_rest [simp]:
  "d_type (node_destroy_free n t D) = d_type D" "d_tmem (node_destroy_free n t D) = d_tmem D"
  "d_node_id_counter (node_destroy_free n t D) = d_node_id_counter D"
  "d_freed (node_destroy_free n t D) = rev (snd (node_destroy D n t)) @ d_freed D"
  by (simp_all add: node_destroy_free_def node_free_def split: prod.split)

lemma undo_item_rest [simp]: "d_type (log_undo_item t x D) = d_type D" "d_tmem (log_undo_item t x D) = d_tmem D"
  "d_node_id_counter (log_undo_item t x D) = d_node_id_counter D"
  by (cases x; simp)+

lemma undo_all_type [simp]: "d_type (undo_all t xs D) = d_type D"
  "d_node_id_counter (undo_all t xs D) = d_node_id_counter D"
  by (induction xs arbitrary: D) simp_all

text \<open>What undoing an item asks to be released.\<close>

definition item_frees :: "LogItem \<Rightarrow> Database \<Rightarrow> addr set" where
  "item_frees x D = (case x of
      LI_TYPE_NODE_ALLOC n \<Rightarrow> fst ` set (snd (node_destroy D n 0))
    | LI_TYPE_MEMORY_ALLOC p \<Rightarrow> {p} - {0}
    | _ \<Rightarrow> {})"

lemma attribute_destroy_time: "fst ` set (snd (attribute_destroy t e c)) = fst ` set (snd (attribute_destroy t e' c))"
  by (cases "(t, e, c)" rule: attribute_destroy.cases) (simp_all add: free_request_def)

lemma node_destroy_time: "fst ` set (snd (node_destroy D n e)) = fst ` set (snd (node_destroy D n e'))"
  using attribute_destroy_time [of _ e _ e']
  by (simp add: node_destroy_def Let_def image_UN image_Union split_beta)

lemma undo_item_freed: "freed_blocks (log_undo_item t x D) = freed_blocks D \<union> item_frees x D"
  using node_destroy_time [of D _ t 0]
  by (cases x) (auto simp: freed_blocks_def item_frees_def free_request_def image_Un)

lemma item_frees_view:
  assumes "same_view E D" and "d_type E = d_type D" and "item_ready x D"
  shows "item_frees x E = item_frees x D"
proof (cases x)
  case (LI_TYPE_NODE_ALLOC n)
  with assms have "n_id (d_nodes D n) \<noteq> 0" "node_view (d_nodes E n) = node_view (d_nodes D n)"
    by (simp_all add: item_ready_def same_view_def)
  with assms(2) LI_TYPE_NODE_ALLOC show ?thesis
    by (auto simp: item_frees_def node_destroy_def node_get_type_def node_view_eq Let_def)
qed (simp_all add: item_frees_def)

lemma returns_undo:
  assumes "returns D E" and "item_ready x D"
  shows "returns (log_undo_item t x D) (log_undo_item t' x E)"
proof -
  have v: "same_view E D" "d_type E = d_type D" using assms(1) by (simp_all add: returns_def)
  have "same_view (log_undo_item t' x E) (log_undo_item t' x D)" by (rule undo_item_cong [OF v(1)])
  moreover have "same_view (log_undo_item t' x D) (log_undo_item t x D)"
    using undo_all_any_time [of t' "[x]" D t] by simp
  ultimately have "same_view (log_undo_item t' x E) (log_undo_item t x D)" by (rule same_view_trans)
  then show ?thesis using assms(1) item_frees_view [OF v assms(2)] by (auto simp: returns_def undo_item_freed)
qed

lemma returns_undo_typed:
  "undo_typed t xs D \<Longrightarrow> returns D E \<Longrightarrow> undo_typed t' xs E"
proof (induction xs arbitrary: D E)
  case Nil
  then show ?case by (simp add: returns_typed)
next
  case (Cons x xs)
  have "item_ready x E"
    using Cons.prems by (auto simp: item_ready_def returns_def same_view_def node_view_eq)
  with Cons show ?case by (auto intro: returns_typed returns_undo)
qed

text \<open>
  \<open>types_kept s s'\<close>: the step keeps the schema, the memory in use and the types; \<open>keeps s s'\<close>:
  it does not create a node either.
\<close>

definition types_kept :: "session \<Rightarrow> session \<Rightarrow> bool" where
  "types_kept s s' \<longleftrightarrow> (back_typed s \<longrightarrow> back_typed s' \<and> d_type (snd s') = d_type (snd s)
     \<and> grows (d_tmem (snd s)) (d_tmem (snd s')))"

definition keeps :: "session \<Rightarrow> session \<Rightarrow> bool" where
  "keeps s s' \<longleftrightarrow> types_kept s s' \<and> d_node_id_counter (snd s') = d_node_id_counter (snd s)"

lemma types_kept_refl [simp]: "types_kept s s"
  by (simp add: types_kept_def)

lemma types_kept_trans: "types_kept s s' \<Longrightarrow> types_kept s' s'' \<Longrightarrow> types_kept s s''"
  by (auto simp: types_kept_def intro: grows_trans)

lemma keeps_refl [simp]: "keeps s s"
  by (simp add: keeps_def)

lemma keeps_trans: "keeps s s' \<Longrightarrow> keeps s' s'' \<Longrightarrow> keeps s s''"
  by (auto simp: keeps_def intro: types_kept_trans)

lemma keeps_types: "keeps s s' \<Longrightarrow> types_kept s s'"
  by (simp add: keeps_def)

text \<open>
  A step that pushes at most one item: the state reached has to be typed, and undoing what it
  pushed must lead back to a database in which no block of before was asked for.
\<close>

lemma types_kept_step:
  assumes "kept s s'" and "undoes s items s'" and "length items \<le> 1"
    and "d_type (snd s') = d_type (snd s)"
    and "\<And>x. items = [x] \<Longrightarrow> typed (snd s) \<Longrightarrow> typed (snd s') \<and> item_ready x (snd s')"
    and "\<And>t. freed_blocks (snd s) \<subseteq> freed_blocks (undo_all t items (snd s'))
      \<and> freed_blocks (undo_all t items (snd s')) \<subseteq> freed_blocks (snd s) \<union> (dom (d_tmem (snd s')) - dom (d_tmem (snd s)))"
  shows "types_kept s s'"
proof -
  have g: "grows (d_tmem (snd s)) (d_tmem (snd s'))" using assms(1) by (simp add: kept_def)
  have r: "returns (snd s) (undo_all t items (snd s'))" for t
    using assms(2,4,6) g by (simp add: returns_def undoes_def)
  have "undo_typed t (h_log (fst s')) (snd s')" if b: "back_typed s" for t
  proof -
    have "undo_typed t (h_log (fst s)) (snd s)" using b by (simp add: back_typed_def)
    from returns_undo_typed [OF this r] have rest: "undo_typed t (h_log (fst s)) (undo_all t items (snd s'))" .
    show ?thesis
    proof (cases items)
      case Nil
      with rest assms(2) show ?thesis by (simp add: undoes_def)
    next
      case (Cons x xs)
      with assms(3) have "items = [x]" by simp
      with rest assms(2) assms(5) [OF _ back_typedD [OF b]] show ?thesis by (simp add: undoes_def)
    qed
  qed
  with g assms(4) show ?thesis by (simp add: types_kept_def back_typed_def)
qed

text \<open>The two common cases: nothing logged, and an item whose undoing releases nothing.\<close>

lemma keeps_none:
  assumes "kept s s'" and "h_log (fst s') = h_log (fst s)" and "same_view (snd s') (snd s)"
    and "d_type (snd s') = d_type (snd s)" and "d_freed (snd s') = d_freed (snd s)"
    and "d_node_id_counter (snd s') = d_node_id_counter (snd s)"
  shows "keeps s s'"
  unfolding keeps_def
  by (rule conjI [OF types_kept_step [where items = "[]"]])
    (use assms in \<open>simp_all add: undoes_Nil freed_blocks_def\<close>)

lemma types_kept_item:
  assumes "logged s s'" and "h_log (fst s') = x # h_log (fst s)"
    and "d_type (snd s') = d_type (snd s)" and "d_freed (snd s') = d_freed (snd s)"
    and "typed (snd s) \<Longrightarrow> typed (snd s') \<and> item_ready x (snd s')"
    and "item_frees x (snd s') \<subseteq> dom (d_tmem (snd s')) - dom (d_tmem (snd s))"
  shows "types_kept s s'"
proof -
  obtain items where u: "undoes s items s'" and k: "kept s s'" using assms(1) by (auto simp: logged_def)
  with assms(2) have items: "items = [x]" by (simp add: undoes_def)
  have "freed_blocks (snd s') = freed_blocks (snd s)" by (simp add: freed_blocks_def assms(4))
  with assms(6) have "freed_blocks (snd s) \<subseteq> freed_blocks (undo_all t items (snd s'))
      \<and> freed_blocks (undo_all t items (snd s')) \<subseteq> freed_blocks (snd s) \<union> (dom (d_tmem (snd s')) - dom (d_tmem (snd s)))" for t
    by (auto simp: items undo_item_freed)
  then show ?thesis
    by (intro types_kept_step [OF k u]) (use assms(3,5) in \<open>simp_all add: items\<close>)
qed

lemma keeps_item:
  assumes "logged s s'" and "h_log (fst s') = x # h_log (fst s)"
    and "d_type (snd s') = d_type (snd s)" and "d_freed (snd s') = d_freed (snd s)"
    and "d_node_id_counter (snd s') = d_node_id_counter (snd s)"
    and "typed (snd s) \<Longrightarrow> typed (snd s') \<and> item_ready x (snd s')"
    and "item_frees x (snd s') \<subseteq> dom (d_tmem (snd s')) - dom (d_tmem (snd s))"
  shows "keeps s s'"
  unfolding keeps_def using types_kept_item [OF assms(1-4,6,7)] assms(5) by blast

lemma keepsI: "(back_typed s \<Longrightarrow> keeps s s') \<Longrightarrow> d_node_id_counter (snd s') = d_node_id_counter (snd s) \<Longrightarrow> keeps s s'"
  by (auto simp: keeps_def types_kept_def)

lemma util_lock_keeps:
  assumes "util_lock r s = Done (ok, s')"
  shows "keeps s s'"
  by (rule keeps_none)
    (use assms in \<open>auto simp: util_lock_def kept_def split: if_splits prod.splits\<close>)

lemma raw_write_keeps: "keeps s (trMemoryInternalWrite loc v s)"
proof -
  obtain H D where s: "s = (H, D)" by force
  show ?thesis
    by (rule keeps_item [OF raw_write_logged(1), where x = "LI_TYPE_RAW loc (read_loc D loc)"])
      (cases loc; simp add: s trMemoryInternalWrite_def item_ready_def item_frees_def typed_def
        mem_ok_def freed_blocks_def live_mem_def node_typed_def)+
qed

lemma typed_more_memory:
  assumes "typed D" and "grows (d_tmem D) M"
  shows "typed (D\<lparr>d_tmem := M\<rparr>)"
proof (rule returns_typed [OF assms(1)])
  show "returns D (D\<lparr>d_tmem := M\<rparr>)"
    using assms(2) by (simp add: returns_def same_view_def freed_blocks_def)
qed

lemma tr_memory_alloc_keeps:
  assumes "malloc_fresh malloc" and "tr_memory_alloc malloc bs s = Done (p, s')"
  shows "keeps s s'"
proof -
  obtain M where s': "snd s' = (snd s)\<lparr>d_tmem := M\<rparr>" "h_log (fst s') = LI_TYPE_MEMORY_ALLOC p # h_log (fst s)"
      "d_tmem (snd s) p = None" "M p = Some bs"
    using assms
    by (auto simp: tr_memory_alloc_def tm_alloc_def obind_eq_Done malloc_fresh_def
        generic_allocator_alloc_def split: prod.splits option.splits if_splits)
  have g: "grows (d_tmem (snd s)) M"
    using tr_memory_alloc_logged(1) [OF assms] s'(1) by (simp add: logged_def kept_def)
  show ?thesis
    by (rule keeps_item [OF tr_memory_alloc_logged(1) [OF assms] s'(2)])
      (use s' in \<open>auto simp: item_ready_def item_frees_def intro: typed_more_memory [OF _ g]\<close>)
qed

lemma tr_memory_free_keeps: "keeps s (tr_memory_free p s)"
  by (rule keeps_item [OF tr_memory_free_logged(1), where x = "LI_TYPE_MEMORY_DELETE p"])
    (simp_all add: tr_memory_free_def item_ready_def item_frees_def)

lemma quiet_keeps:
  assumes "malloc_fresh malloc" and "quiet malloc s s'"
  shows "keeps s s'"
  using assms(2) by induction
    (blast intro: keeps_refl keeps_trans util_lock_keeps raw_write_keeps tr_memory_alloc_keeps [OF assms(1)] tr_memory_free_keeps)+

section \<open>The operations keep the types\<close>

lemma quiet_node_type:
  "quiet malloc s s' \<Longrightarrow> d_type (snd s') = d_type (snd s) \<and> n_type (d_nodes (snd s') n) = n_type (d_nodes (snd s) n)"
proof (induction rule: quiet.induct)
  case quiet_refl
  show ?case by simp
next
  case (quiet_lock s s1 r ok s2)
  then show ?case by (cases r) (auto simp: util_lock_def split: if_splits prod.splits)
next
  case (quiet_raw s s1 loc v)
  then show ?case
    by (cases loc) (auto simp: trMemoryInternalWrite_def push_log_def split: prod.splits)
next
  case (quiet_alloc s s1 bs p s2)
  then show ?case by (auto simp: tr_memory_alloc_def obind_eq_Done split: prod.splits)
next
  case (quiet_free s s1 p)
  then show ?case by (simp add: tr_memory_free_def)
qed

lemma modify_keeps:
  assumes "old = get_cell (d_nodes (snd s1) n) i"
    and "s' = s1 \<or> (\<exists>c. s' = put_cell n i c s1 \<and> (typed (snd s1) \<and> n_id (d_nodes (snd s1) n) \<noteq> 0 \<and> i < length (n_cells (d_nodes (snd s1) n))
      \<longrightarrow> cell_typed (live_mem (snd s1)) (attr_types (node_get_type (snd s1) n) ! i) c))"
  shows "keeps s1 (push_log (LI_TYPE_NODE_MODIFY n i j t old new) s')"
proof (rule keeps_item [where x = "LI_TYPE_NODE_MODIFY n i j t old new"])
  let ?s = "push_log (LI_TYPE_NODE_MODIFY n i j t old new) s'"
  show "logged s1 ?s"
    using assms by (intro modify_logged [OF logged_refl]) auto
  show "h_log (fst ?s) = LI_TYPE_NODE_MODIFY n i j t old new # h_log (fst s1)"
    and "d_type (snd ?s) = d_type (snd s1)" and "d_freed (snd ?s) = d_freed (snd s1)"
    and "d_node_id_counter (snd ?s) = d_node_id_counter (snd s1)"
    and "item_frees (LI_TYPE_NODE_MODIFY n i j t old new) (snd ?s) \<subseteq> dom (d_tmem (snd ?s)) - dom (d_tmem (snd s1))"
    using assms(2) by (auto simp: item_frees_def)
  assume ty: "typed (snd s1)"
  have put: "typed (upd_node n (set_cell i c) (snd s1))"
    if c: "typed (snd s1) \<and> n_id (d_nodes (snd s1) n) \<noteq> 0 \<and> i < length (n_cells (d_nodes (snd s1) n)) \<longrightarrow> cell_typed (live_mem (snd s1)) (attr_types (node_get_type (snd s1) n) ! i) c" for c
    unfolding typed_def
  proof (intro conjI allI impI)
    have m: "live_mem (upd_node n (set_cell i c) (snd s1)) = live_mem (snd s1)"
      by (simp add: live_mem_def freed_blocks_def)
    show "mem_ok (upd_node n (set_cell i c) (snd s1))"
      using typed_mem_ok [OF ty] by (simp add: mem_ok_def freed_blocks_def)
    fix m
    assume m: "n_id (d_nodes (upd_node n (set_cell i c) (snd s1)) m) \<noteq> 0"
    then have "node_typed (d_type (snd s1)) (live_mem (snd s1)) (d_nodes (snd s1) m)"
      by (intro typedD [OF ty]) (auto split: if_splits)
    then show "node_typed (d_type (upd_node n (set_cell i c) (snd s1))) (live_mem (upd_node n (set_cell i c) (snd s1)))
        (d_nodes (upd_node n (set_cell i c) (snd s1)) m)"
      unfolding \<open>live_mem (upd_node n (set_cell i c) (snd s1)) = live_mem (snd s1)\<close>
      using c ty m by (auto simp: node_get_type_def intro: node_typed_set_cell)
  qed
  have "typed (snd ?s)" using ty put assms(2) by (metis push_log_sel(2) put_cell_sel(2))
  then show "typed (snd ?s) \<and> item_ready (LI_TYPE_NODE_MODIFY n i j t old new) (snd ?s)"
    by (simp add: item_ready_def)
qed

lemma trInternalWrite_keeps:
  assumes "malloc_fresh malloc" and "trInternalWrite malloc n i v s = Done (ok, s')"
  shows "keeps s s'"
proof -
  let ?t = "attr_types (node_get_type (snd s) n) ! i" and ?old = "get_cell (d_nodes (snd s) n) i"
  have i: "i < length (n_cells (d_nodes (snd s) n))" using assms(2) by (auto simp: trInternalWrite_def split: if_splits)
  show ?thesis
  proof (cases "is_primitive ?t")
    case True
    then obtain bs where bs: "length bs = attribute_size ?t"
        "s' = push_log (LI_TYPE_NODE_MODIFY n i (of_nat i) ?t ?old (Bits bs)) (put_cell n i (Bits bs) s)"
      using assms(2) by (auto simp: trInternalWrite_def Let_def split: if_splits attr_value.splits)
    have "cell_typed (live_mem (snd s)) ?t (Bits bs)"
      using True bs(1) by (cases ?t) (simp_all add: is_primitive_def)
    then show ?thesis unfolding bs(2) by (intro modify_keeps) auto
  next
    case False
    then obtain s2 new where s2: "attribute_write malloc ?t n i v s = Done (ok, s2)"
      and s': "s' = push_log (LI_TYPE_NODE_MODIFY n i (of_nat i) ?t ?old new) s2"
      using assms(2) by (auto simp: trInternalWrite_def Let_def obind_eq_Done split: if_splits)
    obtain s1 where s1: "quiet malloc s s1"
        "s2 = s1 \<or> (\<exists>c. s2 = put_cell n i c s1 \<and> (mem_ok (snd s) \<longrightarrow> cell_typed (live_mem (snd s1)) ?t c))"
      using attribute_write_form [OF s2] assms(1) by blast
    have t: "node_get_type (snd s1) n = node_get_type (snd s) n" using quiet_node_type [OF s1(1)] by (simp add: node_get_type_def)
    have c: "same_cells s s1" using quiet_logged [OF assms(1) s1(1)] by blast
    show ?thesis
    proof (rule keepsI)
      assume "back_typed s"
      then have "mem_ok (snd s)" by (simp add: back_typedD typed_mem_ok)
      then have "keeps s1 s'" unfolding s'
        by (intro modify_keeps) (use s1(2) in \<open>auto simp: t same_cells_get [OF c i]\<close>)
      with quiet_keeps [OF assms(1) s1(1)] show "keeps s s'" by (rule keeps_trans)
    next
      show "d_node_id_counter (snd s') = d_node_id_counter (snd s)"
        using quiet_freed [OF s1(1)] s1(2) by (auto simp: s')
    qed
  qed
qed

lemma trWrite_keeps:
  assumes "malloc_fresh malloc" and "trWrite malloc n i v s = Done (ok, s')"
  shows "keeps s s'"
  using assms(2) unfolding trWrite_def
  by (elim and_thenE) (blast intro: util_lock_keeps trInternalWrite_keeps [OF assms(1)] keeps_trans)+

lemma readSetAdd_keeps: "keeps s (readSetAdd r s)"
  by (rule keeps_none) (auto simp: readSetAdd_def kept_def split: prod.splits)

text \<open>
  Access by number reaches only the entry behind the last attribute: it cannot change a cell
  of a node that keeps to its type.
\<close>

lemma typed_cells_length:
  "typed D \<Longrightarrow> n_id (d_nodes D n) \<noteq> 0 \<Longrightarrow> length (n_cells (d_nodes D n)) = length (nt_attributes (node_get_type D n))"
  by (auto dest!: typedD list_all2_lengthD simp: node_typed_def node_get_type_def attr_types_def)

lemma tr_node_write_keeps:
  assumes "malloc_fresh malloc" and "tr_node_write malloc n a v s = Done (ok, s')"
  shows "keeps s s'"
proof -
  obtain t i where ti: "a \<ge> int (length (nt_attributes (node_get_type (snd s) n))) \<or> a < 0"
      "attr_entry (node_get_type (snd s) n) a = Done (t, i)"
    and w: "and_then (util_lock (Node_lock n) s) (\<lambda>s'. and_then (attribute_write malloc t n i v s') (\<lambda>s''.
      Done (True, push_log (LI_TYPE_NODE_MODIFY n i (of_nat i) t (get_cell (d_nodes (snd s) n) i) (get_cell (d_nodes (snd s'') n) i)) s''))) = Done (ok, s')"
    using assms(2) by (auto simp: tr_node_write_def Let_def obind_eq_Done obind_c_assert split: if_splits)
  have prim: "is_primitive t" and i: "i = length (nt_attributes (node_get_type (snd s) n))"
    using ti by (auto simp: attr_entry_def Let_def is_primitive_def split: if_splits)
  from w consider "util_lock (Node_lock n) s = Done (False, s')"
    | s1 where "util_lock (Node_lock n) s = Done (True, s1)" "attribute_write malloc t n i v s1 = Done (False, s')"
    | s1 s2 new where "util_lock (Node_lock n) s = Done (True, s1)" "attribute_write malloc t n i v s1 = Done (True, s2)"
        "s' = push_log (LI_TYPE_NODE_MODIFY n i (of_nat i) t (get_cell (d_nodes (snd s) n) i) new) s2"
    by (auto simp: and_then_Done)
  then show ?thesis
  proof cases
    case 1
    then show ?thesis by (rule util_lock_keeps)
  next
    case (2 s1)
    with prim show ?thesis by (auto simp: attribute_write_def is_primitive_def split: attr_value.splits if_splits)
  next
    case (3 s1 s2 new)
    have q: "quiet malloc s s1" by (rule quiet_lock [OF quiet_refl 3(1)])
    have i1: "i = length (nt_attributes (node_get_type (snd s1) n))"
      using i quiet_node_type [OF q] by (simp add: node_get_type_def)
    have "s2 = s1 \<or> (\<exists>c. s2 = put_cell n i c s1)" using attribute_write_form [OF 3(2)] prim by auto
    moreover have "\<not> (typed (snd s1) \<and> n_id (d_nodes (snd s1) n) \<noteq> 0 \<and> i < length (n_cells (d_nodes (snd s1) n)))"
      using typed_cells_length [of "snd s1" n] i1 by auto
    ultimately have "keeps s1 s'" unfolding 3(3)
      by (intro modify_keeps) (simp add: util_lock_logged(3) [OF 3(1)], blast)
    with util_lock_keeps [OF 3(1)] show ?thesis by (rule keeps_trans)
  qed
qed

lemma access_keeps:
  assumes "malloc_fresh malloc" and "access_exec malloc a s = Done s'"
  shows "keeps s s'"
proof -
  have reads: "\<exists>r. s' = readSetAdd r s" if "a \<in> {Read n i, UncheckedRead n i, FieldRead n p, FieldUncheckedRead n p, NodeRead n k}" for n i p k
    by (rule access_reads [OF assms(2) that])
  show ?thesis
  proof (cases a)
    case (FieldWrite obj p v)
    with assms(2) obtain ok where "trMemoryWrite obj p v s = Done (ok, s')" by (auto elim: obindE)
    then show ?thesis unfolding trMemoryWrite_def
      by (elim and_thenE) (auto intro: util_lock_keeps keeps_trans raw_write_keeps simp del: split_paired_All)
  next
    case (Write n i v)
    with assms(2) obtain ok where "trWrite malloc n i v s = Done (ok, s')" by (auto elim: obindE)
    then show ?thesis by (rule trWrite_keeps [OF assms(1)])
  next
    case (NodeWrite n i v)
    with assms(2) obtain ok where "tr_node_write malloc n i v s = Done (ok, s')" by (auto elim: obindE)
    then show ?thesis by (rule tr_node_write_keeps [OF assms(1)])
  next
    case (Alloc bs)
    with assms(2) obtain p where "tr_memory_alloc malloc bs s = Done (p, s')" by (auto elim: obindE)
    then show ?thesis by (rule tr_memory_alloc_keeps [OF assms(1)])
  next
    case (LockOnly r)
    with assms(2) obtain ok where "util_lock r s = Done (ok, s')" by (auto elim: obindE)
    then show ?thesis by (rule util_lock_keeps)
  next
    case (Free p)
    with assms(2) have "s' = tr_memory_free p s" by simp
    then show ?thesis by (simp add: tr_memory_free_keeps)
  qed (use reads readSetAdd_keeps in blast)+
qed

lemma accesses_keeps: "malloc_fresh malloc \<Longrightarrow> accesses malloc as s = Done s' \<Longrightarrow> keeps s s'"
  by (induction as arbitrary: s) (auto simp: obind_eq_Done intro: access_keeps keeps_trans)

lemma callback_keeps:
  "malloc_fresh malloc \<Longrightarrow> callback_ok malloc cb \<Longrightarrow> cb ev n s = Done (b, s') \<Longrightarrow> keeps s s'"
  unfolding callback_ok_def using accesses_keeps by blast


lemma destroy_pointers_keeps:
  "destroy_pointers malloc n ts i s = Done (b, s') \<Longrightarrow> keeps s s'"
proof (induction ts arbitrary: i s)
  case Nil
  then show ?case by simp
next
  case (Cons t ts)
  show ?case
  proof (cases "t = Pointer")
    case True
    with Cons.prems obtain m where "node_ref_count_decrease m s = Done (False, s')"
      by (auto simp: null_pointer_write Let_def and_then_Done split: if_splits outcome.splits bool.splits)
    then have "util_lock (Node_lock m) s = Done (False, s')"
      by (auto simp: node_ref_count_decrease_def and_then_Done obind_c_assert split: if_splits)
    then show ?thesis by (rule util_lock_keeps)
  next
    case False
    with Cons show ?thesis by simp
  qed
qed

text \<open>A node just created has empty cells: undoing its creation releases no block.\<close>

lemma attribute_destroy_init: "snd (attribute_destroy t e (attribute_init t)) = []"
  by (cases t) (simp_all add: attribute_init_def is_primitive_def free_request_def)

lemma node_alloc_keeps:
  assumes "n_id (d_nodes D n) = 0" and "k < length (dt_node_types (d_type D))" and "nid \<noteq> 0"
  shows "types_kept (H, D) (push_log (LI_TYPE_NODE_ALLOC n) (H,
    upd_node n (node_init nid k (dt_node_types (d_type D) ! k)) (D\<lparr>d_node_id_counter := nid\<rparr>)))"
    (is "types_kept _ ?s")
proof (rule types_kept_item [OF node_alloc_logged [OF assms(1)], where x = "LI_TYPE_NODE_ALLOC n"])
  have m: "live_mem (snd ?s) = live_mem D" "mem_ok (snd ?s) = mem_ok D"
    by (simp_all add: live_mem_def freed_blocks_def mem_ok_def)
  then show "typed (snd ?s) \<and> item_ready (LI_TYPE_NODE_ALLOC n) (snd ?s)" if "typed (snd (H, D))"
    using that assms(2,3) unfolding typed_def m
    by (simp add: item_ready_def node_typed_init) (simp add: node_init_def)
  let ?T = "dt_node_types (d_type D) ! k"
  have "snd (node_destroy (snd ?s) n 0)
      = concat (map (\<lambda>t. snd (attribute_destroy t 0 (attribute_init t))) (attr_types ?T))"
    by (simp add: node_destroy_def node_get_type_def node_init_def zip_map2 zip_same_conv_map comp_def)
  also have "\<dots> = []" by (simp add: attribute_destroy_init)
  finally show "item_frees (LI_TYPE_NODE_ALLOC n) (snd ?s) \<subseteq> dom (d_tmem (snd ?s)) - dom (d_tmem (snd (H, D)))"
    by (simp add: item_frees_def)
qed simp_all

lemma tr_node_create_keeps:
  assumes "malloc_fresh malloc" and "node_alloc_fresh na" and "callback_ok malloc cb"
    and "tr_node_create na cb r s = Done (res, s')" and "d_node_id_counter (snd s) + 1 \<noteq> 0"
  shows "types_kept s s' \<and> d_node_id_counter (snd s') \<in> {d_node_id_counter (snd s), d_node_id_counter (snd s) + 1}"
proof (cases "resolve_type (snd s) r")
  case None
  with assms(4) show ?thesis by (simp add: tr_node_create_def)
next
  case (Some k)
  define n where "n = na (snd s) k"
  obtain ok H D where lock: "util_lock (Node_lock n) s = Done (ok, H, D)"
    and rest: "(if \<not> ok then Done (None, (H, node_free n (d_time D) D))
       else obind (cb CBE_NODE_CREATED n (push_log (LI_TYPE_NODE_ALLOC n) (H,
         upd_node n (node_init (d_node_id_counter D + 1) k (dt_node_types (d_type D) ! k)) (D\<lparr>d_node_id_counter := d_node_id_counter D + 1\<rparr>))))
         (\<lambda>(ok, s). Done (if ok then Some n else None, s))) = Done (res, s')"
    and free: "n_id (d_nodes D n) = 0"
    using tr_node_create_cases [OF assms(2,4) Some] unfolding n_def by blast
  have k: "k < length (dt_node_types (d_type D))"
    using resolve_type_less [OF Some] lock by (auto simp: util_lock_def split: if_splits prod.splits)
  have ctr: "d_node_id_counter D = d_node_id_counter (snd s)"
    using util_lock_keeps [OF lock] by (simp add: keeps_def)
  have "types_kept (H, D) s' \<and> d_node_id_counter (snd s') \<in> {d_node_id_counter D, d_node_id_counter D + 1}"
  proof (cases ok)
    case False
    with rest have s': "s' = (H, node_free n (d_time D) D)" by simp
    have "keeps (H, D) s'"
      by (rule keeps_none) (use node_free_view [OF free] in \<open>simp_all add: s' kept_def node_free_def\<close>)
    then show ?thesis by (simp add: keeps_def)
  next
    case True
    let ?s = "push_log (LI_TYPE_NODE_ALLOC n) (H,
         upd_node n (node_init (d_node_id_counter D + 1) k (dt_node_types (d_type D) ! k)) (D\<lparr>d_node_id_counter := d_node_id_counter D + 1\<rparr>))"
    have "types_kept (H, D) ?s"
      by (rule node_alloc_keeps [OF free k]) (use assms(5) ctr in simp)
    moreover have "\<exists>b. cb CBE_NODE_CREATED n ?s = Done (b, s')"
      using rest True by (auto elim!: obindE)
    then have "keeps ?s s'" using callback_keeps [OF assms(1,3)] by blast
    ultimately show ?thesis by (auto simp: keeps_def intro: types_kept_trans)
  qed
  with util_lock_keeps [OF lock] ctr show ?thesis by (auto simp: keeps_def intro: types_kept_trans)
qed

lemma tr_node_delete_keeps:
  assumes "malloc_fresh malloc" and "callback_ok malloc cb" and "tr_node_delete malloc cb n s = Done (ok, s')"
  shows "keeps s s'"
  using assms(3) unfolding tr_node_delete_def
proof (rule and_thenE)
  assume "util_lock (Node_lock n) s = Done (False, s')"
  then show ?thesis by (rule util_lock_keeps)
next
  fix s1
  assume lock: "util_lock (Node_lock n) s = Done (True, s1)"
    and rest: "(if n_ref_count (d_nodes (snd s1) n) \<noteq> 0 then Done (False, s1)
       else and_then (cb CBE_NODE_DELETED n s1) (\<lambda>s. obind (destroy_pointers malloc n (attr_types (node_get_type (snd s) n)) 0 s)
         (\<lambda>(_, s). Done (True, push_log (LI_TYPE_NODE_DELETE n) s)))) = Done (ok, s')"
  have "keeps s1 s'"
  proof (cases "n_ref_count (d_nodes (snd s1) n) \<noteq> 0")
    case True
    with rest show ?thesis by simp
  next
    case False
    with rest have "and_then (cb CBE_NODE_DELETED n s1) (\<lambda>s. obind (destroy_pointers malloc n (attr_types (node_get_type (snd s) n)) 0 s)
         (\<lambda>(_, s). Done (True, push_log (LI_TYPE_NODE_DELETE n) s))) = Done (ok, s')" by simp
    then show ?thesis
    proof (rule and_thenE)
      assume "cb CBE_NODE_DELETED n s1 = Done (False, s')"
      then show ?thesis by (rule callback_keeps [OF assms(1,2)])
    next
      fix s2
      assume cb: "cb CBE_NODE_DELETED n s1 = Done (True, s2)"
        and "obind (destroy_pointers malloc n (attr_types (node_get_type (snd s2) n)) 0 s2)
         (\<lambda>(_, s). Done (True, push_log (LI_TYPE_NODE_DELETE n) s)) = Done (ok, s')"
      then obtain b s3 where s3: "destroy_pointers malloc n (attr_types (node_get_type (snd s2) n)) 0 s2 = Done (b, s3)"
        and s': "s' = push_log (LI_TYPE_NODE_DELETE n) s3"
        by (auto elim!: obindE)
      have "keeps s3 s'" unfolding s'
        by (rule keeps_item [OF logged_item [where x = "LI_TYPE_NODE_DELETE n"], where x = "LI_TYPE_NODE_DELETE n"])
          (simp_all add: kept_def item_ready_def item_frees_def)
      with callback_keeps [OF assms(1,2) cb] destroy_pointers_keeps [OF s3] show ?thesis
        by (blast intro: keeps_trans)
    qed
  qed
  with util_lock_keeps [OF lock] show ?thesis by (rule keeps_trans)
qed

section \<open>Rollback\<close>

lemma rollback_log_form:
  "rollback_log pos t log D = Done (log', D') \<Longrightarrow> \<exists>k. log' = drop k log \<and> D' = undo_all t (take k log) D"
proof (induction pos t log D rule: rollback_log.induct)
  case (3 pos t x log D)
  show ?case
  proof (cases "pos = Some (length (x # log))")
    case True
    with "3.prems" show ?thesis by (intro exI [of _ 0]) simp
  next
    case False
    with "3.prems" have "rollback_log pos t log (log_undo_item t x D) = Done (log', D')" by simp
    from "3.IH" [OF False this] obtain k
      where "log' = drop k log" "D' = undo_all t (take k log) (log_undo_item t x D)" by blast
    then show ?thesis by (intro exI [of _ "Suc k"]) simp
  qed
qed simp_all

lemma tr_handle_rollback_keeps:
  assumes "tr_handle_rollback tr s = Done s'"
  shows "keeps s s'"
proof -
  obtain H D where s: "s = (H, D)" by force
  obtain k where k: "h_log (fst s') = drop k (h_log H)" "snd s' = undo_all (d_time D) (take k (h_log H)) D"
    using assms rollback_log_form [of "tx_pos tr" "d_time D" "h_log H" D]
    by (fastforce simp: s tr_handle_rollback_def obind_eq_Done Let_def)
  have "undo_typed t (h_log (fst s')) (snd s')" if b: "back_typed s" for t
  proof (rule returns_undo_typed [OF _ returns_refl])
    have "undo_typed (d_time D) (h_log H) D" using b by (simp add: back_typed_def s)
    then show "undo_typed (d_time D) (h_log (fst s')) (snd s')" unfolding k by (rule undo_typed_drop)
  qed
  then show ?thesis by (simp add: keeps_def types_kept_def back_typed_def k s)
qed

lemma back_typed_cong:
  assumes "keeps s s1" and "same_view (snd s2) (snd s1)" and "d_type (snd s2) = d_type (snd s1)"
    and "d_tmem (snd s2) = d_tmem (snd s1)" and "d_freed (snd s2) = d_freed (snd s1)"
    and "d_node_id_counter (snd s2) = d_node_id_counter (snd s1)"
    and "h_log (fst s2) = [] \<or> h_log (fst s2) = h_log (fst s1)"
  shows "keeps s s2"
proof -
  have r: "returns (snd s1) (snd s2)" using assms(2-5) by (simp add: returns_def freed_blocks_def)
  have "undo_typed t (h_log (fst s2)) (snd s2)" if "back_typed s1" for t
  proof (rule returns_undo_typed [OF _ r])
    show "undo_typed t (h_log (fst s2)) (snd s1)"
      using assms(7) that back_typedD [OF that] by (auto simp: back_typed_def)
  qed
  with assms show ?thesis by (simp add: keeps_def types_kept_def back_typed_def)
qed

lemma unlock_all_rest [simp]: "d_freed (unlock_all p v rs D) = d_freed D"
  "d_node_id_counter (unlock_all p v rs D) = d_node_id_counter D"
  by (induction rs arbitrary: D) simp_all

lemma unlock_all_keeps:
  "d_type (unlock_all p v rs D) = d_type D \<and> d_tmem (unlock_all p v rs D) = d_tmem D \<and> same_view (unlock_all p v rs D) D"
  by (induction rs arbitrary: D) (auto intro: same_view_trans set_lock_view(1))

lemma tr_abort_main_keeps:
  assumes "tr_abort_main s = Done s'"
  shows "keeps s s'"
proof -
  obtain H D where r: "tr_handle_rollback \<lparr>tx_read_set = 0, tx_pos = None, tx_acquired_locks = 0, tx_commit_type = CT_ASYNC\<rparr> s = Done (H, D)"
    and s': "h_log (fst s') = []" "snd s' = unlock_all (h_ptr H) (d_time D + 2) (h_acquired_locks H) (D\<lparr>d_time := d_time D + 2\<rparr>)"
    using assms unfolding tr_abort_main_def
    by (auto simp: atomic_simps tr_unlock_def handle_cleanup_def elim!: obindE)
  show ?thesis
    using unlock_all_keeps [of "h_ptr H" "d_time D + 2" "h_acquired_locks H" "D\<lparr>d_time := d_time D + 2\<rparr>"]
    by (intro back_typed_cong [OF tr_handle_rollback_keeps [OF r]]) (auto simp: s' same_view_def)
qed


lemma tr_abort_keeps:
  assumes "tr_abort s = Done s'"
  shows "keeps s s'"
proof (cases "h_transactions (fst s)")
  case Nil
  with assms show ?thesis by (simp add: tr_abort_def tr_abort_main_keeps)
next
  case (Cons tr rest)
  with assms obtain H D where r: "tr_handle_rollback tr s = Done (H, D)"
    and s': "s' = (H\<lparr>h_transactions := tl (h_transactions H)\<rparr>, D)"
    unfolding tr_abort_def by (auto elim!: obindE)
  show ?thesis by (rule back_typed_cong [OF tr_handle_rollback_keeps [OF r]]) (simp_all add: s')
qed

lemma tr_exec_keeps:
  assumes "malloc_fresh malloc" and "node_alloc_fresh na" and "callback_ok malloc cb" and "tr_exec malloc na cb x s = Done s'"
    and "d_node_id_counter (snd s) + 1 \<noteq> 0"
  shows "types_kept s s' \<and> d_node_id_counter (snd s') \<in> {d_node_id_counter (snd s), d_node_id_counter (snd s) + 1}"
proof -
  have keeps: ?thesis if "keeps s s'" using that by (simp add: keeps_def)
  show ?thesis
  proof (cases x)
    case (Access a)
    with assms(4) show ?thesis by (intro keeps) (simp add: access_keeps [OF assms(1)])
  next
    case (Create r)
    with assms(4) obtain res where "tr_node_create na cb r s = Done (res, s')" by (auto elim: obindE)
    then show ?thesis by (rule tr_node_create_keeps [OF assms(1-3) _ assms(5)])
  next
    case (Delete n)
    with assms(4) obtain ok where "tr_node_delete malloc cb n s = Done (ok, s')" by (auto elim: obindE)
    then show ?thesis by (rule keeps [OF tr_node_delete_keeps [OF assms(1,3)]])
  next
    case (UpdateIndexes n)
    with assms(4) obtain b where "cb CBE_NODE_MODIFIED n s = Done (b, s')"
      by (auto simp: tr_node_update_indexes_def elim: obindE)
    then show ?thesis by (rule keeps [OF callback_keeps [OF assms(1,3)]])
  next
    case Begin
    with assms(4) have "s' = tr_begin s" by simp
    then show ?thesis
      by (intro keeps back_typed_cong [OF keeps_refl]) (auto simp: tr_begin_def Let_def split: prod.split)
  next
    case (Commit ct)
    with assms(4) have "s' = tr_commit_nested ct s" by simp
    then show ?thesis
      by (intro keeps back_typed_cong [OF keeps_refl])
        (auto simp: tr_commit_nested_def Let_def split: prod.split CommitType.split)
  next
    case Abort
    with assms(4) show ?thesis by (intro keeps) (simp add: tr_abort_keeps)
  qed
qed

lemma tr_execs_keeps:
  "malloc_fresh malloc \<Longrightarrow> node_alloc_fresh na \<Longrightarrow> callback_ok malloc cb \<Longrightarrow> tr_execs malloc na cb ops s = Done s'
    \<Longrightarrow> unat (d_node_id_counter (snd s)) + length ops < 2 ^ 64 \<Longrightarrow> types_kept s s'"
proof (induction ops arbitrary: s)
  case (Cons x ops)
  then obtain s1 where s1: "tr_exec malloc na cb x s = Done s1" "tr_execs malloc na cb ops s1 = Done s'"
    by (auto elim: obindE)
  have "unat (d_node_id_counter (snd s)) + 1 < 2 ^ 64" using Cons.prems(5) by simp
  then have u: "unat (d_node_id_counter (snd s) + 1) = unat (d_node_id_counter (snd s)) + 1"
    by (simp add: unat_word_ariths)
  then have "d_node_id_counter (snd s) + 1 \<noteq> 0" by (metis add_eq_0_iff_both_eq_0 unat_0 zero_neq_one)
  from tr_exec_keeps [OF Cons.prems(1-3) s1(1) this] have k: "types_kept s s1"
    "unat (d_node_id_counter (snd s1)) \<le> unat (d_node_id_counter (snd s)) + 1"
    using u by auto
  have "types_kept s1 s'" using k(2) Cons.prems(5) by (intro Cons.IH [OF Cons.prems(1-3) s1(2)]) simp
  with k(1) show ?case by (rule types_kept_trans)
qed simp

lemma typed_cell_value:
  assumes "typed D" and "n_id (d_nodes D n) \<noteq> 0" and "i < length (n_cells (d_nodes D n))"
    and "attr_types (node_get_type D n) ! i \<noteq> RawString"
  shows "cell_value (attr_types (node_get_type D n) ! i) (live_mem D) ids (n_cells (d_nodes D n) ! i) \<noteq> None"
  using typedD [OF assms(1,2)] assms(3,4)
  by (intro cell_typed_value) (auto simp: node_typed_def node_get_type_def list_all2_conv_all_nth)

text \<open>
  C24: a session never breaks the types of the data. From a database whose nodes keep to the
  schema, whatever operations a program runs -- reads, writes, allocations, creating and
  deleting nodes, callbacks of indexes, nested transactions begun, committed and aborted,
  an abort of the whole --, if none of them faults then every node that exists afterwards has
  one cell per attribute of its type, a number of the attribute's size or a reference whose
  block is there, was not asked to be released -- by the undoing of an allocation or of a
  node's creation, say -- and is a string; so every cell but a \<open>RawString\<close> has a value that
  can be stored from the memory still in use. The same holds once the session is aborted from
  there. The node counter must be short of its wrap by the number of operations.
\<close>

theorem session_keeps_types:
  assumes "malloc_fresh malloc" and "node_alloc_fresh na" and "callback_ok malloc cb"
    and "typed (snd s)" and "h_log (fst s) = []"
    and "tr_execs malloc na cb ops s = Done s'"
    and "unat (d_node_id_counter (snd s)) + length ops < 2 ^ 64"
  shows "typed (snd s')
    \<and> (\<forall>n i ids. n_id (d_nodes (snd s') n) \<noteq> 0 \<and> i < length (n_cells (d_nodes (snd s') n))
        \<and> attr_types (node_get_type (snd s') n) ! i \<noteq> RawString
        \<longrightarrow> cell_value (attr_types (node_get_type (snd s') n) ! i) (live_mem (snd s')) ids (n_cells (d_nodes (snd s') n) ! i) \<noteq> None)
    \<and> (\<forall>s''. tr_abort_main s' = Done s'' \<longrightarrow> typed (snd s''))"
proof -
  have b0: "back_typed s" using assms(4,5) by (simp add: back_typed_def)
  with tr_execs_keeps [OF assms(1-3,6,7)] have b: "back_typed s'" by (simp add: types_kept_def)
  note ty = back_typedD [OF b]
  have "typed (snd s'')" if "tr_abort_main s' = Done s''" for s''
    using tr_abort_main_keeps [OF that] b by (intro back_typedD) (simp add: keeps_def types_kept_def)
  with ty typed_cell_value [OF ty] show ?thesis by blast
qed


lemma demo_typed: "typed (snd demo_session)" "h_log (fst demo_session) = []"
  by (simp_all add: demo_defs typed_def node_typed_def mem_ok_def freed_blocks_def)

definition two_blocks :: malloc where
  "two_blocks H n = (if H 8192 = None then Some 8192 else if H 8448 = None then Some 8448 else None)"

lemma two_blocks_fresh: "malloc_fresh two_blocks"
  by (simp add: malloc_fresh_def two_blocks_def)

text \<open>
  A string is written in one nested transaction and overwritten in another, which is aborted:
  the second block is asked for, the first is in use again.
\<close>

theorem session_keeps_types_witness:
  "\<exists>s'. tr_execs two_blocks demo_node_alloc (\<lambda>ev n s. Done (True, s))
       [Access (Write 4096 0 (VBits [7])), Begin, Access (Write 4096 1 (VString (Some [65, 0]))),
        Commit CT_SYNC, Begin, Create (Own 0), Access (Write 4096 1 (VString (Some [66, 66, 0]))), Abort]
       demo_session = Done s'
     \<and> typed (snd s') \<and> n_cells (d_nodes (snd s') 4096) = [Bits [7], Ref 8192]
     \<and> freed_blocks (snd s') \<noteq> {} \<and> live_mem (snd s') 8192 = Some [65, 0]"
proof -
  let ?ops = "[Access (Write 4096 0 (VBits [7])), Begin, Access (Write 4096 1 (VString (Some [65, 0]))),
        Commit CT_SYNC, Begin, Create (Own 0), Access (Write 4096 1 (VString (Some [66, 66, 0]))), Abort]"
  obtain s' where s': "tr_execs two_blocks demo_node_alloc (\<lambda>ev n s. Done (True, s)) ?ops demo_session = Done s'"
      "n_cells (d_nodes (snd s') 4096) = [Bits [7], Ref 8192]"
      "freed_blocks (snd s') \<noteq> {}" "live_mem (snd s') 8192 = Some [65, 0]"
    by (simp add: demo_defs Let_def live_mem_def freed_blocks_def two_blocks_def
        tr_abort_def tr_handle_rollback_def node_destroy_free_def node_destroy_def node_free_def free_request_def)
  have "unat (d_node_id_counter (snd demo_session)) + length ?ops < 2 ^ 64"
    by (simp add: demo_defs)
  from session_keeps_types [OF two_blocks_fresh demo_ok(2,3) demo_typed s'(1) this] have "typed (snd s')" by (rule conjunct1)
  with s' show ?thesis by blast
qed

end
