(* ===== verification/Data_File.thy ===== *)
theory Data_File
  imports Storage Transaction
begin

text \<open>
  What goes into the files of a database: \<open>database.include/write.c\<close>, the checking functions of
  \<open>database.include/read.c\<close>, and \<open>process_transaction_log\<close> with \<open>free_garbage\<close> of
  \<open>database.include/threads.c\<close>. A file is a schema or a sequence of root elements: header,
  magic number, marks, dumped nodes and committed transactions.
\<close>

section \<open>Writing macros\<close>

definition w_array :: "(Writer \<Rightarrow> Writer outcome) \<Rightarrow> Writer \<Rightarrow> Writer outcome" where
  "w_array body W = obind (write_array W) (\<lambda>W. obind (body W) write_array_end)"

definition w_then :: "(Writer \<Rightarrow> Writer outcome) \<Rightarrow> (Writer \<Rightarrow> Writer outcome) \<Rightarrow> Writer \<Rightarrow> Writer outcome" where
  "w_then f g W = obind (f W) g"

primrec w_for :: "('a \<Rightarrow> Writer \<Rightarrow> Writer outcome) \<Rightarrow> 'a list \<Rightarrow> Writer \<Rightarrow> Writer outcome" where
  "w_for f [] W = Done W"
| "w_for f (x # xs) W = obind (f x W) (w_for f xs)"

definition w_string :: "byte list \<Rightarrow> Writer \<Rightarrow> Writer outcome" where
  "w_string s W = write_bytes W s"

definition w_number :: "u64 \<Rightarrow> Writer \<Rightarrow> Writer outcome" where
  "w_number n W = write_number W n"

definition c_str :: "string \<Rightarrow> byte list" where
  "c_str s = map of_char s"

section \<open>Files\<close>

definition write_attribute_schema :: "NodeAttribute \<Rightarrow> Writer \<Rightarrow> Writer outcome" where
  "write_attribute_schema a = w_array (w_then (w_string (at_name a)) (w_number (of_nat (attr_number (at_type a)))))"

definition write_type_schema :: "NodeType \<Rightarrow> Writer \<Rightarrow> Writer outcome" where
  "write_type_schema T = w_array (w_then (w_string (nt_name T)) (w_for write_attribute_schema (nt_attributes T)))"

definition write_schema :: "DatabaseType \<Rightarrow> Writer \<Rightarrow> Writer outcome" where
  "write_schema T W =
    obind (w_array (w_then (w_string (c_str ''HybridDatabase Database Schema''))
      (w_then (w_string (dt_name T)) (w_then (w_string (dt_version T))
        (w_for write_type_schema (dt_node_types T))))) W)
    (\<lambda>W. writer_finish W True)"

definition write_file_header :: "DatabaseType \<Rightarrow> u64 \<Rightarrow> Writer \<Rightarrow> Writer outcome" where
  "write_file_header T magic_nr W =
    obind (w_array (w_then (w_string (c_str ''HybridDatabase Data File''))
      (w_then (w_string (dt_name T)) (w_string (dt_version T)))) W) (\<lambda>W.
    obind (writer_finish W True) (\<lambda>W.
    obind (w_number magic_nr W) (\<lambda>W. writer_finish W False)))"

definition write_mark :: "string \<Rightarrow> Writer \<Rightarrow> Writer outcome" where
  "write_mark s W = obind (w_string (c_str s) W) (\<lambda>W. writer_finish W False)"

definition write_file_footer :: "u64 \<Rightarrow> Writer \<Rightarrow> Writer outcome" where
  "write_file_footer magic W =
    obind (write_mark ''END OF FILE'' W) (\<lambda>W.
    obind (w_number magic W) (\<lambda>W. writer_finish W False))"

definition write_dump_begin :: "Writer \<Rightarrow> Writer outcome" where
  "write_dump_begin = write_mark ''DUMP BEGIN''"

definition write_dump_end :: "Writer \<Rightarrow> Writer outcome" where
  "write_dump_end = write_mark ''DUMP END''"

text \<open>\<open>type->store\<close>: the attributes in order.\<close>

definition node_ids :: "Database \<Rightarrow> addr \<Rightarrow> u64" where
  "node_ids D n = n_id (d_nodes D n)"

definition node_store :: "Database \<Rightarrow> addr \<Rightarrow> Writer \<Rightarrow> Writer outcome" where
  "node_store D n = w_for (\<lambda>(t, c) W. attribute_store t (d_tmem D) (node_ids D) W c)
     (zip (attr_types (node_get_type D n)) (n_cells (d_nodes D n)))"

definition write_node_store :: "Database \<Rightarrow> addr \<Rightarrow> Writer \<Rightarrow> Writer outcome" where
  "write_node_store D n = w_array (w_then (w_number (of_nat (n_type (d_nodes D n))))
     (w_then (w_number (n_id (d_nodes D n))) (node_store D n)))"

definition write_node_alloc :: "nat \<Rightarrow> u64 \<Rightarrow> Writer \<Rightarrow> Writer outcome" where
  "write_node_alloc type_id nid = w_array (w_then (w_number (cbe_number CBE_NODE_CREATED))
     (w_then (w_number (of_nat type_id)) (w_number nid)))"

definition write_node_delete :: "u64 \<Rightarrow> Writer \<Rightarrow> Writer outcome" where
  "write_node_delete nid = w_array (w_then (w_number (cbe_number CBE_NODE_DELETED)) (w_number nid))"

definition write_node_modify :: "Database \<Rightarrow> u64 \<Rightarrow> byte \<Rightarrow> attr_type \<Rightarrow> cell \<Rightarrow> Writer \<Rightarrow> Writer outcome" where
  "write_node_modify D nid attr attr_type value = w_array (w_then (w_number (cbe_number CBE_NODE_MODIFIED))
     (w_then (w_number nid) (w_then (w_number (ucast attr))
       (\<lambda>W. attribute_store attr_type (d_tmem D) (node_ids D) W value))))"

section \<open>Committed transactions\<close>

text \<open>
  The log is traversed from its bottom. Deletions go to the garbage stack, memory with the
  lowest bit of its address set; blocks and nodes are aligned.
\<close>

fun write_log_item :: "Database \<Rightarrow> LogItem \<Rightarrow> Writer \<Rightarrow> Writer outcome" where
  "write_log_item D (LI_TYPE_NODE_MODIFY n i index t old new) W = write_node_modify D (n_id (d_nodes D n)) index t new W"
| "write_log_item D (LI_TYPE_NODE_ALLOC n) W = write_node_alloc (n_type (d_nodes D n)) (n_id (d_nodes D n)) W"
| "write_log_item D (LI_TYPE_NODE_DELETE n) W = write_node_delete (n_id (d_nodes D n)) W"
| "write_log_item D (LI_TYPE_RAW loc old) W = Done W"
| "write_log_item D (LI_TYPE_MEMORY_ALLOC p) W = Done W"
| "write_log_item D (LI_TYPE_MEMORY_DELETE p) W = Done W"

fun garbage_item :: "LogItem \<Rightarrow> addr list" where
  "garbage_item (LI_TYPE_NODE_DELETE n) = [n]"
| "garbage_item (LI_TYPE_MEMORY_DELETE p) = [p OR 1]"
| "garbage_item x = []"

definition process_transaction_log :: "Database \<Rightarrow> LogItem list \<Rightarrow> Writer \<Rightarrow> addr list
    \<Rightarrow> (Writer \<times> addr list \<times> LogItem list) outcome" where
  "process_transaction_log D log W garbage_stack =
    obind (w_array (w_for (write_log_item D) (rev log)) W) (\<lambda>W.
    obind (writer_finish W True) (\<lambda>W.
    Done (W, garbage_stack @ concat (map garbage_item (rev log)), [])))"

definition free_garbage :: "addr list \<Rightarrow> u64 \<Rightarrow> Database \<Rightarrow> addr list \<times> Database" where
  "free_garbage garbage_stack end_time D =
    ([], fold (\<lambda>i D. if i AND 1 \<noteq> 0
                 then D\<lparr>d_freed := free_request (i XOR 1) end_time @ d_freed D\<rparr>
                 else node_destroy_free i end_time D) garbage_stack D)"

section \<open>Reading macros\<close>

definition r_array :: "(Reader \<Rightarrow> Reader outcome) \<Rightarrow> Reader \<Rightarrow> Reader outcome" where
  "r_array body R = obind (read_array R) (\<lambda>R. obind (body R) read_array_end)"

definition r_then :: "(Reader \<Rightarrow> Reader outcome) \<Rightarrow> (Reader \<Rightarrow> Reader outcome) \<Rightarrow> Reader \<Rightarrow> Reader outcome" where
  "r_then f g R = obind (f R) g"

primrec r_for :: "('a \<Rightarrow> Reader \<Rightarrow> Reader outcome) \<Rightarrow> 'a list \<Rightarrow> Reader \<Rightarrow> Reader outcome" where
  "r_for f [] R = Done R"
| "r_for f (x # xs) R = obind (f x R) (r_for f xs)"

text \<open>
  The C strings compared with hold no zero byte, so the test of the lengths and \<open>strncmp\<close>
  together are equality.
\<close>

definition r_check_string :: "byte list \<Rightarrow> Reader \<Rightarrow> Reader outcome" where
  "r_check_string s R = obind (read_string R) (\<lambda>(bs, R). obind (check (bs = s)) (\<lambda>_. Done R))"

definition r_check_number :: "u64 \<Rightarrow> Reader \<Rightarrow> Reader outcome" where
  "r_check_number n R = obind (read_number R) (\<lambda>(m, R). obind (check (m = n)) (\<lambda>_. Done R))"

definition r_begin :: "Reader \<Rightarrow> Reader outcome" where
  "r_begin R = obind (reader_begin R) (\<lambda>(st, R). obind (check (st = ST_READ_SUCCESS)) (\<lambda>_. Done R))"

section \<open>Checking files\<close>

definition read_attribute_schema :: "NodeAttribute \<Rightarrow> Reader \<Rightarrow> Reader outcome" where
  "read_attribute_schema a = r_array (r_then (r_check_string (at_name a)) (r_check_number (of_nat (attr_number (at_type a)))))"

definition read_type_schema :: "NodeType \<Rightarrow> Reader \<Rightarrow> Reader outcome" where
  "read_type_schema T = r_array (r_then (r_check_string (nt_name T)) (r_for read_attribute_schema (nt_attributes T)))"

definition read_schema :: "DatabaseType \<Rightarrow> Reader \<Rightarrow> Reader outcome" where
  "read_schema T R =
    obind (r_begin R) (\<lambda>R.
    obind (r_array (r_then (r_check_string (c_str ''HybridDatabase Database Schema''))
      (r_then (r_check_string (dt_name T)) (r_then (r_check_string (dt_version T))
        (r_for read_type_schema (dt_node_types T))))) R) (\<lambda>R.
    reader_finish R True))"

definition read_file_header :: "DatabaseType \<Rightarrow> Reader \<Rightarrow> (u64 \<times> Reader) outcome" where
  "read_file_header T R =
    obind (r_begin R) (\<lambda>R.
    obind (r_array (r_then (r_check_string (c_str ''HybridDatabase Data File''))
      (r_then (r_check_string (dt_name T)) (r_check_string (dt_version T)))) R) (\<lambda>R.
    obind (reader_finish R True) (\<lambda>R.
    obind (r_begin R) (\<lambda>R.
    obind (read_number R) (\<lambda>(magic, R).
    obind (reader_finish R False) (\<lambda>R. Done (magic, R)))))))"

definition read_mark :: "string \<Rightarrow> Reader \<Rightarrow> Reader outcome" where
  "read_mark s R = obind (r_check_string (c_str s) R) (\<lambda>R. reader_finish R False)"

definition read_file_footer :: "Reader \<Rightarrow> (u64 \<times> Reader) outcome" where
  "read_file_footer R =
    obind (read_mark ''END OF FILE'' R) (\<lambda>R.
    obind (r_begin R) (\<lambda>R.
    obind (read_number R) (\<lambda>(magic, R).
    obind (reader_finish R False) (\<lambda>R. Done (magic, R)))))"

definition read_dump_begin :: "Reader \<Rightarrow> Reader outcome" where
  "read_dump_begin = read_mark ''DUMP BEGIN''"

definition read_dump_end :: "Reader \<Rightarrow> Reader outcome" where
  "read_dump_end = read_mark ''DUMP END''"

section \<open>What the writing functions append\<close>

definition arr :: "byte list \<Rightarrow> byte list" where
  "arr bs = ST_ARRAY_BEGIN # bs @ [ST_ARRAY_END]"

definition writes :: "(Writer \<Rightarrow> Writer outcome) \<Rightarrow> byte list \<Rightarrow> bool" where
  "writes f bs \<longleftrightarrow> (\<forall>W. w_inv W \<longrightarrow> (\<exists>W'. f W = Done W' \<and> w_appends W bs 0 W'))"

named_theorems writes_intros \<open>what the writing functions append\<close>

lemma writesD: "writes f bs \<Longrightarrow> w_inv W \<Longrightarrow> \<exists>W'. f W = Done W' \<and> w_appends W bs 0 W'"
  by (simp add: writes_def)

lemma w_appends_compose:
  "w_appends W as d W' \<Longrightarrow> w_appends W' bs e W'' \<Longrightarrow> w_appends W (as @ bs) (d + e) W''"
  by (simp add: w_appends_def)

lemma writes_then [writes_intros]: "writes f as \<Longrightarrow> writes g bs \<Longrightarrow> writes (w_then f g) (as @ bs)"
proof -
  assume f: "writes f as" and g: "writes g bs"
  show ?thesis unfolding writes_def
  proof (intro allI impI)
    fix W assume "w_inv W"
    then obtain W1 where 1: "f W = Done W1" "w_appends W as 0 W1" using writesD [OF f] by blast
    then obtain W2 where 2: "g W1 = Done W2" "w_appends W1 bs 0 W2"
      using writesD [OF g, of W1] by (auto simp: w_appends_def)
    have "w_appends W (as @ bs) (0 + 0) W2" by (rule w_appends_compose [OF 1(2) 2(2)])
    with 1(1) 2(1) show "\<exists>W'. w_then f g W = Done W' \<and> w_appends W (as @ bs) 0 W'"
      by (simp add: w_then_def)
  qed
qed

lemma writes_Done [writes_intros]: "writes Done []"
  by (simp add: writes_def w_appends_def)

lemma writes_for [writes_intros]:
  "(\<And>x. x \<in> set xs \<Longrightarrow> writes (f x) (enc x)) \<Longrightarrow> writes (w_for f xs) (concat (map enc xs))"
proof (induction xs)
  case Nil
  then show ?case by (simp add: writes_def w_appends_def)
next
  case (Cons x xs)
  then have "writes (w_then (f x) (w_for f xs)) (enc x @ concat (map enc xs))"
    by (intro writes_then) auto
  then show ?case by (simp add: w_then_def writes_def)
qed

lemma writes_array [writes_intros]:
  assumes "writes f bs"
  shows "writes (w_array f) (arr bs)"
  unfolding writes_def
proof (intro allI impI)
  fix W assume "w_inv W"
  then obtain W1 where 1: "write_array W = Done W1" "w_appends W [ST_ARRAY_BEGIN] 1 W1"
    using write_array_ok by blast
  then obtain W2 where 2: "f W1 = Done W2" "w_appends W1 bs 0 W2"
    using writesD [OF assms, of W1] by (auto simp: w_appends_def)
  have "w_inv W2" "0 < w_depth W2"
    using 1(2) 2(2) \<open>w_inv W\<close> by (auto simp: w_appends_def w_inv_def)
  then obtain W3 where 3: "write_array_end W2 = Done W3" "w_appends W2 [ST_ARRAY_END] (- 1) W3"
    using write_array_end_ok by blast
  have "w_appends W ([ST_ARRAY_BEGIN] @ bs @ [ST_ARRAY_END]) (1 + (0 + - 1)) W3"
    by (intro w_appends_compose [OF 1(2)] w_appends_compose [OF 2(2) 3(2)])
  with 1(1) 2(1) 3(1) show "\<exists>W'. w_array f W = Done W' \<and> w_appends W (arr bs) 0 W'"
    by (simp add: w_array_def arr_def)
qed

lemma writes_string [writes_intros]: "length s < 2 ^ 60 \<Longrightarrow> writes (w_string s) (enc_string s)"
  by (simp add: writes_def w_string_def write_bytes_ok)

lemma writes_number [writes_intros]: "writes (w_number n) (enc_number n)"
  by (simp add: writes_def w_number_def write_number_ok)

lemma length_c_str [simp]: "length (c_str s) = length s"
  by (simp add: c_str_def)

text \<open>Closing a root element.\<close>

lemma w_closed_trans: "w_closed W as W' \<Longrightarrow> w_closed W' bs W'' \<Longrightarrow> w_closed W (as @ bs) W''"
  by (simp add: w_closed_def)

lemma writes_finish:
  assumes "writes f bs" and "w_inv W" and "w_cur W = []" and "w_depth W = 0"
  shows "\<exists>W'. obind (f W) (\<lambda>W. writer_finish W cs) = Done W' \<and> w_closed W (root_element cs bs) W'"
proof -
  obtain W1 where 1: "f W = Done W1" "w_appends W bs 0 W1" using writesD [OF assms(1,2)] by blast
  then have "w_inv W1" "w_depth W1 = 0" "w_cur W1 = bs" "w_out W1 = w_out W"
    using assms(3,4) by (simp_all add: w_appends_def)
  with writer_finish_ok [of W1 cs] 1(1) show ?thesis by (auto simp: w_closed_def)
qed

section \<open>What the reading functions accept\<close>

definition reads :: "(Reader \<Rightarrow> Reader outcome) \<Rightarrow> byte list \<Rightarrow> bool" where
  "reads f bs \<longleftrightarrow> (\<forall>R cs. r_ok R \<longrightarrow> 0 \<le> r_depth R \<longrightarrow> r_rest R = bs @ cs
     \<longrightarrow> f R = Done (r_advance R (length bs) 0))"

named_theorems reads_intros \<open>what the reading functions accept\<close>

lemma readsD: "reads f bs \<Longrightarrow> r_ok R \<Longrightarrow> 0 \<le> r_depth R \<Longrightarrow> r_rest R = bs @ cs
    \<Longrightarrow> f R = Done (r_advance R (length bs) 0)"
  by (simp add: reads_def)

lemma r_step:
  assumes "r_ok R" and "r_rest R = bs @ cs"
  shows "r_ok (r_advance R (length bs) d)" and "r_rest (r_advance R (length bs) d) = cs"
  using assms by (auto intro: r_ok_advance r_rest_advance)

lemma reads_then [reads_intros]:
  assumes "reads f as" and "reads g bs"
  shows "reads (r_then f g) (as @ bs)"
  unfolding reads_def
proof (intro allI impI)
  fix R cs assume R: "r_ok R" "0 \<le> r_depth R" "r_rest R = (as @ bs) @ cs"
  then have rest: "r_rest R = as @ (bs @ cs)" by simp
  with readsD [OF assms(1) R(1,2)] have "f R = Done (r_advance R (length as) 0)" by blast
  moreover have "g (r_advance R (length as) 0) = Done (r_advance (r_advance R (length as) 0) (length bs) 0)"
    by (rule readsD [OF assms(2)]) (use r_step [OF R(1) rest] R(2) in simp_all)
  ultimately show "r_then f g R = Done (r_advance R (length (as @ bs)) 0)"
    by (simp add: r_then_def)
qed

lemma reads_for [reads_intros]:
  "(\<And>x. x \<in> set xs \<Longrightarrow> reads (f x) (enc x)) \<Longrightarrow> reads (r_for f xs) (concat (map enc xs))"
proof (induction xs)
  case Nil
  then show ?case by (simp add: reads_def)
next
  case (Cons x xs)
  then have "reads (r_then (f x) (r_for f xs)) (enc x @ concat (map enc xs))"
    by (intro reads_then) auto
  then show ?case by (simp add: r_then_def reads_def)
qed

lemma reads_array [reads_intros]:
  assumes "reads f bs"
  shows "reads (r_array f) (arr bs)"
  unfolding reads_def
proof (intro allI impI)
  fix R cs assume R: "r_ok R" "0 \<le> r_depth R" "r_rest R = arr bs @ cs"
  let ?R1 = "r_advance R 1 1" and ?R2 = "r_advance (r_advance R 1 1) (length bs) 0"
  have rest: "r_rest R = [ST_ARRAY_BEGIN] @ (bs @ ST_ARRAY_END # cs)"
    using R(3) by (simp add: arr_def)
  have 1: "read_array R = Done ?R1" using read_array_ok [OF R(1)] rest by simp
  have R1: "r_ok ?R1" "r_rest ?R1 = bs @ (ST_ARRAY_END # cs)"
    using r_step [OF R(1) rest] by simp_all
  have 2: "f ?R1 = Done ?R2" by (rule readsD [OF assms R1(1) _ R1(2)]) (use R(2) in simp)
  have "read_array_end ?R2 = Done (r_advance ?R2 1 (- 1))"
  proof (rule read_array_end_ok)
    show "r_ok ?R2" "r_rest ?R2 = ST_ARRAY_END # cs" by (rule r_step [OF R1])+
    show "0 < r_depth ?R2" using R(2) by simp
  qed
  with 1 2 show "r_array f R = Done (r_advance R (length (arr bs)) 0)"
    by (simp add: r_array_def arr_def)
qed

lemma reads_string [reads_intros]: "reads (r_check_string s) (enc_string s)"
  unfolding reads_def r_check_string_def
proof (intro allI impI)
  fix R cs assume R: "r_ok R" "r_rest R = enc_string s @ cs"
  from read_string_ok [OF R]
  show "obind (read_string R) (\<lambda>(bs, R). obind (check (bs = s)) (\<lambda>_. Done R)) = Done (r_advance R (length (enc_string s)) 0)"
    by simp
qed

lemma reads_number [reads_intros]: "reads (r_check_number n) (enc_number n)"
  by (auto simp: reads_def r_check_number_def read_number_ok)

section \<open>Root elements\<close>

text \<open>The reader inside a root element whose contents are \<open>bs\<close>, after \<open>n\<close> bytes of them.\<close>

definition r_inside :: "bool \<Rightarrow> byte list \<Rightarrow> byte list \<Rightarrow> nat \<Rightarrow> Reader \<Rightarrow> bool" where
  "r_inside cs bs rest n R \<longleftrightarrow> r_ok R \<and> r_idle R \<and> r_depth R = 0 \<and> r_data R = element_body cs bs
     \<and> r_ptr R = n \<and> r_file R = rest"

lemma r_idle_advance [simp]: "r_idle (r_advance R n d) = r_idle R"
  by (simp add: r_idle_def r_advance_def)

lemma r_begin_ok:
  assumes "r_idle R" and "r_file R = root_element cs bs @ rest" and "length bs < 2 ^ 60"
  shows "\<exists>R1. reader_begin R = Done (ST_READ_SUCCESS, R1) \<and> r_inside cs bs rest 0 R1"
proof -
  have "element_body cs bs \<noteq> []" by (simp add: element_body_def)
  moreover have "length (element_body cs bs) < 2 ^ 63"
    using assms(3) length_element_body [of cs bs] by simp
  ultimately show ?thesis
    using reader_begin_ok [OF assms(1), of "element_body cs bs" rest] assms(2)
    by (auto simp: root_element_def r_inside_def)
qed

lemma r_inside_rest: "r_inside cs bs rest 0 R \<Longrightarrow> r_rest R = bs @ crc_part cs bs @ [ST_DOT]"
  by (simp add: r_inside_def r_rest_def element_body_def)

lemma r_inside_advance:
  "r_inside cs bs rest 0 R \<Longrightarrow> n \<le> length bs \<Longrightarrow> r_inside cs bs rest n (r_advance R n 0)"
  by (auto simp: r_inside_def r_ok_def element_body_def)

lemma r_finish_ok:
  assumes "r_inside cs bs rest (length bs) R" and "cs' \<longrightarrow> cs"
  shows "\<exists>R'. reader_finish R cs' = Done R' \<and> r_idle R' \<and> r_file R' = rest"
proof (cases cs)
  case True
  then have "reader_finish R cs' = Done (r_advance R 6 0)"
    using reader_finish_crc [of R bs "crc32_c bs 0" cs'] assms(1)
    by (simp add: r_inside_def element_body_def crc_part_def)
  with assms(1) show ?thesis by (simp add: r_inside_def)
next
  case False
  then have "reader_finish R cs' = Done (r_advance R 1 0)"
    using reader_finish_dot [of R bs cs'] assms
    by (simp add: r_inside_def element_body_def crc_part_def)
  with assms(1) show ?thesis by (simp add: r_inside_def)
qed

lemma reads_inside:
  assumes "reads f bs" and "r_inside cs bs rest 0 R"
  shows "f R = Done (r_advance R (length bs) 0)" and "r_inside cs bs rest (length bs) (r_advance R (length bs) 0)"
proof -
  show "f R = Done (r_advance R (length bs) 0)"
    by (rule readsD [OF assms(1) _ _ r_inside_rest [OF assms(2)]]) (use assms(2) in \<open>simp_all add: r_inside_def\<close>)
qed (rule r_inside_advance [OF assms(2) order_refl])

text \<open>A whole element: begun, read and finished.\<close>

lemma reads_element:
  assumes "reads f bs" and "r_idle R" and "r_file R = root_element cs bs @ rest" and "length bs < 2 ^ 60"
    and "cs' \<longrightarrow> cs"
  shows "\<exists>R1 R2 R'. r_begin R = Done R1 \<and> f R1 = Done R2 \<and> reader_finish R2 cs' = Done R' \<and> r_idle R' \<and> r_file R' = rest"
proof -
  obtain R1 where R1: "reader_begin R = Done (ST_READ_SUCCESS, R1)" "r_inside cs bs rest 0 R1"
    using r_begin_ok [OF assms(2-4)] by blast
  obtain R' where "reader_finish (r_advance R1 (length bs) 0) cs' = Done R'" "r_idle R'" "r_file R' = rest"
    using r_finish_ok [OF reads_inside(2) [OF assms(1) R1(2)] assms(5)] by blast
  with R1(1) reads_inside(1) [OF assms(1) R1(2)] show ?thesis by (auto simp: r_begin_def)
qed

section \<open>Encodings of the parts of a file\<close>

definition enc_attribute :: "NodeAttribute \<Rightarrow> byte list" where
  "enc_attribute a = arr (enc_string (at_name a) @ enc_number (of_nat (attr_number (at_type a))))"

definition enc_type :: "NodeType \<Rightarrow> byte list" where
  "enc_type T = arr (enc_string (nt_name T) @ concat (map enc_attribute (nt_attributes T)))"

definition enc_schema :: "DatabaseType \<Rightarrow> byte list" where
  "enc_schema T = arr (enc_string (c_str ''HybridDatabase Database Schema'') @ enc_string (dt_name T)
     @ enc_string (dt_version T) @ concat (map enc_type (dt_node_types T)))"

definition enc_header :: "DatabaseType \<Rightarrow> byte list" where
  "enc_header T = arr (enc_string (c_str ''HybridDatabase Data File'') @ enc_string (dt_name T) @ enc_string (dt_version T))"

definition enc_mark :: "string \<Rightarrow> byte list" where
  "enc_mark s = root_element False (enc_string (c_str s))"

definition enc_magic :: "u64 \<Rightarrow> byte list" where
  "enc_magic n = root_element False (enc_number n)"

text \<open>Sizes that fit: every name, and the schema as a whole.\<close>

definition schema_fits :: "DatabaseType \<Rightarrow> bool" where
  "schema_fits T \<longleftrightarrow> length (enc_schema T) < 2 ^ 60 \<and> length (dt_name T) < 2 ^ 58 \<and> length (dt_version T) < 2 ^ 58
     \<and> (\<forall>N \<in> set (dt_node_types T). length (nt_name N) < 2 ^ 60 \<and> (\<forall>a \<in> set (nt_attributes N). length (at_name a) < 2 ^ 60))"

lemma writes_schema:
  assumes "schema_fits T" and "w_inv W" and "w_cur W = []" and "w_depth W = 0"
  shows "\<exists>W'. write_schema T W = Done W' \<and> w_closed W (root_element True (enc_schema T)) W'"
proof -
  have a: "writes (write_attribute_schema a) (enc_attribute a)" if "length (at_name a) < 2 ^ 60" for a
    unfolding write_attribute_schema_def enc_attribute_def by (intro writes_intros that)
  have t: "writes (write_type_schema N) (enc_type N)" if "N \<in> set (dt_node_types T)" for N
    unfolding write_type_schema_def enc_type_def
    by (intro writes_intros a) (use assms(1) that in \<open>auto simp: schema_fits_def\<close>)
  show ?thesis unfolding write_schema_def
  proof (rule writes_finish [OF _ assms(2-4)])
    show "writes (w_array (w_then (w_string (c_str ''HybridDatabase Database Schema''))
      (w_then (w_string (dt_name T)) (w_then (w_string (dt_version T))
        (w_for write_type_schema (dt_node_types T)))))) (enc_schema T)"
      unfolding enc_schema_def
      by (intro writes_intros t) (use assms(1) in \<open>auto simp: schema_fits_def\<close>)
  qed
qed

lemma reads_schema:
  assumes "length (enc_schema T) < 2 ^ 60" and "r_idle R" and "r_file R = root_element True (enc_schema T) @ rest"
  shows "\<exists>R'. read_schema T R = Done R' \<and> r_idle R' \<and> r_file R' = rest"
proof -
  have "reads (r_array (r_then (r_check_string (c_str ''HybridDatabase Database Schema''))
      (r_then (r_check_string (dt_name T)) (r_then (r_check_string (dt_version T))
        (r_for read_type_schema (dt_node_types T)))))) (enc_schema T)"
    unfolding enc_schema_def enc_type_def enc_attribute_def read_type_schema_def read_attribute_schema_def
    by (intro reads_intros)
  from reads_element [OF this assms(2,3,1), of True] show ?thesis
    by (auto simp: read_schema_def)
qed

lemma w_closed_ready: "w_closed W bs W' \<Longrightarrow> w_inv W' \<and> w_cur W' = [] \<and> w_depth W' = 0"
  by (simp add: w_closed_def)

lemma writes_mark:
  assumes "length s < 2 ^ 60" and "w_inv W" and "w_cur W = []" and "w_depth W = 0"
  shows "\<exists>W'. write_mark s W = Done W' \<and> w_closed W (enc_mark s) W'"
  unfolding write_mark_def enc_mark_def
  by (rule writes_finish [OF _ assms(2-4)]) (intro writes_intros, use assms(1) in simp)

lemma writes_magic:
  assumes "w_inv W" and "w_cur W = []" and "w_depth W = 0"
  shows "\<exists>W'. obind (w_number n W) (\<lambda>W. writer_finish W False) = Done W' \<and> w_closed W (enc_magic n) W'"
  unfolding enc_magic_def by (rule writes_finish [OF writes_number assms])

lemma writes_file_header:
  assumes "length (dt_name T) < 2 ^ 58" and "length (dt_version T) < 2 ^ 58"
    and "w_inv W" and "w_cur W = []" and "w_depth W = 0"
  shows "\<exists>W'. write_file_header T n W = Done W' \<and> w_closed W (root_element True (enc_header T) @ enc_magic n) W'"
proof -
  have "writes (w_array (w_then (w_string (c_str ''HybridDatabase Data File''))
      (w_then (w_string (dt_name T)) (w_string (dt_version T))))) (enc_header T)"
    unfolding enc_header_def by (intro writes_intros) (use assms(1,2) in simp_all)
  from writes_finish [OF this assms(3-5), of True] obtain W1 where
    1: "obind (w_array (w_then (w_string (c_str ''HybridDatabase Data File''))
      (w_then (w_string (dt_name T)) (w_string (dt_version T)))) W) (\<lambda>W. writer_finish W True) = Done W1"
      "w_closed W (root_element True (enc_header T)) W1" by blast
  from writes_magic [of W1 n] w_closed_ready [OF 1(2)] obtain W2 where
    2: "obind (w_number n W1) (\<lambda>W. writer_finish W False) = Done W2" "w_closed W1 (enc_magic n) W2" by blast
  have "write_file_header T n W = obind (obind (w_array (w_then (w_string (c_str ''HybridDatabase Data File''))
      (w_then (w_string (dt_name T)) (w_string (dt_version T)))) W) (\<lambda>W. writer_finish W True))
      (\<lambda>W. obind (w_number n W) (\<lambda>W. writer_finish W False))"
    by (simp add: write_file_header_def obind_assoc)
  with 1(1) 2 w_closed_trans [OF 1(2) 2(2)] show ?thesis by auto
qed

lemma reads_mark:
  assumes "r_inside False (enc_string (c_str s)) rest 0 R"
  shows "\<exists>R'. read_mark s R = Done R' \<and> r_idle R' \<and> r_file R' = rest"
  using reads_inside [OF reads_string [of "c_str s"] assms] r_finish_ok [of False "enc_string (c_str s)" rest _ False]
  by (auto simp: read_mark_def)

lemma reads_other_mark:
  assumes "r_inside False (enc_string (c_str s)) rest 0 R" and "c_str s \<noteq> c_str s'"
  shows "read_mark s' R = Failed"
proof -
  have "r_ok R" "r_rest R = enc_string (c_str s) @ [ST_DOT]"
    using assms(1) r_inside_rest [OF assms(1)] by (simp_all add: r_inside_def crc_part_def)
  from read_string_ok [OF this] assms(2) show ?thesis by (simp add: read_mark_def r_check_string_def)
qed

lemma marks_differ:
  "c_str ''DUMP BEGIN'' \<noteq> c_str ''DUMP END''" "c_str ''END OF FILE'' \<noteq> c_str ''DUMP BEGIN''"
  "c_str ''END OF FILE'' \<noteq> c_str ''DUMP END''" "c_str ''DUMP END'' \<noteq> c_str ''DUMP BEGIN''"
proof -
  have d: "length s \<noteq> length t \<Longrightarrow> s \<noteq> t" for s t :: "byte list" by auto
  show "c_str ''DUMP BEGIN'' \<noteq> c_str ''DUMP END''" "c_str ''END OF FILE'' \<noteq> c_str ''DUMP BEGIN''"
    "c_str ''END OF FILE'' \<noteq> c_str ''DUMP END''" "c_str ''DUMP END'' \<noteq> c_str ''DUMP BEGIN''"
    by (rule d, simp)+
qed

lemma length_enc_string: "length bs < 2 ^ 59 \<Longrightarrow> length (enc_string bs) < 2 ^ 60"
  using length_len_code [of "of_nat (length bs + ST_STRING)"] by (simp add: enc_string_def)

lemma length_enc_number: "length (enc_number n) \<le> 9"
  using length_num_bytes_le [of n] by (simp add: enc_number_def)

lemma reads_magic:
  assumes "r_idle R" and "r_file R = enc_magic n @ rest"
  shows "\<exists>R'. obind (r_begin R) (\<lambda>R. obind (read_number R) (\<lambda>(magic, R).
      obind (reader_finish R False) (\<lambda>R. Done (magic, R)))) = Done (n, R') \<and> r_idle R' \<and> r_file R' = rest"
proof -
  have "length (enc_number n) < 2 ^ 60" using length_enc_number [of n] by simp
  with r_begin_ok [OF assms(1)] assms(2) obtain R1 where
    R1: "reader_begin R = Done (ST_READ_SUCCESS, R1)" "r_inside False (enc_number n) rest 0 R1"
    unfolding enc_magic_def by blast
  have "read_number R1 = Done (n, r_advance R1 (length (enc_number n)) 0)"
    by (rule read_number_ok) (use R1(2) r_inside_rest [OF R1(2)] in \<open>auto simp: r_inside_def\<close>)
  moreover obtain R' where "reader_finish (r_advance R1 (length (enc_number n)) 0) False = Done R'" "r_idle R'" "r_file R' = rest"
    using r_finish_ok [OF r_inside_advance [OF R1(2) order_refl], of False] by blast
  ultimately show ?thesis using R1(1) by (simp add: r_begin_def)
qed

lemma reads_file_header:
  assumes "length (enc_header T) < 2 ^ 60" and "r_idle R"
    and "r_file R = (root_element True (enc_header T) @ enc_magic n) @ rest"
  shows "\<exists>R'. read_file_header T R = Done (n, R') \<and> r_idle R' \<and> r_file R' = rest"
proof -
  have "reads (r_array (r_then (r_check_string (c_str ''HybridDatabase Data File''))
      (r_then (r_check_string (dt_name T)) (r_check_string (dt_version T))))) (enc_header T)"
    unfolding enc_header_def by (intro reads_intros)
  moreover have "r_file R = root_element True (enc_header T) @ (enc_magic n @ rest)"
    using assms(3) by simp
  ultimately obtain R1 R2 R3 where "r_begin R = Done R1"
      "r_array (r_then (r_check_string (c_str ''HybridDatabase Data File''))
        (r_then (r_check_string (dt_name T)) (r_check_string (dt_version T)))) R1 = Done R2"
      "reader_finish R2 True = Done R3" "r_idle R3" "r_file R3 = enc_magic n @ rest"
    using reads_element [OF _ assms(2) _ assms(1), where cs' = True] by blast
  with reads_magic [of R3 n rest] show ?thesis by (auto simp: read_file_header_def)
qed

section \<open>Committed transactions as data\<close>

text \<open>
  The entries of a committed transaction and of a dump, as the file holds them. An attribute
  is named by its number, a type by its position.
\<close>

datatype entry = Modified u64 u64 attr_type disk_value | Created nat u64 | Deleted u64

fun enc_entry :: "entry \<Rightarrow> byte list" where
  "enc_entry (Modified nid a t v) = arr (enc_number 1 @ enc_number nid @ enc_number a @ enc_value v)"
| "enc_entry (Created k nid) = arr (enc_number 0 @ enc_number (of_nat k) @ enc_number nid)"
| "enc_entry (Deleted nid) = arr (enc_number 2 @ enc_number nid)"

definition enc_transaction :: "entry list \<Rightarrow> byte list" where
  "enc_transaction es = arr (concat (map enc_entry es))"

fun entry_ok :: "entry \<Rightarrow> bool" where
  "entry_ok (Modified nid a t v) \<longleftrightarrow> value_ok t v"
| "entry_ok _ \<longleftrightarrow> True"

text \<open>The entry of a log item; \<open>None\<close> where storing the new value of an attribute goes wrong.\<close>

fun item_entries :: "Database \<Rightarrow> LogItem \<Rightarrow> entry list option" where
  "item_entries D (LI_TYPE_NODE_MODIFY n i index t old new) =
    (case cell_value t (d_tmem D) (node_ids D) new of
      Some v \<Rightarrow> if value_ok t v then Some [Modified (n_id (d_nodes D n)) (ucast index) t v] else None
    | None \<Rightarrow> None)"
| "item_entries D (LI_TYPE_NODE_ALLOC n) = Some [Created (n_type (d_nodes D n)) (n_id (d_nodes D n))]"
| "item_entries D (LI_TYPE_NODE_DELETE n) = Some [Deleted (n_id (d_nodes D n))]"
| "item_entries D _ = Some []"

fun log_entries :: "Database \<Rightarrow> LogItem list \<Rightarrow> entry list option" where
  "log_entries D [] = Some []"
| "log_entries D (x # xs) = (case (item_entries D x, log_entries D xs) of
     (Some es, Some es') \<Rightarrow> Some (es @ es') | _ \<Rightarrow> None)"

lemma writes_attribute:
  "cell_value t H ids c = Some v \<Longrightarrow> value_ok t v \<Longrightarrow> writes (\<lambda>W. attribute_store t H ids W c) (enc_value v)"
  by (simp add: writes_def attribute_store_ok)

lemma writes_log_item:
  "item_entries D x = Some es \<Longrightarrow> writes (write_log_item D x) (concat (map enc_entry es))"
proof (cases x)
  case (LI_TYPE_NODE_MODIFY n i index t old new)
  assume "item_entries D x = Some es"
  with LI_TYPE_NODE_MODIFY obtain v where v: "cell_value t (d_tmem D) (node_ids D) new = Some v" "value_ok t v"
      "es = [Modified (n_id (d_nodes D n)) (ucast index) t v]"
    by (auto split: option.splits if_splits)
  have "writes (write_node_modify D (n_id (d_nodes D n)) index t new)
      (arr (enc_number 1 @ enc_number (n_id (d_nodes D n)) @ enc_number (ucast index) @ enc_value v))"
    unfolding write_node_modify_def cbe_number.simps by (intro writes_intros writes_attribute v)
  moreover have "write_log_item D x = write_node_modify D (n_id (d_nodes D n)) index t new"
    by (rule ext) (simp add: LI_TYPE_NODE_MODIFY)
  ultimately show ?thesis using v(3) by simp
next
  case (LI_TYPE_NODE_ALLOC n)
  assume "item_entries D x = Some es"
  moreover have "writes (write_node_alloc (n_type (d_nodes D n)) (n_id (d_nodes D n)))
      (enc_entry (Created (n_type (d_nodes D n)) (n_id (d_nodes D n))))"
    unfolding write_node_alloc_def cbe_number.simps enc_entry.simps by (intro writes_intros)
  moreover have "write_log_item D x = write_node_alloc (n_type (d_nodes D n)) (n_id (d_nodes D n))"
    by (rule ext) (simp add: LI_TYPE_NODE_ALLOC)
  ultimately show ?thesis using LI_TYPE_NODE_ALLOC by auto
next
  case (LI_TYPE_NODE_DELETE n)
  assume "item_entries D x = Some es"
  moreover have "writes (write_node_delete (n_id (d_nodes D n))) (enc_entry (Deleted (n_id (d_nodes D n))))"
    unfolding write_node_delete_def cbe_number.simps enc_entry.simps by (intro writes_intros)
  moreover have "write_log_item D x = write_node_delete (n_id (d_nodes D n))"
    by (rule ext) (simp add: LI_TYPE_NODE_DELETE)
  ultimately show ?thesis using LI_TYPE_NODE_DELETE by auto
qed (auto simp: writes_def w_appends_def)

lemma writes_log:
  "log_entries D xs = Some es \<Longrightarrow> writes (w_for (write_log_item D) xs) (concat (map enc_entry es))"
proof (induction xs arbitrary: es)
  case Nil
  then show ?case by (simp add: writes_def w_appends_def)
next
  case (Cons x xs)
  then obtain es1 es2 where es: "item_entries D x = Some es1" "log_entries D xs = Some es2" "es = es1 @ es2"
    by (auto split: option.splits)
  have "writes (w_then (write_log_item D x) (w_for (write_log_item D) xs)) (concat (map enc_entry es1) @ concat (map enc_entry es2))"
    by (intro writes_then writes_log_item Cons.IH es)
  with es(3) show ?case by (simp add: w_then_def writes_def)
qed

lemma process_log_ok:
  assumes "log_entries D (rev log) = Some es" and "w_inv W" and "w_cur W = []" and "w_depth W = 0"
  shows "\<exists>W'. process_transaction_log D log W garbage = Done (W', garbage @ concat (map garbage_item (rev log)), [])
    \<and> w_closed W (root_element True (enc_transaction es)) W'"
proof -
  have "writes (w_array (w_for (write_log_item D) (rev log))) (enc_transaction es)"
    unfolding enc_transaction_def by (intro writes_array writes_log assms(1))
  from writes_finish [OF this assms(2-4), of True] show ?thesis
    by (auto simp: process_transaction_log_def obind_eq_Done)
qed

end
