(* ===== verification/Loader.thy ===== *)
theory Loader
  imports Data_File Rescuer
begin

text \<open>
  Loading a database: the node-level functions of \<open>database.include/read.c\<close> and \<open>load_file\<close>,
  \<open>fix_pointers\<close> and \<open>fill_indexes\<close> of \<open>database_create.c\<close>. What was loaded before a file
  turns out to be damaged stays loaded, so every function returns the state together with an
  outcome that may be a failure. The dictionary from identifiers to nodes is a map (that the
  hash table implements one is shown in \<open>Num_Dictionary\<close>).
\<close>

section \<open>State and sequencing\<close>

record Loader =
  ld_db :: Database
  ld_nodes :: "u64 \<rightharpoonup> addr"

type_synonym 'a load = "Loader \<Rightarrow> 'a outcome \<times> Loader"

definition lbind :: "'a load \<Rightarrow> ('a \<Rightarrow> 'b load) \<Rightarrow> 'b load" where
  "lbind m f L = (case m L of
      (Done x, L) \<Rightarrow> f x L | (Failed, L) \<Rightarrow> (Failed, L) | (Fault, L) \<Rightarrow> (Fault, L))"

definition lift_load :: "'a outcome \<Rightarrow> 'a load" where
  "lift_load m L = (m, L)"

definition upd_db :: "(Database \<Rightarrow> Database) \<Rightarrow> Loader \<Rightarrow> Loader" where
  "upd_db f L = L\<lparr>ld_db := f (ld_db L)\<rparr>"

text \<open>The answer of \<open>node_allocator_alloc\<close> for a type.\<close>

type_synonym node_source = "Database \<Rightarrow> nat \<Rightarrow> addr"

section \<open>Nodes\<close>

text \<open>
  \<open>None\<close> stands for the result -1: the identifier is taken. The node just allocated keeps it
  all the same.
\<close>

definition read_node_prepare :: "node_source \<Rightarrow> Reader \<Rightarrow> ((nat \<times> addr) option \<times> Reader) load" where
  "read_node_prepare na R =
    lbind (lift_load (read_number R)) (\<lambda>(nr, R) L.
    if unat nr \<ge> length (dt_node_types (d_type (ld_db L))) then (Failed, L)
    else
      let n = na (ld_db L) (unat nr) in
      if n = 0 then (Fault, L)
      else lbind (lift_load (read_number R)) (\<lambda>(nid, R) L.
        let L = upd_db (upd_node n (\<lambda>N. N\<lparr>n_id := nid, n_ref_count := 0, n_type := unat nr\<rparr>)) L in
        if ld_nodes L nid \<noteq> None then (Done (None, R), L)
        else
          let D = ld_db L;
              D = (if nid > d_node_id_counter D then D\<lparr>d_node_id_counter := nid\<rparr> else D) in
          (Done (Some (unat nr, n), R), L\<lparr>ld_db := D, ld_nodes := (ld_nodes L)(nid \<mapsto> n)\<rparr>)) L)"

definition type_init :: "nat \<Rightarrow> addr \<Rightarrow> Database \<Rightarrow> Database" where
  "type_init k n D = upd_node n (\<lambda>N. N\<lparr>n_cells := map attribute_init (attr_types (dt_node_types (d_type D) ! k))\<rparr>) D"

text \<open>Loading one attribute in place, and \<open>type->load\<close>, which loads all up to the first failure.\<close>

definition load_cell :: "malloc \<Rightarrow> addr \<Rightarrow> nat \<Rightarrow> attr_type \<Rightarrow> Reader \<Rightarrow> Reader load" where
  "load_cell malloc n i t R L =
    (case attribute_load malloc t (d_tmem (ld_db L)) (get_cell (d_nodes (ld_db L) n) i) R of
      Done ((c, M, fr), R) \<Rightarrow>
        (Done R, upd_db (\<lambda>D. (upd_node n (set_cell i c) D)\<lparr>d_tmem := M, d_freed := rev fr @ d_freed D\<rparr>) L)
    | Failed \<Rightarrow> (Failed, L) | Fault \<Rightarrow> (Fault, L))"

primrec load_cells :: "malloc \<Rightarrow> addr \<Rightarrow> attr_type list \<Rightarrow> nat \<Rightarrow> Reader \<Rightarrow> Reader load" where
  "load_cells malloc n [] i R = lift_load (Done R)"
| "load_cells malloc n (t # ts) i R = lbind (load_cell malloc n i t R) (load_cells malloc n ts (Suc i))"

definition read_node_load :: "malloc \<Rightarrow> node_source \<Rightarrow> Reader \<Rightarrow> Reader load" where
  "read_node_load malloc na R =
    lbind (read_node_prepare na R) (\<lambda>(res, R) L.
    case res of
      Some (k, n) \<Rightarrow>
        load_cells malloc n (attr_types (dt_node_types (d_type (ld_db L)) ! k)) 0 R (upd_db (type_init k n) L)
    | None \<Rightarrow> (Failed, L))"

definition read_node_create :: "node_source \<Rightarrow> Reader \<Rightarrow> Reader load" where
  "read_node_create na R =
    lbind (read_node_prepare na R) (\<lambda>(res, R) L.
    case res of
      Some (k, n) \<Rightarrow> (Done R, upd_db (type_init k n) L)
    | None \<Rightarrow> (Done R, L))"

definition read_node_delete :: "Reader \<Rightarrow> Reader load" where
  "read_node_delete R =
    lbind (lift_load (read_number R)) (\<lambda>(nid, R) L.
    case ld_nodes L nid of
      None \<Rightarrow> (Done R, L)
    | Some n \<Rightarrow> (Done R, (upd_db (node_destroy_free n 0) L)\<lparr>ld_nodes := (ld_nodes L)(nid := None)\<rparr>))"

text \<open>
  \<open>int attr_id = rNumber\<close> keeps the low 32 bits; a negative number passes the test and
  indexes the array from the wrong side.
\<close>

definition read_node_modify :: "malloc \<Rightarrow> Reader \<Rightarrow> Reader load" where
  "read_node_modify malloc R =
    lbind (lift_load (read_number R)) (\<lambda>(nid, R).
    lbind (lift_load (read_number R)) (\<lambda>(a, R) L.
    let attr_id = sint (ucast a :: 32 word) in
    case ld_nodes L nid of
      None \<Rightarrow> lift_load (reader_skip R) L
    | Some n \<Rightarrow>
        let T = node_get_type (ld_db L) n in
        if attr_id \<ge> int (length (nt_attributes T)) then (Failed, L)
        else if attr_id < 0 then (Fault, L)
        else load_cell malloc n (nat attr_id) (attr_types T ! nat attr_id) R L))"

section \<open>Elements of a file\<close>

text \<open>One operation of a regular transaction.\<close>

definition load_operation :: "malloc \<Rightarrow> node_source \<Rightarrow> Reader \<Rightarrow> Reader load" where
  "load_operation malloc na R =
    lbind (lift_load (read_number R)) (\<lambda>(ev, R).
      if ev = cbe_number CBE_NODE_MODIFIED then read_node_modify malloc R
      else if ev = cbe_number CBE_NODE_CREATED then read_node_create na R
      else if ev = cbe_number CBE_NODE_DELETED then read_node_delete R
      else lift_load Failed)"

text \<open>One entry: of a regular transaction, or of a dump (the nodes follow the number 0).\<close>

definition load_entry :: "malloc \<Rightarrow> node_source \<Rightarrow> bool \<Rightarrow> Reader \<Rightarrow> Reader load" where
  "load_entry malloc na dump R =
    lbind (lift_load (read_array R)) (\<lambda>R.
    lbind (if dump then read_node_load malloc na R else load_operation malloc na R) (\<lambda>R.
    lift_load (read_array_end R)))"

text \<open>Everything read moves forward inside the element, so the loop over its entries ends.\<close>

definition r_moves :: "Reader \<Rightarrow> Reader \<Rightarrow> bool" where
  "r_moves R R' \<longleftrightarrow> r_data R' = r_data R \<and> r_file R' = r_file R \<and> r_ptr R \<le> r_ptr R' \<and> (r_ptr R \<le> length (r_data R) \<longrightarrow> r_ptr R' \<le> length (r_data R))"

lemma lbind_Done:
  "lbind m f L = (Done y, L'') \<longleftrightarrow> (\<exists>x L'. m L = (Done x, L') \<and> f x L' = (Done y, L''))"
  by (auto simp: lbind_def split: prod.splits outcome.splits)

lemma lift_load_Done [simp]: "lift_load m L = (Done y, L') \<longleftrightarrow> m = Done y \<and> L' = L"
  by (auto simp: lift_load_def)

lemma lbind_simps [simp]:
  "lbind (lift_load (Done x)) f L = f x L"
  "lbind (lift_load Failed) f L = (Failed, L)"
  "lbind (lift_load Fault) f L = (Fault, L)"
  by (simp_all add: lbind_def lift_load_def)

lemma lbind_eq: "m L = (Done x, L') \<Longrightarrow> lbind m f L = f x L'"
  by (simp add: lbind_def)

lemma r_moves_refl [simp]: "r_moves R R"
  by (simp add: r_moves_def)

lemma r_moves_trans: "r_moves R R' \<Longrightarrow> r_moves R' R'' \<Longrightarrow> r_moves R R''"
  by (auto simp: r_moves_def)

lemma r_progress_moves: "r_progress R R' \<Longrightarrow> r_moves R R'"
  by (simp add: r_moves_def r_progress_def)

lemma reader_skip_loop_moves: "reader_skip_loop R d = Done R' \<Longrightarrow> r_moves R R'"
proof (induction R d rule: reader_skip_loop.induct)
  case (1 R d)
  show ?case
  proof (cases "reader_next R = ST_ARRAY_BEGIN")
    case True
    with "1.prems" obtain R1 where "read_array R = Done R1" "reader_skip_loop R1 (d + 1) = Done R'"
      by (subst (asm) reader_skip_loop.simps) (auto elim: obindE)
    with "1.IH"(1) [OF True] show ?thesis
      by (auto intro: r_moves_trans r_progress_moves read_array_progress)
  next
    case nb: False
    show ?thesis
    proof (cases "reader_next R = of_nat ST_STRING")
      case True
      with nb "1.prems" obtain bs R1 where "read_string R = Done (bs, R1)" "reader_skip_loop R1 d = Done R'"
        by (subst (asm) reader_skip_loop.simps) (auto elim!: obindE)
      with "1.IH"(2) [OF nb True, of "(bs, R1)" bs R1] show ?thesis
        by (auto intro: r_moves_trans r_progress_moves read_string_progress)
    next
      case ns: False
      show ?thesis
      proof (cases "reader_next R = ST_ARRAY_END \<and> d \<noteq> 0")
        case True
        with nb ns "1.prems" obtain R1 where "read_array_end R = Done R1" "reader_skip_loop R1 (d - 1) = Done R'"
          by (subst (asm) reader_skip_loop.simps) (auto elim: obindE)
        with "1.IH"(3) [OF nb ns] True show ?thesis
          by (auto intro: r_moves_trans r_progress_moves read_array_end_progress)
      next
        case False
        with nb ns "1.prems" have "R' = R"
          by (subst (asm) reader_skip_loop.simps) (auto split: if_splits)
        then show ?thesis by simp
      qed
    qed
  qed
qed

lemma attribute_load_moves: "attribute_load malloc t H c R = Done (x, R') \<Longrightarrow> r_moves R R'"
  by (auto simp: attribute_load_def obind_eq_Done split: if_splits
      dest!: read_string_progress read_number_progress intro: r_progress_moves)

lemma load_cell_moves: "load_cell malloc n i t R L = (Done R', L') \<Longrightarrow> r_moves R R'"
  by (auto simp: load_cell_def split: outcome.splits intro: attribute_load_moves)

lemma load_cells_moves: "load_cells malloc n ts i R L = (Done R', L') \<Longrightarrow> r_moves R R'"
  by (induction ts arbitrary: i R L) (auto simp: lbind_Done intro: r_moves_trans load_cell_moves)

lemma read_node_prepare_moves: "read_node_prepare na R L = (Done (res, R'), L') \<Longrightarrow> r_moves R R'"
  by (auto simp: read_node_prepare_def lbind_Done Let_def split: if_splits
      dest!: read_number_progress r_progress_moves intro: r_moves_trans)

lemma read_node_moves:
  "read_node_load malloc na R L = (Done R', L') \<Longrightarrow> r_moves R R'"
  "read_node_create na R L = (Done R', L') \<Longrightarrow> r_moves R R'"
  "read_node_delete R L = (Done R', L') \<Longrightarrow> r_moves R R'"
  "read_node_modify malloc R L = (Done R', L') \<Longrightarrow> r_moves R R'"
  by (auto simp: read_node_load_def read_node_create_def read_node_delete_def read_node_modify_def lbind_Done Let_def
      reader_skip_def split: option.splits if_splits
      dest!: read_node_prepare_moves load_cells_moves load_cell_moves reader_skip_loop_moves
        read_number_progress r_progress_moves intro: r_moves_trans)

lemma load_entry_moves:
  assumes "load_entry malloc na dump R L = (Done R', L')"
  shows "r_moves R R'" and "r_ptr R < r_ptr R'" and "r_ptr R' \<le> length (r_data R)"
proof -
  obtain R1 R2 L1 where "read_array R = Done R1" "read_array_end R2 = Done R'"
    and m: "(if dump then read_node_load malloc na R1 else load_operation malloc na R1) L = (Done R2, L1)"
    using assms by (auto simp: load_entry_def lbind_Done)
  then have "r_progress R R1" "r_progress R2 R'"
    by (auto intro: read_array_progress read_array_end_progress)
  moreover from m have "r_moves R1 R2"
    by (auto simp: load_operation_def lbind_Done split: if_splits intro: r_moves_trans
        dest!: read_node_moves read_number_progress r_progress_moves)
  ultimately show "r_moves R R'" "r_ptr R < r_ptr R'" "r_ptr R' \<le> length (r_data R)"
    by (auto simp: r_progress_def r_moves_def)
qed

lemma load_entry_shorter:
  assumes "(Done R', L') = load_entry malloc na dump R L"
  shows "length (r_data R') - r_ptr R' < length (r_data R) - r_ptr R"
  using load_entry_moves [OF assms [symmetric]] by (auto simp: r_moves_def)

function load_entries :: "malloc \<Rightarrow> node_source \<Rightarrow> bool \<Rightarrow> Reader \<Rightarrow> Reader load" where
  "load_entries malloc na dump R L =
    (if reader_next R = ST_ARRAY_END then (Done R, L)
     else (case load_entry malloc na dump R L of
         (Done R, L) \<Rightarrow> load_entries malloc na dump R L
       | (Failed, L) \<Rightarrow> (Failed, L)
       | (Fault, L) \<Rightarrow> (Fault, L)))"
  by pat_completeness auto
termination
  by (relation "measure (\<lambda>(m, na, d, R, L). length (r_data R) - r_ptr R)")
    (auto dest!: load_entry_shorter)

declare load_entries.simps [simp del]

text \<open>
  One root element. The result says whether a dump is under way afterwards, or carries the
  magic number of the footer, which ends the file. A mark is tried for by name: the reader
  goes back between the attempts.
\<close>

definition load_transaction :: "malloc \<Rightarrow> node_source \<Rightarrow> bool \<Rightarrow> bool \<Rightarrow> Reader \<Rightarrow> Reader load" where
  "load_transaction malloc na first_file dump_on R =
    (if reader_next R = ST_ARRAY_BEGIN then load_entries malloc na False R
     else if reader_next R = of_nat ST_STRING then
       lbind (lift_load (r_check_number 0 R)) (\<lambda>R.
       lbind (lift_load (check dump_on)) (\<lambda>_.
       if first_file then load_entries malloc na True R else lift_load (reader_skip R)))
     else lift_load Failed)"

definition load_array :: "malloc \<Rightarrow> node_source \<Rightarrow> bool \<Rightarrow> bool \<Rightarrow> Reader \<Rightarrow> Reader load" where
  "load_array malloc na first_file dump_on R =
    lbind (lift_load (read_array R)) (\<lambda>R.
    lbind (load_transaction malloc na first_file dump_on R) (\<lambda>R.
    lbind (lift_load (read_array_end R)) (\<lambda>R. lift_load (reader_finish R True))))"

definition load_mark :: "bool \<Rightarrow> Reader \<Rightarrow> ((bool \<times> u64 option) \<times> Reader) outcome" where
  "load_mark dump_on R =
    (let pos = reader_get_pos R in
     case read_dump_begin R of
       Done R \<Rightarrow> obind (check (\<not> dump_on)) (\<lambda>_. Done ((True, None), R))
     | Fault \<Rightarrow> Fault
     | Failed \<Rightarrow> let R = reader_set_pos R pos in
        (case read_dump_end R of
          Done R \<Rightarrow> obind (check dump_on) (\<lambda>_. Done ((False, None), R))
        | Fault \<Rightarrow> Fault
        | Failed \<Rightarrow> let R = reader_set_pos R pos in
           obind (read_file_footer R) (\<lambda>(magic, R). Done ((dump_on, Some magic), R))))"

definition load_element :: "malloc \<Rightarrow> node_source \<Rightarrow> bool \<Rightarrow> bool \<Rightarrow> Reader \<Rightarrow> ((bool \<times> u64 option) \<times> Reader) load" where
  "load_element malloc na first_file dump_on R =
    (if reader_next R = ST_ARRAY_BEGIN then
       lbind (load_array malloc na first_file dump_on R) (\<lambda>R. lift_load (Done ((dump_on, None), R)))
     else if reader_next R = of_nat ST_STRING then lift_load (load_mark dump_on R)
     else lift_load Failed)"

lemma load_entries_moves: "load_entries malloc na dump R L = (Done R', L') \<Longrightarrow> r_moves R R'"
proof (induction malloc na dump R L rule: load_entries.induct)
  case (1 malloc na dump R L)
  show ?case
  proof (cases "reader_next R = ST_ARRAY_END")
    case True
    with "1.prems" show ?thesis by (simp add: load_entries.simps)
  next
    case False
    with "1.prems" obtain R1 L1 where e: "load_entry malloc na dump R L = (Done R1, L1)"
      "load_entries malloc na dump R1 L1 = (Done R', L')"
      by (subst (asm) load_entries.simps) (auto split: prod.splits outcome.splits)
    from "1.IH" [OF False e(1) [symmetric] refl e(2)] load_entry_moves(1) [OF e(1)] show ?thesis
      by (auto intro: r_moves_trans)
  qed
qed

lemma reader_finish_keeps: "reader_finish R cs = Done R' \<Longrightarrow> r_file R' = r_file R"
  by (rule reader_finish_file)

lemma load_array_file: "load_array malloc na first d R L = (Done R', L') \<Longrightarrow> r_file R' = r_file R"
  by (auto simp: load_array_def load_transaction_def lbind_Done r_check_number_def obind_eq_Done reader_skip_def split: if_splits
      dest!: reader_finish_file load_entries_moves reader_skip_loop_moves read_array_progress
        read_array_end_progress read_number_progress simp: r_moves_def r_progress_def)

lemma read_mark_file: "read_mark s R = Done R' \<Longrightarrow> r_file R' = r_file R"
  by (auto simp: read_mark_def r_check_string_def obind_eq_Done r_progress_def
      dest!: reader_finish_file read_string_progress)

lemma load_element_file:
  assumes "load_element malloc na first d R L = (Done ((d', None), R'), L')"
  shows "r_file R' = r_file R"
proof (cases "reader_next R = ST_ARRAY_BEGIN")
  case True
  with assms obtain R1 L1 where "load_array malloc na first d R L = (Done R1, L1)" "R' = R1"
    by (auto simp: load_element_def lbind_Done)
  then show ?thesis by (auto dest: load_array_file)
next
  case False
  with assms have "load_mark d R = Done ((d', None), R')"
    by (auto simp: load_element_def lbind_Done split: if_splits)
  then have "read_dump_begin R = Done R' \<or> read_dump_end R = Done R'"
    by (auto simp: load_mark_def Let_def obind_eq_Done reader_set_pos_def reader_get_pos_def split: outcome.splits)
  then show ?thesis by (auto simp: read_dump_begin_def read_dump_end_def dest: read_mark_file)
qed

lemma load_element_shorter:
  assumes "reader_begin R = Done (ST_READ_SUCCESS, R1)"
    and "(Done ((d', None), R2), L') = load_element malloc na first d R1 L"
  shows "length (r_file R2) < length (r_file R)"
  using reader_begin_shorter [OF assms(1)] load_element_file [OF assms(2) [symmetric]] by simp

section \<open>A file\<close>

datatype load_status = LOAD_SUCCESS | LOAD_UNFINISHED_FILE | LOAD_CORRUPTED_FILE

text \<open>The loop over the root elements; the magic number is that of the footer, if it came so far.\<close>

function load_loop :: "malloc \<Rightarrow> node_source \<Rightarrow> bool \<Rightarrow> bool \<Rightarrow> Reader \<Rightarrow> (load_status \<times> u64 option) load" where
  "load_loop malloc na first_file dump_on R L =
    (case reader_begin R of
      Done (ST_READ_SUCCESS, R) \<Rightarrow>
        (case load_element malloc na first_file dump_on R L of
          (Done ((dump_on, None), R), L) \<Rightarrow> load_loop malloc na first_file dump_on R L
        | (Done ((dump_on, Some magic), R), L) \<Rightarrow> (Done (LOAD_SUCCESS, Some magic), L)
        | (Failed, L) \<Rightarrow> (Done (LOAD_CORRUPTED_FILE, None), L)
        | (Fault, L) \<Rightarrow> (Fault, L))
    | Done (ST_READ_END_OF_FILE, R) \<Rightarrow> (Done (LOAD_UNFINISHED_FILE, None), L)
    | Done (ST_READ_FAIL, R) \<Rightarrow> (Done (LOAD_CORRUPTED_FILE, None), L)
    | Failed \<Rightarrow> (Done (LOAD_CORRUPTED_FILE, None), L)
    | Fault \<Rightarrow> (Fault, L))"
  by pat_completeness auto
termination
  by (relation "measure (\<lambda>(m, na, f, d, R, L). length (r_file R))") (auto dest: load_element_shorter)

declare load_loop.simps [simp del]

text \<open>
  \<open>magic_nr\<close> is the number the previous file promised for this one (0: none); the result
  carries the number promised for the next one.
\<close>

definition load_file :: "malloc \<Rightarrow> node_source \<Rightarrow> Reader \<Rightarrow> u64 \<Rightarrow> bool \<Rightarrow> (load_status \<times> u64) load" where
  "load_file malloc na R magic_nr first_file L =
    (case read_file_header (d_type (ld_db L)) R of
      Fault \<Rightarrow> (Fault, L)
    | Failed \<Rightarrow> (Done (LOAD_CORRUPTED_FILE, magic_nr), L)
    | Done (new_magic_nr, R) \<Rightarrow>
       if \<not> (magic_nr = 0 \<or> magic_nr = new_magic_nr) then (Done (LOAD_CORRUPTED_FILE, magic_nr), L)
       else
         (case (if first_file then obind (r_begin R) read_dump_begin else Done R) of
           Fault \<Rightarrow> (Fault, L)
         | Failed \<Rightarrow> (Done (LOAD_CORRUPTED_FILE, magic_nr), L)
         | Done R \<Rightarrow>
             lbind (load_loop malloc na first_file first_file R) (\<lambda>(st, m).
             lift_load (Done (st, case m of Some magic \<Rightarrow> magic | None \<Rightarrow> magic_nr))) L))"

section \<open>After the files\<close>

text \<open>\<open>init_pointers\<close> of one attribute and of a node, and \<open>fix_pointers\<close> over all nodes.\<close>

definition init_pointer :: "(u64 \<rightharpoonup> addr) \<Rightarrow> addr \<Rightarrow> nat \<Rightarrow> Database \<Rightarrow> Database outcome" where
  "init_pointer nodes n i D =
    (let nid = cell_ref (get_cell (d_nodes D n) i) in
     if nid = 0 then Done (upd_node n (set_cell i (Ref 0)) D)
     else case nodes nid of
       None \<Rightarrow> Fault
     | Some m \<Rightarrow>
         let D = upd_node n (set_cell i (Ref m)) D in
         Done (if m \<noteq> 0 then upd_node m (\<lambda>N. N\<lparr>n_ref_count := n_ref_count N + 1\<rparr>) D else D))"

primrec init_pointers_from :: "(u64 \<rightharpoonup> addr) \<Rightarrow> addr \<Rightarrow> attr_type list \<Rightarrow> nat \<Rightarrow> Database \<Rightarrow> Database outcome" where
  "init_pointers_from nodes n [] i D = Done D"
| "init_pointers_from nodes n (t # ts) i D =
    obind (if t = Pointer then init_pointer nodes n i D else Done D) (init_pointers_from nodes n ts (Suc i))"

definition init_pointers :: "(u64 \<rightharpoonup> addr) \<Rightarrow> addr \<Rightarrow> Database \<Rightarrow> Database outcome" where
  "init_pointers nodes n D = init_pointers_from nodes n (attr_types (node_get_type D n)) 0 D"

text \<open>\<open>order\<close> is the order in which \<open>ndictFor\<close> visits the dictionary.\<close>

primrec fix_pointers :: "(u64 \<rightharpoonup> addr) \<Rightarrow> addr list \<Rightarrow> Database \<Rightarrow> Database outcome" where
  "fix_pointers nodes [] D = Done D"
| "fix_pointers nodes (n # order) D = obind (init_pointers nodes n D) (fix_pointers nodes order)"

text \<open>\<open>while (!fstack_empty(log))\<close>: what the callback logged is forgotten, memory it gave up is freed.\<close>

fun forget_log :: "LogItem list \<Rightarrow> Database \<Rightarrow> Database" where
  "forget_log [] D = D"
| "forget_log (LI_TYPE_MEMORY_DELETE p # log) D = forget_log log (D\<lparr>d_freed := free_request p 0 @ d_freed D\<rparr>)"
| "forget_log (x # log) D = forget_log log D"

primrec fill_nodes :: "callback \<Rightarrow> addr list \<Rightarrow> session \<Rightarrow> session outcome" where
  "fill_nodes cb [] s = Done s"
| "fill_nodes cb (n # ns) s =
    obind (cb CBE_NODE_LOADED n s) (\<lambda>(ok, (H, D)).
    if \<not> ok then Fault
    else fill_nodes cb ns (H\<lparr>h_log := []\<rparr>, forget_log (h_log H) D))"

text \<open>\<open>nodes\<close>: what \<open>node_for_each\<close> visits, type by type; \<open>ptr\<close>: the address of the local handle.\<close>

definition fill_indexes :: "callback \<Rightarrow> u64 \<Rightarrow> addr list \<Rightarrow> Database \<Rightarrow> Database outcome" where
  "fill_indexes cb ptr nodes D =
    (let H = \<lparr>h_ptr = ptr, h_start_time = 1, h_read_set = [], h_transactions = [], h_log = [],
              h_commit_type = CT_ASYNC, h_acquired_locks = []\<rparr> in
     obind (fill_nodes cb nodes (tr_begin (H, D))) (\<lambda>s.
     obind (tr_abort_main s) (\<lambda>(H, D). Done D)))"

section \<open>The database a file stands for\<close>

text \<open>
  Existing identifiers with the type of the node and the values of its attributes. Replaying
  the entries of a file is a fold over this.
\<close>

type_synonym adb = "u64 \<rightharpoonup> nat \<times> disk_value list"

definition default_value :: "attr_type \<Rightarrow> disk_value" where
  "default_value t = (if t \<in> {String, RawString} then DBytes []
     else if t \<in> {UInt8, UInt16, UInt32, UInt64, Pointer} then DNum 0
     else DBytes (replicate (attribute_size t) 0))"

definition type_at :: "DatabaseType \<Rightarrow> nat \<Rightarrow> attr_type list" where
  "type_at T k = attr_types (dt_node_types T ! k)"

fun apply_entry :: "DatabaseType \<Rightarrow> entry \<Rightarrow> adb \<Rightarrow> adb" where
  "apply_entry T (Modified nid a t v) A = (case A nid of None \<Rightarrow> A
     | Some (k, vs) \<Rightarrow> A(nid \<mapsto> (k, vs[unat a := v])))"
| "apply_entry T (Created k nid) A =
     (if A nid = None then A(nid \<mapsto> (k, map default_value (type_at T k))) else A)"
| "apply_entry T (Deleted nid) A = A(nid := None)"

definition apply_entries :: "DatabaseType \<Rightarrow> entry list \<Rightarrow> adb \<Rightarrow> adb" where
  "apply_entries T es A = fold (apply_entry T) es A"

text \<open>Entries that mean something: existing nodes are modified, new identifiers created.\<close>

fun entry_fits :: "DatabaseType \<Rightarrow> adb \<Rightarrow> entry \<Rightarrow> bool" where
  "entry_fits T A (Modified nid a t v) \<longleftrightarrow> value_ok t v \<and> unat a < 2 ^ 31
     \<and> (case A nid of None \<Rightarrow> False | Some (k, vs) \<Rightarrow> unat a < length vs \<and> type_at T k ! unat a = t)"
| "entry_fits T A (Created k nid) \<longleftrightarrow> A nid = None \<and> nid \<noteq> 0 \<and> k < length (dt_node_types T) \<and> k < 2 ^ 64"
| "entry_fits T A (Deleted nid) \<longleftrightarrow> A nid \<noteq> None"

fun entries_fit :: "DatabaseType \<Rightarrow> adb \<Rightarrow> entry list \<Rightarrow> bool" where
  "entries_fit T A [] \<longleftrightarrow> True"
| "entries_fit T A (e # es) \<longleftrightarrow> entry_fits T A e \<and> entries_fit T (apply_entry T e A) es"

text \<open>A loaded node stands for a row of the abstract database.\<close>

definition row_ok :: "Database \<Rightarrow> u64 \<Rightarrow> addr \<Rightarrow> nat \<times> disk_value list \<Rightarrow> bool" where
  "row_ok D nid n row = (case row of (k, vs) \<Rightarrow>
     (let N = d_nodes D n; ts = type_at (d_type D) k in
      n \<noteq> 0 \<and> nid \<noteq> 0 \<and> n_id N = nid \<and> n_type N = k \<and> k < length (dt_node_types (d_type D)) \<and> n_ref_count N = 0
      \<and> length vs = length ts \<and> length (n_cells N) = length ts
      \<and> (\<forall>i < length ts. loaded (ts ! i) (d_tmem D) (vs ! i) (n_cells N ! i))))"

definition live_nodes :: "Database \<Rightarrow> addr set" where
  "live_nodes D = {n. n_id (d_nodes D n) \<noteq> 0}"

text \<open>The dictionary has the identifiers, every node that exists is in it, and each stands for its row.\<close>

definition represents :: "Loader \<Rightarrow> adb \<Rightarrow> bool" where
  "represents L A \<longleftrightarrow> dom (ld_nodes L) = dom A \<and> live_nodes (ld_db L) \<subseteq> ran (ld_nodes L)
     \<and> (\<forall>nid n row. ld_nodes L nid = Some n \<longrightarrow> A nid = Some row \<longrightarrow> row_ok (ld_db L) nid n row)"

lemma representsD: "represents L A \<Longrightarrow> ld_nodes L nid = Some n \<Longrightarrow> A nid = Some row \<Longrightarrow> row_ok (ld_db L) nid n row"
  unfolding represents_def by blast

lemma represents_inj:
  assumes "represents L A" and "ld_nodes L i = Some n" and "ld_nodes L j = Some n"
  shows "i = j"
proof -
  have "i \<in> dom A" "j \<in> dom A"
    using assms by (auto simp: represents_def simp flip: domIff)
  then obtain r s where "A i = Some r" "A j = Some s" by (meson domD)
  with assms have "row_ok (ld_db L) i n r" "row_ok (ld_db L) j n s" by (blast intro: representsD)+
  then show ?thesis by (cases r; cases s) (auto simp: row_ok_def Let_def)
qed

text \<open>Nodes the allocator can still provide, whatever becomes of at most \<open>m\<close> of them.\<close>

definition node_room :: "node_source \<Rightarrow> nat \<Rightarrow> Database \<Rightarrow> bool" where
  "node_room na m D \<longleftrightarrow> (\<forall>D' S. finite S \<and> card S < m \<and> live_nodes D' \<subseteq> live_nodes D \<union> S
     \<longrightarrow> (\<forall>k. na D' k \<noteq> 0 \<and> n_id (d_nodes D' (na D' k)) = 0))"

lemma node_roomD:
  assumes "node_room na m D" and "card S < m" and "live_nodes D' \<subseteq> live_nodes D \<union> S"
  shows "na D' k \<noteq> 0 \<and> n_id (d_nodes D' (na D' k)) = 0"
proof -
  have "finite S" by simp
  with assms show ?thesis unfolding node_room_def by blast
qed

lemma node_room_fresh: "node_room na (Suc m) D \<Longrightarrow> na D k \<noteq> 0 \<and> n_id (d_nodes D (na D k)) = 0"
  by (rule node_roomD [where S = "{}"]) auto

lemma node_room_step:
  assumes "node_room na (Suc m) D" and "live_nodes D' \<subseteq> insert x (live_nodes D)"
  shows "node_room na m D'"
  unfolding node_room_def
proof (intro allI impI)
  fix D'' S k
  assume S: "finite S \<and> card S < m \<and> live_nodes D'' \<subseteq> live_nodes D' \<union> S"
  have "card (insert x S) \<le> Suc (card S)" by (rule card_insert_le_m1) auto
  then have "card (insert x S) < Suc m" using S by linarith
  moreover have "live_nodes D'' \<subseteq> live_nodes D \<union> insert x S" using S assms(2) by blast
  ultimately show "na D'' k \<noteq> 0 \<and> n_id (d_nodes D'' (na D'' k)) = 0"
    by (rule node_roomD [OF assms(1)])
qed

lemma node_room_mono: "node_room na m D \<Longrightarrow> j \<le> m \<Longrightarrow> node_room na j D"
  unfolding node_room_def by (meson order_less_le_trans)

section \<open>Loading one entry\<close>

lemma represents_row:
  assumes "represents L A" and "A nid = Some row"
  shows "\<exists>n. ld_nodes L nid = Some n \<and> row_ok (ld_db L) nid n row"
proof -
  have "nid \<in> dom (ld_nodes L)" using assms by (auto simp: represents_def)
  then obtain n where "ld_nodes L nid = Some n" by blast
  with assms show ?thesis unfolding represents_def by blast
qed

lemma represents_None: "represents L A \<Longrightarrow> ld_nodes L nid = None \<longleftrightarrow> A nid = None"
  by (auto simp: represents_def simp flip: domIff)

lemma row_ok_stable:
  assumes "row_ok D nid n row" and "d_nodes D' n = d_nodes D n" and "d_type D' = d_type D" and "grows (d_tmem D) (d_tmem D')"
  shows "row_ok D' nid n row"
  using assms loaded_grows [OF _ assms(4)] by (cases row) (auto simp: row_ok_def Let_def)

lemma row_ok_node: "row_ok D nid n row \<Longrightarrow> n_id (d_nodes D n) = nid \<and> nid \<noteq> 0 \<and> n \<noteq> 0"
  by (cases row) (simp add: row_ok_def Let_def)

text \<open>One row changes or is added: its node changes, the others and their memory stay.\<close>

lemma represents_update:
  assumes "represents L A" and "ld_nodes L' = (ld_nodes L)(nid \<mapsto> n)" and "row_ok (ld_db L') nid n row"
    and "\<And>m. m \<noteq> n \<Longrightarrow> d_nodes (ld_db L') m = d_nodes (ld_db L) m"
    and "d_type (ld_db L') = d_type (ld_db L)" and "grows (d_tmem (ld_db L)) (d_tmem (ld_db L'))"
    and "\<And>j. j \<noteq> nid \<Longrightarrow> ld_nodes L j \<noteq> Some n" and "ld_nodes L nid = None \<or> ld_nodes L nid = Some n"
  shows "represents L' (A(nid \<mapsto> row))"
  unfolding represents_def
proof (intro conjI allI impI)
  have "live_nodes (ld_db L') \<subseteq> insert n (live_nodes (ld_db L))"
    using assms(4) by (force simp: live_nodes_def)
  moreover have "live_nodes (ld_db L) \<subseteq> ran (ld_nodes L)" using assms(1) by (simp add: represents_def)
  moreover have "insert n (ran (ld_nodes L)) \<subseteq> ran (ld_nodes L')"
    unfolding assms(2) using assms(8) by (auto simp: ran_def) (metis option.distinct(1) option.inject)+
  ultimately show "live_nodes (ld_db L') \<subseteq> ran (ld_nodes L')" by blast
next
  show "dom (ld_nodes L') = dom (A(nid \<mapsto> row))" using assms(1,2) by (simp add: represents_def)
next
  fix j m r assume j: "ld_nodes L' j = Some m" "(A(nid \<mapsto> row)) j = Some r"
  show "row_ok (ld_db L') j m r"
  proof (cases "j = nid")
    case True
    with j assms(2,3) show ?thesis by simp
  next
    case False
    with j assms(2) representsD [OF assms(1)] have "row_ok (ld_db L) j m r" by simp
    moreover have "m \<noteq> n" using False j(1) assms(2,7) by auto
    ultimately show ?thesis by (intro row_ok_stable [OF _ assms(4-6)])
  qed
qed

lemma represents_remove:
  assumes "represents L A" and "ld_nodes L nid = Some n" and "ld_nodes L' = (ld_nodes L)(nid := None)"
    and "\<And>m. m \<noteq> n \<Longrightarrow> d_nodes (ld_db L') m = d_nodes (ld_db L) m"
    and "d_type (ld_db L') = d_type (ld_db L)" and "d_tmem (ld_db L') = d_tmem (ld_db L)"
    and "n_id (d_nodes (ld_db L') n) = 0"
  shows "represents L' (A(nid := None))"
  unfolding represents_def
proof (intro conjI allI impI)
  show "live_nodes (ld_db L') \<subseteq> ran (ld_nodes L')"
  proof
    fix x
    assume x: "x \<in> live_nodes (ld_db L')"
    then have "x \<noteq> n" using assms(7) by (auto simp: live_nodes_def)
    then have "x \<in> live_nodes (ld_db L)" using x assms(4) [of x] by (simp add: live_nodes_def)
    then have "x \<in> ran (ld_nodes L)" using assms(1) by (auto simp: represents_def)
    then obtain j where "ld_nodes L j = Some x" by (auto simp: ran_def)
    moreover from this have "j \<noteq> nid" using \<open>x \<noteq> n\<close> assms(2) by auto
    ultimately have "ld_nodes L' j = Some x" by (simp add: assms(3))
    then show "x \<in> ran (ld_nodes L')" by (rule ranI)
  qed
next
  show "dom (ld_nodes L') = dom (A(nid := None))" using assms(1,3) by (simp add: represents_def)
next
  fix j m r assume j: "ld_nodes L' j = Some m" "(A(nid := None)) j = Some r"
  then have "j \<noteq> nid" by auto
  with j assms(3) representsD [OF assms(1)] have "row_ok (ld_db L) j m r" by simp
  moreover have "m \<noteq> n" using represents_inj [OF assms(1,2)] j(1) assms(3) \<open>j \<noteq> nid\<close> by auto
  ultimately show "row_ok (ld_db L') j m r"
    by (intro row_ok_stable [OF _ assms(4,5)]) (simp_all add: assms(6))
qed

text \<open>A new node: its number, place and initial cells.\<close>

definition blank_node :: "addr \<Rightarrow> nat \<Rightarrow> u64 \<Rightarrow> Database \<Rightarrow> Database" where
  "blank_node n k nid D = (upd_node n (\<lambda>N. N\<lparr>n_id := nid, n_ref_count := 0, n_type := k,
       n_cells := map attribute_init (type_at (d_type D) k)\<rparr>) D)
     \<lparr>d_node_id_counter := max nid (d_node_id_counter D)\<rparr>"

lemma blank_node_sel [simp]:
  "d_nodes (blank_node n k nid D) = (d_nodes D)(n := (d_nodes D n)\<lparr>n_id := nid, n_ref_count := 0, n_type := k,
       n_cells := map attribute_init (type_at (d_type D) k)\<rparr>)"
  "d_tmem (blank_node n k nid D) = d_tmem D" "d_type (blank_node n k nid D) = d_type D"
  by (simp_all add: blank_node_def)

definition created :: "addr \<Rightarrow> nat \<Rightarrow> u64 \<Rightarrow> Loader \<Rightarrow> Loader" where
  "created n k nid L = L\<lparr>ld_db := blank_node n k nid (ld_db L), ld_nodes := (ld_nodes L)(nid \<mapsto> n)\<rparr>"

lemma r_ok_num:
  assumes "r_ok R" and "r_rest R = enc_number n @ cs"
  shows "read_number R = Done (n, r_advance R (length (enc_number n)) 0)"
    and "r_ok (r_advance R (length (enc_number n)) 0)" and "r_rest (r_advance R (length (enc_number n)) 0) = cs"
  using read_number_ok [OF assms] r_step [OF assms] by simp_all

lemma read_node_prepare_ok:
  assumes "k < length (dt_node_types (d_type (ld_db L)))" and "k < 2 ^ 64" and "n = na (ld_db L) k" and "n \<noteq> 0"
    and "ld_nodes L nid = None" and "r_ok R" and "r_rest R = enc_number (of_nat k) @ enc_number nid @ cs"
  shows "\<exists>L'. read_node_prepare na R L = (Done (Some (k, n), r_advance R (length (enc_number (of_nat k) @ enc_number nid)) 0), L')
    \<and> upd_db (type_init k n) L' = created n k nid L \<and> d_type (ld_db L') = d_type (ld_db L)"
proof -
  have k: "unat (of_nat k :: u64) = k" using assms(2) by (simp add: unat_of_nat_small)
  note 1 = r_ok_num [OF assms(6,7)]
  note 2 = r_ok_num [OF 1(2,3)]
  have fu: "f(x := a, x := b) = f(x := b)" for f :: "addr \<Rightarrow> Node" and x a b by simp
  show ?thesis
    unfolding read_node_prepare_def 1(1) lbind_simps prod.case 2(1) k Let_def
    using assms(1,3,4,5)
    by (auto simp: type_init_def created_def blank_node_def upd_db_def upd_node_def type_at_def max_def)
qed

text \<open>Only the cells \<open>I\<close> of one node change, and memory grows.\<close>

definition fills :: "addr \<Rightarrow> nat set \<Rightarrow> Loader \<Rightarrow> Loader \<Rightarrow> bool" where
  "fills n I L L' \<longleftrightarrow> ld_nodes L' = ld_nodes L \<and> d_type (ld_db L') = d_type (ld_db L)
     \<and> grows (d_tmem (ld_db L)) (d_tmem (ld_db L'))
     \<and> (\<forall>m. m \<noteq> n \<longrightarrow> d_nodes (ld_db L') m = d_nodes (ld_db L) m)
     \<and> (let N = d_nodes (ld_db L) n; N' = d_nodes (ld_db L') n in
         n_id N' = n_id N \<and> n_type N' = n_type N \<and> n_ref_count N' = n_ref_count N
         \<and> length (n_cells N') = length (n_cells N) \<and> (\<forall>j. j \<notin> I \<longrightarrow> n_cells N' ! j = n_cells N ! j))"

lemma fills_refl: "fills n {} L L"
  by (simp add: fills_def)

lemma fills_trans: "fills n I L L' \<Longrightarrow> fills n J L' L'' \<Longrightarrow> fills n (I \<union> J) L L''"
  unfolding fills_def by (auto simp: Let_def intro: grows_trans)

lemma load_cell_ok:
  assumes "room malloc (Suc k) (d_tmem (ld_db L))" and "value_ok t v" and "r_ok R" and "r_rest R = enc_value v @ cs"
    and "i < length (n_cells (d_nodes (ld_db L) n))"
  shows "\<exists>L'. load_cell malloc n i t R L = (Done (r_advance R (length (enc_value v)) 0), L') \<and> fills n {i} L L'
    \<and> loaded t (d_tmem (ld_db L')) v (n_cells (d_nodes (ld_db L') n) ! i) \<and> room malloc k (d_tmem (ld_db L'))"
proof -
  obtain c M fr where c: "attribute_load malloc t (d_tmem (ld_db L)) (get_cell (d_nodes (ld_db L) n) i) R
      = Done ((c, M, fr), r_advance R (length (enc_value v)) 0)"
    "loaded t M v c" "grows (d_tmem (ld_db L)) M" "room malloc k M"
    using attribute_load_ok [OF assms(1-4)] by blast
  have "n_cells (set_cell i c (d_nodes (ld_db L) n)) = (n_cells (d_nodes (ld_db L) n))[i := c]"
    "n_ref_count (set_cell i c (d_nodes (ld_db L) n)) = n_ref_count (d_nodes (ld_db L) n)"
    using assms(5) by (simp_all add: set_cell_def)
  with c assms(5) show ?thesis by (auto simp: load_cell_def upd_db_def fills_def Let_def)
qed

lemma load_cells_ok:
  assumes "list_all2 value_ok ts vs" and "room malloc (length vs + k) (d_tmem (ld_db L))"
    and "r_ok R" and "r_rest R = concat (map enc_value vs) @ cs"
    and "i + length ts = length (n_cells (d_nodes (ld_db L) n))"
  shows "\<exists>L'. load_cells malloc n ts i R L = (Done (r_advance R (length (concat (map enc_value vs))) 0), L')
    \<and> fills n {i..<i + length ts} L L' \<and> room malloc k (d_tmem (ld_db L'))
    \<and> (\<forall>j < length ts. loaded (ts ! j) (d_tmem (ld_db L')) (vs ! j) (n_cells (d_nodes (ld_db L') n) ! (i + j)))"
  using assms
proof (induction ts vs arbitrary: i R L rule: list_all2_induct)
  case Nil
  then show ?case by (simp add: lift_load_def fills_refl)
next
  case (Cons t ts v vs)
  let ?R1 = "r_advance R (length (enc_value v)) 0"
  have rest: "r_rest R = enc_value v @ (concat (map enc_value vs) @ cs)" using Cons.prems(3) by simp
  obtain L1 where L1: "load_cell malloc n i t R L = (Done ?R1, L1)" "fills n {i} L L1"
      "loaded t (d_tmem (ld_db L1)) v (n_cells (d_nodes (ld_db L1) n) ! i)" "room malloc (length vs + k) (d_tmem (ld_db L1))"
    using load_cell_ok [OF _ Cons.hyps(1) Cons.prems(2) rest, of malloc "length vs + k" L i n] Cons.prems(1,4) by auto
  have R1: "r_ok ?R1" "r_rest ?R1 = concat (map enc_value vs) @ cs" using r_step [OF Cons.prems(2) rest] by simp_all
  have len: "Suc i + length ts = length (n_cells (d_nodes (ld_db L1) n))"
    using L1(2) Cons.prems(4) by (simp add: fills_def Let_def)
  obtain L2 where L2: "load_cells malloc n ts (Suc i) ?R1 L1 = (Done (r_advance ?R1 (length (concat (map enc_value vs))) 0), L2)"
      "fills n {Suc i..<Suc i + length ts} L1 L2" "room malloc k (d_tmem (ld_db L2))"
      "\<forall>j < length ts. loaded (ts ! j) (d_tmem (ld_db L2)) (vs ! j) (n_cells (d_nodes (ld_db L2) n) ! (Suc i + j))"
    using Cons.IH [OF L1(4) R1 len] by blast
  have "{i} \<union> {Suc i..<Suc i + length ts} = {i..<i + length (t # ts)}" by auto
  with fills_trans [OF L1(2) L2(2)] have f: "fills n {i..<i + length (t # ts)} L L2" by simp
  have first: "loaded t (d_tmem (ld_db L2)) v (n_cells (d_nodes (ld_db L2) n) ! i)"
    using loaded_grows [OF L1(3)] L2(2) by (simp add: fills_def Let_def)
  have "\<forall>j < length (t # ts). loaded ((t # ts) ! j) (d_tmem (ld_db L2)) ((v # vs) ! j) (n_cells (d_nodes (ld_db L2) n) ! (i + j))"
    using first L2(4) by (auto simp: nth_Cons split: nat.split)
  then show ?case using L1(1) L2(1,3) f by (simp add: lbind_eq)
qed

text \<open>What a loaded entry needs and leaves: memory for \<open>k\<close> strings and \<open>m\<close> nodes.\<close>

definition budget :: "malloc \<Rightarrow> node_source \<Rightarrow> nat \<Rightarrow> nat \<Rightarrow> Loader \<Rightarrow> bool" where
  "budget malloc na k m L \<longleftrightarrow> room malloc k (d_tmem (ld_db L)) \<and> node_room na m (ld_db L)"

lemma live_nodes_fills: "fills n I L L' \<Longrightarrow> live_nodes (ld_db L') = live_nodes (ld_db L)"
proof -
  assume f: "fills n I L L'"
  have "n_id (d_nodes (ld_db L') x) = n_id (d_nodes (ld_db L) x)" for x
    using f by (cases "x = n") (auto simp: fills_def Let_def)
  then show ?thesis by (simp add: live_nodes_def)
qed

lemma budget_mono: "budget malloc na k m L \<Longrightarrow> j \<le> k \<Longrightarrow> i \<le> m \<Longrightarrow> budget malloc na j i L"
  by (auto simp: budget_def intro: room_mono node_room_mono)

lemma node_room_less:
  "node_room na m D \<Longrightarrow> live_nodes D' \<subseteq> live_nodes D \<Longrightarrow> node_room na m D'"
  unfolding node_room_def by (meson Un_mono order_refl order_trans)

lemma created_ok:
  assumes "represents L A" and "n \<noteq> 0" and "n_id (d_nodes (ld_db L) n) = 0" and "nid \<noteq> 0" and "A nid = None"
  shows "ld_nodes L nid = None" and "\<And>j. ld_nodes L j \<noteq> Some n"
proof -
  show "ld_nodes L nid = None" using assms(1,5) by (simp add: represents_None)
  show "ld_nodes L j \<noteq> Some n" for j
  proof
    assume j: "ld_nodes L j = Some n"
    then have "A j \<noteq> None" using represents_None [OF assms(1), of j] by simp
    then obtain r where "A j = Some r" by blast
    from representsD [OF assms(1) j this] row_ok_node assms(3) show False by auto
  qed
qed

lemma push_bits_zero [simp]: "(push_bit k ^^ n) (0 :: u64) = 0"
  by (induction n) simp_all

lemma loaded_default: "loaded t H (default_value t) (attribute_init t)"
  by (cases t) (auto simp: loaded_def default_value_def attribute_init_def read_le_def)

lemma live_created: "live_nodes (ld_db (created n k nid L)) \<subseteq> insert n (live_nodes (ld_db L))"
  by (auto simp: live_nodes_def created_def)

lemma represents_created:
  assumes "represents L A" and "n \<noteq> 0" and "n_id (d_nodes (ld_db L) n) = 0" and "nid \<noteq> 0" and "A nid = None"
    and "k < length (dt_node_types (d_type (ld_db L)))"
  shows "represents (created n k nid L) (A(nid \<mapsto> (k, map default_value (type_at (d_type (ld_db L)) k))))"
  by (rule represents_update [OF assms(1)])
    (use created_ok [OF assms(1-5)] assms(2,4,6) in \<open>auto simp: created_def row_ok_def Let_def loaded_default\<close>)

lemma arr_inside:
  assumes "r_ok R" and "r_rest R = arr bs @ cs"
  shows "read_array R = Done (r_advance R 1 1)" and "r_ok (r_advance R 1 1)"
    and "r_rest (r_advance R 1 1) = bs @ (ST_ARRAY_END # cs)"
proof -
  have rest: "r_rest R = [ST_ARRAY_BEGIN] @ (bs @ ST_ARRAY_END # cs)" using assms(2) by (simp add: arr_def)
  show "read_array R = Done (r_advance R 1 1)" using read_array_ok [OF assms(1)] rest by simp
  show "r_ok (r_advance R 1 1)" "r_rest (r_advance R 1 1) = bs @ (ST_ARRAY_END # cs)"
    using r_step [OF assms(1) rest] by simp_all
qed

lemma arr_end:
  assumes "r_ok R" and "0 \<le> r_depth R" and "r_rest R = arr bs @ cs"
  shows "read_array_end (r_advance (r_advance R 1 1) (length bs) 0) = Done (r_advance R (length (arr bs)) 0)"
proof -
  let ?R2 = "r_advance (r_advance R 1 1) (length bs) 0"
  have "read_array_end ?R2 = Done (r_advance ?R2 1 (- 1))"
  proof (rule read_array_end_ok)
    show "r_ok ?R2" "r_rest ?R2 = ST_ARRAY_END # cs" by (rule r_step [OF arr_inside(2,3) [OF assms(1,3)]])+
    show "0 < r_depth ?R2" using assms(2) by simp
  qed
  then show ?thesis by (simp add: arr_def)
qed

lemma load_entry_frame:
  assumes "r_ok R" and "0 \<le> r_depth R" and "r_rest R = arr bs @ cs"
    and "(if dump then read_node_load malloc na (r_advance R 1 1) else load_operation malloc na (r_advance R 1 1)) L
      = (Done (r_advance (r_advance R 1 1) (length bs) 0), L')"
  shows "load_entry malloc na dump R L = (Done (r_advance R (length (arr bs)) 0), L')"
  using arr_inside(1) [OF assms(1,3)] arr_end [OF assms(1-3)] assms(4)
  by (cases dump) (simp_all del: r_advance_advance add: load_entry_def lbind_eq lift_load_def)

text \<open>The three operations.\<close>

lemma load_created_ok:
  assumes "represents L A" and "entry_fits (d_type (ld_db L)) A (Created k nid)" and "budget malloc na j (Suc m) L"
    and "r_ok R" and "r_rest R = (enc_number 0 @ enc_number (of_nat k) @ enc_number nid) @ cs"
  shows "\<exists>L'. load_operation malloc na R L
      = (Done (r_advance R (length (enc_number 0 @ enc_number (of_nat k) @ enc_number nid)) 0), L')
    \<and> represents L' (apply_entry (d_type (ld_db L)) (Created k nid) A) \<and> d_type (ld_db L') = d_type (ld_db L)
    \<and> budget malloc na j m L'"
proof -
  define n where "n = na (ld_db L) k"
  let ?R1 = "r_advance R (length (enc_number 0)) 0" and ?L' = "created n k nid L"
  have fit: "A nid = None" "nid \<noteq> 0" "k < length (dt_node_types (d_type (ld_db L)))" "k < 2 ^ 64"
    using assms(2) by simp_all
  have n: "n \<noteq> 0" "n_id (d_nodes (ld_db L) n) = 0"
    using node_room_fresh [of na m "ld_db L" k] assms(3) by (auto simp: budget_def n_def)
  have free: "ld_nodes L nid = None" using created_ok(1) [OF assms(1) n fit(2,1)] .
  note 1 = r_ok_num [OF assms(4,5) [unfolded append_assoc]]
  obtain L1 where L1: "read_node_prepare na ?R1 L
      = (Done (Some (k, n), r_advance ?R1 (length (enc_number (of_nat k) @ enc_number nid)) 0), L1)"
      "upd_db (type_init k n) L1 = ?L'"
    using read_node_prepare_ok [where na = na, OF fit(3,4) n_def n(1) free 1(2,3)] by blast
  have "load_operation malloc na R L = (Done (r_advance R (length (enc_number 0 @ enc_number (of_nat k) @ enc_number nid)) 0), ?L')"
    using 1(1) L1 by (simp add: load_operation_def read_node_create_def lbind_eq)
  moreover have "represents ?L' (apply_entry (d_type (ld_db L)) (Created k nid) A)"
    using represents_created [OF assms(1) n fit(2,1,3)] fit(1) by simp
  moreover have "budget malloc na j m ?L'"
    using assms(3) node_room_step [OF _ live_created] by (auto simp: budget_def created_def)
  ultimately show ?thesis by (auto simp: created_def)
qed

lemma load_deleted_ok:
  assumes "represents L A" and "A nid \<noteq> None" and "budget malloc na j m L"
    and "r_ok R" and "r_rest R = (enc_number 2 @ enc_number nid) @ cs"
  shows "\<exists>L'. load_operation malloc na R L = (Done (r_advance R (length (enc_number 2 @ enc_number nid)) 0), L')
    \<and> represents L' (A(nid := None)) \<and> d_type (ld_db L') = d_type (ld_db L) \<and> budget malloc na j m L'"
proof -
  obtain row where "A nid = Some row" using assms(2) by blast
  from represents_row [OF assms(1) this] obtain n where n: "ld_nodes L nid = Some n" by blast
  define L' where "L' = (upd_db (node_destroy_free n 0) L)\<lparr>ld_nodes := (ld_nodes L)(nid := None)\<rparr>"
  have db: "ld_db L' = node_destroy_free n 0 (ld_db L)" by (simp add: L'_def upd_db_def)
  have other: "d_nodes (ld_db L') m = d_nodes (ld_db L) m" if "m \<noteq> n" for m
    unfolding db using that by (simp add: node_destroy_free_def node_free_def upd_node_def split: prod.split)
  have same: "d_type (ld_db L') = d_type (ld_db L)" "d_tmem (ld_db L') = d_tmem (ld_db L)"
    "n_id (d_nodes (ld_db L') n) = 0"
    unfolding db by (simp_all add: node_destroy_free_def node_free_def upd_node_def split: prod.split)
  note 1 = r_ok_num [OF assms(4,5) [unfolded append_assoc]]
  note 2 = r_ok_num [OF 1(2,3)]
  have "load_operation malloc na R L = (Done (r_advance R (length (enc_number 2 @ enc_number nid)) 0), L')"
    using 1(1) 2(1) n by (simp add: load_operation_def read_node_delete_def L'_def)
  moreover have "represents L' (A(nid := None))"
    by (rule represents_remove [OF assms(1) n _ other same]) (simp_all add: L'_def)
  moreover have "live_nodes (ld_db L') \<subseteq> live_nodes (ld_db L)"
  proof
    fix x assume "x \<in> live_nodes (ld_db L')"
    then show "x \<in> live_nodes (ld_db L)" using other [of x] same(3) by (cases "x = n") (auto simp: live_nodes_def)
  qed
  ultimately show ?thesis using assms(3) node_room_less same(1,2) by (auto simp: budget_def)
qed

lemma attr_index:
  assumes "unat (a :: u64) < 2 ^ 31"
  shows "sint (ucast a :: 32 word) = int (unat a)"
proof -
  have "int (unat a) < 2 ^ 31" using assms by (metis of_nat_less_iff of_nat_numeral of_nat_power)
  moreover have "- (2 ^ 31) \<le> int (unat a)" by (rule order_trans [of _ 0]) (simp, rule of_nat_0_le_iff)
  ultimately have "signed_take_bit 31 (int (unat a)) = int (unat a)"
    by (intro signed_take_bit_int_eq_self)
  moreover have "sint (ucast a :: 32 word) = signed_take_bit 31 (int (unat a))"
    by (simp add: signed_ucast_eq flip: uint_nat)
  ultimately show ?thesis by simp
qed

lemma load_modified_ok:
  assumes "represents L A" and "entry_fits (d_type (ld_db L)) A (Modified nid a t v)" and "budget malloc na (Suc j) m L"
    and "r_ok R" and "r_rest R = (enc_number 1 @ enc_number nid @ enc_number a @ enc_value v) @ cs"
  shows "\<exists>L'. load_operation malloc na R L
      = (Done (r_advance R (length (enc_number 1 @ enc_number nid @ enc_number a @ enc_value v)) 0), L')
    \<and> represents L' (apply_entry (d_type (ld_db L)) (Modified nid a t v) A) \<and> d_type (ld_db L') = d_type (ld_db L)
    \<and> budget malloc na j m L'"
proof -
  let ?T = "d_type (ld_db L)" and ?i = "unat a"
  obtain k vs where row: "A nid = Some (k, vs)" and fit: "value_ok t v" "?i < 2 ^ 31" "?i < length vs" "type_at ?T k ! ?i = t"
    using assms(2) by (auto split: option.splits)
  obtain n where n: "ld_nodes L nid = Some n" "row_ok (ld_db L) nid n (k, vs)"
    using represents_row [OF assms(1) row] by blast
  have len: "length (n_cells (d_nodes (ld_db L) n)) = length (type_at ?T k)" "length vs = length (type_at ?T k)"
    "n_type (d_nodes (ld_db L) n) = k"
    using n(2) by (simp_all add: row_ok_def Let_def)
  note 1 = r_ok_num [OF assms(4,5) [unfolded append_assoc]]
  note 2 = r_ok_num [OF 1(2,3)]
  note 3 = r_ok_num [OF 2(2,3)]
  have "room malloc (Suc j) (d_tmem (ld_db L))" using assms(3) by (simp add: budget_def)
  moreover have "?i < length (n_cells (d_nodes (ld_db L) n))" using fit(3) len by simp
  ultimately obtain L' where L': "load_cell malloc n ?i t (r_advance (r_advance (r_advance R (length (enc_number 1)) 0)
        (length (enc_number nid)) 0) (length (enc_number a)) 0) L
      = (Done (r_advance (r_advance (r_advance (r_advance R (length (enc_number 1)) 0)
        (length (enc_number nid)) 0) (length (enc_number a)) 0) (length (enc_value v)) 0), L')" "fills n {?i} L L'"
      "loaded t (d_tmem (ld_db L')) v (n_cells (d_nodes (ld_db L') n) ! ?i)" "room malloc j (d_tmem (ld_db L'))"
    using load_cell_ok [OF _ fit(1) 3(2,3)] by blast
  have T: "type_at ?T k = attr_types (node_get_type (ld_db L) n)"
    using len(3) by (simp add: type_at_def node_get_type_def)
  have "\<not> int (unat a) \<ge> int (length (nt_attributes (node_get_type (ld_db L) n)))"
    using fit(3) len(2) unfolding T by (simp only: attr_types_def length_map of_nat_le_iff not_le)
  moreover have "attr_types (node_get_type (ld_db L) n) ! ?i = t" using fit(4) T by simp
  ultimately have "read_node_modify malloc (r_advance R (length (enc_number 1)) 0) L
      = load_cell malloc n ?i t (r_advance (r_advance (r_advance R (length (enc_number 1)) 0)
        (length (enc_number nid)) 0) (length (enc_number a)) 0) L"
    unfolding read_node_modify_def 2(1) lbind_simps prod.case 3(1) attr_index [OF fit(2)] Let_def n(1) option.case by simp
  then have "load_operation malloc na R L
      = (Done (r_advance R (length (enc_number 1 @ enc_number nid @ enc_number a @ enc_value v)) 0), L')"
    using 1(1) L'(1) by (simp add: load_operation_def add.assoc)
  moreover have "represents L' (A(nid \<mapsto> (k, vs[?i := v])))"
  proof (rule represents_update [OF assms(1)])
    show "ld_nodes L' = (ld_nodes L)(nid \<mapsto> n)" using L'(2) n(1) by (auto simp: fills_def)
    have "loaded (type_at ?T k ! i) (d_tmem (ld_db L')) (vs[?i := v] ! i) (n_cells (d_nodes (ld_db L') n) ! i)"
      if "i < length (type_at ?T k)" for i
    proof (cases "i = ?i")
      case True
      then show ?thesis using L'(3) fit(3,4) by simp
    next
      case False
      have "loaded (type_at ?T k ! i) (d_tmem (ld_db L)) (vs ! i) (n_cells (d_nodes (ld_db L) n) ! i)"
        using n(2) that by (simp add: row_ok_def Let_def)
      from loaded_grows [OF this] False L'(2) show ?thesis by (simp add: fills_def Let_def)
    qed
    then show "row_ok (ld_db L') nid n (k, vs[?i := v])"
      using n(2) L'(2) by (simp add: row_ok_def Let_def fills_def)
    show "\<And>j. j \<noteq> nid \<Longrightarrow> ld_nodes L j \<noteq> Some n" using represents_inj [OF assms(1) n(1)] by blast
    show "ld_nodes L nid = None \<or> ld_nodes L nid = Some n" using n(1) by simp
  qed (use L'(2) in \<open>simp_all add: fills_def\<close>)
  moreover have "budget malloc na j m L'"
    using assms(3) L'(4) live_nodes_fills [OF L'(2)] node_room_less by (auto simp: budget_def)
  moreover have "d_type (ld_db L') = ?T" using L'(2) by (simp add: fills_def)
  ultimately show ?thesis using row by auto
qed

text \<open>A dumped node.\<close>

type_synonym dumped = "nat \<times> u64 \<times> disk_value list"

definition enc_dumped :: "dumped \<Rightarrow> byte list" where
  "enc_dumped d = (case d of (k, nid, vs) \<Rightarrow> arr (enc_number (of_nat k) @ enc_number nid @ concat (map enc_value vs)))"

definition dumped_fits :: "DatabaseType \<Rightarrow> adb \<Rightarrow> dumped \<Rightarrow> bool" where
  "dumped_fits T A d \<longleftrightarrow> (case d of (k, nid, vs) \<Rightarrow> A nid = None \<and> nid \<noteq> 0 \<and> k < length (dt_node_types T) \<and> k < 2 ^ 64
     \<and> list_all2 value_ok (type_at T k) vs)"

definition apply_dumped :: "dumped \<Rightarrow> adb \<Rightarrow> adb" where
  "apply_dumped d A = (case d of (k, nid, vs) \<Rightarrow> A(nid \<mapsto> (k, vs)))"

lemma load_dumped_ok:
  assumes "represents L A" and "dumped_fits (d_type (ld_db L)) A (k, nid, vs)" and "budget malloc na (length vs + j) (Suc m) L"
    and "r_ok R" and "r_rest R = (enc_number (of_nat k) @ enc_number nid @ concat (map enc_value vs)) @ cs"
  shows "\<exists>L'. read_node_load malloc na R L
      = (Done (r_advance R (length (enc_number (of_nat k) @ enc_number nid @ concat (map enc_value vs))) 0), L')
    \<and> represents L' (apply_dumped (k, nid, vs) A) \<and> d_type (ld_db L') = d_type (ld_db L)
    \<and> budget malloc na j m L'"
proof -
  let ?T = "d_type (ld_db L)"
  define n where "n = na (ld_db L) k"
  let ?L1 = "created n k nid L"
  have fit: "A nid = None" "nid \<noteq> 0" "k < length (dt_node_types ?T)" "k < 2 ^ 64" "list_all2 value_ok (type_at ?T k) vs"
    using assms(2) by (simp_all add: dumped_fits_def)
  have n: "n \<noteq> 0" "n_id (d_nodes (ld_db L) n) = 0"
    using node_room_fresh [of na m "ld_db L" k] assms(3) by (auto simp: budget_def n_def)
  note free = created_ok [OF assms(1) n fit(2,1)]
  define bs where "bs = enc_number (of_nat k) @ enc_number nid"
  have rest: "r_rest R = bs @ (concat (map enc_value vs) @ cs)" using assms(5) by (simp add: bs_def)
  obtain L0 where L0: "read_node_prepare na R L = (Done (Some (k, n), r_advance R (length bs) 0), L0)"
      "upd_db (type_init k n) L0 = ?L1" "d_type (ld_db L0) = ?T"
    using read_node_prepare_ok [where na = na, OF fit(3,4) n_def n(1) free(1) assms(4) assms(5) [unfolded append_assoc]] unfolding bs_def by blast
  have "room malloc (length vs + j) (d_tmem (ld_db ?L1))" using assms(3) by (simp add: budget_def created_def)
  moreover have "0 + length (type_at ?T k) = length (n_cells (d_nodes (ld_db ?L1) n))" by (simp add: created_def)
  ultimately obtain L' where L': "load_cells malloc n (type_at ?T k) 0 (r_advance R (length bs) 0) ?L1
      = (Done (r_advance (r_advance R (length bs) 0) (length (concat (map enc_value vs))) 0), L')"
      "fills n {0..<0 + length (type_at ?T k)} ?L1 L'" "room malloc j (d_tmem (ld_db L'))"
      "\<forall>i < length (type_at ?T k). loaded (type_at ?T k ! i) (d_tmem (ld_db L')) (vs ! i) (n_cells (d_nodes (ld_db L') n) ! (0 + i))"
    using load_cells_ok [OF fit(5) _ r_step [OF assms(4) rest]] by blast
  have "read_node_load malloc na R L
      = (Done (r_advance R (length (enc_number (of_nat k) @ enc_number nid @ concat (map enc_value vs))) 0), L')"
    using L0 L'(1) by (simp add: read_node_load_def lbind_eq type_at_def bs_def add.assoc)
  moreover have "represents L' (A(nid \<mapsto> (k, vs)))"
  proof (rule represents_update [OF assms(1)])
    show "ld_nodes L' = (ld_nodes L)(nid \<mapsto> n)" using L'(2) by (simp add: fills_def created_def)
    show "row_ok (ld_db L') nid n (k, vs)"
      using L'(2,4) n(1) fit(2,3) list_all2_lengthD [OF fit(5)] by (simp add: row_ok_def Let_def fills_def created_def)
    show "\<And>j. j \<noteq> nid \<Longrightarrow> ld_nodes L j \<noteq> Some n" using free(2) by blast
    show "ld_nodes L nid = None \<or> ld_nodes L nid = Some n" using free(1) by simp
  qed (use L'(2) in \<open>simp_all add: fills_def created_def\<close>)
  moreover have "budget malloc na j m L'"
    using assms(3) L'(3) node_room_step live_created [of n k nid L] live_nodes_fills [OF L'(2)] by (auto simp: budget_def)
  moreover have "d_type (ld_db L') = ?T" using L'(2) by (simp add: fills_def created_def)
  ultimately show ?thesis by (auto simp: apply_dumped_def)
qed

section \<open>Loading a file\<close>

text \<open>Entries one after the other; \<open>I xs\<close> holds while \<open>xs\<close> remain.\<close>

lemma load_entries_list:
  assumes step: "\<And>x xs R L cs. I (x # xs) L \<Longrightarrow> r_ok R \<Longrightarrow> 0 \<le> r_depth R \<Longrightarrow> r_rest R = enc x @ cs \<Longrightarrow>
      \<exists>L'. load_entry malloc na dump R L = (Done (r_advance R (length (enc x)) 0), L') \<and> I xs L'"
    and hd: "\<And>x. \<exists>bs. enc x = ST_ARRAY_BEGIN # bs"
    and "I xs L" and "r_ok R" and "0 \<le> r_depth R" and "r_rest R = concat (map enc xs) @ ST_ARRAY_END # cs"
  shows "\<exists>L'. load_entries malloc na dump R L = (Done (r_advance R (length (concat (map enc xs))) 0), L') \<and> I [] L'"
  using assms(3-)
proof (induction xs arbitrary: R L)
  case Nil
  then have "reader_next R = ST_ARRAY_END" using reader_next_Cons [of R ST_ARRAY_END cs] by (simp add: st_defs)
  with Nil(1) show ?case by (simp add: load_entries.simps)
next
  case (Cons x xs)
  let ?R1 = "r_advance R (length (enc x)) 0"
  have rest: "r_rest R = enc x @ (concat (map enc xs) @ ST_ARRAY_END # cs)" using Cons.prems(4) by simp
  have depth: "0 \<le> r_depth ?R1" using Cons.prems(3) by simp
  obtain L1 where L1: "load_entry malloc na dump R L = (Done ?R1, L1)" "I xs L1"
    using step [OF Cons.prems(1-3) rest] by blast
  obtain L2 where L2: "load_entries malloc na dump ?R1 L1 = (Done (r_advance ?R1 (length (concat (map enc xs))) 0), L2)" "I [] L2"
    using Cons.IH [OF L1(2) r_step(1) [OF Cons.prems(2) rest] depth r_step(2) [OF Cons.prems(2) rest]] by blast
  obtain bs where "enc x = ST_ARRAY_BEGIN # bs" using hd by blast
  then have "reader_next R \<noteq> ST_ARRAY_END"
    using reader_next_Cons [OF Cons.prems(2), of ST_ARRAY_BEGIN] rest by (simp add: st_defs)
  with L1(1) L2 show ?case by (subst load_entries.simps) simp
qed

text \<open>What is left to load: entries and dumped nodes, with memory for them.\<close>

definition ready_entries :: "malloc \<Rightarrow> node_source \<Rightarrow> DatabaseType \<Rightarrow> nat \<Rightarrow> adb \<Rightarrow> entry list \<Rightarrow> Loader \<Rightarrow> bool" where
  "ready_entries malloc na T k B es L \<longleftrightarrow> (\<exists>A. represents L A \<and> d_type (ld_db L) = T \<and> entries_fit T A es
     \<and> budget malloc na (length es + k) (length es + k) L \<and> B = apply_entries T es A)"

fun dump_fits :: "DatabaseType \<Rightarrow> adb \<Rightarrow> dumped list \<Rightarrow> bool" where
  "dump_fits T A [] \<longleftrightarrow> True"
| "dump_fits T A (d # ds) \<longleftrightarrow> dumped_fits T A d \<and> dump_fits T (apply_dumped d A) ds"

definition dump_cost :: "dumped list \<Rightarrow> nat" where
  "dump_cost ds = (\<Sum>d \<leftarrow> ds. Suc (length (snd (snd d))))"

definition ready_dump :: "malloc \<Rightarrow> node_source \<Rightarrow> DatabaseType \<Rightarrow> nat \<Rightarrow> adb \<Rightarrow> dumped list \<Rightarrow> Loader \<Rightarrow> bool" where
  "ready_dump malloc na T k B ds L \<longleftrightarrow> (\<exists>A. represents L A \<and> d_type (ld_db L) = T \<and> dump_fits T A ds
     \<and> budget malloc na (dump_cost ds + k) (dump_cost ds + k) L \<and> B = fold apply_dumped ds A)"

lemma load_entry_ok:
  assumes "represents L A" and "entry_fits (d_type (ld_db L)) A e" and "budget malloc na (Suc j) (Suc m) L"
    and "r_ok R" and "0 \<le> r_depth R" and "r_rest R = enc_entry e @ cs"
  shows "\<exists>L'. load_entry malloc na False R L = (Done (r_advance R (length (enc_entry e)) 0), L')
    \<and> represents L' (apply_entry (d_type (ld_db L)) e A) \<and> d_type (ld_db L') = d_type (ld_db L) \<and> budget malloc na j m L'"
proof (cases e)
  case (Modified nid a t v)
  let ?bs = "enc_number 1 @ enc_number nid @ enc_number a @ enc_value v"
  from Modified have e: "r_rest R = arr ?bs @ cs" and fit: "entry_fits (d_type (ld_db L)) A (Modified nid a t v)"
    using assms(2,6) by simp_all
  have "budget malloc na (Suc j) m L" by (rule budget_mono [OF assms(3)]) simp_all
  from load_modified_ok [OF assms(1) fit this arr_inside(2,3) [OF assms(4) e]]
  obtain L' where L': "load_operation malloc na (r_advance R 1 1) L = (Done (r_advance (r_advance R 1 1) (length ?bs) 0), L')"
    "represents L' (apply_entry (d_type (ld_db L)) e A)" "d_type (ld_db L') = d_type (ld_db L)" "budget malloc na j m L'"
    using Modified by (simp del: r_advance_advance) blast
  then show ?thesis using load_entry_frame [OF assms(4,5) e, of False malloc na L L'] Modified by auto
next
  case (Created k nid)
  let ?bs = "enc_number 0 @ enc_number (of_nat k) @ enc_number nid"
  from Created have e: "r_rest R = arr ?bs @ cs" and fit: "entry_fits (d_type (ld_db L)) A (Created k nid)"
    using assms(2,6) by simp_all
  have "budget malloc na j (Suc m) L" by (rule budget_mono [OF assms(3)]) simp_all
  from load_created_ok [OF assms(1) fit this arr_inside(2,3) [OF assms(4) e]]
  obtain L' where L': "load_operation malloc na (r_advance R 1 1) L = (Done (r_advance (r_advance R 1 1) (length ?bs) 0), L')"
    "represents L' (apply_entry (d_type (ld_db L)) e A)" "d_type (ld_db L') = d_type (ld_db L)" "budget malloc na j m L'"
    using Created by (simp del: r_advance_advance) blast
  then show ?thesis using load_entry_frame [OF assms(4,5) e, of False malloc na L L'] Created by auto
next
  case (Deleted nid)
  let ?bs = "enc_number 2 @ enc_number nid"
  from Deleted have e: "r_rest R = arr ?bs @ cs" and fit: "A nid \<noteq> None"
    using assms(2,6) by simp_all
  have "budget malloc na j m L" by (rule budget_mono [OF assms(3)]) simp_all
  from load_deleted_ok [OF assms(1) fit this arr_inside(2,3) [OF assms(4) e]]
  obtain L' where L': "load_operation malloc na (r_advance R 1 1) L = (Done (r_advance (r_advance R 1 1) (length ?bs) 0), L')"
    "represents L' (apply_entry (d_type (ld_db L)) e A)" "d_type (ld_db L') = d_type (ld_db L)" "budget malloc na j m L'"
    using Deleted by (simp del: r_advance_advance) blast
  then show ?thesis using load_entry_frame [OF assms(4,5) e, of False malloc na L L'] Deleted by auto
qed

lemma load_node_ok:
  assumes "represents L A" and "dumped_fits (d_type (ld_db L)) A d"
    and "budget malloc na (Suc (length (snd (snd d))) + j) (Suc (length (snd (snd d))) + j) L"
    and "r_ok R" and "0 \<le> r_depth R" and "r_rest R = enc_dumped d @ cs"
  shows "\<exists>L'. load_entry malloc na True R L = (Done (r_advance R (length (enc_dumped d)) 0), L')
    \<and> represents L' (apply_dumped d A) \<and> d_type (ld_db L') = d_type (ld_db L) \<and> budget malloc na j j L'"
proof -
  obtain k nid vs where d: "d = (k, nid, vs)" by (cases d)
  let ?bs = "enc_number (of_nat k) @ enc_number nid @ concat (map enc_value vs)"
  have e: "r_rest R = arr ?bs @ cs" using assms(6) by (simp add: d enc_dumped_def)
  have b: "budget malloc na (length vs + j) (Suc j) L" by (rule budget_mono [OF assms(3)]) (simp_all add: d)
  from load_dumped_ok [OF assms(1) assms(2) [unfolded d] b arr_inside(2,3) [OF assms(4) e]]
  obtain L' where L': "read_node_load malloc na (r_advance R 1 1) L = (Done (r_advance (r_advance R 1 1) (length ?bs) 0), L')"
    "represents L' (apply_dumped d A)" "d_type (ld_db L') = d_type (ld_db L)" "budget malloc na j j L'"
    unfolding d by blast
  then show ?thesis using load_entry_frame [OF assms(4,5) e, of True malloc na L L'] by (auto simp: d enc_dumped_def)
qed

lemma ready_entries_step:
  assumes "ready_entries malloc na T k B (e # es) L" and "r_ok R" and "0 \<le> r_depth R" and "r_rest R = enc_entry e @ cs"
  shows "\<exists>L'. load_entry malloc na False R L = (Done (r_advance R (length (enc_entry e)) 0), L') \<and> ready_entries malloc na T k B es L'"
proof -
  obtain A where A: "represents L A" "d_type (ld_db L) = T" "entry_fits T A e" "entries_fit T (apply_entry T e A) es"
      "budget malloc na (Suc (length es + k)) (Suc (length es + k)) L" "B = apply_entries T es (apply_entry T e A)"
    using assms(1) by (auto simp: ready_entries_def apply_entries_def)
  with load_entry_ok [OF A(1) _ A(5) assms(2-4)] show ?thesis unfolding ready_entries_def by blast
qed

lemma ready_dump_step:
  assumes "ready_dump malloc na T k B (d # ds) L" and "r_ok R" and "0 \<le> r_depth R" and "r_rest R = enc_dumped d @ cs"
  shows "\<exists>L'. load_entry malloc na True R L = (Done (r_advance R (length (enc_dumped d)) 0), L') \<and> ready_dump malloc na T k B ds L'"
proof -
  let ?j = "dump_cost ds + k"
  have c: "dump_cost (d # ds) + k = Suc (length (snd (snd d))) + ?j" by (simp add: dump_cost_def)
  obtain A where A: "represents L A" "d_type (ld_db L) = T" "dumped_fits T A d" "dump_fits T (apply_dumped d A) ds"
      "budget malloc na (Suc (length (snd (snd d))) + ?j) (Suc (length (snd (snd d))) + ?j) L" "B = fold apply_dumped ds (apply_dumped d A)"
    using assms(1) unfolding ready_dump_def c by auto
  with load_node_ok [OF A(1) _ A(5) assms(2-4)] show ?thesis unfolding ready_dump_def by blast
qed

lemma enc_entry_hd: "\<exists>bs. enc_entry e = ST_ARRAY_BEGIN # bs"
  by (cases e) (simp_all add: arr_def)

lemma enc_dumped_hd: "\<exists>bs. enc_dumped d = ST_ARRAY_BEGIN # bs"
  by (cases d) (simp add: enc_dumped_def arr_def)

definition dump_contents :: "dumped list \<Rightarrow> byte list" where
  "dump_contents ds = enc_number 0 @ concat (map enc_dumped ds)"

text \<open>A dump met in a later file is skipped: it has the form the skipper expects.\<close>

fun value_element :: "disk_value \<Rightarrow> element" where
  "value_element (DBytes bs) = Str bs"
| "value_element (DNum n) = Str (num_bytes n)"

definition dumped_element :: "dumped \<Rightarrow> element" where
  "dumped_element d = (case d of (k, nid, vs) \<Rightarrow>
     Arr (Str (num_bytes (of_nat k)) # Str (num_bytes nid) # map value_element vs))"

lemma enc_number_string: "enc_number n = enc_string (num_bytes n)"
proof -
  have u: "unat (of_nat (16 + length (num_bytes n)) :: u64) = 16 + length (num_bytes n)"
    using length_num_bytes_le [of n] by (intro unat_of_nat_small) simp
  have "len_code (of_nat (16 + length (num_bytes n))) = [ucast (of_nat (16 + length (num_bytes n)) :: u64)]"
    by (rule len_code_small) (use length_num_bytes_le [of n] in \<open>unfold u, simp\<close>)
  moreover have "ucast (of_nat (16 + length (num_bytes n)) :: u64) = (of_nat (16 + length (num_bytes n)) :: byte)"
    by (metis u of_nat_unat)
  ultimately show ?thesis by (simp add: enc_number_def enc_string_def ST_STRING_def add.commute)
qed

lemma enc_values: "enc_elements (map value_element vs) = concat (map enc_value vs)"
proof (induction vs)
  case (Cons v vs)
  then show ?case by (cases v) (simp_all add: enc_number_string)
qed simp

lemma enc_dumped_elements: "enc_elements (map dumped_element ds) = concat (map enc_dumped ds)"
  by (induction ds) (auto simp: dumped_element_def enc_dumped_def arr_def enc_values enc_number_string)

section \<open>Root elements\<close>

datatype file_item = Committed "entry list" | Dumped "dumped list" | Dump_begin | Dump_end

fun enc_item :: "file_item \<Rightarrow> byte list" where
  "enc_item (Committed es) = root_element True (enc_transaction es)"
| "enc_item (Dumped ds) = root_element True (arr (dump_contents ds))"
| "enc_item Dump_begin = enc_mark ''DUMP BEGIN''"
| "enc_item Dump_end = enc_mark ''DUMP END''"

fun item_dump :: "bool \<Rightarrow> file_item \<Rightarrow> bool" where
  "item_dump dump_on Dump_begin \<longleftrightarrow> True"
| "item_dump dump_on Dump_end \<longleftrightarrow> False"
| "item_dump dump_on _ \<longleftrightarrow> dump_on"

text \<open>A dump counts in the first file only.\<close>

fun apply_item :: "DatabaseType \<Rightarrow> bool \<Rightarrow> file_item \<Rightarrow> adb \<Rightarrow> adb" where
  "apply_item T first (Committed es) A = apply_entries T es A"
| "apply_item T first (Dumped ds) A = (if first then fold apply_dumped ds A else A)"
| "apply_item T first _ A = A"

fun item_fits :: "DatabaseType \<Rightarrow> bool \<Rightarrow> bool \<Rightarrow> adb \<Rightarrow> file_item \<Rightarrow> bool" where
  "item_fits T first dump_on A (Committed es) \<longleftrightarrow> es \<noteq> [] \<and> entries_fit T A es \<and> length (enc_transaction es) < 2 ^ 60"
| "item_fits T first dump_on A (Dumped ds) \<longleftrightarrow> dump_on \<and> (first \<longrightarrow> dump_fits T A ds) \<and> length (arr (dump_contents ds)) < 2 ^ 60"
| "item_fits T first dump_on A Dump_begin \<longleftrightarrow> \<not> dump_on"
| "item_fits T first dump_on A Dump_end \<longleftrightarrow> dump_on"

fun item_cost :: "file_item \<Rightarrow> nat" where
  "item_cost (Committed es) = length es"
| "item_cost (Dumped ds) = dump_cost ds"
| "item_cost _ = 0"

lemma load_array_frame:
  assumes "r_inside True (arr bs) rest 0 R"
    and "load_transaction malloc na first dump_on (r_advance R 1 1) L = (Done (r_advance (r_advance R 1 1) (length bs) 0), L')"
  shows "\<exists>R'. load_array malloc na first dump_on R L = (Done R', L') \<and> r_idle R' \<and> r_file R' = rest"
proof -
  have R: "r_ok R" "0 \<le> r_depth R" using assms(1) by (simp_all add: r_inside_def)
  note inside = r_inside_rest [OF assms(1)]
  obtain R' where R': "reader_finish (r_advance R (length (arr bs)) 0) True = Done R'" "r_idle R'" "r_file R' = rest"
    using r_finish_ok [OF r_inside_advance [OF assms(1) order_refl], of True] by blast
  have "load_array malloc na first dump_on R L = (Done R', L')"
    using arr_inside(1) [OF R(1) inside] arr_end [OF R inside] assms(2) R'(1)
    by (simp del: r_advance_advance add: load_array_def lbind_eq lift_load_def)
  with R' show ?thesis by blast
qed

lemma load_regular_entries:
  assumes "ready_entries malloc na T k B es L" and "r_ok R" and "0 \<le> r_depth R"
    and "r_rest R = concat (map enc_entry es) @ ST_ARRAY_END # cs"
  shows "\<exists>L'. load_entries malloc na False R L = (Done (r_advance R (length (concat (map enc_entry es))) 0), L')
    \<and> ready_entries malloc na T k B [] L'"
  by (rule load_entries_list [where I = "ready_entries malloc na T k B", OF _ _ assms])
    (erule (3) ready_entries_step, rule enc_entry_hd)

lemma load_dump_entries:
  assumes "ready_dump malloc na T k B ds L" and "r_ok R" and "0 \<le> r_depth R"
    and "r_rest R = concat (map enc_dumped ds) @ ST_ARRAY_END # cs"
  shows "\<exists>L'. load_entries malloc na True R L = (Done (r_advance R (length (concat (map enc_dumped ds))) 0), L')
    \<and> ready_dump malloc na T k B [] L'"
  by (rule load_entries_list [where I = "ready_dump malloc na T k B", OF _ _ assms])
    (erule (3) ready_dump_step, rule enc_dumped_hd)

lemma load_committed:
  assumes "ready_entries malloc na T k B es L" and "es \<noteq> []" and "r_inside True (enc_transaction es) rest 0 R"
  shows "\<exists>R' L'. load_array malloc na first dump_on R L = (Done R', L') \<and> r_idle R' \<and> r_file R' = rest
    \<and> ready_entries malloc na T k B [] L'"
proof -
  let ?bs = "concat (map enc_entry es)"
  have inside: "r_inside True (arr ?bs) rest 0 R" using assms(3) by (simp add: enc_transaction_def)
  then have R: "r_ok R" "0 \<le> r_depth R" by (simp_all add: r_inside_def)
  note R1 = arr_inside(2,3) [OF R(1) r_inside_rest [OF inside]]
  have d: "0 \<le> r_depth (r_advance R 1 1)" using R(2) by simp
  obtain L' where L': "load_entries malloc na False (r_advance R 1 1) L
      = (Done (r_advance (r_advance R 1 1) (length ?bs) 0), L')" "ready_entries malloc na T k B [] L'"
    using load_regular_entries [OF assms(1) R1(1) d R1(2)] by blast
  obtain e es' where "es = e # es'" using assms(2) by (cases es) auto
  with enc_entry_hd [of e] obtain cs where "?bs = ST_ARRAY_BEGIN # cs" by auto
  then have "reader_next (r_advance R 1 1) = ST_ARRAY_BEGIN"
    using reader_next_Cons [OF R1(1), of ST_ARRAY_BEGIN] R1(2) by (simp add: st_defs)
  with L' load_array_frame [OF inside, of malloc na first dump_on L L'] show ?thesis
    by (simp add: load_transaction_def) blast
qed

lemma load_dumped:
  assumes "first \<Longrightarrow> ready_dump malloc na T k B ds L" and "r_inside True (arr (dump_contents ds)) rest 0 R"
  shows "\<exists>R' L'. load_array malloc na first True R L = (Done R', L') \<and> r_idle R' \<and> r_file R' = rest
    \<and> (if first then ready_dump malloc na T k B [] L' else L' = L)"
proof -
  let ?bs = "concat (map enc_dumped ds)"
  let ?R1 = "r_advance R 1 1"
  let ?R2 = "r_advance ?R1 (length (enc_number 0)) 0"
  have R: "r_ok R" "0 \<le> r_depth R" using assms(2) by (simp_all add: r_inside_def)
  note R1 = arr_inside(2,3) [OF R(1) r_inside_rest [OF assms(2)]]
  have rest1: "r_rest ?R1 = enc_number 0 @ (?bs @ ST_ARRAY_END # crc_part True (arr (dump_contents ds)) @ [ST_DOT])"
    using R1(2) by (simp add: dump_contents_def)
  note n = r_ok_num [OF R1(1) rest1]
  have next1: "reader_next ?R1 = of_nat ST_STRING"
    using reader_next_string [OF R1(1)] rest1 by (simp add: enc_number_string)
  have d: "0 \<le> r_depth ?R2" using R(2) by simp
  have "\<exists>L'. (if first then load_entries malloc na True ?R2 else lift_load (reader_skip ?R2)) L
      = (Done (r_advance ?R2 (length ?bs) 0), L') \<and> (if first then ready_dump malloc na T k B [] L' else L' = L)"
  proof (cases first)
    case True
    with load_dump_entries [OF assms(1) n(2) d n(3)] show ?thesis by (simp del: r_advance_advance)
  next
    case False
    have "reader_skip ?R2 = Done (r_advance ?R2 (length ?bs) 0)"
      using reader_skip_to_bracket_lemma [OF n(2) d, of "map dumped_element ds"] n(3) by (simp add: enc_dumped_elements)
    with False show ?thesis by (simp add: lift_load_def)
  qed
  then obtain L' where L': "(if first then load_entries malloc na True ?R2 else lift_load (reader_skip ?R2)) L
      = (Done (r_advance ?R2 (length ?bs) 0), L')" "if first then ready_dump malloc na T k B [] L' else L' = L" by blast
  have "load_transaction malloc na first True ?R1 L = (Done (r_advance ?R1 (length (dump_contents ds)) 0), L')"
    using next1 n(1) L'(1)
    by (cases first) (simp_all add: load_transaction_def r_check_number_def dump_contents_def st_defs)
  from load_array_frame [OF assms(2) this] L'(2) show ?thesis by blast
qed

lemma mark_inside:
  assumes "r_idle R" and "r_file R = enc_mark s @ rest" and "length s < 2 ^ 58"
  shows "\<exists>R1. reader_begin R = Done (ST_READ_SUCCESS, R1) \<and> r_inside False (enc_string (c_str s)) rest 0 R1
    \<and> reader_next R1 = of_nat ST_STRING"
proof -
  have "length (enc_string (c_str s)) < 2 ^ 60" by (rule length_enc_string) (use assms(3) in simp)
  from r_begin_ok [OF assms(1) assms(2) [unfolded enc_mark_def] this] obtain R1
    where R1: "reader_begin R = Done (ST_READ_SUCCESS, R1)" "r_inside False (enc_string (c_str s)) rest 0 R1" by blast
  have "r_ok R1" using R1(2) by (simp add: r_inside_def)
  from reader_next_string [OF this r_inside_rest [OF R1(2)]] R1 show ?thesis by blast
qed

lemma set_get_pos [simp]: "reader_set_pos R (reader_get_pos R) = R"
  by (simp add: reader_set_pos_def reader_get_pos_def)

lemma load_mark_begin:
  assumes "r_inside False (enc_string (c_str ''DUMP BEGIN'')) rest 0 R"
  shows "\<exists>R'. load_mark False R = Done ((True, None), R') \<and> r_idle R' \<and> r_file R' = rest"
  using reads_mark [OF assms] by (auto simp: load_mark_def read_dump_begin_def)

lemma load_mark_end:
  assumes "r_inside False (enc_string (c_str ''DUMP END'')) rest 0 R"
  shows "\<exists>R'. load_mark True R = Done ((False, None), R') \<and> r_idle R' \<and> r_file R' = rest"
  using reads_mark [OF assms] reads_other_mark [OF assms, of "''DUMP BEGIN''"] marks_differ(4)
  by (auto simp: load_mark_def read_dump_begin_def read_dump_end_def)

lemma load_mark_footer:
  assumes "r_inside False (enc_string (c_str ''END OF FILE'')) (enc_magic n @ rest) 0 R"
  shows "\<exists>R'. load_mark dump_on R = Done ((dump_on, Some n), R')"
proof -
  obtain R1 where R1: "read_mark ''END OF FILE'' R = Done R1" "r_idle R1" "r_file R1 = enc_magic n @ rest"
    using reads_mark [OF assms] by blast
  obtain R' where "obind (r_begin R1) (\<lambda>R. obind (read_number R) (\<lambda>(magic, R).
      obind (reader_finish R False) (\<lambda>R. Done (magic, R)))) = Done (n, R')"
    using reads_magic [OF R1(2,3)] by blast
  with R1(1) reads_other_mark [OF assms, of "''DUMP BEGIN''"] reads_other_mark [OF assms, of "''DUMP END''"] marks_differ(2,3)
  show ?thesis by (simp add: load_mark_def read_dump_begin_def read_dump_end_def read_file_footer_def)
qed

lemma load_loop_array:
  assumes "reader_begin R = Done (ST_READ_SUCCESS, R1)" and "r_inside True (arr bs) rest 0 R1"
    and "load_array malloc na first dump_on R1 L = (Done R', L')"
  shows "load_loop malloc na first dump_on R L = load_loop malloc na first dump_on R' L'"
proof -
  have "r_ok R1" "r_rest R1 = ST_ARRAY_BEGIN # bs @ [ST_ARRAY_END] @ crc_part True (arr bs) @ [ST_DOT]"
    using assms(2) r_inside_rest [OF assms(2)] by (simp_all add: r_inside_def arr_def)
  then have "reader_next R1 = ST_ARRAY_BEGIN" using reader_next_Cons by (simp add: st_defs)
  with assms(1,3) show ?thesis
    by (subst load_loop.simps) (simp add: load_element_def lbind_eq lift_load_def)
qed

lemma load_loop_mark:
  assumes "reader_begin R = Done (ST_READ_SUCCESS, R1)" and "reader_next R1 = of_nat ST_STRING"
    and "load_mark dump_on R1 = Done ((dump_on', m), R')"
  shows "load_loop malloc na first dump_on R L =
    (case m of None \<Rightarrow> load_loop malloc na first dump_on' R' L | Some magic \<Rightarrow> (Done (LOAD_SUCCESS, Some magic), L))"
  using assms by (subst load_loop.simps) (simp add: load_element_def lift_load_def st_defs split: option.split)

text \<open>Loading \<open>A\<close> from here on, with memory for \<open>k\<close> more.\<close>

definition loads :: "malloc \<Rightarrow> node_source \<Rightarrow> DatabaseType \<Rightarrow> nat \<Rightarrow> adb \<Rightarrow> Loader \<Rightarrow> bool" where
  "loads malloc na T k A L \<longleftrightarrow> represents L A \<and> d_type (ld_db L) = T \<and> budget malloc na k k L"

lemma ready_entries_Nil: "ready_entries malloc na T k B [] L \<longleftrightarrow> loads malloc na T k B L"
  by (auto simp: ready_entries_def loads_def apply_entries_def)

lemma ready_dump_Nil: "ready_dump malloc na T k B [] L \<longleftrightarrow> loads malloc na T k B L"
  by (auto simp: ready_dump_def loads_def dump_cost_def)

lemma load_item:
  assumes "item_fits T first dump_on A it" and "loads malloc na T (item_cost it + k) A L"
    and "r_idle R" and "r_file R = enc_item it @ rest"
  shows "\<exists>R' L'. load_loop malloc na first dump_on R L = load_loop malloc na first (item_dump dump_on it) R' L'
    \<and> r_idle R' \<and> r_file R' = rest \<and> loads malloc na T k (apply_item T first it A) L'"
proof (cases it)
  case (Committed es)
  then have fit: "es \<noteq> []" "entries_fit T A es" "length (enc_transaction es) < 2 ^ 60" using assms(1) by simp_all
  have "r_file R = root_element True (enc_transaction es) @ rest" using assms(4) Committed by simp
  from r_begin_ok [OF assms(3) this fit(3)] obtain R1 where
    R1: "reader_begin R = Done (ST_READ_SUCCESS, R1)" "r_inside True (enc_transaction es) rest 0 R1" by blast
  have "ready_entries malloc na T k (apply_entries T es A) es L"
    using assms(2) fit(2) Committed by (auto simp: ready_entries_def loads_def)
  from load_committed [OF this fit(1) R1(2), of first dump_on] obtain R' L' where
    l: "load_array malloc na first dump_on R1 L = (Done R', L')" "r_idle R'" "r_file R' = rest"
      "loads malloc na T k (apply_entries T es A) L'" unfolding ready_entries_Nil by blast
  from load_loop_array [OF R1(1) R1(2) [unfolded enc_transaction_def] l(1)] l(2-) Committed show ?thesis by auto
next
  case (Dumped ds)
  then have fit: "dump_on" "first \<Longrightarrow> dump_fits T A ds" "length (arr (dump_contents ds)) < 2 ^ 60" using assms(1) by simp_all
  have "r_file R = root_element True (arr (dump_contents ds)) @ rest" using assms(4) Dumped by simp
  from r_begin_ok [OF assms(3) this fit(3)] obtain R1 where
    R1: "reader_begin R = Done (ST_READ_SUCCESS, R1)" "r_inside True (arr (dump_contents ds)) rest 0 R1" by blast
  have "first \<Longrightarrow> ready_dump malloc na T k (fold apply_dumped ds A) ds L"
    using assms(2) fit(2) Dumped by (auto simp: ready_dump_def loads_def)
  from load_dumped [OF this R1(2)] obtain R' L' where
    l: "load_array malloc na first True R1 L = (Done R', L')" "r_idle R'" "r_file R' = rest"
      "if first then loads malloc na T k (fold apply_dumped ds A) L' else L' = L" unfolding ready_dump_Nil by blast
  have "loads malloc na T k A L" using assms(2) by (auto simp: loads_def intro: budget_mono)
  with load_loop_array [OF R1(1,2) l(1)] l(2-) fit(1) Dumped show ?thesis by (cases first) auto
next
  case Dump_begin
  then obtain R1 where R1: "reader_begin R = Done (ST_READ_SUCCESS, R1)" "r_inside False (enc_string (c_str ''DUMP BEGIN'')) rest 0 R1"
      "reader_next R1 = of_nat ST_STRING" using mark_inside [OF assms(3), of "''DUMP BEGIN''" rest] assms(4) by auto
  with load_mark_begin [OF R1(2)] load_loop_mark [OF R1(1,3)] Dump_begin assms(1,2) show ?thesis by fastforce
next
  case Dump_end
  then obtain R1 where R1: "reader_begin R = Done (ST_READ_SUCCESS, R1)" "r_inside False (enc_string (c_str ''DUMP END'')) rest 0 R1"
      "reader_next R1 = of_nat ST_STRING" using mark_inside [OF assms(3), of "''DUMP END''" rest] assms(4) by auto
  with load_mark_end [OF R1(2)] load_loop_mark [OF R1(1,3)] Dump_end assms(1,2) show ?thesis by fastforce
qed

section \<open>Whole files\<close>

fun items_fit :: "DatabaseType \<Rightarrow> bool \<Rightarrow> bool \<Rightarrow> adb \<Rightarrow> file_item list \<Rightarrow> bool" where
  "items_fit T first dump_on A [] \<longleftrightarrow> True"
| "items_fit T first dump_on A (it # its) \<longleftrightarrow> item_fits T first dump_on A it
     \<and> items_fit T first (item_dump dump_on it) (apply_item T first it A) its"

definition items_cost :: "file_item list \<Rightarrow> nat" where
  "items_cost its = (\<Sum>it \<leftarrow> its. item_cost it)"

definition enc_file :: "DatabaseType \<Rightarrow> u64 \<Rightarrow> file_item list \<Rightarrow> byte list" where
  "enc_file T magic its = root_element True (enc_header T) @ enc_magic magic @ concat (map enc_item its)"

definition file_starts :: "bool \<Rightarrow> file_item list \<Rightarrow> bool" where
  "file_starts first its \<longleftrightarrow> (first \<longrightarrow> (\<exists>its'. its = Dump_begin # its'))"

lemma load_items:
  assumes "items_fit T first dump_on A its" and "loads malloc na T (items_cost its + k) A L"
    and "r_idle R" and "r_file R = concat (map enc_item its) @ rest"
  shows "\<exists>R' L'. load_loop malloc na first dump_on R L
      = load_loop malloc na first (fold (\<lambda>it d. item_dump d it) its dump_on) R' L'
    \<and> r_idle R' \<and> r_file R' = rest \<and> loads malloc na T k (fold (apply_item T first) its A) L'"
  using assms
proof (induction its arbitrary: dump_on A L R)
  case Nil
  then show ?case by (auto simp: items_cost_def)
next
  case (Cons it its)
  have fit: "item_fits T first dump_on A it" "items_fit T first (item_dump dump_on it) (apply_item T first it A) its"
    using Cons.prems(1) by simp_all
  have l: "loads malloc na T (item_cost it + (items_cost its + k)) A L"
    using Cons.prems(2) by (simp add: items_cost_def add.assoc)
  have f: "r_file R = enc_item it @ (concat (map enc_item its) @ rest)" using Cons.prems(4) by simp
  obtain R1 L1 where 1: "load_loop malloc na first dump_on R L = load_loop malloc na first (item_dump dump_on it) R1 L1"
      "r_idle R1" "r_file R1 = concat (map enc_item its) @ rest" "loads malloc na T (items_cost its + k) (apply_item T first it A) L1"
    using load_item [OF fit(1) l Cons.prems(3) f] by blast
  from Cons.IH [OF fit(2) 1(4,2,3)] 1(1) show ?case by auto
qed

text \<open>What \<open>load_file\<close> makes of a header and items, whatever follows them.\<close>

lemma load_file_items:
  assumes "length (enc_header T) < 2 ^ 60" and "file_starts first its" and "old = 0 \<or> old = magic"
    and "items_fit T first False A its" and "loads malloc na T (items_cost its + k) A L"
    and "r_idle R" and "r_file R = enc_file T magic its @ rest"
  shows "\<exists>R' L'. load_file malloc na R old first L
      = lbind (load_loop malloc na first (fold (\<lambda>it d. item_dump d it) its False) R') (\<lambda>(st, m).
          lift_load (Done (st, case m of Some magic \<Rightarrow> magic | None \<Rightarrow> old))) L'
    \<and> r_idle R' \<and> r_file R' = rest \<and> loads malloc na T k (fold (apply_item T first) its A) L'"
proof -
  have f: "r_file R = (root_element True (enc_header T) @ enc_magic magic) @ (concat (map enc_item its) @ rest)"
    using assms(7) by (simp add: enc_file_def)
  obtain R0 where R0: "read_file_header T R = Done (magic, R0)" "r_idle R0" "r_file R0 = concat (map enc_item its) @ rest"
    using reads_file_header [OF assms(1,6) f] by blast
  have T: "d_type (ld_db L) = T" using assms(5) by (simp add: loads_def)
  have c: "\<exists>R1 its'. (if first then obind (r_begin R0) read_dump_begin else Done R0) = Done R1 \<and> r_idle R1
    \<and> r_file R1 = concat (map enc_item its') @ rest \<and> items_fit T first first A its'
    \<and> fold (\<lambda>it d. item_dump d it) its False = fold (\<lambda>it d. item_dump d it) its' first
    \<and> fold (apply_item T first) its A = fold (apply_item T first) its' A \<and> items_cost its' = items_cost its"
  proof (cases first)
    case True
    then obtain its' where its: "its = Dump_begin # its'" using assms(2) by (auto simp: file_starts_def)
    then obtain R1 where R1: "reader_begin R0 = Done (ST_READ_SUCCESS, R1)"
        "r_inside False (enc_string (c_str ''DUMP BEGIN'')) (concat (map enc_item its') @ rest) 0 R1"
      using mark_inside [OF R0(2), of "''DUMP BEGIN''" "concat (map enc_item its') @ rest"] R0(3) by auto
    with reads_mark [OF R1(2)] its True assms(4) show ?thesis
      by (auto simp: r_begin_def read_dump_begin_def items_cost_def)
  next
    case False
    with R0 assms(4) show ?thesis by auto
  qed
  then obtain R1 its' where R1: "(if first then obind (r_begin R0) read_dump_begin else Done R0) = Done R1" "r_idle R1"
      "r_file R1 = concat (map enc_item its') @ rest" "items_fit T first first A its'"
      "fold (\<lambda>it d. item_dump d it) its False = fold (\<lambda>it d. item_dump d it) its' first"
      "fold (apply_item T first) its A = fold (apply_item T first) its' A" "items_cost its' = items_cost its" by blast
  from load_items [OF R1(4) assms(5) [folded R1(7)] R1(2,3)] obtain R' L' where
    l: "load_loop malloc na first first R1 L = load_loop malloc na first (fold (\<lambda>it d. item_dump d it) its False) R' L'"
      "r_idle R'" "r_file R' = rest" "loads malloc na T k (fold (apply_item T first) its A) L'"
    unfolding R1(5,6) by blast
  have "load_file malloc na R old first L
      = lbind (load_loop malloc na first first R1) (\<lambda>(st, m).
          lift_load (Done (st, case m of Some magic \<Rightarrow> magic | None \<Rightarrow> old))) L"
    using R0(1) R1(1) assms(3) T by (auto simp: load_file_def simp del: lift_load_Done)
  with l show ?thesis by (auto simp: lbind_def)
qed

text \<open>The ends a file can have.\<close>

lemma load_loop_end:
  assumes "r_idle R" and "r_file R = []"
  shows "load_loop malloc na first dump_on R L = (Done (LOAD_UNFINISHED_FILE, None), L)"
proof -
  obtain R' where "reader_begin R = Done (ST_READ_END_OF_FILE, R')"
    using reader_begin_torn_lemma [OF assms(1), of True "[]" "root_element True []"] assms(2)
    by (auto simp: root_element_def element_body_def)
  then show ?thesis by (subst load_loop.simps) simp
qed

lemma load_loop_torn:
  assumes "r_idle R" and "root_element cs bs = r_file R @ missing" and "missing \<noteq> []" and "r_file R \<noteq> []" and "length bs < 2 ^ 60"
  shows "load_loop malloc na first dump_on R L = (Done (LOAD_CORRUPTED_FILE, None), L)"
proof -
  obtain R' where "reader_begin R = Done (ST_READ_FAIL, R')"
    using reader_begin_torn_lemma [OF assms(1-3,5)] assms(4) by auto
  then show ?thesis by (subst load_loop.simps) simp
qed

lemma load_loop_footer:
  assumes "r_idle R" and "r_file R = enc_mark ''END OF FILE'' @ enc_magic n @ rest"
  shows "load_loop malloc na first dump_on R L = (Done (LOAD_SUCCESS, Some n), L)"
proof -
  obtain R1 where R1: "reader_begin R = Done (ST_READ_SUCCESS, R1)" "reader_next R1 = of_nat ST_STRING"
      "r_inside False (enc_string (c_str ''END OF FILE'')) (enc_magic n @ rest) 0 R1"
    using mark_inside [OF assms] by auto
  obtain R' where "load_mark dump_on R1 = Done ((dump_on, Some n), R')" using load_mark_footer [OF R1(3)] by blast
  with load_loop_mark [OF R1(1,2)] show ?thesis by simp
qed

text \<open>An empty transaction: no operation, no number.\<close>

lemma load_loop_empty:
  assumes "r_idle R" and "r_file R = root_element cs (enc_transaction []) @ rest"
  shows "load_loop malloc na first dump_on R L = (Done (LOAD_CORRUPTED_FILE, None), L)"
proof -
  have "length (enc_transaction []) < 2 ^ 60" by (simp add: enc_transaction_def arr_def)
  from r_begin_ok [OF assms this] obtain R1 where
    R1: "reader_begin R = Done (ST_READ_SUCCESS, R1)" "r_inside cs (arr []) rest 0 R1"
    by (auto simp: enc_transaction_def)
  have ok: "r_ok R1" using R1(2) by (simp add: r_inside_def)
  note inside = arr_inside [OF ok r_inside_rest [OF R1(2)]]
  have "reader_next R1 = ST_ARRAY_BEGIN"
    using reader_next_Cons [OF ok] r_inside_rest [OF R1(2)] by (simp add: arr_def st_defs)
  moreover have "reader_next (r_advance R1 1 1) = ST_ARRAY_END"
    using reader_next_Cons [OF inside(2), of ST_ARRAY_END] inside(3) by (simp add: st_defs)
  ultimately show ?thesis using R1(1) inside(1)
    by (subst load_loop.simps)
      (simp add: load_element_def load_array_def load_transaction_def lbind_def lift_load_def st_defs)
qed

section \<open>What loading a file promises\<close>

lemma load_file_replays_lemma:
  assumes "length (enc_header T) < 2 ^ 60" and "file_starts first its" and "old = 0 \<or> old = magic"
    and "items_fit T first False A its" and "loads malloc na T (items_cost its) A L" and "malloc_ok m"
  shows "\<exists>L'. load_file malloc na (file_reader_init m (enc_file T magic its)) old first L
      = (Done (LOAD_UNFINISHED_FILE, old), L') \<and> represents L' (fold (apply_item T first) its A)"
proof -
  let ?R = "file_reader_init m (enc_file T magic its)"
  have R: "r_idle ?R" "r_file ?R = enc_file T magic its @ []"
    using assms(6) by (simp_all add: file_reader_init_def r_idle_def)
  have l: "loads malloc na T (items_cost its + 0) A L" using assms(5) by simp
  from load_file_items [OF assms(1-4) l R] load_loop_end show ?thesis
    by (force simp: lbind_def lift_load_def loads_def)
qed

text \<open>
  C29: loading is replaying: a data file made of a header, whose magic number is the one the
  previous file promised, and of items that fit the database so far (transactions of existing
  nodes and fresh identifiers, in the first file also a dump, in later ones dumps that are
  passed over) is accepted to its end, and the nodes in memory then stand for exactly the
  fold of the items, in the order of the file, over what they stood for before.
\<close>

theorem load_file_replays:
  assumes "length (enc_header T) < 2 ^ 60" and "file_starts first its" and "old = 0 \<or> old = magic"
    and "items_fit T first False A its" and "loads malloc na T (items_cost its) A L" and "malloc_ok m"
  shows "\<exists>L'. load_file malloc na (file_reader_init m (enc_file T magic its)) old first L
      = (Done (LOAD_UNFINISHED_FILE, old), L') \<and> represents L' (fold (apply_item T first) its A)"
  by (rule load_file_replays_lemma [OF assms])

definition demo_loader :: Loader where
  "demo_loader = \<lparr>ld_db = demo_database\<lparr>d_nodes := (\<lambda>n. \<lparr>n_ref_count = 0, n_id = 0, n_lock = l_init, n_type = 0, n_cells = []\<rparr>)\<rparr>,
     ld_nodes = Map.empty\<rparr>"

lemma live_demo: "live_nodes (ld_db demo_loader) = {}"
  by (simp add: live_nodes_def demo_loader_def)

text \<open>The first free addresses of a row of blocks, for strings and for nodes.\<close>

definition first_free :: "(addr \<Rightarrow> bool) \<Rightarrow> addr" where
  "first_free taken = (if \<not> taken 64 then 64 else if \<not> taken 128 then 128 else 0)"

lemma fresh_loads:
  assumes "live_nodes (ld_db L) = {}" and "d_tmem (ld_db L) = Map.empty" and "ld_nodes L = Map.empty"
  shows "loads (\<lambda>H n. Some (first_free (\<lambda>p. H p \<noteq> None))) (\<lambda>D k. first_free (\<lambda>n. n_id (d_nodes D n) \<noteq> 0))
    (d_type (ld_db L)) 2 Map.empty L"
proof -
  let ?na = "\<lambda>D k. first_free (\<lambda>n. n_id (d_nodes D n) \<noteq> 0)"
  have "room (\<lambda>H n. Some (first_free (\<lambda>p. H p \<noteq> None))) (Suc (Suc 0)) Map.empty"
    by (simp add: first_free_def)
  then have "room (\<lambda>H n. Some (first_free (\<lambda>p. H p \<noteq> None))) 2 Map.empty"
    by (simp only: numeral_2_eq_2)
  moreover have "node_room ?na 2 (ld_db L)"
    unfolding node_room_def assms(1)
  proof (intro allI impI)
    fix D :: Database and S :: "addr set" and k :: nat
    assume S: "finite S \<and> card S < 2 \<and> live_nodes D \<subseteq> {} \<union> S"
    have "\<not> {64, 128} \<subseteq> S"
    proof
      assume "{64, 128} \<subseteq> S"
      then have "card {64, 128 :: addr} \<le> card S" using S by (intro card_mono) auto
      then show False using S by simp
    qed
    then have "64 \<notin> live_nodes D \<or> 128 \<notin> live_nodes D" using S by auto
    then show "?na D k \<noteq> 0 \<and> n_id (d_nodes D (?na D k)) = 0"
      by (auto simp: first_free_def live_nodes_def)
  qed
  ultimately show ?thesis
    using assms by (simp add: loads_def represents_def budget_def)
qed

lemma demo_loads: "loads (\<lambda>H n. Some (first_free (\<lambda>p. H p \<noteq> None))) (\<lambda>D k. first_free (\<lambda>n. n_id (d_nodes D n) \<noteq> 0)) demo_type 2 Map.empty demo_loader"
  using fresh_loads [OF live_demo] by (simp add: demo_loader_def demo_database_def)

lemma length_enc_string_small: "length bs < 100 \<Longrightarrow> length (enc_string bs) = Suc (length bs)"
proof -
  assume b: "length bs < 100"
  then have u: "unat (of_nat (length bs + ST_STRING) :: u64) = length bs + ST_STRING"
    by (intro unat_of_nat_small) (simp add: ST_STRING_def)
  have "len_code (of_nat (length bs + ST_STRING)) = [ucast (of_nat (length bs + ST_STRING) :: u64)]"
    by (rule len_code_small) (use b in \<open>unfold u, simp add: ST_STRING_def\<close>)
  then show ?thesis by (simp add: enc_string_def)
qed

lemma demo_header: "length (enc_header demo_type) < 2 ^ 60"
  by (simp add: enc_header_def arr_def demo_type_def length_enc_string_small)

definition demo_items :: "file_item list" where
  "demo_items = [Dump_begin, Dump_end, Committed [Created 0 7, Modified 7 0 Int8 (DBytes [9])]]"

lemma demo_types: "type_at demo_type 0 = [Int8, String]" "length (dt_node_types demo_type) = 1"
  by (simp_all add: type_at_def demo_type_def attr_types_def)

lemma demo_items_fit: "items_fit demo_type True False Map.empty demo_items"
proof -
  have "length (enc_transaction [Created 0 7, Modified 7 0 Int8 (DBytes [9])]) < 2 ^ 60"
    using length_enc_number [of 0] length_enc_number [of 1] length_enc_number [of 7]
    by (simp add: enc_transaction_def arr_def length_enc_string_small)
  then show ?thesis
    by (simp add: demo_items_def demo_types)
qed

lemma demo_file:
  "file_starts True demo_items" "items_cost demo_items = 2"
  "fold (apply_item demo_type True) demo_items Map.empty = [7 \<mapsto> (0, [DBytes [9], DBytes []])]"
  by (simp_all add: file_starts_def demo_items_def items_cost_def apply_entries_def demo_types default_value_def)

lemmas demo_loads_items = demo_loads [folded demo_file(2)]

theorem load_file_replays_witness:
  "\<exists>L'. load_file (\<lambda>H n. Some (first_free (\<lambda>p. H p \<noteq> None))) (\<lambda>D k. first_free (\<lambda>n. n_id (d_nodes D n) \<noteq> 0))
      (file_reader_init (\<lambda>_. Some 4096) (enc_file demo_type 5 demo_items)) 0 True demo_loader
      = (Done (LOAD_UNFINISHED_FILE, 0), L')
    \<and> represents L' [7 \<mapsto> (0, [DBytes [9], DBytes []])]"
  using load_file_replays [OF demo_header demo_file(1) _ demo_items_fit demo_loads_items malloc_ok_const, of 0 5]
  unfolding demo_file(3) by blast

lemma load_file_torn_lemma:
  assumes "length (enc_header T) < 2 ^ 60" and "file_starts first its" and "old = 0 \<or> old = magic"
    and "items_fit T first False A its" and "loads malloc na T (items_cost its) A L" and "malloc_ok m"
    and "part @ missing = root_element cs bs" and "part \<noteq> []" and "missing \<noteq> []" and "length bs < 2 ^ 60"
  shows "\<exists>L'. load_file malloc na (file_reader_init m (enc_file T magic its @ part)) old first L
      = (Done (LOAD_CORRUPTED_FILE, old), L') \<and> represents L' (fold (apply_item T first) its A)"
proof -
  let ?R = "file_reader_init m (enc_file T magic its @ part)"
  have R: "r_idle ?R" "r_file ?R = enc_file T magic its @ part"
    using assms(6) by (simp_all add: file_reader_init_def r_idle_def)
  have l: "loads malloc na T (items_cost its + 0) A L" using assms(5) by simp
  obtain R' L' where f: "load_file malloc na ?R old first L
      = lbind (load_loop malloc na first (fold (\<lambda>it d. item_dump d it) its False) R') (\<lambda>(st, m).
          lift_load (Done (st, case m of Some magic \<Rightarrow> magic | None \<Rightarrow> old))) L'"
    "r_idle R'" "r_file R' = part" "loads malloc na T 0 (fold (apply_item T first) its A) L'"
    using load_file_items [OF assms(1-4) l R] by blast
  have "root_element cs bs = r_file R' @ missing" "r_file R' \<noteq> []" using f(3) assms(7,8) by simp_all
  from load_loop_torn [OF f(2) this(1) assms(9) this(2) assms(10)] f(1,4) show ?thesis
    by (simp add: lbind_def lift_load_def loads_def)
qed

text \<open>
  A crash in the middle of the last write costs nothing that was complete: a data file
  whose last root element lacks its tail is reported as corrupted, and by then everything in
  front of that element has been loaded -- the nodes stand for the fold of the complete
  items. (The report makes \<open>load_data\<close> open the database read-only.)
\<close>

theorem load_file_torn:
  assumes "length (enc_header T) < 2 ^ 60" and "file_starts first its" and "old = 0 \<or> old = magic"
    and "items_fit T first False A its" and "loads malloc na T (items_cost its) A L" and "malloc_ok m"
    and "part @ missing = root_element cs bs" and "part \<noteq> []" and "missing \<noteq> []" and "length bs < 2 ^ 60"
  shows "\<exists>L'. load_file malloc na (file_reader_init m (enc_file T magic its @ part)) old first L
      = (Done (LOAD_CORRUPTED_FILE, old), L') \<and> represents L' (fold (apply_item T first) its A)"
  by (rule load_file_torn_lemma [OF assms])

theorem load_file_torn_witness:
  "\<exists>L'. load_file (\<lambda>H n. Some (first_free (\<lambda>p. H p \<noteq> None))) (\<lambda>D k. first_free (\<lambda>n. n_id (d_nodes D n) \<noteq> 0))
      (file_reader_init (\<lambda>_. Some 4096) (enc_file demo_type 5 demo_items @ [7, 2, 0])) 5 True demo_loader
      = (Done (LOAD_CORRUPTED_FILE, 5), L')
    \<and> represents L' [7 \<mapsto> (0, [DBytes [9], DBytes []])]"
proof -
  have p: "[7, 2, 0] @ [0, 0, 0, 0, 0, 0, 9, 16, 2] = root_element False [16]"
    by (simp add: root_element_def element_body_def crc_part_def header_of_def st_defs write_le_numeral drop_bit_eq_div)
  show ?thesis
    using load_file_torn [OF demo_header demo_file(1) _ demo_items_fit demo_loads_items malloc_ok_const p, of 5 5]
    unfolding demo_file(3) by simp
qed

lemma load_file_empty_lemma:
  assumes "length (enc_header T) < 2 ^ 60" and "file_starts first its" and "old = 0 \<or> old = magic"
    and "items_fit T first False A its" and "loads malloc na T (items_cost its) A L" and "malloc_ok m"
  shows "\<exists>L'. load_file malloc na (file_reader_init m (enc_file T magic its @ root_element True (enc_transaction []) @ later)) old first L
      = (Done (LOAD_CORRUPTED_FILE, old), L')"
proof -
  let ?R = "file_reader_init m (enc_file T magic its @ root_element True (enc_transaction []) @ later)"
  have R: "r_idle ?R" "r_file ?R = enc_file T magic its @ (root_element True (enc_transaction []) @ later)"
    using assms(6) by (simp_all add: file_reader_init_def r_idle_def)
  have l: "loads malloc na T (items_cost its + 0) A L" using assms(5) by simp
  obtain R' L' where f: "load_file malloc na ?R old first L
      = lbind (load_loop malloc na first (fold (\<lambda>it d. item_dump d it) its False) R') (\<lambda>(st, m).
          lift_load (Done (st, case m of Some magic \<Rightarrow> magic | None \<Rightarrow> old))) L'"
    "r_idle R'" "r_file R' = root_element True (enc_transaction []) @ later"
    using load_file_items [OF assms(1-4) l R] by blast
  from load_loop_empty [OF f(2,3)] f(1) show ?thesis by (simp add: lbind_def lift_load_def)
qed

text \<open>
  C31: a committed transaction that only touched indexes (its log is not empty but holds
  fields and memory only) ruins the file it goes to: \<open>process_transaction_log\<close> writes an
  empty array for it, and \<open>load_file\<close>, which expects an operation or the 0 of a dump there,
  gives up at that place -- whatever was committed later is not loaded and the database can
  only be opened read-only.
\<close>

theorem empty_transaction_ruins_file:
  assumes "log_entries D (rev log) = Some []" and "w_inv W" and "w_cur W = []" and "w_depth W = 0"
    and "w_out W = enc_file T magic its"
    and "length (enc_header T) < 2 ^ 60" and "file_starts first its" and "old = 0 \<or> old = magic"
    and "items_fit T first False A its" and "loads malloc na T (items_cost its) A L" and "malloc_ok m"
  shows "\<exists>W' g L'. process_transaction_log D log W garbage = Done (W', g, [])
    \<and> load_file malloc na (file_reader_init m (w_out W' @ later)) old first L = (Done (LOAD_CORRUPTED_FILE, old), L')"
proof -
  obtain W' where W': "process_transaction_log D log W garbage = Done (W', garbage @ concat (map garbage_item (rev log)), [])"
      "w_closed W (root_element True (enc_transaction [])) W'"
    using process_log_ok [OF assms(1-4)] by blast
  then have "w_out W' @ later = enc_file T magic its @ root_element True (enc_transaction []) @ later"
    using assms(5) by (simp add: w_closed_def)
  with load_file_empty_lemma [OF assms(6-11), of later] W'(1) show ?thesis by simp
qed

theorem empty_transaction_ruins_file_witness:
  "\<exists>W W' g L'. process_transaction_log demo_database [LI_TYPE_RAW (Field 64) 0, LI_TYPE_MEMORY_ALLOC 4096] W [] = Done (W', g, [])
    \<and> load_file (\<lambda>H n. Some (first_free (\<lambda>p. H p \<noteq> None))) (\<lambda>D k. first_free (\<lambda>n. n_id (d_nodes D n) \<noteq> 0))
      (file_reader_init (\<lambda>_. Some 4096) (w_out W' @ [])) 0 True demo_loader = (Done (LOAD_CORRUPTED_FILE, 0), L')"
proof -
  have W0: "w_inv (writer_init (\<lambda>_. 0))" "w_cur (writer_init (\<lambda>_. 0)) = []" "w_depth (writer_init (\<lambda>_. 0)) = 0"
    "w_out (writer_init (\<lambda>_. 0)) = []"
    by (simp_all add: w_inv_writer_init)
  obtain W1 where W1: "write_file_header demo_type 5 (writer_init (\<lambda>_. 0)) = Done W1"
      "w_closed (writer_init (\<lambda>_. 0)) (root_element True (enc_header demo_type) @ enc_magic 5) W1"
    using writes_file_header [of demo_type "writer_init (\<lambda>_. 0)" 5] W0 by (auto simp: demo_type_def)
  obtain W2 where W2: "write_dump_begin W1 = Done W2" "w_closed W1 (enc_mark ''DUMP BEGIN'') W2"
    unfolding write_dump_begin_def using writes_mark [of "''DUMP BEGIN''" W1] w_closed_ready [OF W1(2)] by auto
  have out: "w_out W2 = enc_file demo_type 5 [Dump_begin]"
    using W1(2) W2(2) W0(4) by (simp add: w_closed_def enc_file_def)
  have l: "log_entries demo_database (rev [LI_TYPE_RAW (Field 64) 0, LI_TYPE_MEMORY_ALLOC 4096]) = Some []" by simp
  have fit: "items_fit demo_type True False Map.empty [Dump_begin]" "file_starts True [Dump_begin]"
    by (simp_all add: file_starts_def)
  have lo: "loads (\<lambda>H n. Some (first_free (\<lambda>p. H p \<noteq> None))) (\<lambda>D k. first_free (\<lambda>n. n_id (d_nodes D n) \<noteq> 0)) demo_type
      (items_cost [Dump_begin]) Map.empty demo_loader"
    using demo_loads by (auto simp: loads_def items_cost_def intro: budget_mono)
  show ?thesis
    using empty_transaction_ruins_file [OF l _ _ _ out demo_header fit(2) _ fit(1) lo malloc_ok_const, of 0 "[]" "[]"]
      w_closed_ready [OF W2(2)] by blast
qed

end
