(* ===== verification/Pointers.thy ===== *)
theory Pointers
  imports Loader
begin

text \<open>
  Pointers after loading. A file holds identifiers where memory holds references, and no
  reference counters at all; \<open>fix_pointers\<close> of \<open>database_create.c\<close> makes the references and
  counts them. Here: it leaves the counters exact, the invariant under which the operations of
  \<open>Transaction\<close> keep them exact.
\<close>

section \<open>One cell after the other\<close>

primrec init_cells :: "(u64 \<rightharpoonup> addr) \<Rightarrow> (addr \<times> nat) list \<Rightarrow> Database \<Rightarrow> Database outcome" where
  "init_cells nodes [] D = Done D"
| "init_cells nodes (c # cs) D = obind (init_pointer nodes (fst c) (snd c) D) (init_cells nodes cs)"

definition node_pointers :: "addr \<Rightarrow> attr_type list \<Rightarrow> nat \<Rightarrow> (addr \<times> nat) list" where
  "node_pointers n ts i = map (\<lambda>j. (n, i + j)) (filter (\<lambda>j. ts ! j = Pointer) [0..<length ts])"

definition all_pointers :: "Database \<Rightarrow> addr list \<Rightarrow> (addr \<times> nat) list" where
  "all_pointers D order = concat (map (\<lambda>n. node_pointers n (attr_types (node_get_type D n)) 0) order)"

lemma init_cells_append:
  "init_cells nodes (xs @ ys) D = obind (init_cells nodes xs D) (init_cells nodes ys)"
proof (induction xs arbitrary: D)
  case Nil
  then show ?case by simp
next
  case (Cons c xs)
  then show ?case by (cases "init_pointer nodes (fst c) (snd c) D") simp_all
qed

lemma node_pointers_Cons:
  "node_pointers n (t # ts) i = (if t = Pointer then [(n, i)] else []) @ node_pointers n ts (Suc i)"
proof -
  have "[0..<length (t # ts)] = 0 # map Suc [0..<length ts]"
    by (simp add: upt_conv_Cons map_Suc_upt del: upt_Suc)
  then show ?thesis by (simp add: node_pointers_def filter_map comp_def del: upt_Suc)
qed

lemma init_pointers_from_cells:
  "init_pointers_from nodes n ts i D = init_cells nodes (node_pointers n ts i) D"
proof (induction ts arbitrary: i D)
  case Nil
  then show ?case by (simp add: node_pointers_def)
next
  case (Cons t ts)
  then show ?case by (cases "init_pointer nodes n i D") (simp_all add: node_pointers_Cons)
qed

lemma init_pointer_types:
  assumes "init_pointer nodes n i D = Done D'"
  shows "d_type D' = d_type D \<and> n_type (d_nodes D' x) = n_type (d_nodes D x)"
  using assms by (auto simp: init_pointer_def Let_def split: if_splits option.splits)

lemma init_cells_types:
  "init_cells nodes cs D = Done D' \<Longrightarrow> node_get_type D' x = node_get_type D x"
proof (induction cs arbitrary: D)
  case Nil
  then show ?case by simp
next
  case (Cons c cs)
  then obtain D1 where "init_pointer nodes (fst c) (snd c) D = Done D1" "init_cells nodes cs D1 = Done D'"
    by (auto simp: obind_eq_Done)
  with Cons.IH init_pointer_types show ?case by (simp add: node_get_type_def)
qed

lemma fix_pointers_cells: "fix_pointers nodes order D = init_cells nodes (all_pointers D order) D"
proof (induction order arbitrary: D)
  case Nil
  then show ?case by (simp add: all_pointers_def)
next
  case (Cons n order)
  have "fix_pointers nodes order D' = init_cells nodes (all_pointers D order) D'"
    if "init_cells nodes (node_pointers n (attr_types (node_get_type D n)) 0) D = Done D'" for D'
    using Cons.IH [of D'] init_cells_types [OF that] by (simp add: all_pointers_def)
  then show ?case
    by (cases "init_cells nodes (node_pointers n (attr_types (node_get_type D n)) 0) D")
      (simp_all add: init_pointers_def init_pointers_from_cells all_pointers_def init_cells_append)
qed

section \<open>What all of them amount to\<close>

text \<open>The node an identifier stands for, and the one a cell refers to.\<close>

definition resolve :: "(u64 \<rightharpoonup> addr) \<Rightarrow> u64 \<Rightarrow> addr" where
  "resolve nodes nid = (if nid = 0 then 0 else case nodes nid of Some m \<Rightarrow> m | None \<Rightarrow> 0)"

definition target :: "(u64 \<rightharpoonup> addr) \<Rightarrow> Database \<Rightarrow> addr \<times> nat \<Rightarrow> addr" where
  "target nodes D c = resolve nodes (cell_ref (n_cells (d_nodes D (fst c)) ! snd c))"

definition refers :: "(u64 \<rightharpoonup> addr) \<Rightarrow> Database \<Rightarrow> addr \<times> nat \<Rightarrow> bool" where
  "refers nodes D c \<longleftrightarrow> snd c < length (n_cells (d_nodes D (fst c)))
     \<and> (let nid = cell_ref (n_cells (d_nodes D (fst c)) ! snd c) in nid = 0 \<or> nodes nid \<noteq> None)"

text \<open>The cells of \<open>cs\<close> made references, and counted.\<close>

definition fixed :: "(u64 \<rightharpoonup> addr) \<Rightarrow> (addr \<times> nat) list \<Rightarrow> Database \<Rightarrow> Database \<Rightarrow> bool" where
  "fixed nodes cs D D' \<longleftrightarrow> d_type D' = d_type D \<and> d_tmem D' = d_tmem D \<and> d_fields D' = d_fields D
     \<and> (\<forall>x. n_id (d_nodes D' x) = n_id (d_nodes D x) \<and> n_type (d_nodes D' x) = n_type (d_nodes D x)
        \<and> length (n_cells (d_nodes D' x)) = length (n_cells (d_nodes D x))
        \<and> (\<forall>j < length (n_cells (d_nodes D x)). n_cells (d_nodes D' x) ! j =
             (if (x, j) \<in> set cs then Ref (target nodes D (x, j)) else n_cells (d_nodes D x) ! j))
        \<and> (x \<noteq> 0 \<longrightarrow> n_ref_count (d_nodes D' x)
             = n_ref_count (d_nodes D x) + of_nat (length (filter (\<lambda>c. target nodes D c = x) cs))))"

lemma init_pointer_ok:
  assumes "refers nodes D (n, i)"
  shows "\<exists>D'. init_pointer nodes n i D = Done D' \<and> fixed nodes [(n, i)] D D'"
proof -
  have i: "i < length (n_cells (d_nodes D n))" using assms by (simp add: refers_def)
  then have g: "get_cell (d_nodes D n) i = n_cells (d_nodes D n) ! i" by (simp add: get_cell_def)
  show ?thesis
    using assms i unfolding init_pointer_def g Let_def
    by (auto simp: refers_def Let_def fixed_def target_def resolve_def set_cell_def nth_list_update)
qed

lemma fixed_other:
  assumes "fixed nodes [c] D D1" and "c' \<noteq> c" and "refers nodes D c'"
  shows "refers nodes D1 c' \<and> target nodes D1 c' = target nodes D c'"
proof -
  have i: "snd c' < length (n_cells (d_nodes D (fst c')))" using assms(3) by (simp add: refers_def)
  then have "n_cells (d_nodes D1 (fst c')) ! snd c' = n_cells (d_nodes D (fst c')) ! snd c'"
    "length (n_cells (d_nodes D1 (fst c'))) = length (n_cells (d_nodes D (fst c')))"
    using assms(1,2) by (auto simp: fixed_def)
  with assms(3) i show ?thesis by (simp add: refers_def target_def)
qed

lemma fixed_Cons:
  assumes "fixed nodes [c] D D1" and "fixed nodes cs D1 D2" and "c \<notin> set cs" and "\<forall>c \<in> set cs. refers nodes D c"
  shows "fixed nodes (c # cs) D D2"
proof -
  have t: "target nodes D1 c' = target nodes D c'" if "c' \<in> set cs" for c'
    using fixed_other [OF assms(1), of c'] assms(3,4) that by auto
  have "filter (\<lambda>c. target nodes D1 c = x) cs = filter (\<lambda>c. target nodes D c = x) cs" for x
    by (rule filter_cong) (simp_all add: t)
  then show ?thesis using assms(1-3) t
    unfolding fixed_def by (auto simp: add.assoc)
qed

lemma init_cells_ok:
  "distinct cs \<Longrightarrow> \<forall>c \<in> set cs. refers nodes D c \<Longrightarrow> \<exists>D'. init_cells nodes cs D = Done D' \<and> fixed nodes cs D D'"
proof (induction cs arbitrary: D)
  case Nil
  then show ?case by (simp add: fixed_def)
next
  case (Cons c cs)
  obtain D1 where D1: "init_pointer nodes (fst c) (snd c) D = Done D1" "fixed nodes [c] D D1"
    using init_pointer_ok [of nodes D "fst c" "snd c"] Cons.prems(2) by auto
  have "refers nodes D1 c'" if "c' \<in> set cs" for c'
    using fixed_other [OF D1(2), of c'] Cons.prems that by auto
  then obtain D' where "init_cells nodes cs D1 = Done D'" "fixed nodes cs D1 D'"
    using Cons.IH [of D1] Cons.prems(1) by auto
  with D1 fixed_Cons [OF D1(2)] Cons.prems show ?case by auto
qed

section \<open>Exact counters\<close>

lemma set_node_pointers: "set (node_pointers n ts 0) = {(n, i) | i. i < length ts \<and> ts ! i = Pointer}"
  by (auto simp: node_pointers_def)

lemma distinct_all_pointers:
  assumes "distinct order"
  shows "distinct (all_pointers D order)"
  using assms
proof (induction order)
  case Nil
  then show ?case by (simp add: all_pointers_def)
next
  case (Cons n order)
  have "distinct (node_pointers n ts 0)" for ts
    by (simp add: node_pointers_def distinct_map inj_on_def)
  moreover have "set (node_pointers n (attr_types (node_get_type D n)) 0) \<inter> set (all_pointers D order) = {}"
    using Cons.prems by (auto simp: all_pointers_def set_node_pointers)
  ultimately show ?case using Cons by (simp add: all_pointers_def)
qed

lemma represents_live:
  assumes "represents L A"
  shows "live_nodes (ld_db L) = ran (ld_nodes L)"
proof
  show "live_nodes (ld_db L) \<subseteq> ran (ld_nodes L)" using assms by (simp add: represents_def)
  show "ran (ld_nodes L) \<subseteq> live_nodes (ld_db L)"
  proof
    fix n assume "n \<in> ran (ld_nodes L)"
    then obtain nid where nid: "ld_nodes L nid = Some n" by (auto simp: ran_def)
    then obtain row where "A nid = Some row" using represents_None [OF assms, of nid] by auto
    from representsD [OF assms nid this] show "n \<in> live_nodes (ld_db L)"
      by (auto simp: live_nodes_def dest: row_ok_node)
  qed
qed

text \<open>Which row a node stands for, and that its cells are those of its type.\<close>

lemma represents_cells:
  assumes "represents L A" and "n \<in> ran (ld_nodes L)"
  shows "\<exists>nid k vs. ld_nodes L nid = Some n \<and> A nid = Some (k, vs) \<and> row_ok (ld_db L) nid n (k, vs)
    \<and> node_get_type (ld_db L) n = dt_node_types (d_type (ld_db L)) ! k
    \<and> length (n_cells (d_nodes (ld_db L) n)) = length (attr_types (node_get_type (ld_db L) n))"
proof -
  obtain nid where nid: "ld_nodes L nid = Some n" using assms(2) by (auto simp: ran_def)
  then obtain k vs where row: "A nid = Some (k, vs)" using represents_None [OF assms(1), of nid] by (cases "A nid") auto
  have "row_ok (ld_db L) nid n (k, vs)" by (rule representsD [OF assms(1) nid row])
  then show ?thesis using nid row by (auto simp: row_ok_def Let_def node_get_type_def type_at_def)
qed

lemma set_all_pointers:
  assumes "represents L A" and "set order = ran (ld_nodes L)"
  shows "set (all_pointers (ld_db L) order) = pointer_cells (ld_db L)"
proof -
  have "(n, i) \<in> set (all_pointers (ld_db L) order) \<longleftrightarrow> (n, i) \<in> pointer_cells (ld_db L)" for n i
  proof -
    have "(n, i) \<in> set (all_pointers (ld_db L) order) \<longleftrightarrow> n \<in> ran (ld_nodes L)
        \<and> i < length (attr_types (node_get_type (ld_db L) n)) \<and> attr_types (node_get_type (ld_db L) n) ! i = Pointer"
      unfolding all_pointers_def assms(2) [symmetric] by (auto simp: set_node_pointers)
    moreover have "n \<in> ran (ld_nodes L) \<longleftrightarrow> n_id (d_nodes (ld_db L) n) \<noteq> 0"
      using represents_live [OF assms(1)] by (auto simp: live_nodes_def)
    moreover have "length (n_cells (d_nodes (ld_db L) n)) = length (attr_types (node_get_type (ld_db L) n))"
      if "n \<in> ran (ld_nodes L)"
      using represents_cells [OF assms(1) that] by blast
    ultimately show ?thesis by (auto simp: pointer_cells_def)
  qed
  then show ?thesis by auto
qed

text \<open>Every identifier a pointer holds is that of a node.\<close>

definition links_ok :: "DatabaseType \<Rightarrow> adb \<Rightarrow> bool" where
  "links_ok T A \<longleftrightarrow> (\<forall>nid k vs i m. A nid = Some (k, vs) \<and> i < length vs \<and> type_at T k ! i = Pointer \<and> vs ! i = DNum m
     \<longrightarrow> m = 0 \<or> A m \<noteq> None)"

lemma pointer_refers:
  assumes "represents L A" and "links_ok (d_type (ld_db L)) A" and "(n, i) \<in> pointer_cells (ld_db L)"
  shows "refers (ld_nodes L) (ld_db L) (n, i)"
proof -
  have i: "i < length (n_cells (d_nodes (ld_db L) n))" and t: "attr_types (node_get_type (ld_db L) n) ! i = Pointer"
    and "n \<in> ran (ld_nodes L)"
    using assms(3) represents_live [OF assms(1)] by (auto simp: pointer_cells_def live_nodes_def)
  from represents_cells [OF assms(1) this(3)] obtain nid k vs where r: "A nid = Some (k, vs)" "row_ok (ld_db L) nid n (k, vs)"
      "node_get_type (ld_db L) n = dt_node_types (d_type (ld_db L)) ! k" by blast
  have tk: "type_at (d_type (ld_db L)) k ! i = Pointer" using t r(3) by (simp add: type_at_def)
  have len: "i < length vs" using i r(2) by (simp add: row_ok_def Let_def)
  have ld: "loaded Pointer (d_tmem (ld_db L)) (vs ! i) (n_cells (d_nodes (ld_db L) n) ! i)"
    using r(2) i tk by (auto simp: row_ok_def Let_def)
  show ?thesis
  proof (cases "vs ! i")
    case (DNum m)
    then have "m = 0 \<or> A m \<noteq> None" using assms(2) r(1) len tk unfolding links_ok_def by blast
    then have "m = 0 \<or> ld_nodes L m \<noteq> None" using represents_None [OF assms(1)] by simp
    with ld DNum i show ?thesis by (auto simp: refers_def loaded_def cell_ref_def)
  next
    case (DBytes bs)
    with ld i show ?thesis by (simp add: refers_def loaded_def cell_ref_def)
  qed
qed

lemma fixed_counts:
  assumes "represents L A" and "set cs = pointer_cells (ld_db L)" and "distinct cs"
    and "fixed (ld_nodes L) cs (ld_db L) D'" and "length cs < 2 ^ 64" and "\<forall>c \<in> set cs. refers (ld_nodes L) (ld_db L) c"
  shows "counts_ok D'"
proof -
  let ?D = "ld_db L" and ?t = "target (ld_nodes L) (ld_db L)"
  have pc: "pointer_cells D' = pointer_cells ?D"
    using assms(4) by (simp add: fixed_def pointer_cells_def node_get_type_def)
  have cell: "n_cells (d_nodes D' m) ! i = Ref (?t (m, i))" if "(m, i) \<in> pointer_cells ?D" for m i
    using assms(2,4) that by (auto simp: fixed_def pointer_cells_def)
  have pt: "pointers_to D' x = set (filter (\<lambda>c. ?t c = x) cs)" for x
    unfolding pointers_to_def pc using cell assms(2) by auto
  have ids: "n_id (d_nodes D' x) = n_id (d_nodes ?D x)" for x using assms(4) by (simp add: fixed_def)
  show ?thesis unfolding counts_ok_def pc
  proof (intro conjI allI impI)
    show "finite (pointer_cells ?D)" using assms(2) by (metis finite_set)
    show "card (pointer_cells ?D) < 2 ^ 64" using assms(2,3,5) distinct_card by metis
    fix x assume x: "x \<noteq> 0 \<and> n_id (d_nodes D' x) \<noteq> 0"
    then have "x \<in> ran (ld_nodes L)" using represents_live [OF assms(1)] ids by (auto simp: live_nodes_def)
    from represents_cells [OF assms(1) this] have "n_ref_count (d_nodes ?D x) = 0"
      by (auto simp: row_ok_def Let_def)
    moreover have "card (pointers_to D' x) = length (filter (\<lambda>c. ?t c = x) cs)"
      unfolding pt by (rule distinct_card) (use assms(3) in simp)
    ultimately show "n_ref_count (d_nodes D' x) = of_nat (card (pointers_to D' x))"
      using assms(4) x by (simp add: fixed_def)
  next
    show "\<forall>(m, i)\<in>pointer_cells ?D. \<exists>p. n_cells (d_nodes D' m) ! i = Ref p \<and> (p \<noteq> 0 \<longrightarrow> n_id (d_nodes D' p) \<noteq> 0)"
    proof clarify
      fix m i assume mi: "(m, i) \<in> pointer_cells ?D"
      have "n_id (d_nodes D' (?t (m, i))) \<noteq> 0" if "?t (m, i) \<noteq> 0"
      proof -
        have "?t (m, i) \<in> ran (ld_nodes L)"
          using that by (auto simp: target_def resolve_def ran_def split: if_splits option.splits)
        then show ?thesis using represents_live [OF assms(1)] ids by (auto simp: live_nodes_def)
      qed
      with cell [OF mi] show "\<exists>p. n_cells (d_nodes D' m) ! i = Ref p \<and> (p \<noteq> 0 \<longrightarrow> n_id (d_nodes D' p) \<noteq> 0)" by blast
    qed
  qed
qed

text \<open>
  C30: what \<open>fix_pointers\<close> leaves behind. When the loaded nodes stand for an abstract database
  whose pointers hold identifiers that exist, and the traversal of the dictionary visits each
  node once, \<open>fix_pointers\<close> does not fault; every pointer then refers to the node whose
  identifier was loaded, no other cell changes, and the reference counter of every node is
  exactly the number of pointers to it -- the condition under which \<open>trWrite\<close> keeps the
  counters exact and never trips the assertion of \<open>node_ref_count_decrease\<close>.
\<close>

theorem fix_pointers_counts:
  assumes "represents L A" and "links_ok (d_type (ld_db L)) A"
    and "distinct order" and "set order = ran (ld_nodes L)" and "card (pointer_cells (ld_db L)) < 2 ^ 64"
  shows "\<exists>D'. fix_pointers (ld_nodes L) order (ld_db L) = Done D' \<and> counts_ok D'
    \<and> (\<forall>n i. n_id (d_nodes D' n) = n_id (d_nodes (ld_db L) n)
        \<and> (i < length (n_cells (d_nodes (ld_db L) n)) \<longrightarrow> n_cells (d_nodes D' n) ! i =
            (if (n, i) \<in> pointer_cells (ld_db L) then Ref (resolve (ld_nodes L) (cell_ref (n_cells (d_nodes (ld_db L) n) ! i)))
             else n_cells (d_nodes (ld_db L) n) ! i)))"
proof -
  let ?D = "ld_db L" and ?cs = "all_pointers (ld_db L) order"
  have cs: "set ?cs = pointer_cells ?D" "distinct ?cs"
    using set_all_pointers [OF assms(1,4)] distinct_all_pointers [OF assms(3)] by blast+
  then have len: "length ?cs < 2 ^ 64" using assms(5) distinct_card by metis
  have refs: "\<forall>c \<in> set ?cs. refers (ld_nodes L) ?D c"
    unfolding cs(1) using pointer_refers [OF assms(1,2)] by auto
  obtain D' where D': "init_cells (ld_nodes L) ?cs ?D = Done D'" "fixed (ld_nodes L) ?cs ?D D'"
    using init_cells_ok [OF cs(2) refs] by blast
  have "fix_pointers (ld_nodes L) order ?D = Done D'" unfolding fix_pointers_cells by (rule D'(1))
  moreover have "counts_ok D'" by (rule fixed_counts [OF assms(1) cs D'(2) len refs])
  ultimately show ?thesis using D'(2) cs(1) by (auto simp: fixed_def target_def)
qed

text \<open>Two nodes just loaded, the first with a pointer to the second.\<close>

definition demo_loaded :: Loader where
  "demo_loaded = \<lparr>ld_db = demo_graph\<lparr>d_nodes := (\<lambda>n. if n = 64
       then \<lparr>n_ref_count = 0, n_id = 1, n_lock = l_init, n_type = 0, n_cells = [Ref 2]\<rparr>
       else if n = 128
       then \<lparr>n_ref_count = 0, n_id = 2, n_lock = l_init, n_type = 0, n_cells = [Ref 0]\<rparr>
       else \<lparr>n_ref_count = 0, n_id = 0, n_lock = l_init, n_type = 0, n_cells = []\<rparr>)\<rparr>,
     ld_nodes = [1 \<mapsto> 64, 2 \<mapsto> 128]\<rparr>"

lemma demo_loaded_ok:
  "represents demo_loaded [1 \<mapsto> (0, [DNum 2]), 2 \<mapsto> (0, [DNum 0])]"
  "links_ok (d_type (ld_db demo_loaded)) [1 \<mapsto> (0, [DNum 2]), 2 \<mapsto> (0, [DNum 0])]"
  "ran (ld_nodes demo_loaded) = {64, 128}"
  "pointer_cells (ld_db demo_loaded) = {(64, 0), (128, 0)}"
proof -
  show r: "ran (ld_nodes demo_loaded) = {64, 128}"
    by (force simp: demo_loaded_def ran_def)
  have "live_nodes (ld_db demo_loaded) \<subseteq> {64, 128}"
    by (auto simp: live_nodes_def demo_loaded_def split: if_splits)
  then show "represents demo_loaded [1 \<mapsto> (0, [DNum 2]), 2 \<mapsto> (0, [DNum 0])]"
    unfolding represents_def r
    by (auto simp: demo_loaded_def demo_graph_def row_ok_def Let_def type_at_def attr_types_def loaded_def split: if_splits)
  show "links_ok (d_type (ld_db demo_loaded)) [1 \<mapsto> (0, [DNum 2]), 2 \<mapsto> (0, [DNum 0])]"
    by (auto simp: links_ok_def split: if_splits)
  show "pointer_cells (ld_db demo_loaded) = {(64, 0), (128, 0)}"
    by (auto simp: pointer_cells_def demo_loaded_def demo_graph_def node_get_type_def attr_types_def split: if_splits)
qed

theorem fix_pointers_counts_witness:
  "\<exists>D'. fix_pointers (ld_nodes demo_loaded) [64, 128] (ld_db demo_loaded) = Done D' \<and> counts_ok D'
    \<and> n_cells (d_nodes D' 64) ! 0 = Ref 128"
proof -
  have "\<exists>D'. fix_pointers (ld_nodes demo_loaded) [64, 128] (ld_db demo_loaded) = Done D' \<and> counts_ok D'
    \<and> (\<forall>n i. n_id (d_nodes D' n) = n_id (d_nodes (ld_db demo_loaded) n)
        \<and> (i < length (n_cells (d_nodes (ld_db demo_loaded) n)) \<longrightarrow> n_cells (d_nodes D' n) ! i =
            (if (n, i) \<in> pointer_cells (ld_db demo_loaded) then Ref (resolve (ld_nodes demo_loaded) (cell_ref (n_cells (d_nodes (ld_db demo_loaded) n) ! i)))
             else n_cells (d_nodes (ld_db demo_loaded) n) ! i)))"
    by (rule fix_pointers_counts [OF demo_loaded_ok(1,2)]) (simp_all add: demo_loaded_ok(3,4))
  then obtain D' where D': "fix_pointers (ld_nodes demo_loaded) [64, 128] (ld_db demo_loaded) = Done D'" "counts_ok D'"
    "0 < length (n_cells (d_nodes (ld_db demo_loaded) 64)) \<longrightarrow> n_cells (d_nodes D' 64) ! 0 =
      (if (64, 0) \<in> pointer_cells (ld_db demo_loaded) then Ref (resolve (ld_nodes demo_loaded) (cell_ref (n_cells (d_nodes (ld_db demo_loaded) 64) ! 0)))
       else n_cells (d_nodes (ld_db demo_loaded) 64) ! 0)" by blast
  have "n_cells (d_nodes D' 64) ! 0 = Ref 128"
    using D'(3) by (simp add: demo_loaded_ok(4)) (simp add: demo_loaded_def resolve_def cell_ref_def)
  with D'(1,2) show ?thesis by blast
qed

end
