(* ===== verification/Commit.thy ===== *)
theory Commit
  imports Data_File
begin

text \<open>
  Committing: \<open>_tr_commit_main\<close> and \<open>output_queue_push\<close> of \<open>database.include/transaction.c\<close>,
  \<open>sendServiceMsg\<close> of \<open>database.c\<close>, and what the semaphores of a handle count. The output queue
  is the list of all jobs ever pushed; the service thread (theory \<open>Service\<close>) goes through it
  from the front and gives jobs back to their allocator, which \<open>q_freed\<close> records by their
  numbers. Waiting is explicit: an operation that ends in \<open>sem_wait\<close> names the semaphore.
\<close>

section \<open>Jobs and the output queue\<close>

datatype DbService = DB_SERVICE__COMMIT | DB_SERVICE__SYNC_COMMIT | DB_SERVICE__SYNC_ME | DB_SERVICE__START_DUMP
  | DB_SERVICE__CREATE_NEW_FILE | DB_SERVICE__COLLECT_GARBAGE | DB_SERVICE__PAUSE | DB_DUMMY_SERVICE

text \<open>The semaphores of a handle, a caller waiting for an answer, and that of a paused service thread.\<close>

datatype sem = Write_finished u64 | Pending_transactions u64 | Signal nat | Service_thread_pause

definition BD_MAX_PENDING_TRANSACTIONS_PER_HANDLER :: nat where
  "BD_MAX_PENDING_TRANSACTIONS_PER_HANDLER = 128"

record OutputList =
  o_type :: DbService
  o_lock :: "sem option"
  o_ready :: nat
  o_W :: Writer
  o_garbage :: "addr list"
  o_end_time :: u64

record Queue =
  q_jobs :: "OutputList list"
  q_freed :: "nat list"
  q_counter :: nat
  q_sems :: "sem \<Rightarrow> nat"

definition sem_post :: "sem \<Rightarrow> Queue \<Rightarrow> Queue" where
  "sem_post s Q = Q\<lparr>q_sems := (q_sems Q)(s := q_sems Q s + 1)\<rparr>"

text \<open>\<open>None\<close>: the caller blocks.\<close>

definition sem_wait :: "sem \<Rightarrow> Queue \<Rightarrow> Queue option" where
  "sem_wait s Q = (if q_sems Q s = 0 then None else Some (Q\<lparr>q_sems := (q_sems Q)(s := q_sems Q s - 1)\<rparr>))"

definition init_semaphores :: "u64 \<Rightarrow> Queue \<Rightarrow> Queue" where
  "init_semaphores h Q = Q\<lparr>q_sems := (q_sems Q)(Write_finished h := 0,
     Pending_transactions h := BD_MAX_PENDING_TRANSACTIONS_PER_HANDLER)\<rparr>"

text \<open>
  \<open>output_queue_push\<close> in its two steps: under the mutex the job is linked behind the last one,
  whose \<open>next\<close> is written; when the mutex is released the service thread is told.
\<close>

definition queue_link :: "OutputList \<Rightarrow> Queue \<Rightarrow> Queue" where
  "queue_link J Q = Q\<lparr>q_jobs := q_jobs Q @ [J]\<rparr>"

definition queue_post :: "Queue \<Rightarrow> Queue" where
  "queue_post Q = Q\<lparr>q_counter := q_counter Q + 1\<rparr>"

definition output_queue_push :: "OutputList \<Rightarrow> Queue \<Rightarrow> Queue" where
  "output_queue_push J Q = queue_post (queue_link J Q)"

lemma output_queue_push_eq:
  "output_queue_push J Q = Q\<lparr>q_jobs := q_jobs Q @ [J], q_counter := q_counter Q + 1\<rparr>"
  by (simp add: output_queue_push_def queue_link_def queue_post_def)

text \<open>A constructed object from \<open>output_list_allocator\<close>: whatever writer it has is empty.\<close>

definition output_list :: "Writer \<Rightarrow> DbService \<Rightarrow> sem option \<Rightarrow> u64 \<Rightarrow> OutputList" where
  "output_list W ty lock end_time =
    \<lparr>o_type = ty, o_lock = lock, o_ready = 0, o_W = W, o_garbage = [], o_end_time = end_time\<rparr>"

definition sendServiceMsg :: "Writer \<Rightarrow> DbService \<Rightarrow> sem option \<Rightarrow> Queue \<Rightarrow> Queue" where
  "sendServiceMsg W ty lock Q = output_queue_push (output_list W ty lock 0) Q"

definition upd_job :: "nat \<Rightarrow> (OutputList \<Rightarrow> OutputList) \<Rightarrow> Queue \<Rightarrow> Queue" where
  "upd_job k f Q = Q\<lparr>q_jobs := (q_jobs Q)[k := f (q_jobs Q ! k)]\<rparr>"

section \<open>Commit\<close>

text \<open>\<open>if (commit_type == CT_ASYNC) commit_type = H->commit_type\<close>.\<close>

definition effective_type :: "CommitType \<Rightarrow> Handle \<Rightarrow> CommitType" where
  "effective_type ct H = (if ct = CT_ASYNC then h_commit_type H else ct)"

text \<open>A transaction that only read. The answer names the semaphore waited for, if any.\<close>

definition commit_read_only :: "Writer \<Rightarrow> CommitType \<Rightarrow> session \<Rightarrow> Queue \<Rightarrow> session \<times> Queue \<times> sem option" where
  "commit_read_only W ct = (\<lambda>(H, D) Q.
    case atomic_add_and_fetch (d_time D) 2 of (end_time, t) \<Rightarrow>
    case tr_unlock end_time (H, D\<lparr>d_time := t\<rparr>) of (H, D) \<Rightarrow>
    let H = handle_cleanup H in
    if ct = CT_SYNC
    then ((H, D), sendServiceMsg W DB_SERVICE__SYNC_ME (Some (Write_finished (h_ptr H))) Q, Some (Write_finished (h_ptr H)))
    else ((H, D), Q, None))"

definition commit_sem :: "CommitType \<Rightarrow> Handle \<Rightarrow> sem" where
  "commit_sem ct H = (if ct = CT_SYNC then Write_finished (h_ptr H) else Pending_transactions (h_ptr H))"

text \<open>The first half: the end time is drawn and the job, still empty, takes its place in the queue.\<close>

definition commit_push :: "Writer \<Rightarrow> CommitType \<Rightarrow> session \<Rightarrow> Queue \<Rightarrow> session \<times> Queue \<times> u64" where
  "commit_push W ct = (\<lambda>(H, D) Q.
    case atomic_add_and_fetch (d_time D) 2 of (end_time, t) \<Rightarrow>
    ((H, D\<lparr>d_time := t\<rparr>),
     output_queue_push (output_list W (if ct = CT_SYNC then DB_SERVICE__SYNC_COMMIT else DB_SERVICE__COMMIT)
       (Some (commit_sem ct H)) end_time) Q,
     end_time))"

text \<open>
  The second half, on job \<open>k\<close>: validate, then fill the job, mark it ready and wait for the
  semaphore; or mark it ready as it is, and abort.
\<close>

definition commit_finish :: "CommitType \<Rightarrow> nat \<Rightarrow> u64 \<Rightarrow> session \<Rightarrow> Queue \<Rightarrow> (bool \<times> session \<times> Queue \<times> sem option) outcome" where
  "commit_finish ct k end_time s Q =
    (if \<not> tr_validate s then
       let Q = upd_job k (\<lambda>J. J\<lparr>o_ready := o_ready J + 1\<rparr>) Q in
       obind (tr_abort_main s) (\<lambda>s. Done (False, s, Q, None))
     else
       case tr_unlock end_time s of (H, D) \<Rightarrow>
       obind (process_transaction_log D (h_log H) (o_W (q_jobs Q ! k)) (o_garbage (q_jobs Q ! k))) (\<lambda>(W, garbage, log).
       let Q = upd_job k (\<lambda>J. J\<lparr>o_W := W, o_garbage := garbage, o_ready := o_ready J + 1\<rparr>) Q;
           H = handle_cleanup (H\<lparr>h_log := log\<rparr>) in
       Done (True, (H, D), Q, Some (commit_sem ct H))))"

definition tr_commit_main :: "Writer \<Rightarrow> CommitType \<Rightarrow> session \<Rightarrow> Queue \<Rightarrow> (bool \<times> session \<times> Queue \<times> sem option) outcome" where
  "tr_commit_main W commit_type s Q =
    (let ct = effective_type commit_type (fst s) in
     if h_log (fst s) = [] then
       case commit_read_only W ct s Q of (s, Q, wait) \<Rightarrow> Done (True, s, Q, wait)
     else case commit_push W ct s Q of (s, Q, end_time) \<Rightarrow>
       commit_finish ct (length (q_jobs Q) - 1) end_time s Q)"

section \<open>Bringing down a handle\<close>

text \<open>The waiting loop of \<open>db_handle_destroy\<close>: \<open>None\<close> while it blocks.\<close>

primrec wait_for_pending :: "u64 \<Rightarrow> nat \<Rightarrow> Queue \<Rightarrow> Queue option" where
  "wait_for_pending h 0 Q = Some Q"
| "wait_for_pending h (Suc n) Q = (case sem_wait (Pending_transactions h) Q of None \<Rightarrow> None | Some Q \<Rightarrow> wait_for_pending h n Q)"

section \<open>Requests to the service thread\<close>

text \<open>
  The functions of \<open>database.include/database.c\<close> that send a message. Those with an answer
  wait for their own semaphore, named by \<open>signal\<close>.
\<close>

definition database_dump :: "Writer \<Rightarrow> nat \<Rightarrow> Queue \<Rightarrow> Queue \<times> sem" where
  "database_dump W signal Q = (sendServiceMsg W DB_SERVICE__START_DUMP (Some (Signal signal)) Q, Signal signal)"

definition database_create_new_file :: "Writer \<Rightarrow> nat \<Rightarrow> Queue \<Rightarrow> Queue \<times> sem" where
  "database_create_new_file W signal Q = (sendServiceMsg W DB_SERVICE__CREATE_NEW_FILE (Some (Signal signal)) Q, Signal signal)"

definition database_collect_garbage :: "Writer \<Rightarrow> Queue \<Rightarrow> Queue" where
  "database_collect_garbage W Q = sendServiceMsg W DB_SERVICE__COLLECT_GARBAGE None Q"

definition database_pause_service_thread :: "Writer \<Rightarrow> Queue \<Rightarrow> Queue" where
  "database_pause_service_thread W Q = sendServiceMsg W DB_SERVICE__PAUSE (Some Service_thread_pause) Q"

definition database_resume_service_thread :: "Queue \<Rightarrow> Queue" where
  "database_resume_service_thread Q = sem_post Service_thread_pause Q"

section \<open>What a commit leaves in the queue\<close>

lemma set_lock_entries: "node_ids (set_lock r l D) = node_ids D" "n_type (d_nodes (set_lock r l D) n) = n_type (d_nodes D n)"
  by (cases r; auto simp: node_ids_def fun_eq_iff)+

lemma item_entries_cong:
  assumes "d_tmem D' = d_tmem D" and "node_ids D' = node_ids D" and "\<And>n. n_type (d_nodes D' n) = n_type (d_nodes D n)"
  shows "log_entries D' log = log_entries D log"
proof (induction log)
  case (Cons x log)
  have "n_id (d_nodes D' n) = n_id (d_nodes D n)" for n using assms(2) by (metis node_ids_def)
  then have "item_entries D' x = item_entries D x" using assms by (cases x) (simp_all split: option.split)
  with Cons show ?case by simp
qed simp

lemma unlock_all_entries: "log_entries (unlock_all ptr ver rs D) log = log_entries D log"
proof (induction rs arbitrary: D)
  case (Cons r rs)
  have "log_entries (set_lock r l D) log = log_entries D log" for l
    by (rule item_entries_cong) (simp_all add: set_lock_entries)
  with Cons show ?case by simp
qed simp

text \<open>Whether the transaction is still valid when its end time has been drawn.\<close>

definition valid_at_commit :: "session \<Rightarrow> bool" where
  "valid_at_commit s \<longleftrightarrow> tr_validate (fst s, (snd s)\<lparr>d_time := d_time (snd s) + 2\<rparr>)"

text \<open>A writer between root elements.\<close>

definition w_ready :: "Writer \<Rightarrow> bool" where
  "w_ready W \<longleftrightarrow> w_inv W \<and> w_cur W = [] \<and> w_depth W = 0"

definition sync_type :: "CommitType \<Rightarrow> DbService" where
  "sync_type ct = (if ct = CT_SYNC then DB_SERVICE__SYNC_COMMIT else DB_SERVICE__COMMIT)"

lemma commit_valid_ok:
  assumes "h_log H \<noteq> []" and "valid_at_commit (H, D)" and "w_ready W" and "w_out W = []"
    and "log_entries D (rev (h_log H)) = Some es" and "effective_type commit_type H = ct"
  shows "\<exists>H' D' J. tr_commit_main W commit_type (H, D) Q
      = Done (True, (H', D'), output_queue_push J Q, Some (commit_sem ct H))
    \<and> o_type J = sync_type ct \<and> o_lock J = Some (commit_sem ct H) \<and> o_ready J = 1 \<and> w_ready (o_W J)
    \<and> w_out (o_W J) = root_element True (enc_transaction es) \<and> o_end_time J = d_time D + 2
    \<and> h_start_time H' = 0 \<and> h_log H' = []"
proof -
  let ?D = "D\<lparr>d_time := d_time D + 2\<rparr>"
  obtain H1 D1 where u: "tr_unlock (d_time D + 2) (H, ?D) = (H1, D1)" by fastforce
  then have H1: "H1 = H\<lparr>h_acquired_locks := []\<rparr>" and D1: "D1 = unlock_all (h_ptr H) (d_time D + 2) (h_acquired_locks H) ?D"
    by (simp_all add: tr_unlock_def)
  have "log_entries D1 (rev (h_log H)) = log_entries ?D (rev (h_log H))" by (simp add: D1 unlock_all_entries)
  also have "\<dots> = log_entries D (rev (h_log H))"
    by (rule item_entries_cong) (simp_all add: node_ids_def fun_eq_iff)
  finally have es: "log_entries D1 (rev (h_log H)) = Some es" using assms(5) by simp
  obtain W' where W': "process_transaction_log D1 (h_log H) W [] = Done (W', [] @ concat (map garbage_item (rev (h_log H))), [])"
      "w_closed W (root_element True (enc_transaction es)) W'"
    using process_log_ok [OF es] assms(3) unfolding w_ready_def by blast
  have v: "tr_validate (H, ?D)" using assms(2) by (simp add: valid_at_commit_def)
  define J where "J = \<lparr>o_type = sync_type ct, o_lock = Some (commit_sem ct H), o_ready = 1, o_W = W',
    o_garbage = concat (map garbage_item (rev (h_log H))), o_end_time = d_time D + 2\<rparr>"
  have "tr_commit_main W commit_type (H, D) Q = Done (True, (handle_cleanup (H1\<lparr>h_log := []\<rparr>), D1), output_queue_push J Q, Some (commit_sem ct H))"
    using assms(1,6) v u W'(1) H1
    by (simp add: tr_commit_main_def Let_def commit_push_def atomic_simps commit_finish_def output_queue_push_eq
        output_list_def upd_job_def J_def sync_type_def handle_cleanup_def commit_sem_def)
  with W'(2) assms(4) show ?thesis
    by (intro exI [of _ J] exI conjI) (assumption, simp_all add: J_def w_ready_def w_closed_def handle_cleanup_def)
qed

lemma rollback_log_None: "\<exists>D'. rollback_log None t log D = Done ([], D')"
  by (induction log arbitrary: D) simp_all

lemma tr_abort_main_ok: "\<exists>H' D'. tr_abort_main (H, D) = Done (H', D') \<and> h_ptr H' = h_ptr H"
proof -
  obtain D1 where D1: "rollback_log None (d_time D) (h_log H) D = Done ([], D1)" using rollback_log_None by blast
  obtain H2 D2 where "tr_unlock (d_time D1 + 2) (H\<lparr>h_read_set := [], h_log := [], h_commit_type := CT_ASYNC\<rparr>, D1\<lparr>d_time := d_time D1 + 2\<rparr>) = (H2, D2)"
    by fastforce
  moreover from this have "h_ptr H2 = h_ptr H" by (auto simp: tr_unlock_def)
  ultimately show ?thesis
    using D1 by (auto simp: tr_abort_main_def tr_handle_rollback_def Let_def atomic_simps handle_cleanup_def)
qed

lemma commit_invalid_ok:
  assumes "h_log H \<noteq> []" and "\<not> valid_at_commit (H, D)" and "w_ready W" and "w_out W = []"
    and "effective_type commit_type H = ct"
  shows "\<exists>H' D' J. tr_commit_main W commit_type (H, D) Q = Done (False, (H', D'), output_queue_push J Q, None)
    \<and> o_type J = sync_type ct \<and> o_lock J = Some (commit_sem ct H) \<and> o_ready J = 1 \<and> w_ready (o_W J) \<and> w_out (o_W J) = []
    \<and> h_ptr H' = h_ptr H"
proof -
  let ?D = "D\<lparr>d_time := d_time D + 2\<rparr>"
  have v: "\<not> tr_validate (H, ?D)" using assms(2) by (simp add: valid_at_commit_def)
  obtain H' D' where a: "tr_abort_main (H, ?D) = Done (H', D')" "h_ptr H' = h_ptr H" using tr_abort_main_ok by blast
  define J where "J = (output_list W (sync_type ct) (Some (commit_sem ct H)) (d_time D + 2))\<lparr>o_ready := 1\<rparr>"
  have "tr_commit_main W commit_type (H, D) Q = Done (False, (H', D'), output_queue_push J Q, None)"
    using assms(1,5) v a(1)
    by (simp add: tr_commit_main_def Let_def commit_push_def atomic_simps commit_finish_def output_queue_push_eq
        output_list_def upd_job_def J_def sync_type_def)
  with a(2) assms(3,4) show ?thesis
    by (intro exI [of _ J] exI conjI) (assumption, simp_all add: J_def output_list_def)
qed

end
