(* ===== verification/Retry.thy ===== *)
theory Retry
  imports Commit Typing
begin

text \<open>
  The brackets \<open>trBegin\<close> and \<open>trCommit\<close> of \<open>macros.h\<close>, \<open>tr_commit\<close> of \<open>inline.h\<close> and
  \<open>_tr_retry_wait\<close>. A program between the brackets is a statement; where control leaves it is
  one of the places the macros jump to. Other threads act while the program waits: after a
  commit for the service thread, before a restart for the random time.
\<close>

section \<open>The wait before a restart\<close>

text \<open>\<open>while (--loop > 0) t *= 2\<close>\<close>

function retry_double :: "int \<Rightarrow> u64 \<Rightarrow> u64" where
  "retry_double loop t = (let loop = loop - 1 in if loop > 0 then retry_double loop (t * 2) else t)"
  by pat_completeness auto
termination
  by (relation "measure (\<lambda>(loop, t). nat loop)") auto

declare retry_double.simps [simp del]

text \<open>The nanoseconds given to \<open>nanosleep\<close>; \<open>rnd\<close> is what \<open>rand\<close> returns.\<close>

definition tr_retry_wait :: "int \<Rightarrow> nat \<Rightarrow> u64" where
  "tr_retry_wait loop rnd =
    (let t = retry_double loop 10000;
         t = (if t > 100000000 then 100000000 else t) in
     t + of_nat (rnd mod 500000))"

lemma retry_double_power: "1 \<le> loop \<Longrightarrow> retry_double loop t = t * 2 ^ nat (loop - 1)"
proof (induction loop t rule: retry_double.induct)
  case (1 loop t)
  show ?case
  proof (cases "1 < loop")
    case True
    then have "nat (loop - 1) = Suc (nat (loop - 1 - 1))" by simp
    then show ?thesis using 1 True by (subst retry_double.simps) (simp add: mult.assoc)
  next
    case False
    with 1(2) show ?thesis by (subst retry_double.simps) simp
  qed
qed

lemma double_wrapped: "60 \<le> k \<Longrightarrow> (10000 * 2 ^ k :: u64) = 0"
proof -
  assume "60 \<le> k"
  then have "10000 * 2 ^ k = 2 ^ 64 * (625 * 2 ^ (k - 60) :: nat)"
    using power_add [of "2 :: nat" 60 "k - 60"] by simp
  then have "(of_nat (10000 * 2 ^ k) :: u64) = of_nat (2 ^ 64) * of_nat (625 * 2 ^ (k - 60))"
    by (simp only: of_nat_mult)
  also have "(of_nat (2 ^ 64) :: u64) = 0" by (simp add: word_eq_iff_unsigned)
  finally show ?thesis by simp
qed

text \<open>Up to 60 the product is capped, whether it has wrapped around (from 51 on) or not.\<close>

lemma double_capped:
  assumes "k < 60"
  shows "unat (if 10000 * 2 ^ k > (100000000 :: u64) then 100000000 else 10000 * 2 ^ k :: u64) = min (10000 * 2 ^ k) 100000000"
proof (cases "k < 14")
  case True
  then have "k \<in> {0, 1, 2, 3, 4, 5, 6, 7, 8, 9, 10, 11, 12, 13}" by (simp, arith)
  then show ?thesis by (elim insertE) simp_all
next
  case False
  define j where "j = k - 14"
  have k: "k = 14 + j" "j < 46" using False assms by (simp_all add: j_def)
  have "(10000 * 2 ^ k :: nat) = 163840000 * 2 ^ j" by (simp add: k power_add)
  moreover have "(163840000 :: nat) \<le> 163840000 * 2 ^ j" by simp
  ultimately have min: "min (10000 * 2 ^ k) 100000000 = (100000000 :: nat)" by linarith
  have "list_all (\<lambda>j. (100000000 :: u64) < 163840000 * 2 ^ j) [0..<46]" by code_simp
  then have "(100000000 :: u64) < 10000 * 2 ^ k" using k by (auto simp: list_all_iff power_add)
  then show ?thesis unfolding min by simp
qed

text \<open>
  C26: the pause before a restart, as the code computes it. Before restart number \<open>loop\<close> it is
  ten microseconds doubled \<open>loop - 1\<close> times, at most a tenth of a second, and up to half a
  millisecond at random, always below the second that \<open>nanosleep\<close> accepts -- but only up to the
  60th restart: from the next one on the product has wrapped around to 0 in its 64 bits and
  nothing is left of the pause but its random part.
\<close>

theorem retry_wait_collapses:
  assumes "1 \<le> loop"
  shows "unat (tr_retry_wait loop rnd) =
      (if loop \<le> 60 then min (10000 * 2 ^ nat (loop - 1)) 100000000 else 0) + rnd mod 500000
    \<and> unat (tr_retry_wait loop rnd) < 10 ^ 9"
proof -
  let ?t = "10000 * 2 ^ nat (loop - 1) :: u64"
  let ?c = "if ?t > 100000000 then 100000000 else ?t"
  let ?b = "if loop \<le> 60 then min (10000 * 2 ^ nat (loop - 1)) 100000000 else 0 :: nat"
  have c: "unat ?c = ?b"
  proof (cases "loop \<le> 60")
    case True
    with assms have "nat (loop - 1) < 60" by simp
    with double_capped [OF this] True show ?thesis by simp
  next
    case False
    with assms have "60 \<le> nat (loop - 1)" by simp
    with double_wrapped [OF this] False show ?thesis by simp
  qed
  define m where "m = rnd mod 500000"
  have m: "m < 500000" by (simp add: m_def)
  then have r: "unat (of_nat m :: u64) = m" by (simp add: unat_of_nat take_bit_nat_eq_self)
  have b: "?b \<le> 100000000" by simp
  have "unat (?c + of_nat m) = unat ?c + unat (of_nat m :: u64)"
    by (rule unat_add_lem [THEN iffD1]) (unfold c r, use b m in simp)
  then have "unat (tr_retry_wait loop rnd) = ?b + m"
    unfolding c r by (simp add: tr_retry_wait_def Let_def retry_double_power [OF assms] m_def)
  moreover from this b m have "unat (tr_retry_wait loop rnd) < 10 ^ 9" by simp
  ultimately show ?thesis unfolding m_def by (rule conjI)
qed

theorem retry_wait_collapses_witness:
  "unat (tr_retry_wait 60 7) = 100000007 \<and> unat (tr_retry_wait 61 7) = 7"
  using retry_wait_collapses [of 60 7] retry_wait_collapses [of 61 7] by simp

section \<open>Statements between the brackets\<close>

text \<open>
  A macro goes to \<open>tr_failed\<close> when its operation reports failure. \<open>TrBlock body type action\<close>
  stands for \<open>trBegin body trCommit(type, action)\<close>.
\<close>

datatype macro = Use access | NodeCreate type_ref | NodeDelete addr | Update addr | NodeCheck addr

datatype stmt = Skip | Macro macro | TrFail | TrAbort | Seq stmt stmt | TrBlock stmt CommitType stmt

datatype leaving = Next | To_failed | To_success

fun access_ok :: "malloc \<Rightarrow> access \<Rightarrow> session \<Rightarrow> (bool \<times> session) outcome" where
  "access_ok malloc (Read n i) s = obind (trRead n i s) (\<lambda>(r, s). Done (r \<noteq> None, s))"
| "access_ok malloc (UncheckedRead n i) s = obind (trUncheckedRead n i s) (\<lambda>(_, s). Done (True, s))"
| "access_ok malloc (Write n i v) s = trWrite malloc n i v s"
| "access_ok malloc (FieldRead obj p) s = obind (trMemoryRead obj p s) (\<lambda>(r, s). Done (r \<noteq> None, s))"
| "access_ok malloc (FieldUncheckedRead obj p) s = obind (trMemoryUncheckedRead obj p s) (\<lambda>(_, s). Done (True, s))"
| "access_ok malloc (FieldWrite obj p v) s = trMemoryWrite obj p v s"
| "access_ok malloc (Alloc bs) s = obind (tr_memory_alloc malloc bs s) (\<lambda>(_, s). Done (True, s))"
| "access_ok malloc (Free p) s = Done (True, tr_memory_free p s)"
| "access_ok malloc (NodeRead n a) s = obind (tr_node_read n a s) (\<lambda>(r, s). Done (r \<noteq> None, s))"
| "access_ok malloc (NodeWrite n a v) s = tr_node_write malloc n a v s"
| "access_ok malloc (LockOnly r) s = util_lock r s"

text \<open>
  What a block depends on: the allocators and the callback of the indexes, an empty writer for
  the job of a commit, and what other threads make of the database and the queue while the
  block waits for a semaphore or for its next attempt.
\<close>

record world =
  wd_malloc :: malloc
  wd_node_alloc :: "Database \<Rightarrow> nat \<Rightarrow> addr"
  wd_callback :: callback
  wd_writer :: Writer
  wd_served :: "sem \<Rightarrow> Database \<times> Queue \<Rightarrow> Database \<times> Queue"
  wd_waited :: "nat \<Rightarrow> Database \<times> Queue \<Rightarrow> Database \<times> Queue"

fun macro_ok :: "world \<Rightarrow> macro \<Rightarrow> session \<Rightarrow> (bool \<times> session) outcome" where
  "macro_ok w (Use a) s = access_ok (wd_malloc w) a s"
| "macro_ok w (NodeCreate r) s =
    obind (tr_node_create (wd_node_alloc w) (wd_callback w) r s) (\<lambda>(n, s). Done (n \<noteq> None, s))"
| "macro_ok w (NodeDelete n) s = tr_node_delete (wd_malloc w) (wd_callback w) n s"
| "macro_ok w (Update n) s = tr_node_update_indexes (wd_callback w) n s"
| "macro_ok w (NodeCheck n) s = Done (tr_node_check n s, s)"

definition tr_commit :: "Writer \<Rightarrow> CommitType \<Rightarrow> session \<Rightarrow> Queue \<Rightarrow> (bool \<times> session \<times> Queue \<times> sem option) outcome" where
  "tr_commit W ct s Q =
    (if tr_is_main s then tr_commit_main W ct s Q else Done (True, tr_commit_nested ct s, Q, None))"

text \<open>Others act on the database and the queue, not on the handle.\<close>

definition wait_sem :: "world \<Rightarrow> sem option \<Rightarrow> session \<times> Queue \<Rightarrow> session \<times> Queue" where
  "wait_sem w sm = (\<lambda>((H, D), Q). case sm of None \<Rightarrow> ((H, D), Q)
     | Some x \<Rightarrow> (case wd_served w x (D, Q) of (D, Q) \<Rightarrow> ((H, D), Q)))"

definition wait_retry :: "world \<Rightarrow> nat \<Rightarrow> session \<times> Queue \<Rightarrow> session \<times> Queue" where
  "wait_retry w r = (\<lambda>((H, D), Q). case wd_waited w r (D, Q) of (D, Q) \<Rightarrow> ((H, D), Q))"

text \<open>
  \<open>attempt\<close> is the way from \<open>_tr_retry_label\<close> on, \<open>r\<close> the number of restarts so far; the fuel
  bounds the number of restarts plus the depth of blocks, and \<open>Failed\<close> says it ran out.
  \<open>trFail\<close> in the restart action goes to the label of the enclosing block, but \<open>trAbort\<close> to
  the end of this one; an action that ends runs into \<open>assert(0)\<close>.
\<close>

function exec :: "world \<Rightarrow> nat \<Rightarrow> stmt \<Rightarrow> session \<times> Queue \<Rightarrow> (leaving \<times> session \<times> Queue) outcome"
  and attempt :: "world \<Rightarrow> nat \<Rightarrow> nat \<Rightarrow> stmt \<Rightarrow> CommitType \<Rightarrow> stmt \<Rightarrow> session \<times> Queue \<Rightarrow> (leaving \<times> session \<times> Queue) outcome"
where
  "exec w f Skip st = Done (Next, st)"
| "exec w f (Macro m) (s, Q) = obind (macro_ok w m s) (\<lambda>(ok, s). Done (if ok then Next else To_failed, s, Q))"
| "exec w f TrFail st = Done (To_failed, st)"
| "exec w f TrAbort (s, Q) = obind (tr_abort s) (\<lambda>s. Done (To_success, s, Q))"
| "exec w f (Seq a b) st = obind (exec w f a st) (\<lambda>(e, st). if e = Next then exec w f b st else Done (e, st))"
| "exec w f (TrBlock b ct a) st = attempt w f 0 b ct a st"
| "attempt w 0 r b ct a st = Failed"
| "attempt w (Suc f) r b ct a (s, Q) =
    obind (exec w f b (tr_begin s, Q)) (\<lambda>(e, s, Q).
    if e = To_success then Done (Next, s, Q)
    else if e = Next then
      obind (tr_commit (wd_writer w) ct s Q) (\<lambda>(ok, s, Q, sm).
      if ok then Done (Next, wait_sem w sm (s, Q))
      else attempt w f (Suc r) b ct a (wait_retry w (Suc r) (s, Q)))
    else if \<not> tr_is_main s then
      obind (tr_abort s) (\<lambda>s.
      obind (exec w f a (s, Q)) (\<lambda>(e, st).
      if e = Next then Fault else Done (if e = To_success then Next else e, st)))
    else
      obind (tr_hard_abort s) (\<lambda>s.
      attempt w f (Suc r) b ct a (wait_retry w (Suc r) (s, Q))))"
  by pat_completeness auto
termination
  by (relation "measures [case_sum (\<lambda>(w, f, t, st). f) (\<lambda>(w, f, r, st). f),
      case_sum (\<lambda>(w, f, t, st). Suc (size t)) (\<lambda>(w, f, r, st). 0)]") auto

declare exec.simps(6) [simp del] attempt.simps [simp del]

section \<open>Nested blocks\<close>

lemma access_ok_exec: "access_ok malloc a s = Done (ok, s') \<Longrightarrow> access_exec malloc a s = Done s'"
  by (cases a) (auto simp: obind_eq_Done)

definition world_ok :: "world \<Rightarrow> bool" where
  "world_ok w \<longleftrightarrow> malloc_fresh (wd_malloc w) \<and> node_alloc_fresh (wd_node_alloc w)
     \<and> callback_ok (wd_malloc w) (wd_callback w)"

lemma macro_logged:
  assumes "world_ok w" and "macro_ok w m s = Done (ok, s')"
  shows "logged s s'"
proof (cases m)
  case (Use a)
  with assms show ?thesis by (auto simp: world_ok_def intro: access_logged access_ok_exec)
next
  case (NodeCreate r)
  with assms(2) obtain n where "tr_node_create (wd_node_alloc w) (wd_callback w) r s = Done (n, s')"
    by (auto elim!: obindE)
  with assms(1) show ?thesis by (auto simp: world_ok_def intro: tr_node_create_logged)
next
  case (NodeDelete n)
  with assms show ?thesis by (auto simp: world_ok_def intro: tr_node_delete_logged)
next
  case (Update n)
  with assms show ?thesis by (auto simp: world_ok_def tr_node_update_indexes_def intro: callback_logged)
next
  case (NodeCheck n)
  with assms(2) show ?thesis by simp
qed

text \<open>\<open>trAbort\<close> stands in the body of a block, never in a restart action.\<close>

fun well_placed :: "bool \<Rightarrow> stmt \<Rightarrow> bool" where
  "well_placed inblock TrAbort \<longleftrightarrow> inblock"
| "well_placed inblock (Seq a b) \<longleftrightarrow> well_placed inblock a \<and> well_placed inblock b"
| "well_placed inblock (TrBlock b ct a) \<longleftrightarrow> well_placed True b \<and> well_placed False a"
| "well_placed inblock _ \<longleftrightarrow> True"

text \<open>
  What a statement does inside a transaction: unless \<open>trAbort\<close> leaves the innermost block, it
  only adds to that transaction what an abort takes back.
\<close>

definition inside :: "bool \<Rightarrow> leaving \<Rightarrow> session \<times> Queue \<Rightarrow> session \<times> Queue \<Rightarrow> bool" where
  "inside inblock e st st' \<longleftrightarrow> snd st' = snd st
     \<and> (if e = To_success then inblock \<and> (\<exists>s0. below (fst st) 0 s0 \<and> tr_abort s0 = Done (fst st'))
        else below (fst st) 0 (fst st'))"

lemma inside_trans:
  assumes "inside b Next st st1" and "inside b e st1 st2"
  shows "inside b e st st2"
  using assms below_trans [of "fst st" 0 "fst st1"] by (fastforce simp: inside_def split: if_splits)

lemma below_started: "below s k s' \<Longrightarrow> h_start_time (fst s') = h_start_time (fst s)"
  by (auto simp: below_def)

lemma below_nested: "below s (Suc k) s' \<Longrightarrow> \<not> tr_is_main s'"
  by (auto simp: below_def tr_is_main_def)

text \<open>One block, given what its body and its restart action do.\<close>

lemma nested_attempt:
  assumes "h_start_time (fst s) \<noteq> 0" and body: "exec w f b (tr_begin s, Q) = Done (e, s2, Q2)"
    and ins: "inside True e (tr_begin s, Q) (s2, Q2)"
    and act: "\<And>s3 e1 st4. e = To_failed \<Longrightarrow> \<not> tr_is_main s2 \<Longrightarrow> below s 0 s3 \<Longrightarrow> tr_abort s2 = Done s3 \<Longrightarrow> exec w f a (s3, Q) = Done (e1, st4) \<Longrightarrow> inside False e1 (s3, Q) st4"
    and run: "attempt w (Suc f) r b ct a (s, Q) = Done (e', st')"
  shows "inside False e' (s, Q) st'"
proof -
  have b: "below s 1 (tr_begin s)" using below_begin [OF below_refl assms(1)] by simp
  have Q: "Q2 = Q" using ins by (simp add: inside_def)
  show ?thesis
  proof (cases e)
    case To_success
    with ins obtain s0 where "below (tr_begin s) 0 s0" "tr_abort s0 = Done s2" by (auto simp: inside_def)
    with below_trans [OF b, of s0] below_abort [of s 0 s0] have "below s 0 s2" by auto
    with run body To_success Q show ?thesis by (auto simp: attempt.simps inside_def)
  next
    case Next
    with ins below_trans [OF b] have s2: "below s (Suc 0) s2" by (simp add: inside_def)
    with below_nested have "tr_commit (wd_writer w) ct s2 Q2 = Done (True, tr_commit_nested ct s2, Q2, None)"
      by (auto simp: tr_commit_def)
    with run body Next have "e' = Next" "st' = (tr_commit_nested ct s2, Q2)"
      by (auto simp: attempt.simps wait_sem_def split: prod.splits)
    with below_commit [OF s2] Q show ?thesis by (simp add: inside_def)
  next
    case To_failed
    with ins below_trans [OF b] have s2: "below s (Suc 0) s2" by (simp add: inside_def)
    then obtain s3 where s3: "tr_abort s2 = Done s3" "below s 0 s3" using below_abort by blast
    from run body To_failed below_nested [OF s2] s3(1) Q obtain e1 where e1: "exec w f a (s3, Q) = Done (e1, st')"
        "e1 \<noteq> Next" "e' = (if e1 = To_success then Next else e1)"
      by (auto simp: attempt.simps elim!: obindE split: if_splits)
    from act [OF To_failed below_nested [OF s2] s3(2,1) e1(1)] s3(2) e1(2,3) show ?thesis
      using below_trans [OF s3(2), of "fst st'"] by (auto simp: inside_def split: if_splits)
  qed
qed

lemma exec_inside:
  assumes w: "world_ok w"
  shows "h_start_time (fst (fst st)) \<noteq> 0 \<Longrightarrow> well_placed ab t \<Longrightarrow> exec w f t st = Done (e, st') \<Longrightarrow> inside ab e st st'"
    and "h_start_time (fst (fst st)) \<noteq> 0 \<Longrightarrow> well_placed True b \<Longrightarrow> well_placed False a \<Longrightarrow>
      attempt w f r b ct a st = Done (e, st') \<Longrightarrow> inside False e st st'"
  using w
proof (induction w f t st and w f r b ct a st arbitrary: ab e st' and e st' rule: exec_attempt.induct)
  case (2 w f m s Q)
  then obtain ok s1 where "macro_ok w m s = Done (ok, s1)" "st' = (s1, Q)" "e \<noteq> To_success"
    by (auto elim!: obindE split: if_splits)
  with macro_logged [OF 2(4)] show ?case by (simp add: inside_def logged_below)
next
  case (4 w f s Q)
  then obtain s1 where "tr_abort s = Done s1" "st' = (s1, Q)" "e = To_success" by (auto elim!: obindE)
  with 4(2) below_refl [of s] show ?case unfolding inside_def by auto
next
  case (5 w f a b st)
  then obtain e1 st1 where a: "exec w f a st = Done (e1, st1)"
    and b: "if e1 = Next then exec w f b st1 = Done (e, st') else e = e1 \<and> st' = st1"
    by (auto elim!: obindE split: if_splits)
  have i: "inside ab e1 st st1" using 5(1) [OF 5(3) _ a 5(6)] 5(4) by simp
  show ?case
  proof (cases "e1 = Next")
    case True
    with i 5(3) have "h_start_time (fst (fst st1)) \<noteq> 0" by (auto simp: inside_def dest: below_started)
    then have "inside ab e st1 st'" using 5(2) [OF a refl True] 5(4,6) b True by simp
    with i True show ?thesis by (blast intro: inside_trans)
  next
    case False
    with i b show ?thesis by simp
  qed
next
  case (6 w f b ct a st)
  then have "inside False e st st'" by (simp add: exec.simps)
  then show ?case by (auto simp: inside_def)
next
  case (7 w r b ct a st)
  then show ?case by (simp add: attempt.simps)
next
  case (8 w f r b ct a s Q)
  have "h_start_time (fst s) \<noteq> 0" using 8(5) by simp
  then have b: "h_start_time (fst (tr_begin s)) \<noteq> 0" by (auto simp: tr_begin_def Let_def split: prod.split)
  from 8(8) obtain e1 s2 Q2 where body: "exec w f b (tr_begin s, Q) = Done (e1, s2, Q2)"
    by (auto simp: attempt.simps elim!: obindE)
  have ins: "inside True e1 (tr_begin s, Q) (s2, Q2)" using 8(1) b 8(6) body 8(9) by simp
  show ?case
  proof (rule nested_attempt [OF _ body ins _ 8(8)])
    show "h_start_time (fst s) \<noteq> 0" using 8(5) by simp
    fix s3 e3 st4
    assume e: "e1 = To_failed" "\<not> tr_is_main s2" and s3: "below s 0 s3" "tr_abort s2 = Done s3" "exec w f a (s3, Q) = Done (e3, st4)"
    then have "h_start_time (fst s3) \<noteq> 0" using 8(5) by (auto dest: below_started)
    have Q: "Q2 = Q" using ins by (simp add: inside_def)
    show "inside False e3 (s3, Q) st4"
      using 8(3) [OF body refl refl] e s3 8(7,9) Q \<open>h_start_time (fst s3) \<noteq> 0\<close> by auto
  qed
qed (auto simp: inside_def below_refl)

section \<open>The main block\<close>

text \<open>A handle between transactions.\<close>

definition resting :: "session \<Rightarrow> bool" where
  "resting s \<longleftrightarrow> handle_cleanup (fst s) = fst s"

lemma restingD:
  assumes "resting s"
  shows "h_start_time (fst s) = 0" "h_log (fst s) = []" "h_transactions (fst s) = []"
  using arg_cong [where f = h_start_time, OF assms [unfolded resting_def]]
    arg_cong [where f = h_log, OF assms [unfolded resting_def]]
    arg_cong [where f = h_transactions, OF assms [unfolded resting_def]]
  by (simp_all add: handle_cleanup_def)

lemma resting_cleanup [simp]: "resting (handle_cleanup H, D)"
  by (simp add: resting_def handle_cleanup_def)

lemma resting_waits [simp]:
  "resting (fst (wait_sem w sm st)) = resting (fst st)" "resting (fst (wait_retry w r st)) = resting (fst st)"
  by (auto simp: resting_def wait_sem_def wait_retry_def split: prod.split option.split)

lemma tr_begin_main:
  "resting s \<Longrightarrow> tr_begin s = ((fst s)\<lparr>h_start_time := d_time (snd s)\<rparr>, snd s)"
  using restingD(1) [of s] by (cases s) (simp add: tr_begin_def)

lemma same_view_time [simp]: "same_view (D\<lparr>d_time := t\<rparr>) D"
  by (simp add: same_view_def)

text \<open>Aborting the whole, from any state inside the main transaction, with the clock advanced.\<close>

lemma abort_main_back:
  assumes "below s 0 (H, D)" and "h_log (fst s) = []"
  shows "\<exists>s'. tr_abort_main (H, D\<lparr>d_time := t\<rparr>) = Done s' \<and> resting s' \<and> same_view (snd s') (snd s)"
proof -
  let ?D = "D\<lparr>d_time := t\<rparr>"
  obtain items where "undoes s items (H, D)" using assms(1) by (auto simp: below_def)
  with assms(2) have view: "same_view (undo_all t (h_log H) D) (snd s)" by (simp add: undoes_def)
  let ?D1 = "undo_all t (h_log H) ?D"
  have r: "rollback_log None t (h_log H) ?D = Done ([], ?D1)"
    using rollback_log_ok [of 0 "h_log H" t ?D] by simp
  let ?D2 = "unlock_all (h_ptr H) (t + 2) (h_acquired_locks H) (?D1\<lparr>d_time := t + 2\<rparr>)"
  have "same_view ?D2 (?D1\<lparr>d_time := t + 2\<rparr>)"
    using unlock_all_keeps [of "h_ptr H" "t + 2" "h_acquired_locks H" "?D1\<lparr>d_time := t + 2\<rparr>"] by blast
  then have "same_view ?D2 ?D1" using same_view_time same_view_trans by blast
  moreover have "same_view ?D1 (undo_all t (h_log H) D)" by (rule undo_all_cong) simp
  ultimately have "same_view ?D2 (snd s)" using view same_view_trans by blast
  moreover obtain H' where "tr_abort_main (H, ?D) = Done (handle_cleanup H', ?D2)"
    using r by (auto simp: tr_abort_main_def tr_handle_rollback_def Let_def atomic_simps tr_unlock_def)
  ultimately show ?thesis by (intro exI [of _ "(handle_cleanup H', ?D2)"]) simp
qed

lemma abort_main_back_now:
  assumes "below s 0 s2" and "h_log (fst s) = []"
  shows "\<exists>s'. tr_abort_main s2 = Done s' \<and> resting s' \<and> same_view (snd s') (snd s)"
  using abort_main_back [of s "fst s2" "snd s2" "d_time (snd s2)"] assms by simp

lemma commit_main_done:
  "tr_commit_main W ct s Q = Done (True, s', Q', sm) \<Longrightarrow> resting s'"
  by (auto simp: tr_commit_main_def Let_def commit_read_only_def commit_finish_def
      elim!: obindE split: if_splits prod.splits)

lemma pushed_job:
  "upd_job (length (q_jobs (output_queue_push J Q)) - Suc 0) f (output_queue_push J Q) = output_queue_push (f J) Q"
  by (simp add: upd_job_def output_queue_push_eq)

lemma commit_main_failed:
  assumes "tr_commit_main W ct (H, D) Q = Done (False, s', Q', sm)"
  shows "tr_abort_main (H, D\<lparr>d_time := d_time D + 2\<rparr>) = Done s'"
    and "\<exists>J. Q' = output_queue_push J Q \<and> o_W J = W"
proof -
  show "tr_abort_main (H, D\<lparr>d_time := d_time D + 2\<rparr>) = Done s'"
    using assms by (auto simp: tr_commit_main_def Let_def commit_read_only_def commit_push_def commit_finish_def atomic_simps
        elim!: obindE split: if_splits prod.splits)
  show "\<exists>J. Q' = output_queue_push J Q \<and> o_W J = W"
    using assms by (auto simp: tr_commit_main_def Let_def commit_read_only_def commit_push_def commit_finish_def atomic_simps
        pushed_job output_list_def elim!: obindE split: if_splits prod.splits)
qed

text \<open>
  Attempts that failed: the body went to \<open>tr_failed\<close> and the whole was aborted, or it ran to its
  end and its commit was refused. Either way the handle is free again, the database looks as it
  did, and the queue has at most one more job, which is empty. Then other threads act and the
  next attempt begins.
\<close>

inductive retried :: "world \<Rightarrow> stmt \<Rightarrow> CommitType \<Rightarrow> session \<times> Queue \<Rightarrow> nat \<Rightarrow> session \<times> Queue \<Rightarrow> bool" for w b ct st where
  retried_none: "retried w b ct st 0 st"
| retried_failed: "retried w b ct st r (s0, Q0)
    \<Longrightarrow> exec w f b (tr_begin s0, Q0) = Done (To_failed, s2, Q0) \<Longrightarrow> tr_hard_abort s2 = Done s1
    \<Longrightarrow> resting s1 \<Longrightarrow> same_view (snd s1) (snd s0)
    \<Longrightarrow> retried w b ct st (Suc r) (wait_retry w (Suc r) (s1, Q0))"
| retried_refused: "retried w b ct st r (s0, Q0)
    \<Longrightarrow> exec w f b (tr_begin s0, Q0) = Done (Next, s2, Q0)
    \<Longrightarrow> tr_commit_main (wd_writer w) ct s2 Q0 = Done (False, s1, Q1, sm)
    \<Longrightarrow> resting s1 \<Longrightarrow> same_view (snd s1) (snd s0)
    \<Longrightarrow> Q1 = output_queue_push J Q0 \<Longrightarrow> o_W J = wd_writer w
    \<Longrightarrow> retried w b ct st (Suc r) (wait_retry w (Suc r) (s1, Q1))"

text \<open>
  How the last attempt ended: the body left by \<open>trAbort\<close>, which aborted the main transaction, or
  it ran to its end and was committed.
\<close>

definition ended :: "world \<Rightarrow> stmt \<Rightarrow> CommitType \<Rightarrow> session \<times> Queue \<Rightarrow> session \<times> Queue \<Rightarrow> bool" where
  "ended w b ct st0 st' \<longleftrightarrow>
     (\<exists>f s1. exec w f b (tr_begin (fst st0), snd st0) = Done (To_success, fst st', snd st0)
         \<and> tr_abort_main s1 = Done (fst st')
         \<and> same_view (snd (fst st')) (snd (fst st0)) \<and> snd st' = snd st0)
     \<or> (\<exists>f s1 s2 Q1 sm. exec w f b (tr_begin (fst st0), snd st0) = Done (Next, s1, snd st0)
         \<and> tr_commit_main (wd_writer w) ct s1 (snd st0) = Done (True, s2, Q1, sm)
         \<and> st' = wait_sem w sm (s2, Q1))"

text \<open>More fuel gives the same answer.\<close>

lemma obind_more:
  "obind m f = Done y \<Longrightarrow> (\<And>x. m = Done x \<Longrightarrow> m' = Done x) \<Longrightarrow> (\<And>x. m = Done x \<Longrightarrow> f x = Done y \<Longrightarrow> f' x = Done y)
    \<Longrightarrow> obind m' f' = Done y"
  by (cases m) auto

lemma exec_more_fuel:
  shows "exec w f t st = Done x \<Longrightarrow> exec w (Suc f) t st = Done x"
    and "attempt w f r b ct a st = Done x \<Longrightarrow> attempt w (Suc f) r b ct a st = Done x"
proof (induction w f t st and w f r b ct a st arbitrary: x and x rule: exec_attempt.induct)
  case (5 w f a b st)
  then show ?case by (fastforce simp: obind_eq_Done split: if_splits)
next
  case (8 w f r b ct a s Q)
  show ?case unfolding attempt.simps(2) [of w "Suc f"]
  proof (rule obind_more [OF 8(5) [unfolded attempt.simps(2)]])
    fix y
    assume y: "exec w f b (tr_begin s, Q) = Done y"
    then show "exec w (Suc f) b (tr_begin s, Q) = Done y" by (rule 8(1))
    obtain e1 s2 Q2 where y2: "y = (e1, s2, Q2)" by (metis prod_cases3)
    note IH = 8(2) [OF y y2 [symmetric] refl _ _ _ refl refl refl] 8(3,4) [OF y y2 [symmetric] refl]
    assume "(case y of (e, s, Q) \<Rightarrow> if e = To_success then Done (Next, s, Q)
        else if e = Next then obind (tr_commit (wd_writer w) ct s Q) (\<lambda>(ok, s, Q, sm).
          if ok then Done (Next, wait_sem w sm (s, Q)) else attempt w f (Suc r) b ct a (wait_retry w (Suc r) (s, Q)))
        else if \<not> tr_is_main s then obind (tr_abort s) (\<lambda>s. obind (exec w f a (s, Q)) (\<lambda>(e, st).
          if e = Next then Fault else Done (if e = To_success then Next else e, st)))
        else obind (tr_hard_abort s) (\<lambda>s. attempt w f (Suc r) b ct a (wait_retry w (Suc r) (s, Q)))) = Done x"
    then show "(case y of (e, s, Q) \<Rightarrow> if e = To_success then Done (Next, s, Q)
        else if e = Next then obind (tr_commit (wd_writer w) ct s Q) (\<lambda>(ok, s, Q, sm).
          if ok then Done (Next, wait_sem w sm (s, Q)) else attempt w (Suc f) (Suc r) b ct a (wait_retry w (Suc r) (s, Q)))
        else if \<not> tr_is_main s then obind (tr_abort s) (\<lambda>s. obind (exec w (Suc f) a (s, Q)) (\<lambda>(e, st).
          if e = Next then Fault else Done (if e = To_success then Next else e, st)))
        else obind (tr_hard_abort s) (\<lambda>s. attempt w (Suc f) (Suc r) b ct a (wait_retry w (Suc r) (s, Q)))) = Done x"
      using y2 by (cases e1) (auto split: if_splits intro: IH elim!: obind_more)
  qed
qed (simp_all add: exec.simps attempt.simps)

lemma main_attempt:
  assumes w: "world_ok w" "\<And>r x. d_time (fst (wd_waited w r x)) \<noteq> 0" and b: "well_placed True b"
  shows "resting s0 \<Longrightarrow> d_time (snd s0) \<noteq> 0 \<Longrightarrow> retried w b ct st r (s0, Q0) \<Longrightarrow>
    attempt w f r b ct a (s0, Q0) = Done (e, st') \<Longrightarrow>
    e = Next \<and> resting (fst st') \<and> (\<exists>n st0. retried w b ct st n st0 \<and> ended w b ct st0 st')"
proof (induction f arbitrary: r s0 Q0)
  case 0
  then show ?case by (simp add: attempt.simps)
next
  case (Suc f)
  let ?s = "tr_begin s0"
  have s: "h_start_time (fst ?s) \<noteq> 0" "h_log (fst ?s) = []" "h_transactions (fst ?s) = []" "snd ?s = snd s0"
    using Suc.prems(1,2) restingD [OF Suc.prems(1)] by (simp_all add: tr_begin_main)
  from Suc.prems(4) obtain e1 s2 Q2 where body: "exec w f b (?s, Q0) = Done (e1, s2, Q2)"
    by (auto simp: attempt.simps elim!: obindE)
  have ins: "inside True e1 (?s, Q0) (s2, Q2)"
    by (rule exec_inside(1) [OF w(1) _ b body]) (simp add: s)
  then have Q2: "Q2 = Q0" by (simp add: inside_def)
  have again: ?case if "resting s3" "retried w b ct st (Suc r) (wait_retry w (Suc r) (s3, Q3))"
      "attempt w f (Suc r) b ct a (wait_retry w (Suc r) (s3, Q3)) = Done (e, st')" for s3 Q3
  proof -
    obtain s4 Q4 where e: "wait_retry w (Suc r) (s3, Q3) = (s4, Q4)" by fastforce
    from e have d: "d_time (snd s4) \<noteq> 0"
      using w(2) [of "Suc r" "(snd s3, Q3)"] by (cases s3) (auto simp: wait_retry_def split: prod.splits)
    have "resting s4" using resting_waits(2) [of w "Suc r" "(s3, Q3)"] that(1) by (simp add: e)
    from Suc.IH [OF this d that(2,3) [unfolded e]] show ?thesis .
  qed
  have main: "tr_is_main s2" "below ?s 0 s2" if "e1 \<noteq> To_success"
    using ins that s(3) by (auto simp: inside_def below_def tr_is_main_def)
  show ?case
  proof (cases e1)
    case To_success
    with ins obtain s1 where s1: "below ?s 0 s1" "tr_abort s1 = Done s2" by (auto simp: inside_def)
    with s(3) have "tr_abort_main s1 = Done s2" by (auto simp: tr_abort_def below_def)
    with abort_main_back_now [OF s1(1) s(2)] have "resting s2" "same_view (snd s2) (snd s0)" by (auto simp: s(4))
    moreover have "e = Next" "st' = (s2, Q0)"
      using Suc.prems(4) body To_success Q2 by (auto simp: attempt.simps)
    ultimately have "ended w b ct (s0, Q0) st'" "e = Next" "resting (fst st')"
      using body To_success Q2 \<open>tr_abort_main s1 = Done s2\<close> unfolding ended_def by auto
    with Suc.prems(3) show ?thesis by blast
  next
    case Next
    from Suc.prems(4) body Next main(1) Q2 obtain ok s3 Q3 sm where
      c: "tr_commit_main (wd_writer w) ct s2 Q0 = Done (ok, s3, Q3, sm)"
      "if ok then e = Next \<and> st' = wait_sem w sm (s3, Q3)
       else attempt w f (Suc r) b ct a (wait_retry w (Suc r) (s3, Q3)) = Done (e, st')"
      by (auto simp: attempt.simps tr_commit_def elim!: obindE split: if_splits)
    show ?thesis
    proof (cases ok)
      case True
      with c have "resting s3" "e = Next" "st' = wait_sem w sm (s3, Q3)" by (auto intro: commit_main_done)
      moreover have "ended w b ct (s0, Q0) st'"
        unfolding ended_def
        by (intro disjI2 exI [of _ f] exI [of _ s2] exI [of _ s3] exI [of _ Q3] exI [of _ sm])
          (use body Next Q2 c(1) True calculation(3) in simp)
      ultimately show ?thesis using Suc.prems(3) by auto
    next
      case False
      obtain H D where s2: "s2 = (H, D)" by fastforce
      from commit_main_failed [of "wd_writer w" ct H D Q0 s3 Q3 sm] c(1) False
      have f: "tr_abort_main (H, D\<lparr>d_time := d_time D + 2\<rparr>) = Done s3" "\<exists>J. Q3 = output_queue_push J Q0 \<and> o_W J = wd_writer w"
        by (simp_all add: s2)
      with abort_main_back [of ?s H D "d_time D + 2"] main(2) Next s(2) have s3: "resting s3" "same_view (snd s3) (snd s0)"
        by (auto simp: s2 s(4))
      from f(2) obtain J where J: "Q3 = output_queue_push J Q0" "o_W J = wd_writer w" by blast
      have "exec w f b (?s, Q0) = Done (Next, s2, Q0)" "tr_commit_main (wd_writer w) ct s2 Q0 = Done (False, s3, Q3, sm)"
        using body Next Q2 c(1) False by simp_all
      from retried_refused [OF Suc.prems(3) this s3 J] again [OF s3(1)] c(2) False show ?thesis by simp
    qed
  next
    case To_failed
    from abort_main_back_now [OF main(2) s(2)] To_failed obtain s3 where
      s3: "tr_abort_main s2 = Done s3" "resting s3" "same_view (snd s3) (snd s0)" by (auto simp: s(4))
    with Suc.prems(4) body To_failed main(1) Q2
    have run: "attempt w f (Suc r) b ct a (wait_retry w (Suc r) (s3, Q0)) = Done (e, st')"
      by (auto simp: attempt.simps tr_hard_abort_def)
    have "exec w f b (?s, Q0) = Done (To_failed, s2, Q0)" "tr_hard_abort s2 = Done s3"
      using body To_failed Q2 s3(1) by (simp_all add: tr_hard_abort_def)
    from again [OF s3(2) retried_failed [OF Suc.prems(3) this s3(2,3)] run] show ?thesis .
  qed
qed

text \<open>
  \<open>trAbort\<close> as a restart action aborts the enclosing transaction, but control stays in its body:
  what follows runs without a transaction.
\<close>

lemma restart_action_aborts_outer:
  assumes "resting s" and "d_time (snd s) \<noteq> 0"
  shows "\<exists>s1. resting s1 \<and> same_view (snd s1) (snd s)
    \<and> exec w (Suc f) (Seq (TrBlock TrFail ct TrAbort) rest) (tr_begin s, Q) = exec w (Suc f) rest (s1, Q)"
proof -
  let ?s = "tr_begin s"
  have s: "h_start_time (fst ?s) \<noteq> 0" "h_log (fst ?s) = []" "h_transactions (fst ?s) = []" "snd ?s = snd s"
    using assms(2) restingD [OF assms(1)] by (simp_all add: tr_begin_main [OF assms(1)])
  have b: "below ?s (Suc 0) (tr_begin ?s)" by (rule below_begin [OF below_refl s(1)])
  from below_abort [OF b] obtain s3 where s3: "tr_abort (tr_begin ?s) = Done s3" "below ?s 0 s3" by blast
  from abort_main_back_now [OF s3(2) s(2)] obtain s1 where
    s1: "tr_abort_main s3 = Done s1" "resting s1" "same_view (snd s1) (snd s)" by (auto simp: s(4))
  have "tr_abort s3 = Done s1" using s3(2) s(3) s1(1) by (auto simp: tr_abort_def below_def)
  with s3(1) below_nested [OF b] have "exec w (Suc f) (TrBlock TrFail ct TrAbort) (?s, Q) = Done (Next, s1, Q)"
    by (simp add: exec.simps(6) attempt.simps)
  with s1(2,3) show ?thesis by auto
qed

text \<open>
  C25: a transaction between \<open>trBegin\<close> and \<open>trCommit\<close> happens once or not at all. Take a handle
  at rest, any body of accesses, creations, deletions, jumps to \<open>trFail\<close> and \<open>trAbort\<close> and nested
  blocks with their restart actions, and any other threads acting while the block waits. When
  the block returns, control is behind it and the handle is at rest again. Every attempt before
  the last either ran into \<open>tr_failed\<close> and was aborted or ran to its end and was refused by
  \<open>tr_commit\<close>; it left the database as it looked when that attempt began, and an empty job in
  the queue if it was refused. The last one either left the body by \<open>trAbort\<close>, which aborted the
  transaction and pushed no job, or ran the body to its end and was committed, and that commit
  is all the block has done: a block never returns silently after a failure.
\<close>

theorem block_commits_once:
  assumes "world_ok w" and "\<And>r x. d_time (fst (wd_waited w r x)) \<noteq> 0"
    and "well_placed True body" and "resting s" and "d_time (snd s) \<noteq> 0"
    and "exec w f (TrBlock body ct action) (s, Q) = Done (e, s', Q')"
  shows "exec w (f + g) (TrBlock body ct action) (s, Q) = Done (Next, s', Q') \<and> resting s'
    \<and> (\<exists>n st0. retried w body ct (s, Q) n st0 \<and> ended w body ct st0 (s', Q'))"
proof -
  have "attempt w f 0 body ct action (s, Q) = Done (e, s', Q')" using assms(6) by (simp add: exec.simps)
  from main_attempt [OF assms(1-5) retried_none this]
  have "e = Next" "resting s'" "\<exists>n st0. retried w body ct (s, Q) n st0 \<and> ended w body ct st0 (s', Q')" by simp_all
  moreover have "exec w (f + g) (TrBlock body ct action) (s, Q) = Done (e, s', Q')"
    by (induction g) (simp_all add: assms(6) exec_more_fuel(1))
  ultimately show ?thesis by blast
qed

text \<open>
  Node 4096 is held by another handle, which lets go of it during the first wait; the second
  attempt writes the node and is committed.
\<close>

definition demo_held :: Database where
  "demo_held = set_lock (Node_lock 4096) \<lparr>l_value = 6\<rparr> demo_database"

definition demo_world :: world where
  "demo_world = \<lparr>wd_malloc = demo_malloc, wd_node_alloc = demo_node_alloc, wd_callback = (\<lambda>ev n s. Done (True, s)),
     wd_writer = writer_init (\<lambda>_. 0), wd_served = (\<lambda>sm x. x), wd_waited = (\<lambda>r (D, Q). (demo_database, Q))\<rparr>"

abbreviation demo_rest :: "Database \<Rightarrow> session" where
  "demo_rest D \<equiv> (fst (db_handle_init 2 []), D)"

definition demo_queue :: Queue where
  "demo_queue = \<lparr>q_jobs = [], q_freed = [], q_counter = 0, q_sems = (\<lambda>_. 0)\<rparr>"

lemma demo_block_ok: "world_ok demo_world" "d_time (fst (wd_waited demo_world r x)) \<noteq> 0"
  "resting (demo_rest D)"
  using demo_ok by (simp_all add: world_ok_def demo_world_def demo_database_def resting_def handle_cleanup_def
      db_handle_init_def split: prod.split)

lemma demo_attempts:
  "exec demo_world 1 (Macro (Use (Write 4096 0 (VBits [7])))) (tr_begin (demo_rest demo_held), demo_queue)
     = Done (To_failed, tr_begin (demo_rest demo_held), demo_queue)"
  "\<exists>s1. exec demo_world 0 (Macro (Use (Write 4096 0 (VBits [7])))) (tr_begin (demo_rest demo_database), demo_queue)
     = Done (Next, s1, demo_queue) \<and> n_cells (d_nodes (snd s1) 4096) ! 0 = Bits [7]
     \<and> h_log (fst s1) \<noteq> [] \<and> valid_at_commit s1 \<and> (\<exists>es. log_entries (snd s1) (rev (h_log (fst s1))) = Some es) \<and> tr_is_main s1"
  by (simp_all add: demo_held_def demo_world_def demo_defs valid_at_commit_def tr_validate_def Let_def tr_is_main_def)

lemma demo_retry:
  "tr_hard_abort (tr_begin (demo_rest demo_held)) = Done (demo_rest (demo_held\<lparr>d_time := 5\<rparr>))"
  "wait_retry demo_world 1 (demo_rest D, demo_queue) = (demo_rest demo_database, demo_queue)"
  "wait_sem demo_world sm st = st"
  "tr_is_main (tr_begin (demo_rest demo_held))"
  by (simp_all add: tr_is_main_def demo_held_def demo_defs tr_hard_abort_def tr_abort_main_def tr_handle_rollback_def Let_def
      tr_unlock_def handle_cleanup_def wait_retry_def wait_sem_def demo_world_def split: prod.split option.split)

theorem block_commits_once_witness:
  "\<exists>s' Q' J. exec demo_world 7 (TrBlock (Macro (Use (Write 4096 0 (VBits [7])))) CT_ASYNC Skip) (demo_rest demo_held, demo_queue)
       = Done (Next, s', Q')
     \<and> resting s' \<and> Q' = output_queue_push J demo_queue \<and> w_out (o_W J) \<noteq> []"
proof -
  let ?b = "Macro (Use (Write 4096 0 (VBits [7])))"
  obtain H1 D1 es where s1: "exec demo_world 0 ?b (tr_begin (demo_rest demo_database), demo_queue) = Done (Next, (H1, D1), demo_queue)"
      "h_log H1 \<noteq> []" "valid_at_commit (H1, D1)" "log_entries D1 (rev (h_log H1)) = Some es" "tr_is_main (H1, D1)"
    using demo_attempts(2) by auto
  have W: "w_ready (wd_writer demo_world)" "w_out (wd_writer demo_world) = []"
    by (simp_all add: demo_world_def w_ready_def)
  from commit_valid_ok [OF s1(2,3) W s1(4) refl, of CT_ASYNC demo_queue] obtain s2 J where
    c: "tr_commit_main (wd_writer demo_world) CT_ASYNC (H1, D1) demo_queue
        = Done (True, s2, output_queue_push J demo_queue, Some (commit_sem (effective_type CT_ASYNC H1) H1))"
      "w_out (o_W J) = root_element True (enc_transaction es)" by blast
  have "attempt demo_world 1 1 ?b CT_ASYNC Skip (demo_rest demo_database, demo_queue) = Done (Next, s2, output_queue_push J demo_queue)"
    unfolding One_nat_def attempt.simps using s1 c(1) demo_retry(3) by (simp add: tr_commit_def)
  then have "exec demo_world 2 (TrBlock ?b CT_ASYNC Skip) (demo_rest demo_held, demo_queue) = Done (Next, s2, output_queue_push J demo_queue)"
    unfolding numeral_2_eq_2 exec.simps(6) attempt.simps(2) using demo_attempts(1) demo_retry by simp
  from block_commits_once [OF demo_block_ok(1,2) _ demo_block_ok(3) _ this, of 5]
  have "exec demo_world 7 (TrBlock ?b CT_ASYNC Skip) (demo_rest demo_held, demo_queue) = Done (Next, s2, output_queue_push J demo_queue)"
    "resting s2"
    by (simp_all add: demo_held_def demo_database_def)
  moreover have "w_out (o_W J) \<noteq> []" unfolding c(2) by (simp add: root_element_def element_body_def)
  ultimately show ?thesis by blast
qed

end
