(* ===== verification/Sync.thy ===== *)
theory Sync
  imports Complex_Main Commit
begin

text \<open>
  The thread that requests a sync now and then: \<open>database_set_sync_period\<close> and
  \<open>database_get_sync_period\<close> of \<open>database.c\<close>, \<open>double_to_timespec\<close> and \<open>sync_thread\<close> of
  \<open>threads.c\<close>. Time is counted in nanoseconds; a thread that does not sleep is taken to run at
  once. A \<open>double\<close> is a rational, \<open>rnd\<close> the rounding of its arithmetic.
\<close>

section \<open>Durations\<close>

text \<open>
  What IEEE rounding to nearest guarantees for the numbers at hand: it is monotone, keeps the
  sign and is off by at most the 53rd binary digit.
\<close>

definition rounding :: "(rat \<Rightarrow> rat) \<Rightarrow> bool" where
  "rounding rnd \<longleftrightarrow> mono rnd \<and> (\<forall>x \<ge> 0. 0 \<le> rnd x \<and> \<bar>rnd x - x\<bar> \<le> x / 2 ^ 53)"

text \<open>Seconds and nanoseconds; the cast to \<open>time_t\<close> and to \<open>long\<close> cuts the fraction off.\<close>

definition double_to_timespec :: "(rat \<Rightarrow> rat) \<Rightarrow> rat \<Rightarrow> int \<times> int" where
  "double_to_timespec rnd d =
    (let sec = \<lfloor>d\<rfloor>;
         nsec = \<lfloor>rnd (rnd (rnd (rnd (d - of_int sec) * 1000) * 1000) * 1000)\<rfloor>
     in (sec, if nsec > 999999999 then 999999999 else nsec))"

definition timespec_ns :: "int \<times> int \<Rightarrow> int" where
  "timespec_ns = (\<lambda>(sec, nsec). sec * 1000000000 + nsec)"

definition sleep_ns :: "(rat \<Rightarrow> rat) \<Rightarrow> rat \<Rightarrow> nat" where
  "sleep_ns rnd d = nat (timespec_ns (double_to_timespec rnd d))"

lemma rounding_mono: "rounding rnd \<Longrightarrow> x \<le> y \<Longrightarrow> rnd x \<le> rnd y"
  by (auto simp: rounding_def dest: monoD)

lemma rounding_nonneg: "rounding rnd \<Longrightarrow> 0 \<le> x \<Longrightarrow> 0 \<le> rnd x"
  by (simp add: rounding_def)

lemma timespec_bounds:
  assumes "rounding rnd" and "0 \<le> d" and "double_to_timespec rnd d = (sec, nsec)"
  shows "sec = \<lfloor>d\<rfloor>" and "0 \<le> sec" and "0 \<le> nsec" and "nsec \<le> 999999999"
proof -
  have "0 \<le> d - of_int \<lfloor>d\<rfloor>" by simp
  then have "0 \<le> rnd (rnd (rnd (rnd (d - of_int \<lfloor>d\<rfloor>) * 1000) * 1000) * 1000)"
    by (intro rounding_nonneg [OF assms(1)] mult_nonneg_nonneg) simp_all
  then show "sec = \<lfloor>d\<rfloor>" "0 \<le> sec" "0 \<le> nsec" "nsec \<le> 999999999"
    using assms(2,3) by (auto simp: double_to_timespec_def Let_def split: if_splits)
qed

text \<open>A longer period is a longer sleep: the cap keeps the fraction below a second.\<close>

lemma sleep_mono:
  assumes r: "rounding rnd" and "0 \<le> d" and "d \<le> e"
  shows "sleep_ns rnd d \<le> sleep_ns rnd e"
proof -
  obtain s n s' n' where t: "double_to_timespec rnd d = (s, n)" "double_to_timespec rnd e = (s', n')" by fastforce
  note b = timespec_bounds [OF r assms(2) t(1)] timespec_bounds [OF r _ t(2)]
  have "s \<le> s'" using b assms(2,3) by (simp add: floor_mono)
  moreover have "n \<le> n'" if "s = s'"
  proof -
    have "\<lfloor>rnd (rnd (rnd (rnd (d - of_int s) * 1000) * 1000) * 1000)\<rfloor> \<le> \<lfloor>rnd (rnd (rnd (rnd (e - of_int s) * 1000) * 1000) * 1000)\<rfloor>"
      using assms(3) by (intro floor_mono rounding_mono [OF r] mult_right_mono) simp_all
    moreover have "n = min \<lfloor>rnd (rnd (rnd (rnd (d - of_int s) * 1000) * 1000) * 1000)\<rfloor> 999999999"
      "n' = min \<lfloor>rnd (rnd (rnd (rnd (e - of_int s) * 1000) * 1000) * 1000)\<rfloor> 999999999"
      using t that by (auto simp: double_to_timespec_def Let_def min_def)
    ultimately show ?thesis by (simp only: min.mono)
  qed
  ultimately have "s * 1000000000 + n \<le> s' * 1000000000 + n'" using b assms(2,3) by (cases "s = s'") auto
  then show ?thesis by (simp add: sleep_ns_def timespec_ns_def t)
qed

text \<open>Four roundings are off by less than a nanosecond, the cut by another one.\<close>

lemma sleep_accurate:
  assumes r: "rounding rnd" and "0 \<le> d"
  shows "of_nat (sleep_ns rnd d) \<le> d * 1000000000 + 1" and "d * 1000000000 < of_nat (sleep_ns rnd d) + 2"
proof -
  obtain s n where t: "double_to_timespec rnd d = (s, n)" by fastforce
  note b = timespec_bounds [OF r assms(2) t]
  define x where "x = d - of_int s"
  have x: "0 \<le> x" "x < 1" using b(1) by (simp_all add: x_def) linarith
  have rnd: "0 \<le> rnd y" "rnd y \<le> y + y / 2 ^ 53" "y \<le> rnd y + y / 2 ^ 53" if "0 \<le> y" for y
  proof -
    have "0 \<le> rnd y" "\<bar>rnd y - y\<bar> \<le> y / 2 ^ 53" using r that by (simp_all add: rounding_def)
    then show "0 \<le> rnd y" "rnd y \<le> y + y / 2 ^ 53" "y \<le> rnd y + y / 2 ^ 53" unfolding abs_le_iff by linarith+
  qed
  define a1 a2 a3 a4 where a: "a1 = rnd x" "a2 = rnd (a1 * 1000)" "a3 = rnd (a2 * 1000)" "a4 = rnd (a3 * 1000)"
  have a1: "0 \<le> a1" "a1 \<le> x + x / 2 ^ 53" "x \<le> a1 + x / 2 ^ 53" using rnd [OF x(1)] by (simp_all only: a)
  have a2: "0 \<le> a2" "a2 \<le> a1 * 1000 + a1 * 1000 / 2 ^ 53" "a1 * 1000 \<le> a2 + a1 * 1000 / 2 ^ 53"
    using rnd [of "a1 * 1000"] a1(1) unfolding a(2) by simp_all
  have a3: "0 \<le> a3" "a3 \<le> a2 * 1000 + a2 * 1000 / 2 ^ 53" "a2 * 1000 \<le> a3 + a2 * 1000 / 2 ^ 53"
    using rnd [of "a2 * 1000"] a2(1) unfolding a(3) by simp_all
  have a4: "0 \<le> a4" "a4 \<le> a3 * 1000 + a3 * 1000 / 2 ^ 53" "a3 * 1000 \<le> a4 + a3 * 1000 / 2 ^ 53"
    using rnd [of "a3 * 1000"] a3(1) unfolding a(4) by simp_all
  have c: "(2 :: rat) ^ 53 = 9007199254740992" by simp
  note steps = a1 [unfolded c] a2 [unfolded c] a3 [unfolded c] a4 [unfolded c]
  have e1: "a4 \<le> x * 1000000000 + 1" using steps x by linarith
  have e2: "x * 1000000000 \<le> a4 + 1" using steps x by linarith
  have n: "n = min \<lfloor>a4\<rfloor> 999999999"
    using t b(1) by (auto simp: double_to_timespec_def Let_def min_def a x_def)
  have "of_int n \<le> a4" "a4 < of_int n + 1 \<or> n = 999999999"
    using n by (auto simp: min_def split: if_splits) linarith+
  with e1 e2 x have "of_int n \<le> x * 1000000000 + 1" "x * 1000000000 < of_int n + 2" by auto
  moreover have "(of_nat (sleep_ns rnd d) :: rat) = of_int s * 1000000000 + of_int n"
    using b by (simp add: sleep_ns_def timespec_ns_def t)
  ultimately show "of_nat (sleep_ns rnd d) \<le> d * 1000000000 + 1" "d * 1000000000 < of_nat (sleep_ns rnd d) + 2"
    by (simp_all add: x_def algebra_simps)
qed

section \<open>The thread and its period\<close>

text \<open>Where the thread is in its loop: before the message, before it reads the period, asleep.\<close>

datatype helper = Stopped | Sending | Reading | Sleeping nat

record Sync =
  sy_period :: rat
  sy_thread :: helper
  sy_queue :: Queue

text \<open>The \<open>double\<close> nearest to \<open>0.001\<close>.\<close>

definition min_period :: rat where
  "min_period = 1152921504606847 / 1152921504606846976"

definition database_get_sync_period :: "Sync \<Rightarrow> rat" where
  "database_get_sync_period S = sy_period S"

definition send_sync_me :: "Writer \<Rightarrow> Sync \<Rightarrow> Sync" where
  "send_sync_me W S = S\<lparr>sy_queue := sendServiceMsg W DB_SERVICE__SYNC_ME None (sy_queue S)\<rparr>"

text \<open>
  \<open>pthread_cancel\<close> and \<open>pthread_join\<close>: the thread ends where it sleeps, the only cancellation
  point of its loop, so a message it is about to send is sent before.
\<close>

definition cancel_join :: "Writer \<Rightarrow> Sync \<Rightarrow> Sync" where
  "cancel_join W S = (if sy_thread S = Sending then send_sync_me W S else S)\<lparr>sy_thread := Stopped\<rparr>"

definition database_set_sync_period :: "Writer \<Rightarrow> rat \<Rightarrow> Sync \<Rightarrow> Sync" where
  "database_set_sync_period W period S =
    (let period = (if period < min_period then 0 else period);
         running = (sy_period S \<noteq> 0);
         (S, running) = (if running \<and> period < sy_period S then (cancel_join W S, False) else (S, running));
         S = S\<lparr>sy_period := period\<rparr>
     in if period \<noteq> 0 \<and> \<not> running then S\<lparr>sy_thread := Sending\<rparr> else S)"

text \<open>One step of \<open>sync_thread\<close>; it is woken when nothing of its sleep is left.\<close>

definition sync_thread :: "(rat \<Rightarrow> rat) \<Rightarrow> Writer \<Rightarrow> Sync \<Rightarrow> Sync option" where
  "sync_thread rnd W S = (case sy_thread S of
      Stopped \<Rightarrow> None
    | Sending \<Rightarrow> Some ((send_sync_me W S)\<lparr>sy_thread := Reading\<rparr>)
    | Reading \<Rightarrow> Some (S\<lparr>sy_thread := Sleeping (sleep_ns rnd (sy_period S))\<rparr>)
    | Sleeping k \<Rightarrow> if k = 0 then Some (S\<lparr>sy_thread := Sending\<rparr>) else None)"

text \<open>
  What happens to the thread, and the time since its last message. Only a sleeping or absent
  thread lets time pass, at most what is left of the sleep.
\<close>

datatype sync_move = Set_period rat | Thread | Pass nat

fun sync_event :: "(rat \<Rightarrow> rat) \<Rightarrow> Writer \<Rightarrow> sync_move \<Rightarrow> Sync \<times> nat \<Rightarrow> (Sync \<times> nat) option" where
  "sync_event rnd W (Set_period p) (S, t) = Some (database_set_sync_period W p S, t)"
| "sync_event rnd W Thread (S, t) = (case sync_thread rnd W S of None \<Rightarrow> None
     | Some S' \<Rightarrow> Some (S', if sy_thread S = Sending then 0 else t))"
| "sync_event rnd W (Pass d) (S, t) = (case sy_thread S of
      Stopped \<Rightarrow> Some (S, t + d)
    | Sleeping k \<Rightarrow> if d \<le> k then Some (S\<lparr>sy_thread := Sleeping (k - d)\<rparr>, t + d) else None
    | _ \<Rightarrow> None)"

fun sync_events :: "(rat \<Rightarrow> rat) \<Rightarrow> Writer \<Rightarrow> sync_move list \<Rightarrow> Sync \<times> nat \<Rightarrow> (Sync \<times> nat) option" where
  "sync_events rnd W [] St = Some St"
| "sync_events rnd W (x # xs) St = (case sync_event rnd W x St of None \<Rightarrow> None | Some St \<Rightarrow> sync_events rnd W xs St)"

definition sync_init :: "Queue \<Rightarrow> Sync" where
  "sync_init Q = \<lparr>sy_period = 0, sy_thread = Stopped, sy_queue = Q\<rparr>"

text \<open>
  The thread exists exactly while there is a period; what has passed since its last message
  and what is left of its sleep are together within the period in force.
\<close>

definition sync_ok :: "(rat \<Rightarrow> rat) \<Rightarrow> Sync \<times> nat \<Rightarrow> bool" where
  "sync_ok rnd = (\<lambda>(S, t). 0 \<le> sy_period S \<and> (sy_period S = 0 \<longleftrightarrow> sy_thread S = Stopped)
     \<and> (case sy_thread S of Reading \<Rightarrow> t = 0 | Sleeping k \<Rightarrow> t + k \<le> sleep_ns rnd (sy_period S) | _ \<Rightarrow> True))"

lemma min_period_pos: "0 < min_period"
  by (simp add: min_period_def)

lemma set_period_form:
  assumes "q = (if p < min_period then 0 else p)"
  shows "sy_period (database_set_sync_period W p S) = q"
    and "sy_period S = 0 \<or> q < sy_period S \<Longrightarrow> sy_thread (database_set_sync_period W p S)
      = (if q \<noteq> 0 then Sending else if sy_period S \<noteq> 0 then Stopped else sy_thread S)"
    and "sy_period S \<noteq> 0 \<Longrightarrow> \<not> q < sy_period S \<Longrightarrow> sy_thread (database_set_sync_period W p S) = sy_thread S"
  using assms by (auto simp: database_set_sync_period_def Let_def cancel_join_def send_sync_me_def)

lemma sync_event_ok:
  assumes r: "rounding rnd" and ok: "sync_ok rnd St" and step: "sync_event rnd W x St = Some St'"
  shows "sync_ok rnd St'"
proof -
  obtain S t where St: "St = (S, t)" by fastforce
  show ?thesis
  proof (cases x)
    case (Set_period p)
    define q where "q = (if p < min_period then 0 else p)"
    have q: "0 \<le> q" using min_period_pos by (simp add: q_def)
    have St': "St' = (database_set_sync_period W p S, t)" using step by (simp add: St Set_period)
    note f = set_period_form [OF q_def, where W = W and S = S]
    show ?thesis
    proof (cases "sy_period S = 0 \<or> q < sy_period S")
      case True
      then show ?thesis using ok q f(1,2) unfolding St St' by (auto simp: sync_ok_def)
    next
      case False
      then have "sleep_ns rnd (sy_period S) \<le> sleep_ns rnd q"
        using ok by (intro sleep_mono [OF r]) (auto simp: St sync_ok_def)
      with False show ?thesis using ok q f(1,3) unfolding St St' by (auto simp: sync_ok_def split: helper.splits)
    qed
  next
    case Thread
    with step ok show ?thesis
      by (auto simp: St sync_ok_def sync_thread_def send_sync_me_def split: helper.splits option.splits if_splits)
  next
    case (Pass d)
    with step ok show ?thesis by (auto simp: St sync_ok_def split: helper.splits if_splits)
  qed
qed

lemma sync_events_ok:
  "rounding rnd \<Longrightarrow> sync_ok rnd St \<Longrightarrow> sync_events rnd W xs St = Some St' \<Longrightarrow> sync_ok rnd St'"
  by (induction xs arbitrary: St) (auto split: option.splits dest: sync_event_ok)

text \<open>
  C37: the sync thread keeps the period it was given. After any sequence of calls of
  \<open>database_set_sync_period\<close>, steps of the thread and time passing, from a database just
  created: the thread exists exactly while the period is not 0, and it is never cancelled or
  restarted in a way that loses a request -- while it sleeps, the time since its last request
  and what is left of its sleep are together at most the period in force, up to a nanosecond,
  whatever the period was when it went to sleep. So a request falls due in every period.
\<close>

theorem sync_thread_keeps_period:
  assumes "rounding rnd" and "sync_events rnd W xs (sync_init Q, 0) = Some (S, t)"
  shows "(database_get_sync_period S = 0 \<longleftrightarrow> sy_thread S = Stopped)
    \<and> (case sy_thread S of
        Sleeping k \<Rightarrow> of_nat (t + k) \<le> database_get_sync_period S * 1000000000 + 1
      | Reading \<Rightarrow> t = 0
      | _ \<Rightarrow> True)"
proof -
  have "sync_ok rnd (sync_init Q, 0)" by (simp add: sync_ok_def sync_init_def)
  from sync_events_ok [OF assms(1) this assms(2)] have ok: "sync_ok rnd (S, t)" .
  have "of_nat (t + k) \<le> sy_period S * 1000000000 + 1" if "sy_thread S = Sleeping k" for k
  proof -
    have "t + k \<le> sleep_ns rnd (sy_period S)" "0 \<le> sy_period S" using ok that by (simp_all add: sync_ok_def)
    then have "(of_nat (t + k) :: rat) \<le> of_nat (sleep_ns rnd (sy_period S))" by (simp only: of_nat_le_iff)
    also have "\<dots> \<le> sy_period S * 1000000000 + 1" using ok by (intro sleep_accurate(1) [OF assms(1)]) (simp add: sync_ok_def)
    finally show ?thesis .
  qed
  with ok show ?thesis by (auto simp: sync_ok_def database_get_sync_period_def split: helper.splits)
qed

text \<open>Two seconds, prolonged to five in the middle of a sleep, then half a second.\<close>

lemma rounding_exact: "rounding (\<lambda>x. x)"
  by (simp add: rounding_def mono_def)

theorem sync_thread_keeps_period_witness:
  "\<exists>S. sync_events (\<lambda>x. x) (writer_init (\<lambda>_. 0)) [Set_period 2, Thread, Thread, Pass 500000000, Set_period 5,
       Pass 1500000000, Thread, Thread, Thread, Pass 7, Set_period (1 / 2), Thread, Thread, Pass 100000000]
       (sync_init \<lparr>q_jobs = [], q_freed = [], q_counter = 0, q_sems = (\<lambda>_. 0)\<rparr>, 0) = Some (S, 100000000)
     \<and> sy_thread S = Sleeping 400000000 \<and> length (q_jobs (sy_queue S)) = 3
     \<and> of_nat (100000000 + 400000000) \<le> database_get_sync_period S * 1000000000 + 1"
proof -
  let ?xs = "[Set_period 2, Thread, Thread, Pass 500000000, Set_period 5,
       Pass 1500000000, Thread, Thread, Thread, Pass 7, Set_period (1 / 2), Thread, Thread, Pass 100000000]"
  let ?W = "writer_init (\<lambda>_. 0)" and ?Q = "\<lparr>q_jobs = [], q_freed = [], q_counter = 0, q_sems = (\<lambda>_. 0)\<rparr>"
  have half: "\<lfloor>1 / 2 :: rat\<rfloor> = 0" by (simp add: floor_eq_iff)
  obtain S where S: "sync_events (\<lambda>x. x) ?W ?xs (sync_init ?Q, 0) = Some (S, 100000000)"
      "sy_thread S = Sleeping 400000000" "length (q_jobs (sy_queue S)) = 3"
    by (simp add: half sync_init_def database_set_sync_period_def Let_def sync_thread_def send_sync_me_def cancel_join_def
        sendServiceMsg_def output_queue_push_eq sleep_ns_def timespec_ns_def double_to_timespec_def min_period_def)
  with sync_thread_keeps_period [OF rounding_exact S(1)] show ?thesis by auto
qed

end
