(* ===== verification/Service.thy ===== *)
theory Service
  imports Commit Loader Allocators Node_Allocator
begin

text \<open>
  The service thread (\<open>database.include/threads.c\<close>) and the data files: buffered output,
  \<open>_database_new_file\<close> of \<open>database.include/database.c\<close>, and dumps. A data file is its contents and how much of them \<open>fsync\<close> has covered;
  writing to a descriptor appends or, where the descriptor is not open for writing, dies.
\<close>

section \<open>Files\<close>

definition DB_WRITE_BUFFER_SIZE :: nat where "DB_WRITE_BUFFER_SIZE = 4096"

definition DUMP__NODES_PER_TRANSACTION :: nat where "DUMP__NODES_PER_TRANSACTION = 5"

datatype DbError = DB_SUCCESS | DB_ERROR__DUMP_RUNNING | DB_ERROR__CANNOT_CREATE_NEW_FILE

text \<open>\<open>file_desc\<close>: -1, \<open>/dev/null\<close>, a data file by its number, or a descriptor already closed.\<close>

datatype fd = No_file | Dev_null | Data_file nat | Closed_file

record Disk =
  k_files :: "nat \<rightharpoonup> byte list"
  k_synced :: "nat \<Rightarrow> nat"

definition util_fd_write :: "fd \<Rightarrow> byte list \<Rightarrow> Disk \<Rightarrow> Disk outcome" where
  "util_fd_write fd bs K = (case fd of
      Dev_null \<Rightarrow> Done K
    | Data_file i \<Rightarrow> (case k_files K i of
        Some contents \<Rightarrow> Done (K\<lparr>k_files := (k_files K)(i \<mapsto> contents @ bs)\<rparr>)
      | None \<Rightarrow> Fault)
    | _ \<Rightarrow> Fault)"

definition fsync :: "fd \<Rightarrow> Disk \<Rightarrow> Disk" where
  "fsync fd K = (case fd of
      Data_file i \<Rightarrow> (case k_files K i of
        Some contents \<Rightarrow> K\<lparr>k_synced := (k_synced K)(i := length contents)\<rparr> | None \<Rightarrow> K)
    | _ \<Rightarrow> K)"

definition write_out :: "Writer \<Rightarrow> fd \<Rightarrow> Disk \<Rightarrow> (Writer \<times> Disk) outcome" where
  "write_out W fd K =
    obind (writer_contents W) (\<lambda>bs.
    obind (util_fd_write fd bs K) (\<lambda>K.
    Done (writer_discart W, K)))"

definition buffered_write :: "byte list \<Rightarrow> fd \<Rightarrow> Writer \<Rightarrow> Disk \<Rightarrow> (Writer \<times> Disk) outcome" where
  "buffered_write buffer fd W K =
    obind (writer_length W) (\<lambda>len.
    if int len + int (length buffer) - int DB_WRITE_BUFFER_SIZE \<le> 0 then
      (if buffer \<noteq> [] then obind (writer_direct_write W buffer) (\<lambda>W. Done (W, K)) else Done (W, K))
    else if length buffer > DB_WRITE_BUFFER_SIZE div 2 then
      obind (write_out W fd K) (\<lambda>(W, K).
      obind (util_fd_write fd buffer K) (\<lambda>K. Done (W, K)))
    else
      obind (write_out W fd K) (\<lambda>(W, K).
      if buffer \<noteq> [] then obind (writer_direct_write W buffer) (\<lambda>W. Done (W, K)) else Done (W, K)))"

definition buffered_sync :: "fd \<Rightarrow> Writer \<Rightarrow> Disk \<Rightarrow> (Writer \<times> Disk) outcome" where
  "buffered_sync fd W K =
    obind (writer_length W) (\<lambda>len.
    obind (if len \<noteq> 0 then write_out W fd K else Done (W, K)) (\<lambda>(W, K).
    Done (W, fsync fd K)))"

section \<open>The state of the service thread\<close>

text \<open>
  Where it is: before \<open>sem_wait(D->counter)\<close>, at the switch over the job \<open>v_pos\<close>, in the switch
  before the sync or before the \<open>sem_post\<close> that ends it, after the switch (\<open>resume\<close>), past the
  loop, or stopped. \<open>v_pos\<close> counts the jobs whose switch is done; the last of them is freed when
  the next one is taken.
\<close>

datatype svc_pc = At_wait | At_switch | At_sync | At_post | At_resume | At_exit | Stopped

text \<open>What \<open>collect_garbage\<close> works on, with the start times of the handles.\<close>

record Memory =
  m_tm :: GenericAllocator
  m_outputs :: SimpleAllocator
  m_vpages :: VPageAllocator
  m_pages :: PageAllocator
  m_start_times :: "u64 list"

definition collect_garbage :: "Memory \<Rightarrow> Memory" where
  "collect_garbage M =
    (let time = get_time (m_start_times M);
         tm = fst (generic_allocator_collect_garbage (m_tm M) time);
         outputs = fst (simple_allocator_collect_garbage (m_outputs M));
         (vpages, freed) = vpage_allocator_collect_garbage (m_vpages M) time;
         pages = fst (page_frees (m_pages M) (map fst freed));
         pages = fst (page_allocator_collect_garbage pages) in
     M\<lparr>m_tm := tm, m_outputs := outputs, m_vpages := vpages, m_pages := pages\<rparr>)"

record Service =
  v_pc :: svc_pc
  v_pos :: nat
  v_W :: Writer
  v_queue :: Queue
  v_disk :: Disk
  v_fd :: fd
  v_file_index :: nat
  v_read_only :: bool
  v_db :: Database
  v_dump_running :: bool
  v_dump_type :: "nat option"
  v_allocs :: "NodeAllocator list"
  v_answers :: "nat \<rightharpoonup> DbError"
  v_mem :: Memory

text \<open>
  \<open>_database_new_file\<close>; \<open>can_open\<close> tells whether the system lets the file be created, which
  it does not when the file exists (\<open>O_EXCL\<close>). The new descriptor is stored last: when the
  file cannot be created, \<open>file_desc\<close> still names the one that was closed.
\<close>

definition database_new_file :: "(nat \<Rightarrow> bool) \<Rightarrow> Writer \<Rightarrow> bool \<Rightarrow> u64 \<Rightarrow> Service \<Rightarrow> (bool \<times> Service) outcome" where
  "database_new_file can_open W dump_begin magic_nr V =
    (if v_read_only V then Done (True, V)
     else
       obind (if v_fd V \<noteq> No_file then
           obind (write_file_footer magic_nr W) (\<lambda>W.
           obind (write_out W (v_fd V) (v_disk V)) (\<lambda>(W, K).
           Done (W, V\<lparr>v_disk := K, v_fd := Closed_file\<rparr>)))
         else Done (W, V)) (\<lambda>(W, V).
       let i = v_file_index V + 1; V = V\<lparr>v_file_index := i\<rparr> in
       if \<not> can_open i \<or> k_files (v_disk V) i \<noteq> None then Done (False, V)
       else
         obind (write_file_header (d_type (v_db V)) magic_nr W) (\<lambda>W.
         obind (if dump_begin then write_dump_begin W else Done W) (\<lambda>W.
         obind (writer_contents W) (\<lambda>bs.
         let K = (v_disk V)\<lparr>k_files := (k_files (v_disk V))(i \<mapsto> bs), k_synced := (k_synced (v_disk V))(i := length bs)\<rparr> in
         Done (True, V\<lparr>v_disk := K, v_fd := Data_file i\<rparr>))))))"

text \<open>\<open>_generate_magic_nr\<close>: \<open>rands\<close> are the answers of \<open>rand() & 0xFF\<close>, eight for an attempt.\<close>

definition magic_of :: "byte list \<Rightarrow> u64" where
  "magic_of bs = fold (\<lambda>b m. push_bit 8 m OR ucast b) bs 0"

fun generate_magic_nr :: "nat \<Rightarrow> (nat \<Rightarrow> byte) \<Rightarrow> u64 option" where
  "generate_magic_nr 0 rands = None"
| "generate_magic_nr (Suc fuel) rands =
    (let m = magic_of (map rands [0..<8]) in
     if m \<noteq> 0 then Some m else generate_magic_nr fuel (\<lambda>i. rands (i + 8)))"

section \<open>Dumps\<close>

text \<open>
  \<open>get_node\<close>: the next node of the dump, passing to the next type where one is finished;
  \<open>None\<close> when all are.
\<close>

function dump_get_node :: "Service \<Rightarrow> (nat \<times> node_ref) option \<times> Service" where
  "dump_get_node V = (case v_dump_type V of
      None \<Rightarrow> (None, V)
    | Some k \<Rightarrow> (case na_dump_ptr (v_allocs V ! k) of
        Some r \<Rightarrow> (Some (k, r), V)
      | None \<Rightarrow>
          if k + 1 < length (v_allocs V)
          then dump_get_node (V\<lparr>v_dump_type := Some (k + 1),
                 v_allocs := (v_allocs V)[k + 1 := node_allocator_dump_init (v_allocs V ! (k + 1))]\<rparr>)
          else dump_get_node (V\<lparr>v_dump_type := None\<rparr>)))"
  by pat_completeness auto
termination
  by (relation "measure (\<lambda>V. case v_dump_type V of None \<Rightarrow> 0 | Some k \<Rightarrow> Suc (length (v_allocs V) - k))") auto

declare dump_get_node.simps [simp del]

text \<open>
  One node: locked on behalf of the thread (pointer 0, any version), written as a transaction
  of its own, unlocked; nothing when another transaction holds the lock. \<open>at k r\<close> is the
  address of node \<open>r\<close> of type \<open>k\<close>.
\<close>

definition dump_node :: "(nat \<Rightarrow> node_ref \<Rightarrow> addr) \<Rightarrow> nat \<Rightarrow> node_ref \<Rightarrow> Service \<Rightarrow> Service outcome" where
  "dump_node at k r V =
    (let n = at k r; l = n_lock (d_nodes (v_db V) n) in
     case l_lock_version [(l, l)] 0 (NOT 0) of
       None \<Rightarrow> Fault
     | Some (version, l) \<Rightarrow>
         if version = 0 then Done V
         else
           let D = set_lock (Node_lock n) l (v_db V) in
           obind (w_array (w_then (w_number 0) (write_node_store D n)) (v_W V)) (\<lambda>W.
           obind (writer_finish W True) (\<lambda>W.
           let D = set_lock (Node_lock n) (snd (l_unlock (get_lock D (Node_lock n)) 0 version)) D in
           obind (buffered_write [] (v_fd V) W (v_disk V)) (\<lambda>(W, K).
           obind (node_allocator_dump_next (v_allocs V ! k)) (\<lambda>A.
           Done (V\<lparr>v_W := W, v_disk := K, v_db := D, v_allocs := (v_allocs V)[k := A]\<rparr>))))))"

text \<open>The inner loop; the answer tells whether the dump is complete.\<close>

primrec dump_nodes :: "(nat \<Rightarrow> node_ref \<Rightarrow> addr) \<Rightarrow> nat \<Rightarrow> Service \<Rightarrow> (bool \<times> Service) outcome" where
  "dump_nodes at 0 V = Done (False, V)"
| "dump_nodes at (Suc i) V = (case dump_get_node V of
      (None, V) \<Rightarrow> Done (True, V)
    | (Some (k, r), V) \<Rightarrow> obind (dump_node at k r V) (dump_nodes at i))"

definition dump_finish :: "Service \<Rightarrow> Service outcome" where
  "dump_finish V =
    obind (write_dump_end (v_W V)) (\<lambda>W.
    obind (buffered_sync (v_fd V) W (v_disk V)) (\<lambda>(W, K).
    Done (V\<lparr>v_W := W, v_disk := K, v_dump_running := False\<rparr>)))"

section \<open>Jobs\<close>

definition v_sync :: "Service \<Rightarrow> Service outcome" where
  "v_sync V = obind (buffered_sync (v_fd V) (v_W V) (v_disk V)) (\<lambda>(W, K). Done (V\<lparr>v_W := W, v_disk := K\<rparr>))"

definition post_lock :: "OutputList \<Rightarrow> Service \<Rightarrow> Service" where
  "post_lock J V = (case o_lock J of None \<Rightarrow> V | Some s \<Rightarrow> V\<lparr>v_queue := sem_post s (v_queue V)\<rparr>)"

text \<open>\<open>job->answer\<close> is told by the number of the job.\<close>

definition answer :: "DbError \<Rightarrow> Service \<Rightarrow> Service" where
  "answer e V = V\<lparr>v_answers := (v_answers V)(v_pos V \<mapsto> e)\<rparr>"

text \<open>
  A committed transaction up to the sync: wait for \<open>ready\<close>, write the bytes, discard the writer
  and free the garbage; \<open>Failed\<close> while it is not ready.
\<close>

definition service_write :: "OutputList \<Rightarrow> Service \<Rightarrow> Service outcome" where
  "service_write J V =
    obind (check (o_ready J > 0)) (\<lambda>_.
    obind (writer_contents (o_W J)) (\<lambda>bs.
    obind (buffered_write bs (v_fd V) (v_W V) (v_disk V)) (\<lambda>(W, K).
    case free_garbage (o_garbage J) (o_end_time J) (v_db V) of (garbage, D) \<Rightarrow>
    Done (V\<lparr>v_W := W, v_disk := K, v_db := D,
              v_queue := upd_job (v_pos V) (\<lambda>J. J\<lparr>o_ready := o_ready J - 1, o_W := writer_discart (o_W J),
                o_garbage := garbage\<rparr>) (v_queue V)\<rparr>))))"

text \<open>The sync of a synchronous commit or of \<open>SYNC_ME\<close>.\<close>

definition service_sync :: "OutputList \<Rightarrow> Service \<Rightarrow> Service outcome" where
  "service_sync J V = (if o_type J = DB_SERVICE__COMMIT then Done V else v_sync V)"

text \<open>A new file, for its own sake or for a dump. \<open>W\<close> and \<open>magic\<close> are what the call makes afresh.\<close>

definition service_new_file :: "(nat \<Rightarrow> bool) \<Rightarrow> Writer \<Rightarrow> u64 \<Rightarrow> OutputList \<Rightarrow> Service \<Rightarrow> Service outcome" where
  "service_new_file can_open W magic J V =
    obind (v_sync V) (\<lambda>V.
    obind (if v_dump_running V then Done (answer DB_ERROR__DUMP_RUNNING V)
      else obind (database_new_file can_open W False magic V) (\<lambda>(ok, V).
        Done (answer (if ok then DB_SUCCESS else DB_ERROR__CANNOT_CREATE_NEW_FILE) V))) (\<lambda>V.
    Done (post_lock J V)))"

definition service_start_dump :: "(nat \<Rightarrow> bool) \<Rightarrow> Writer \<Rightarrow> u64 \<Rightarrow> OutputList \<Rightarrow> Service \<Rightarrow> Service outcome" where
  "service_start_dump can_open W magic J V =
    obind (v_sync V) (\<lambda>V.
    obind (if v_dump_running V then Done (answer DB_ERROR__DUMP_RUNNING V)
      else obind (database_new_file can_open W True magic V) (\<lambda>(ok, V).
        if \<not> ok then Done (answer DB_ERROR__CANNOT_CREATE_NEW_FILE V)
        else
          let V = (answer DB_SUCCESS V)\<lparr>v_dump_running := True\<rparr> in
          Done (if v_allocs V \<noteq> []
            then V\<lparr>v_dump_type := Some 0, v_allocs := (v_allocs V)[0 := node_allocator_dump_init (v_allocs V ! 0)]\<rparr>
            else V))) (\<lambda>V.
    Done (post_lock J V)))"

text \<open>
  The second switch, at \<open>unusual_type\<close>; \<open>Failed\<close> means blocked.
\<close>

definition service_unusual :: "(nat \<Rightarrow> bool) \<Rightarrow> Writer \<Rightarrow> u64 \<Rightarrow> OutputList \<Rightarrow> Service \<Rightarrow> Service outcome" where
  "service_unusual can_open W magic J V = (case o_type J of
      DB_SERVICE__CREATE_NEW_FILE \<Rightarrow> service_new_file can_open W magic J V
    | DB_SERVICE__START_DUMP \<Rightarrow> service_start_dump can_open W magic J V
    | DB_SERVICE__COLLECT_GARBAGE \<Rightarrow> Done (V\<lparr>v_mem := collect_garbage (v_mem V)\<rparr>)
    | DB_SERVICE__PAUSE \<Rightarrow> (case o_lock J of
        None \<Rightarrow> Fault
      | Some s \<Rightarrow> (case sem_wait s (v_queue V) of None \<Rightarrow> Failed | Some Q \<Rightarrow> Done (V\<lparr>v_queue := Q\<rparr>)))
    | _ \<Rightarrow> Fault)"

section \<open>The thread\<close>

text \<open>\<open>simple_allocator_free\<close> of a job.\<close>

definition free_job :: "nat \<Rightarrow> Queue \<Rightarrow> Queue" where
  "free_job k Q = Q\<lparr>q_freed := k # q_freed Q\<rparr>"

text \<open>
  After a successful wait for the counter: the next job is the first of the queue or
  \<open>job->next\<close>, and the job left behind is freed; a null pointer ends the loop.
\<close>

definition take_job :: "Service \<Rightarrow> Service" where
  "take_job V = (let Q = (v_queue V)\<lparr>q_counter := q_counter (v_queue V) - 1\<rparr> in
     V\<lparr>v_pc := (if v_pos V < length (q_jobs Q) then At_switch else At_exit),
       v_queue := (if v_pos V = 0 then Q else free_job (v_pos V - 1) Q)\<rparr>)"

text \<open>
  \<open>Failed\<close>: the thread waits for a semaphore. The write, the sync and the post of a commit are
  steps of their own, so that what holds between them -- when the machine stops, or when a
  committer is told -- can be stated.
\<close>

definition service_step :: "(nat \<Rightarrow> bool) \<Rightarrow> Writer \<Rightarrow> u64 \<Rightarrow> (nat \<Rightarrow> node_ref \<Rightarrow> addr) \<Rightarrow> Service \<Rightarrow> Service outcome" where
  "service_step can_open W magic at V = (let J = q_jobs (v_queue V) ! v_pos V in case v_pc V of
      At_wait \<Rightarrow> if q_counter (v_queue V) = 0 then Failed else Done (take_job V)
    | At_switch \<Rightarrow>
        if o_type J = DB_SERVICE__COMMIT \<or> o_type J = DB_SERVICE__SYNC_COMMIT then
          obind (service_write J V) (\<lambda>V. Done (V\<lparr>v_pc := At_sync\<rparr>))
        else if o_type J = DB_SERVICE__SYNC_ME then Done (V\<lparr>v_pc := At_sync\<rparr>)
        else
          obind (service_unusual can_open W magic J V) (\<lambda>V.
          Done (V\<lparr>v_pc := At_resume, v_pos := v_pos V + 1\<rparr>))
    | At_sync \<Rightarrow> obind (service_sync J V) (\<lambda>V. Done (V\<lparr>v_pc := At_post\<rparr>))
    | At_post \<Rightarrow> Done ((post_lock J V)\<lparr>v_pc := At_resume, v_pos := v_pos V + 1\<rparr>)
    | At_resume \<Rightarrow>
        if \<not> v_dump_running V then Done (V\<lparr>v_pc := At_wait\<rparr>)
        else
          obind (dump_nodes at DUMP__NODES_PER_TRANSACTION V) (\<lambda>(finished, V).
          if finished then obind (dump_finish V) (\<lambda>V. Done (V\<lparr>v_pc := At_wait\<rparr>))
          else Done (if q_counter (v_queue V) = 0 then V else take_job V))
    | At_exit \<Rightarrow>
        if v_dump_running V then
          obind (dump_nodes at DUMP__NODES_PER_TRANSACTION V) (\<lambda>(finished, V).
          if finished then dump_finish V else Done V)
        else obind (v_sync V) (\<lambda>V. Done (V\<lparr>v_pc := Stopped\<rparr>))
    | Stopped \<Rightarrow> Failed)"

section \<open>What buffered output promises\<close>

lemma w_ready_begin: "w_ready W \<Longrightarrow> w_begin W = w_ptr W"
  by (auto simp: w_ready_def w_inv_def w_cur_def)

lemma w_ready_simps:
  assumes "w_ready W"
  shows "writer_contents W = Done (w_out W)" and "writer_length W = Done (length (w_out W))"
    and "w_ready (writer_discart W)"
  using assms w_ready_begin [OF assms] by (simp_all add: writer_contents_ok writer_length_ok) (simp add: w_ready_def)

lemma w_ready_direct: "w_ready W \<Longrightarrow> \<exists>W'. writer_direct_write W bs = Done W' \<and> w_ready W' \<and> w_out W' = w_out W @ bs"
  using writer_direct_write_ok [of W bs] w_ready_begin [of W] by (auto simp: w_ready_def w_closed_def)

text \<open>\<open>file_at i c n K\<close>: data file \<open>i\<close> holds \<open>c\<close>, the first \<open>n\<close> bytes of it safely.\<close>

definition file_at :: "nat \<Rightarrow> byte list \<Rightarrow> nat \<Rightarrow> Disk \<Rightarrow> bool" where
  "file_at i c n K \<longleftrightarrow> k_files K i = Some c \<and> k_synced K i = n"

lemma write_out_ok:
  assumes "w_ready W" and "file_at i c n K"
  shows "\<exists>K'. write_out W (Data_file i) K = Done (writer_discart W, K') \<and> file_at i (c @ w_out W) n K'"
  using assms by (auto simp: write_out_def w_ready_simps util_fd_write_def file_at_def)

lemma buffered_write_ok:
  assumes "w_ready W" and "file_at i c n K"
  shows "\<exists>W' K' out. buffered_write bs (Data_file i) W K = Done (W', K') \<and> w_ready W' \<and> file_at i (c @ out) n K'
    \<and> out @ w_out W' = w_out W @ bs \<and> (length (w_out W) \<le> DB_WRITE_BUFFER_SIZE \<longrightarrow> length (w_out W') \<le> DB_WRITE_BUFFER_SIZE)"
proof -
  let ?len = "length (w_out W) + length bs"
  have direct: "\<exists>W'. (if bs \<noteq> [] then obind (writer_direct_write U bs) (\<lambda>W. Done (W, K')) else Done (U, K')) = Done (W', K')
      \<and> w_ready W' \<and> w_out W' = w_out U @ bs" if "w_ready U" for U K'
    using w_ready_direct [OF that, of bs] that by auto
  obtain K1 where K1: "write_out W (Data_file i) K = Done (writer_discart W, K1)" "file_at i (c @ w_out W) n K1"
    using write_out_ok [OF assms] by blast
  note dis = w_ready_simps(3) [OF assms(1)]
  consider "?len \<le> DB_WRITE_BUFFER_SIZE" | "?len > DB_WRITE_BUFFER_SIZE" "length bs > DB_WRITE_BUFFER_SIZE div 2"
    | "?len > DB_WRITE_BUFFER_SIZE" "length bs \<le> DB_WRITE_BUFFER_SIZE div 2" by linarith
  then show ?thesis
  proof cases
    case 1
    obtain W' where "buffered_write bs (Data_file i) W K = Done (W', K)" "w_ready W'" "w_out W' = w_out W @ bs"
      using direct [OF assms(1), of K] 1 assms(1) by (auto simp: buffered_write_def w_ready_simps)
    with 1 assms(2) show ?thesis by (intro exI [of _ W'] exI [of _ K] exI [of _ "[]"]) auto
  next
    case 2
    define K' where "K' = K1\<lparr>k_files := (k_files K1)(i \<mapsto> (c @ w_out W) @ bs)\<rparr>"
    have "buffered_write bs (Data_file i) W K = Done (writer_discart W, K')"
      using 2 K1 by (simp add: buffered_write_def w_ready_simps [OF assms(1)] util_fd_write_def file_at_def K'_def)
    moreover have "file_at i (c @ (w_out W @ bs)) n K'" using K1(2) by (simp add: file_at_def K'_def)
    ultimately show ?thesis using dis w_ready_def writer_discart_abs(2) by (intro exI [of _ "writer_discart W"] exI [of _ K'] exI [of _ "w_out W @ bs"]) simp
  next
    case 3
    obtain W' where W': "buffered_write bs (Data_file i) W K = Done (W', K1)" "w_ready W'" "w_out W' = bs"
      using direct [OF dis, of K1] 3 K1(1) by (auto simp: buffered_write_def w_ready_simps [OF assms(1)])
    then have "length (w_out W') \<le> DB_WRITE_BUFFER_SIZE" using 3(2) by (simp add: DB_WRITE_BUFFER_SIZE_def)
    with W' K1(2) show ?thesis by (intro exI [of _ W'] exI [of _ K1] exI [of _ "w_out W"]) simp
  qed
qed

lemma buffered_sync_ok:
  assumes "w_ready W" and "file_at i c n K"
  shows "\<exists>W' K'. buffered_sync (Data_file i) W K = Done (W', K') \<and> w_ready W' \<and> w_out W' = []
    \<and> file_at i (c @ w_out W) (length (c @ w_out W)) K'"
proof (cases "w_out W = []")
  case True
  then show ?thesis using assms by (auto simp: buffered_sync_def w_ready_simps fsync_def file_at_def)
next
  case False
  obtain K1 where "write_out W (Data_file i) K = Done (writer_discart W, K1)" "file_at i (c @ w_out W) n K1"
    using write_out_ok [OF assms] by blast
  with False w_ready_simps [OF assms(1)] show ?thesis
    by (auto simp: buffered_sync_def fsync_def file_at_def)
qed

section \<open>Going through a queue of commits\<close>

primrec service_steps :: "(nat \<Rightarrow> bool) \<Rightarrow> Writer \<Rightarrow> u64 \<Rightarrow> (nat \<Rightarrow> node_ref \<Rightarrow> addr) \<Rightarrow> nat \<Rightarrow> Service \<Rightarrow> Service outcome" where
  "service_steps can_open W magic at 0 V = Done V"
| "service_steps can_open W magic at (Suc m) V =
    obind (service_step can_open W magic at V) (service_steps can_open W magic at m)"

text \<open>Output so far: what is in the file and, behind it, in the buffer; \<open>n\<close> bytes are on disk.\<close>

definition writing :: "nat \<Rightarrow> byte list \<Rightarrow> nat \<Rightarrow> Service \<Rightarrow> bool" where
  "writing i s n V \<longleftrightarrow> v_fd V = Data_file i \<and> \<not> v_dump_running V \<and> w_ready (v_W V)
     \<and> (\<exists>c. file_at i c n (v_disk V) \<and> n \<le> length c \<and> c @ w_out (v_W V) = s)"

definition job_ready :: "OutputList \<Rightarrow> bool" where
  "job_ready J \<longleftrightarrow> o_type J \<in> {DB_SERVICE__COMMIT, DB_SERVICE__SYNC_COMMIT} \<and> 0 < o_ready J \<and> w_ready (o_W J)"

abbreviation job_bytes :: "OutputList \<Rightarrow> byte list" where
  "job_bytes J \<equiv> w_out (o_W J)"

definition jobs_bytes :: "OutputList list \<Rightarrow> byte list" where
  "jobs_bytes js = concat (map job_bytes js)"

text \<open>How many bytes are on disk for certain after the jobs.\<close>

fun sync_point :: "nat \<Rightarrow> nat \<Rightarrow> OutputList list \<Rightarrow> nat" where
  "sync_point len n [] = n"
| "sync_point len n (J # js) = (let len = len + length (job_bytes J) in
     sync_point len (if o_type J = DB_SERVICE__SYNC_COMMIT then len else n) js)"

definition posts :: "OutputList list \<Rightarrow> sem \<Rightarrow> nat" where
  "posts js x = length (filter (\<lambda>J. o_lock J = Some x) js)"

lemma sync_point_append:
  "sync_point len n (as @ bs) = sync_point (len + length (jobs_bytes as)) (sync_point len n as) bs"
  by (induction as arbitrary: len n) (simp_all add: jobs_bytes_def Let_def add.assoc)

lemma v_sync_ok:
  assumes "writing i s n V"
  shows "\<exists>V'. v_sync V = Done V' \<and> writing i s (length s) V' \<and> v_queue V' = v_queue V \<and> v_pos V' = v_pos V \<and> v_pc V' = v_pc V"
proof -
  obtain c where c: "file_at i c n (v_disk V)" "c @ w_out (v_W V) = s" "w_ready (v_W V)" "v_fd V = Data_file i"
    using assms by (auto simp: writing_def)
  from buffered_sync_ok [OF c(3,1)] c(2,4) assms show ?thesis
    by (auto simp: v_sync_def writing_def)
qed

lemma service_write_ok:
  assumes "writing i s n V" and "job_ready J"
  shows "\<exists>V' g. service_write J V = Done V' \<and> writing i (s @ job_bytes J) n V'
    \<and> v_queue V' = upd_job (v_pos V) (\<lambda>J. J\<lparr>o_ready := o_ready J - 1, o_W := writer_discart (o_W J), o_garbage := g\<rparr>) (v_queue V)
    \<and> v_pos V' = v_pos V \<and> v_pc V' = v_pc V"
proof -
  obtain c where c: "file_at i c n (v_disk V)" "c @ w_out (v_W V) = s" "w_ready (v_W V)" "v_fd V = Data_file i" "n \<le> length c"
    using assms(1) by (auto simp: writing_def)
  have J: "0 < o_ready J" "w_ready (o_W J)" using assms(2) by (simp_all add: job_ready_def)
  obtain W' K' out where b: "buffered_write (job_bytes J) (Data_file i) (v_W V) (v_disk V) = Done (W', K')" "w_ready W'"
      "file_at i (c @ out) n K'" "out @ w_out W' = w_out (v_W V) @ job_bytes J"
    using buffered_write_ok [OF c(3,1)] by blast
  obtain g D where g: "free_garbage (o_garbage J) (o_end_time J) (v_db V) = (g, D)" by fastforce
  define f :: "OutputList \<Rightarrow> OutputList" where "f = (\<lambda>J. J\<lparr>o_ready := o_ready J - 1, o_W := writer_discart (o_W J), o_garbage := g\<rparr>)"
  define V1 where "V1 = V\<lparr>v_W := W', v_disk := K', v_db := D, v_queue := upd_job (v_pos V) f (v_queue V)\<rparr>"
  have w: "writing i (s @ job_bytes J) n V1"
    using assms(1) b(2-4) c(2,5) by (auto simp: writing_def V1_def intro!: exI [of _ "c @ out"])
  have e: "service_write J V = Done V1"
    using J b(1) c(4) g by (simp add: service_write_def w_ready_simps V1_def f_def)
  show ?thesis
    by (rule exI [of _ V1], rule exI [of _ g]) (use w e in \<open>simp add: V1_def f_def\<close>)
qed

text \<open>
  The thread on its way through the jobs \<open>js\<close> that wait behind \<open>k0\<close> others: \<open>r\<close> of them done.
  Inside the switch the next one is written already, and synced if it has to be.
\<close>

definition jobs_written :: "nat \<Rightarrow> svc_pc \<Rightarrow> nat" where
  "jobs_written r pc = (if pc \<in> {At_sync, At_post} then Suc r else r)"

definition jobs_synced :: "nat \<Rightarrow> svc_pc \<Rightarrow> nat" where
  "jobs_synced r pc = (if pc = At_post then Suc r else r)"

lemma jobs_written_simps [simp]:
  "jobs_written r At_wait = r" "jobs_written r At_switch = r" "jobs_written r At_resume = r"
  "jobs_written r At_sync = Suc r" "jobs_written r At_post = Suc r"
  "jobs_synced r At_wait = r" "jobs_synced r At_switch = r" "jobs_synced r At_resume = r"
  "jobs_synced r At_sync = r" "jobs_synced r At_post = Suc r"
  by (simp_all add: jobs_written_def jobs_synced_def)

definition at_point :: "nat \<Rightarrow> byte list \<Rightarrow> nat \<Rightarrow> (sem \<Rightarrow> nat) \<Rightarrow> OutputList list \<Rightarrow> nat \<Rightarrow> nat \<Rightarrow> svc_pc \<Rightarrow> Service \<Rightarrow> bool" where
  "at_point i s n sems js k0 r pc V \<longleftrightarrow> r \<le> length js \<and> v_pc V = pc
     \<and> writing i (s @ jobs_bytes (take (jobs_written r pc) js)) (sync_point (length s) n (take (jobs_synced r pc) js)) V
     \<and> v_pos V = k0 + r
     \<and> drop (k0 + jobs_written r pc) (q_jobs (v_queue V)) = drop (jobs_written r pc) js
     \<and> (r < jobs_written r pc \<longrightarrow> o_type (q_jobs (v_queue V) ! (k0 + r)) = o_type (js ! r)
         \<and> o_lock (q_jobs (v_queue V) ! (k0 + r)) = o_lock (js ! r))
     \<and> k0 + length js = length (q_jobs (v_queue V))
     \<and> q_sems (v_queue V) = (\<lambda>x. sems x + posts (take r js) x)
     \<and> (case pc of At_wait \<Rightarrow> q_counter (v_queue V) = length js - r
          | At_resume \<Rightarrow> q_counter (v_queue V) = length js - r
          | At_exit \<Rightarrow> False
          | Stopped \<Rightarrow> False
          | _ \<Rightarrow> r < length js \<and> q_counter (v_queue V) = length js - r - 1)"

lemma free_job_sel [simp]: "q_jobs (free_job k Q) = q_jobs Q" "q_counter (free_job k Q) = q_counter Q"
  "q_sems (free_job k Q) = q_sems Q" "q_freed (free_job k Q) = k # q_freed Q"
  by (simp_all add: free_job_def)

lemma at_wait_step:
  assumes "at_point i s n sems js k0 r At_wait V"
  shows "if r < length js then \<exists>V'. service_step can_open W magic at V = Done V' \<and> at_point i s n sems js k0 r At_switch V'
    else service_step can_open W magic at V = Failed"
  using assms by (auto simp: at_point_def service_step_def take_job_def writing_def Let_def)

lemma at_resume_step:
  assumes "at_point i s n sems js k0 r At_resume V"
  shows "\<exists>V'. service_step can_open W magic at V = Done V' \<and> at_point i s n sems js k0 r At_wait V'"
  using assms by (auto simp: at_point_def service_step_def writing_def)

lemma upd_job_sel [simp]: "length (q_jobs (upd_job k f Q)) = length (q_jobs Q)" "q_counter (upd_job k f Q) = q_counter Q"
  "q_sems (upd_job k f Q) = q_sems Q" "q_freed (upd_job k f Q) = q_freed Q"
  "k < l \<Longrightarrow> drop l (q_jobs (upd_job k f Q)) = drop l (q_jobs Q)"
  "k < length (q_jobs Q) \<Longrightarrow> q_jobs (upd_job k f Q) ! k = f (q_jobs Q ! k)"
  "j \<noteq> k \<Longrightarrow> q_jobs (upd_job k f Q) ! j = q_jobs Q ! j"
  by (simp_all add: upd_job_def)

lemma take_next: "r < length js \<Longrightarrow> take (Suc r) js = take r js @ [js ! r]"
  by (rule take_Suc_conv_app_nth)

lemma jobs_bytes_append [simp]: "jobs_bytes (as @ bs) = jobs_bytes as @ jobs_bytes bs"
  by (simp add: jobs_bytes_def)

lemma jobs_bytes_next: "r < length js \<Longrightarrow> jobs_bytes (take (Suc r) js) = jobs_bytes (take r js) @ job_bytes (js ! r)"
  by (simp add: take_next) (simp add: jobs_bytes_def)

lemma at_switch_step:
  assumes "at_point i s n sems js k0 r At_switch V" and "\<forall>J \<in> set js. job_ready J"
  shows "\<exists>V'. service_step can_open W magic at V = Done V' \<and> at_point i s n sems js k0 r At_sync V'"
proof -
  have r: "r < length js" "v_pos V = k0 + r" "drop (k0 + r) (q_jobs (v_queue V)) = drop r js" "v_pc V = At_switch"
      "k0 + length js = length (q_jobs (v_queue V))"
    and w: "writing i (s @ jobs_bytes (take r js)) (sync_point (length s) n (take r js)) V"
    using assms(1) by (simp_all add: at_point_def)
  have J: "q_jobs (v_queue V) ! (k0 + r) = js ! r"
    using r(1,3,5) by (metis Cons_nth_drop_Suc nth_via_drop)
  have ready: "job_ready (js ! r)" using assms(2) r(1) by simp
  obtain V1 g where V1: "service_write (js ! r) V = Done V1"
      "writing i ((s @ jobs_bytes (take r js)) @ job_bytes (js ! r)) (sync_point (length s) n (take r js)) V1"
      "v_queue V1 = upd_job (v_pos V) (\<lambda>J. J\<lparr>o_ready := o_ready J - 1, o_W := writer_discart (o_W J), o_garbage := g\<rparr>) (v_queue V)"
      "v_pos V1 = v_pos V"
    using service_write_ok [OF w ready] by blast
  have "service_step can_open W magic at V = Done (V1\<lparr>v_pc := At_sync\<rparr>)"
    using r(2,4) V1(1) ready by (auto simp: service_step_def J job_ready_def)
  moreover have "drop (k0 + Suc r) (q_jobs (v_queue V1)) = drop (Suc r) js"
    using r(2,3) by (simp add: V1(3)) (metis add_Suc_right drop_Suc tl_drop)
  then have "at_point i s n sems js k0 r At_sync (V1\<lparr>v_pc := At_sync\<rparr>)"
    using assms(1) r V1(2,4) J by (simp add: at_point_def writing_def jobs_bytes_next V1(3))
  ultimately show ?thesis by blast
qed

lemma at_sync_step:
  assumes "at_point i s n sems js k0 r At_sync V" and "\<forall>J \<in> set js. job_ready J"
  shows "\<exists>V'. service_step can_open W magic at V = Done V' \<and> at_point i s n sems js k0 r At_post V'"
proof -
  have r: "r < length js" "v_pos V = k0 + r" "v_pc V = At_sync" "o_type (q_jobs (v_queue V) ! (k0 + r)) = o_type (js ! r)"
    and w: "writing i (s @ jobs_bytes (take (Suc r) js)) (sync_point (length s) n (take r js)) V"
    using assms(1) by (simp_all add: at_point_def)
  have sp: "sync_point (length s) n (take (Suc r) js)
      = (if o_type (js ! r) = DB_SERVICE__SYNC_COMMIT then length (s @ jobs_bytes (take (Suc r) js)) else sync_point (length s) n (take r js))"
    using r(1) by (simp add: take_next sync_point_append) (simp add: jobs_bytes_def Let_def)
  have ready: "o_type (js ! r) \<in> {DB_SERVICE__COMMIT, DB_SERVICE__SYNC_COMMIT}"
    using assms(2) r(1) by (simp add: job_ready_def)
  obtain V1 where V1: "service_sync (q_jobs (v_queue V) ! v_pos V) V = Done V1"
      "writing i (s @ jobs_bytes (take (Suc r) js)) (sync_point (length s) n (take (Suc r) js)) V1"
      "v_queue V1 = v_queue V" "v_pos V1 = v_pos V"
  proof (cases "o_type (js ! r) = DB_SERVICE__COMMIT")
    case True
    with w sp r(2,4) that show ?thesis by (simp add: service_sync_def)
  next
    case False
    then have "o_type (js ! r) = DB_SERVICE__SYNC_COMMIT" using ready by simp
    with v_sync_ok [OF w] sp r(2,4) that show ?thesis by (auto simp: service_sync_def)
  qed
  have "service_step can_open W magic at V = Done (V1\<lparr>v_pc := At_post\<rparr>)"
    using r(3) V1(1) by (simp add: service_step_def)
  moreover have "at_point i s n sems js k0 r At_post (V1\<lparr>v_pc := At_post\<rparr>)"
    using assms(1) V1(2-4) by (simp add: at_point_def writing_def)
  ultimately show ?thesis by blast
qed

lemma post_lock_sel [simp]: "v_pos (post_lock J V) = v_pos V" "v_pc (post_lock J V) = v_pc V"
  "q_jobs (v_queue (post_lock J V)) = q_jobs (v_queue V)" "q_counter (v_queue (post_lock J V)) = q_counter (v_queue V)"
  "q_freed (v_queue (post_lock J V)) = q_freed (v_queue V)" "writing i s n (post_lock J V) = writing i s n V"
  "q_sems (v_queue (post_lock J V)) x = q_sems (v_queue V) x + (if o_lock J = Some x then 1 else 0)"
  by (simp_all add: post_lock_def sem_post_def writing_def split: option.split)

lemma at_post_step:
  assumes "at_point i s n sems js k0 r At_post V"
  shows "\<exists>V'. service_step can_open W magic at V = Done V' \<and> at_point i s n sems js k0 (Suc r) At_resume V'"
proof -
  let ?J = "q_jobs (v_queue V) ! v_pos V"
  have r: "r < length js" "v_pos V = k0 + r" "v_pc V = At_post" "o_lock ?J = o_lock (js ! r)"
    using assms by (simp_all add: at_point_def)
  have w: "writing i s' n' (V'\<lparr>v_pc := pc, v_pos := k\<rparr>) = writing i s' n' V'" for s' n' V' pc k
    by (simp add: writing_def)
  have "service_step can_open W magic at V = Done ((post_lock ?J V)\<lparr>v_pc := At_resume, v_pos := v_pos V + 1\<rparr>)"
    using r(3) by (simp add: service_step_def)
  moreover have "q_sems (v_queue (post_lock ?J V)) = (\<lambda>x. sems x + posts (take (Suc r) js) x)"
    using assms r by (auto simp: at_point_def posts_def take_next fun_eq_iff)
  then have "at_point i s n sems js k0 (Suc r) At_resume ((post_lock ?J V)\<lparr>v_pc := At_resume, v_pos := v_pos V + 1\<rparr>)"
    using assms r by (simp add: at_point_def w)
  ultimately show ?thesis by blast
qed

lemma service_steps_at:
  assumes "at_point i s n sems js k0 r pc V" and "\<forall>J \<in> set js. job_ready J"
  shows "service_steps can_open W magic at m V = Failed
    \<or> (\<exists>V' r' pc'. service_steps can_open W magic at m V = Done V' \<and> at_point i s n sems js k0 r' pc' V')"
  using assms(1)
proof (induction m arbitrary: r pc V)
  case 0
  then show ?case by auto
next
  case (Suc m)
  have "service_step can_open W magic at V = Failed
    \<or> (\<exists>V' r' pc'. service_step can_open W magic at V = Done V' \<and> at_point i s n sems js k0 r' pc' V')"
  proof (cases pc)
    case At_wait
    with at_wait_step [of i s n sems js k0 r V can_open W magic at] Suc.prems show ?thesis
      by (cases "r < length js") auto
  next
    case At_switch
    with at_switch_step [OF _ assms(2)] Suc.prems show ?thesis by blast
  next
    case At_sync
    with at_sync_step [OF _ assms(2)] Suc.prems show ?thesis by blast
  next
    case At_post
    with at_post_step Suc.prems show ?thesis by blast
  next
    case At_resume
    with at_resume_step Suc.prems show ?thesis by blast
  qed (use Suc.prems in \<open>simp_all add: at_point_def\<close>)
  then consider "service_step can_open W magic at V = Failed"
    | V' r' pc' where "service_step can_open W magic at V = Done V'" "at_point i s n sems js k0 r' pc' V'" by blast
  then show ?case
  proof cases
    case 2
    from Suc.IH [OF 2(2)] 2(1) show ?thesis by simp
  qed simp
qed

lemma service_steps_add:
  "service_steps can_open W magic at (a + b) V = obind (service_steps can_open W magic at a V) (service_steps can_open W magic at b)"
  by (induction a arbitrary: V) (simp_all add: obind_assoc cong: obind_cong)

text \<open>One job takes five steps.\<close>

lemma service_one_job:
  assumes "at_point i s n sems js k0 r At_wait V" and "\<forall>J \<in> set js. job_ready J" and "r < length js"
  shows "\<exists>V'. service_steps can_open W magic at 5 V = Done V' \<and> at_point i s n sems js k0 (Suc r) At_wait V'"
proof -
  obtain V1 where V1: "service_step can_open W magic at V = Done V1" "at_point i s n sems js k0 r At_switch V1"
    using at_wait_step [OF assms(1), of can_open W magic at] assms(3) by auto
  obtain V2 where V2: "service_step can_open W magic at V1 = Done V2" "at_point i s n sems js k0 r At_sync V2"
    using at_switch_step [OF V1(2) assms(2)] by blast
  obtain V3 where V3: "service_step can_open W magic at V2 = Done V3" "at_point i s n sems js k0 r At_post V3"
    using at_sync_step [OF V2(2) assms(2)] by blast
  obtain V4 where V4: "service_step can_open W magic at V3 = Done V4" "at_point i s n sems js k0 (Suc r) At_resume V4"
    using at_post_step [OF V3(2)] by blast
  obtain V5 where V5: "service_step can_open W magic at V4 = Done V5" "at_point i s n sems js k0 (Suc r) At_wait V5"
    using at_resume_step [OF V4(2)] by blast
  from V1(1) V2(1) V3(1) V4(1) V5 show ?thesis by (simp add: eval_nat_numeral)
qed

lemma service_runs:
  assumes "at_point i s n sems js k0 r At_wait V" and "\<forall>J \<in> set js. job_ready J"
  shows "\<exists>V'. service_steps can_open W magic at (5 * (length js - r)) V = Done V' \<and> at_point i s n sems js k0 (length js) At_wait V'"
  using assms(1)
proof (induction "length js - r" arbitrary: r V)
  case 0
  then show ?case by (auto simp: at_point_def)
next
  case (Suc d)
  then have r: "r < length js" by simp
  obtain V1 where V1: "service_steps can_open W magic at 5 V = Done V1" "at_point i s n sems js k0 (Suc r) At_wait V1"
    using service_one_job [OF Suc.prems assms(2) r] by blast
  have "d = length js - Suc r" using Suc.hyps(2) by simp
  from Suc.hyps(1) [OF this V1(2)] obtain V' where
    V': "service_steps can_open W magic at (5 * (length js - Suc r)) V1 = Done V'" "at_point i s n sems js k0 (length js) At_wait V'" by blast
  have "5 * (length js - r) = 5 + 5 * (length js - Suc r)" using r by simp
  with V1(1) V' show ?case by (simp only: service_steps_add) simp
qed

section \<open>What a commit can rely on\<close>

text \<open>
  The thread waits, the jobs \<open>js\<close> behind it are ready, and none of them posts \<open>x\<close>, which
  nobody is owed.
\<close>

definition queue_quiet :: "nat \<Rightarrow> byte list \<Rightarrow> nat \<Rightarrow> OutputList list \<Rightarrow> sem \<Rightarrow> Service \<Rightarrow> bool" where
  "queue_quiet i s n js x V \<longleftrightarrow> at_point i s n (q_sems (v_queue V)) js (v_pos V) 0 At_wait V
     \<and> (\<forall>J \<in> set js. job_ready J \<and> o_lock J \<noteq> Some x) \<and> q_sems (v_queue V) x = 0"

abbreviation with_session :: "Service \<Rightarrow> Database \<Rightarrow> Queue \<Rightarrow> Service" where
  "with_session V D Q \<equiv> V\<lparr>v_db := D, v_queue := Q\<rparr>"

lemma quiet_push:
  assumes "queue_quiet i s n js x V" and "job_ready J"
  shows "at_point i s n (q_sems (v_queue V)) (js @ [J]) (v_pos V) 0 At_wait (with_session V D (output_queue_push J (v_queue V)))"
    and "\<forall>K \<in> set (js @ [J]). job_ready K"
  using assms by (auto simp: queue_quiet_def at_point_def output_queue_push_eq writing_def posts_def jobs_bytes_def)

lemma posts_quiet: "\<forall>K \<in> set js. o_lock K \<noteq> Some x \<Longrightarrow> posts (take r js) x = 0"
  by (auto simp: posts_def filter_empty_conv dest: in_set_takeD)

text \<open>Once the semaphore of the last job is posted, all jobs are done, and a synchronous one is on disk.\<close>

lemma at_point_posted:
  assumes "at_point i s n sems (js @ [J]) k0 r pc V" and "0 < q_sems (v_queue V) x" and "sems x = 0"
    and "\<forall>K \<in> set js. o_lock K \<noteq> Some x" and "o_type J = DB_SERVICE__SYNC_COMMIT"
  shows "\<exists>c. k_files (v_disk V) i = Some c \<and> take (k_synced (v_disk V) i) c = s @ jobs_bytes (js @ [J])"
proof -
  have p: "posts (take r (js @ [J])) x > 0" and rl: "r \<le> length (js @ [J])" using assms(1-3) by (simp_all add: at_point_def)
  have "r = length (js @ [J])"
  proof (rule ccontr)
    assume "r \<noteq> length (js @ [J])"
    then have "take r (js @ [J]) = take r js" using rl by simp
    with p posts_quiet [OF assms(4)] show False by simp
  qed
  moreover from this assms(1) have "pc = At_wait \<or> pc = At_resume"
    by (cases pc) (simp_all add: at_point_def)
  ultimately have "writing i (s @ jobs_bytes (js @ [J])) (sync_point (length s) n (js @ [J])) V"
    using assms(1) by (auto simp: at_point_def)
  moreover have "sync_point (length s) n (js @ [J]) = length (s @ jobs_bytes (js @ [J]))"
    using assms(5) by (simp add: sync_point_append jobs_bytes_def)
  ultimately obtain c where c: "file_at i c (length (s @ jobs_bytes (js @ [J]))) (v_disk V)" "c @ w_out (v_W V) = s @ jobs_bytes (js @ [J])"
      "length (s @ jobs_bytes (js @ [J])) \<le> length c"
    by (auto simp: writing_def)
  then have "w_out (v_W V) = []" by (metis length_append add_le_same_cancel1 le_zero_eq length_0_conv)
  with c show ?thesis by (auto simp: file_at_def)
qed

text \<open>
  C32: a synchronous commit returns when its data is on disk and not before: the commit of a
  valid transaction ends waiting for \<open>write_finished\<close>. The service thread writes, syncs and
  posts in steps of their own; after any number of its steps -- between the write and the
  sync, or between the sync and the post, too --, once that semaphore is posted the data file,
  as far as \<open>fsync\<close> has covered it, holds everything queued before and the entries of this
  transaction; and the thread does get that far. (Assumed of the handle: nobody owes it a post
  already.)
\<close>

theorem sync_commit_durable:
  assumes "queue_quiet i s n js (Write_finished (h_ptr H)) V"
    and "h_log H \<noteq> []" and "valid_at_commit (H, v_db V)" and "w_ready W" and "w_out W = []"
    and "log_entries (v_db V) (rev (h_log H)) = Some es"
  shows "\<exists>H' D' Q'. tr_commit_main W CT_SYNC (H, v_db V) (v_queue V) = Done (True, (H', D'), Q', Some (Write_finished (h_ptr H)))
    \<and> (\<forall>m V'. service_steps can_open W0 magic at m (with_session V D' Q') = Done V' \<and> sem_wait (Write_finished (h_ptr H)) (v_queue V') \<noteq> None
        \<longrightarrow> (\<exists>c. k_files (v_disk V') i = Some c
              \<and> take (k_synced (v_disk V') i) c = s @ jobs_bytes js @ enc_item (Committed es)))
    \<and> (\<exists>m V'. service_steps can_open W0 magic at m (with_session V D' Q') = Done V' \<and> sem_wait (Write_finished (h_ptr H)) (v_queue V') \<noteq> None)"
proof -
  let ?x = "Write_finished (h_ptr H)"
  have ct: "effective_type CT_SYNC H = CT_SYNC" "commit_sem CT_SYNC H = ?x" "sync_type CT_SYNC = DB_SERVICE__SYNC_COMMIT"
    by (simp_all add: effective_type_def commit_sem_def sync_type_def)
  obtain H' D' J where c: "tr_commit_main W CT_SYNC (H, v_db V) (v_queue V) = Done (True, (H', D'), output_queue_push J (v_queue V), Some ?x)"
      "o_type J = DB_SERVICE__SYNC_COMMIT" "o_lock J = Some ?x" "o_ready J = 1" "w_ready (o_W J)"
      "w_out (o_W J) = root_element True (enc_transaction es)"
    using commit_valid_ok [OF assms(2-6) ct(1), of "v_queue V"] unfolding ct by blast
  have J: "job_ready J" using c(2,4,5) by (simp add: job_ready_def)
  let ?V = "with_session V D' (output_queue_push J (v_queue V))"
  note start = quiet_push [OF assms(1) J]
  have q: "\<forall>K \<in> set js. o_lock K \<noteq> Some ?x" "q_sems (v_queue V) ?x = 0"
    using assms(1) by (simp_all add: queue_quiet_def)
  have wait: "sem_wait x Q \<noteq> None \<longleftrightarrow> 0 < q_sems Q x" for x Q by (simp add: sem_wait_def)
  have durable: "\<exists>c. k_files (v_disk V') i = Some c \<and> take (k_synced (v_disk V') i) c = s @ jobs_bytes js @ enc_item (Committed es)"
    if steps: "service_steps can_open W0 magic at m ?V = Done V'" and posted: "0 < q_sems (v_queue V') ?x" for m V'
  proof -
    obtain r pc where "at_point i s n (q_sems (v_queue V)) (js @ [J]) (v_pos V) r pc V'"
      using service_steps_at [OF start, of can_open W0 magic at m D'] steps by auto
    from at_point_posted [OF this posted q(2,1) c(2)] c(6) show ?thesis by (simp add: jobs_bytes_def)
  qed
  obtain V' where V': "service_steps can_open W0 magic at (5 * (length (js @ [J]) - 0)) ?V = Done V'"
      "at_point i s n (q_sems (v_queue V)) (js @ [J]) (v_pos V) (length (js @ [J])) At_wait V'"
    using service_runs [OF start] by blast
  have "0 < posts (take (length (js @ [J])) (js @ [J])) ?x" using c(3) by (simp add: posts_def)
  then have "0 < q_sems (v_queue V') ?x" using V'(2) by (simp add: at_point_def)
  with V'(1) durable c(1) show ?thesis unfolding wait by blast
qed

text \<open>
  C35: a failed commit spoils the semaphores: with \<open>FAST_COMMIT\<close> the job of a transaction that
  turns out to be invalid stays in the queue, and the service thread posts its semaphore though
  nobody waits. The next synchronous commit of the handle then finds \<open>write_finished\<close> posted
  and returns at once, while its own job is still waiting to be written.
\<close>

theorem failed_commit_spoils_sync:
  assumes "queue_quiet i s n js (Write_finished (h_ptr H)) V"
    and "h_log H \<noteq> []" and "\<not> valid_at_commit (H, v_db V)" and "w_ready W" and "w_out W = []"
  shows "\<exists>H' D' Q' m V'. tr_commit_main W CT_SYNC (H, v_db V) (v_queue V) = Done (False, (H', D'), Q', None)
    \<and> service_steps can_open W0 magic at m (with_session V D' Q') = Done V' \<and> v_pos V' = length (q_jobs (v_queue V'))
    \<and> (\<forall>H2 W2 es. h_ptr H2 = h_ptr H \<and> h_log H2 \<noteq> [] \<and> valid_at_commit (H2, v_db V') \<and> w_ready W2 \<and> w_out W2 = []
          \<and> log_entries (v_db V') (rev (h_log H2)) = Some es \<longrightarrow>
        (\<exists>s2 Q2. tr_commit_main W2 CT_SYNC (H2, v_db V') (v_queue V') = Done (True, s2, Q2, Some (Write_finished (h_ptr H)))
          \<and> sem_wait (Write_finished (h_ptr H)) Q2 \<noteq> None \<and> v_pos V' < length (q_jobs Q2)))"
proof -
  let ?x = "Write_finished (h_ptr H)"
  have ct: "effective_type CT_SYNC K = CT_SYNC" "commit_sem CT_SYNC K = Write_finished (h_ptr K)" "sync_type CT_SYNC = DB_SERVICE__SYNC_COMMIT" for K
    by (simp_all add: effective_type_def commit_sem_def sync_type_def)
  obtain H' D' J where c: "tr_commit_main W CT_SYNC (H, v_db V) (v_queue V) = Done (False, (H', D'), output_queue_push J (v_queue V), None)"
      "o_type J = DB_SERVICE__SYNC_COMMIT" "o_lock J = Some ?x" "o_ready J = 1" "w_ready (o_W J)"
    using commit_invalid_ok [OF assms(2-5) ct(1), of "v_queue V"] unfolding ct by blast
  have J: "job_ready J" using c(2,4,5) by (simp add: job_ready_def)
  note start = quiet_push [OF assms(1) J]
  obtain V' where V': "service_steps can_open W0 magic at (5 * (length (js @ [J]) - 0)) (with_session V D' (output_queue_push J (v_queue V))) = Done V'"
      "at_point i s n (q_sems (v_queue V)) (js @ [J]) (v_pos V) (length (js @ [J])) At_wait V'"
    using service_runs [OF start] by blast
  have "0 < posts (take (length (js @ [J])) (js @ [J])) ?x" using c(3) by (simp add: posts_def)
  then have posted: "0 < q_sems (v_queue V') ?x" using V'(2) by (simp add: at_point_def)
  have pos: "v_pos V' = length (q_jobs (v_queue V'))" using V'(2) by (simp add: at_point_def)
  have "\<exists>s2 Q2. tr_commit_main W2 CT_SYNC (H2, v_db V') (v_queue V') = Done (True, s2, Q2, Some ?x)
      \<and> sem_wait ?x Q2 \<noteq> None \<and> v_pos V' < length (q_jobs Q2)"
    if t: "h_ptr H2 = h_ptr H" "h_log H2 \<noteq> []" "valid_at_commit (H2, v_db V')" "w_ready W2" "w_out W2 = []"
      "log_entries (v_db V') (rev (h_log H2)) = Some es" for H2 W2 es
  proof -
    obtain H3 D3 J2 where "tr_commit_main W2 CT_SYNC (H2, v_db V') (v_queue V') = Done (True, (H3, D3), output_queue_push J2 (v_queue V'), Some ?x)"
      using commit_valid_ok [OF t(2-6) ct(1), of "v_queue V'"] unfolding ct t(1) by blast
    with posted pos show ?thesis by (auto simp: output_queue_push_eq sem_wait_def)
  qed
  with c(1) V'(1) pos show ?thesis by blast
qed

section \<open>Closing\<close>

text \<open>\<open>sem_post(D->counter)\<close> without a job: the thread comes to the end of the queue and stops.\<close>

definition request_stop :: "Service \<Rightarrow> Service" where
  "request_stop V = V\<lparr>v_queue := (v_queue V)\<lparr>q_counter := q_counter (v_queue V) + 1\<rparr>\<rparr>"

lemma service_stops:
  assumes "at_point i s n sems js k0 (length js) At_wait V"
  shows "\<exists>V'. service_steps can_open W magic at 2 (request_stop V) = Done V' \<and> v_pc V' = Stopped \<and> k_files (v_disk V') i = Some (s @ jobs_bytes js)
    \<and> k_synced (v_disk V') i = length (s @ jobs_bytes js)"
proof -
  have w: "writing i (s @ jobs_bytes js) (sync_point (length s) n js) V" and pc: "v_pc V = At_wait" "v_pos V = length (q_jobs (v_queue V))"
    using assms by (simp_all add: at_point_def)
  define V1 where "V1 = take_job (request_stop V)"
  have "v_pc V1 = At_exit" "v_dump_running V1 = v_dump_running V"
    using pc by (simp_all add: take_job_def request_stop_def V1_def Let_def)
  moreover have 1: "service_step can_open W magic at (request_stop V) = Done V1"
    using pc by (simp add: service_step_def request_stop_def V1_def)
  have "writing i (s @ jobs_bytes js) (sync_point (length s) n js) V1"
    using w by (simp add: writing_def V1_def take_job_def request_stop_def Let_def)
  from v_sync_ok [OF this] obtain V2 where V2: "v_sync V1 = Done V2" "writing i (s @ jobs_bytes js) (length (s @ jobs_bytes js)) V2" by blast
  have 2: "service_step can_open W magic at V1 = Done (V2\<lparr>v_pc := Stopped\<rparr>)"
    using V2(1) w calculation by (simp add: service_step_def writing_def)
  obtain c where c: "file_at i c (length (s @ jobs_bytes js)) (v_disk V2)" "c @ w_out (v_W V2) = s @ jobs_bytes js" "length (s @ jobs_bytes js) \<le> length c"
    using V2(2) by (auto simp: writing_def)
  then have "w_out (v_W V2) = []" by (metis length_append add_le_same_cancel1 le_zero_eq length_0_conv)
  with c 1 2 show ?thesis by (auto simp: numeral_2_eq_2 file_at_def)
qed

lemma jobs_committed: "map job_bytes js = map (\<lambda>es. enc_item (Committed es)) ess \<Longrightarrow> jobs_bytes js = concat (map enc_item (map Committed ess))"
  by (simp add: jobs_bytes_def comp_def)

lemma fold_committed: "fold (apply_item T first) (map Committed ess) A = fold (apply_entries T) ess A"
  by (induction ess arbitrary: A) simp_all

text \<open>
  C33: commits survive a restart, in the order of the queue: let the current data file hold a
  header and items that fit, and let ready commits with the entries \<open>ess\<close> wait in the queue.
  The service thread works them off and, told to stop, stops; then loading the file it leaves
  succeeds, and the nodes in memory stand for the database of the items to which the
  transactions have been applied one after the other.
\<close>

theorem commits_survive_restart:
  assumes "at_point i (enc_file T magic its) n (q_sems (v_queue V)) js (v_pos V) 0 At_wait V" and "\<forall>J \<in> set js. job_ready J"
    and "map job_bytes js = map (\<lambda>es. enc_item (Committed es)) ess"
    and "length (enc_header T) < 2 ^ 60" and "file_starts first its" and "old = 0 \<or> old = magic"
    and "items_fit T first False A (its @ map Committed ess)"
    and "loads malloc na T (items_cost (its @ map Committed ess)) A L" and "malloc_ok m"
  shows "\<exists>V1 V2 file L'. service_steps can_open W magic' at (5 * length js) V = Done V1
    \<and> service_steps can_open W magic' at 2 (request_stop V1) = Done V2 \<and> v_pc V2 = Stopped \<and> k_files (v_disk V2) i = Some file
    \<and> load_file malloc na (file_reader_init m file) old first L = (Done (LOAD_UNFINISHED_FILE, old), L')
    \<and> represents L' (fold (apply_entries T) ess (fold (apply_item T first) its A))"
proof -
  obtain V1 where V1: "service_steps can_open W magic' at (5 * (length js - 0)) V = Done V1"
      "at_point i (enc_file T magic its) n (q_sems (v_queue V)) js (v_pos V) (length js) At_wait V1"
    using service_runs [OF assms(1,2)] by blast
  obtain V2 where V2: "service_steps can_open W magic' at 2 (request_stop V1) = Done V2" "v_pc V2 = Stopped"
      "k_files (v_disk V2) i = Some (enc_file T magic its @ jobs_bytes js)"
    using service_stops [OF V1(2)] by blast
  have contents: "enc_file T magic its @ jobs_bytes js = enc_file T magic (its @ map Committed ess)"
    using jobs_committed [OF assms(3)] by (simp add: enc_file_def)
  have st: "file_starts first (its @ map Committed ess)" using assms(5) by (auto simp: file_starts_def)
  from load_file_replays_lemma [OF assms(4) st assms(6-9)] V1(1) V2 show ?thesis
    unfolding contents fold_append comp_apply fold_committed by auto
qed

section \<open>The queue under concurrent pushes\<close>

text \<open>
  Any number of threads push while the service thread runs. A push is the two steps of
  \<open>output_queue_push\<close>: the job is linked behind the last one (under the mutex), and later, after
  the mutex is released, \<open>sem_post(D->counter)\<close> follows; the number that goes with the state
  counts the posts still outstanding. The job of a commit is filled by its owner until the
  owner marks it ready; the set holds the jobs not yet marked. Semaphores are waited for.
\<close>

type_synonym queue_state = "Service \<times> nat \<times> nat set"

abbreviation is_commit :: "OutputList \<Rightarrow> bool" where
  "is_commit J \<equiv> o_type J = DB_SERVICE__COMMIT \<or> o_type J = DB_SERVICE__SYNC_COMMIT"

inductive queue_step :: "(nat \<Rightarrow> bool) \<Rightarrow> (nat \<Rightarrow> node_ref \<Rightarrow> addr) \<Rightarrow> queue_state \<Rightarrow> queue_state \<Rightarrow> bool"
  for can_open at where
  link: "o_ready J = 0 \<Longrightarrow> queue_step can_open at (V, u, F)
    (V\<lparr>v_queue := queue_link J (v_queue V)\<rparr>, Suc u,
     if is_commit J then insert (length (q_jobs (v_queue V))) F else F)"
| post: "queue_step can_open at (V, Suc u, F) (V\<lparr>v_queue := queue_post (v_queue V)\<rparr>, u, F)"
| fill: "k \<in> F \<Longrightarrow> (\<And>J. o_type (f J) = o_type J \<and> o_ready (f J) = o_ready J) \<Longrightarrow>
    queue_step can_open at (V, u, F) (V\<lparr>v_queue := upd_job k f (v_queue V)\<rparr>, u, F)"
| ready: "k \<in> F \<Longrightarrow> queue_step can_open at (V, u, F)
    (V\<lparr>v_queue := upd_job k (\<lambda>J. J\<lparr>o_ready := o_ready J + 1\<rparr>) (v_queue V)\<rparr>, u, F - {k})"
| wait: "sem_wait x (v_queue V) = Some Q \<Longrightarrow> queue_step can_open at (V, u, F) (V\<lparr>v_queue := Q\<rparr>, u, F)"
| work: "service_step can_open W magic at V = Done V' \<Longrightarrow> queue_step can_open at (V, u, F) (V', u, F)"

inductive queue_reachable :: "(nat \<Rightarrow> bool) \<Rightarrow> (nat \<Rightarrow> node_ref \<Rightarrow> addr) \<Rightarrow> queue_state \<Rightarrow> bool"
  for can_open at where
  start: "v_pc V = At_wait \<Longrightarrow> v_pos V = 0 \<Longrightarrow> q_jobs (v_queue V) = [] \<Longrightarrow> q_freed (v_queue V) = []
    \<Longrightarrow> q_counter (v_queue V) = 0 \<Longrightarrow> queue_reachable can_open at (V, 0, {})"
| step: "queue_reachable can_open at S \<Longrightarrow> queue_step can_open at S S' \<Longrightarrow> queue_reachable can_open at S'"

text \<open>What a job does to the bookkeeping of the queue: nothing.\<close>

definition same_queue :: "Service \<Rightarrow> Service \<Rightarrow> bool" where
  "same_queue V V' \<longleftrightarrow> v_pos V' = v_pos V \<and> v_pc V' = v_pc V \<and> q_jobs (v_queue V') = q_jobs (v_queue V)
     \<and> q_freed (v_queue V') = q_freed (v_queue V) \<and> q_counter (v_queue V') = q_counter (v_queue V)"

named_theorems queue_kept \<open>operations that leave the bookkeeping of the queue alone\<close>

lemma same_queue_refl [simp]: "same_queue V V"
  by (simp add: same_queue_def)

lemma same_queue_trans: "same_queue V V' \<Longrightarrow> same_queue V' V'' \<Longrightarrow> same_queue V V''"
  by (simp add: same_queue_def)

lemma v_sync_queue [queue_kept]: "v_sync V = Done V' \<Longrightarrow> same_queue V V'"
  by (auto simp: v_sync_def obind_eq_Done same_queue_def)

lemma post_lock_queue [simp]: "same_queue V (post_lock J V)"
  by (simp add: same_queue_def)

lemma answer_queue [simp]: "same_queue V (answer e V)"
  by (simp add: answer_def same_queue_def)

lemma sem_wait_queue [queue_kept]: "sem_wait x Q = Some Q' \<Longrightarrow>
    q_jobs Q' = q_jobs Q \<and> q_freed Q' = q_freed Q \<and> q_counter Q' = q_counter Q"
  by (auto simp: sem_wait_def split: if_splits)

lemma service_sync_queue [queue_kept]: "service_sync J V = Done V' \<Longrightarrow> same_queue V V'"
  using v_sync_queue by (auto simp: service_sync_def split: if_splits)

text \<open>The write changes the job at hand, and nothing but its contents; a job not ready stays.\<close>

lemma service_write_queue:
  assumes "service_write J V = Done V'"
  shows "0 < o_ready J \<and> v_pos V' = v_pos V \<and> v_pc V' = v_pc V
    \<and> (\<exists>f. v_queue V' = upd_job (v_pos V) f (v_queue V))"
proof -
  obtain g D where "free_garbage (o_garbage J) (o_end_time J) (v_db V) = (g, D)" by fastforce
  with assms show ?thesis
    by (auto simp: service_write_def obind_eq_Done obind_check split: if_splits)
qed

lemma database_new_file_queue [queue_kept]: "database_new_file can_open W b n V = Done (ok, V') \<Longrightarrow> same_queue V V'"
  by (auto simp: database_new_file_def obind_eq_Done Let_def same_queue_def split: if_splits prod.splits)

lemma service_new_file_queue [queue_kept]:
  assumes "service_new_file can_open W n J V = Done V'"
  shows "same_queue V V'"
proof -
  from assms obtain V1 V2 where V1: "v_sync V = Done V1" and V': "V' = post_lock J V2"
    and V2: "(if v_dump_running V1 then Done (answer DB_ERROR__DUMP_RUNNING V1)
      else obind (database_new_file can_open W False n V1) (\<lambda>(ok, V).
        Done (answer (if ok then DB_SUCCESS else DB_ERROR__CANNOT_CREATE_NEW_FILE) V))) = Done V2"
    by (auto simp: service_new_file_def obind_eq_Done)
  have "same_queue V1 V2"
  proof (cases "v_dump_running V1")
    case True
    with V2 show ?thesis by auto
  next
    case False
    with V2 obtain ok V3 e where "database_new_file can_open W False n V1 = Done (ok, V3)" "V2 = answer e V3"
      by (auto simp: obind_eq_Done)
    then show ?thesis using database_new_file_queue answer_queue same_queue_trans by blast
  qed
  with v_sync_queue [OF V1] V' show ?thesis using post_lock_queue same_queue_trans by blast
qed

lemma service_start_dump_queue [queue_kept]:
  assumes "service_start_dump can_open W n J V = Done V'"
  shows "same_queue V V'"
proof -
  from assms obtain V1 V2 where V1: "v_sync V = Done V1" and V': "V' = post_lock J V2"
    and V2: "(if v_dump_running V1 then Done (answer DB_ERROR__DUMP_RUNNING V1)
      else obind (database_new_file can_open W True n V1) (\<lambda>(ok, V).
        if \<not> ok then Done (answer DB_ERROR__CANNOT_CREATE_NEW_FILE V)
        else
          let V = (answer DB_SUCCESS V)\<lparr>v_dump_running := True\<rparr> in
          Done (if v_allocs V \<noteq> []
            then V\<lparr>v_dump_type := Some 0, v_allocs := (v_allocs V)[0 := node_allocator_dump_init (v_allocs V ! 0)]\<rparr>
            else V))) = Done V2"
    by (auto simp: service_start_dump_def obind_eq_Done)
  have "same_queue V1 V2"
  proof (cases "v_dump_running V1")
    case True
    with V2 show ?thesis by auto
  next
    case False
    with V2 obtain ok V3 where V3: "database_new_file can_open W True n V1 = Done (ok, V3)"
      and "same_queue V3 V2"
      by (auto simp: obind_eq_Done Let_def same_queue_def answer_def split: if_splits)
    then show ?thesis using database_new_file_queue same_queue_trans by blast
  qed
  with v_sync_queue [OF V1] V' show ?thesis using post_lock_queue same_queue_trans by blast
qed

lemma service_unusual_queue [queue_kept]:
  assumes "service_unusual can_open W n J V = Done V'"
  shows "same_queue V V'"
proof (cases "o_type J")
  case DB_SERVICE__PAUSE
  with assms obtain x Q where "sem_wait x (v_queue V) = Some Q" "V' = V\<lparr>v_queue := Q\<rparr>"
    by (auto simp: service_unusual_def split: option.splits)
  then show ?thesis using sem_wait_queue by (auto simp: same_queue_def)
next
  case DB_SERVICE__COLLECT_GARBAGE
  with assms show ?thesis by (auto simp: service_unusual_def same_queue_def)
next
  case DB_SERVICE__START_DUMP
  with assms service_start_dump_queue show ?thesis by (simp add: service_unusual_def)
next
  case DB_SERVICE__CREATE_NEW_FILE
  with assms service_new_file_queue show ?thesis by (simp add: service_unusual_def)
qed (use assms in \<open>simp_all add: service_unusual_def\<close>)

lemma dump_get_node_queue [queue_kept]: "dump_get_node V = (r, V') \<Longrightarrow> same_queue V V'"
proof (induction V rule: dump_get_node.induct)
  case (1 V)
  show ?case
  proof (cases "v_dump_type V")
    case None
    with "1.prems" show ?thesis by (simp add: dump_get_node.simps)
  next
    case (Some k)
    show ?thesis
    proof (cases "na_dump_ptr (v_allocs V ! k)")
      case None
      with "1.IH" Some "1.prems" show ?thesis
        by (subst (asm) dump_get_node.simps) (force simp: same_queue_def split: if_splits)
    next
      case (Some r)
      with \<open>v_dump_type V = Some k\<close> "1.prems" show ?thesis by (simp add: dump_get_node.simps)
    qed
  qed
qed

lemma dump_node_queue [queue_kept]: "dump_node at k r V = Done V' \<Longrightarrow> same_queue V V'"
  by (auto simp: dump_node_def Let_def obind_eq_Done same_queue_def split: option.splits prod.splits if_splits)

lemma dump_nodes_queue [queue_kept]: "dump_nodes at i V = Done (b, V') \<Longrightarrow> same_queue V V'"
  by (induction i arbitrary: V)
    (auto simp: obind_eq_Done split: prod.splits option.splits dest!: dump_get_node_queue dump_node_queue intro: same_queue_trans)

lemma dump_finish_queue [queue_kept]: "dump_finish V = Done V' \<Longrightarrow> same_queue V V'"
  by (auto simp: dump_finish_def obind_eq_Done same_queue_def)

text \<open>
  The thread is in its loop; each job linked is done, at hand, counted or about to be counted;
  the jobs freed are those before the one the thread holds, each once; and a job its owner
  still fills is a commit, not ready and not yet past the switch.
\<close>

definition in_switch :: "Service \<Rightarrow> bool" where
  "in_switch V \<longleftrightarrow> v_pc V \<in> {At_switch, At_sync, At_post}"

fun queue_inv :: "queue_state \<Rightarrow> bool" where
  "queue_inv (V, u, F) \<longleftrightarrow> (in_switch V \<or> v_pc V \<in> {At_wait, At_resume})
     \<and> v_pos V + (if in_switch V then 1 else 0) + q_counter (v_queue V) + u = length (q_jobs (v_queue V))
     \<and> q_freed (v_queue V) = rev [0..<if in_switch V then v_pos V else v_pos V - 1]
     \<and> (\<forall>k \<in> F. v_pos V \<le> k \<and> k < length (q_jobs (v_queue V))
         \<and> is_commit (q_jobs (v_queue V) ! k) \<and> o_ready (q_jobs (v_queue V) ! k) = 0)
     \<and> (v_pc V \<in> {At_sync, At_post} \<longrightarrow> v_pos V \<notin> F)"

lemma same_queue_inv: "same_queue V V' \<Longrightarrow> queue_inv (V, u, F) \<Longrightarrow> queue_inv (V', u, F)"
  by (simp add: same_queue_def in_switch_def)

lemma take_job_inv:
  assumes "queue_inv (V, u, F)" and "q_counter (v_queue V) \<noteq> 0" and "v_pc V = At_wait \<or> v_pc V = At_resume"
  shows "queue_inv (take_job V, u, F)"
proof -
  have "v_pos V # rev [0..<v_pos V] = rev [0..<Suc (v_pos V)]" by simp
  then have "v_pos V \<noteq> 0 \<Longrightarrow> (v_pos V - 1) # rev [0..<v_pos V - 1] = rev [0..<v_pos V]"
    by (cases "v_pos V") simp_all
  then show ?thesis using assms by (auto simp: take_job_def in_switch_def Let_def)
qed

text \<open>The job at hand is done: the thread goes on to \<open>resume\<close>, and nobody fills that job.\<close>

lemma job_done_inv:
  assumes "queue_inv (V, u, F)" and "in_switch V" and "v_pos V \<notin> F"
  shows "queue_inv (V\<lparr>v_pc := At_resume, v_pos := v_pos V + 1\<rparr>, u, F)"
proof -
  have "Suc (v_pos V) \<le> k" if "k \<in> F" for k
  proof -
    have "v_pos V \<le> k" "k \<noteq> v_pos V" using assms that by auto
    then show ?thesis by simp
  qed
  with assms(1,2) show ?thesis by (simp add: in_switch_def)
qed

lemma switch_inv:
  assumes "queue_inv (V, u, F)" and "v_pc V = At_switch" and "service_step can_open W magic at V = Done V'"
  shows "queue_inv (V', u, F)"
proof -
  let ?J = "q_jobs (v_queue V) ! v_pos V"
  have sw: "in_switch V" using assms(2) by (simp add: in_switch_def)
  have not_filling: "v_pos V \<notin> F" if "\<not> is_commit ?J \<or> 0 < o_ready ?J" using assms(1) that by auto
  consider (commit) V1 where "is_commit ?J" "service_write ?J V = Done V1" "V' = V1\<lparr>v_pc := At_sync\<rparr>"
    | (sync_me) "o_type ?J = DB_SERVICE__SYNC_ME" "V' = V\<lparr>v_pc := At_sync\<rparr>"
    | (unusual) V1 where "\<not> is_commit ?J" "service_unusual can_open W magic ?J V = Done V1"
        "V' = V1\<lparr>v_pc := At_resume, v_pos := v_pos V1 + 1\<rparr>"
    using assms(2,3) by (auto simp: service_step_def Let_def obind_eq_Done split: if_splits)
  then show ?thesis
  proof cases
    case commit
    from service_write_queue [OF commit(2)] obtain f where f: "0 < o_ready ?J" "v_pos V1 = v_pos V"
        "v_queue V1 = upd_job (v_pos V) f (v_queue V)" by blast
    have "v_pos V \<notin> F" using not_filling f(1) by blast
    moreover from this have "q_jobs (v_queue V1) ! k = q_jobs (v_queue V) ! k" if "k \<in> F" for k
      using that f(3) by (metis upd_job_sel(7))
    ultimately show ?thesis using assms(1) sw f(2,3) by (auto simp: commit(3) in_switch_def)
  next
    case sync_me
    then have "v_pos V \<notin> F" using not_filling by simp
    with assms(1) sw show ?thesis by (simp add: sync_me(2) in_switch_def)
  next
    case unusual
    note q = service_unusual_queue [OF unusual(2)]
    have "v_pos V \<notin> F" using not_filling unusual(1) by blast
    with job_done_inv [OF same_queue_inv [OF q assms(1)]] q sw show ?thesis
      by (simp add: unusual(3) same_queue_def in_switch_def del: queue_inv.simps)
  qed
qed

lemma resume_inv:
  assumes "queue_inv (V, u, F)" and "v_pc V = At_resume" and "service_step can_open W magic at V = Done V'"
  shows "queue_inv (V', u, F)"
proof (cases "v_dump_running V")
  case False
  with assms(2,3) have "V' = V\<lparr>v_pc := At_wait\<rparr>" by (simp add: service_step_def)
  with assms(1,2) show ?thesis by (simp add: in_switch_def)
next
  case True
  with assms(2,3) obtain b V1 where V1: "dump_nodes at DUMP__NODES_PER_TRANSACTION V = Done (b, V1)"
      "(if b then obind (dump_finish V1) (\<lambda>V. Done (V\<lparr>v_pc := At_wait\<rparr>))
        else Done (if q_counter (v_queue V1) = 0 then V1 else take_job V1)) = Done V'"
    by (auto simp: service_step_def obind_eq_Done)
  note q = dump_nodes_queue [OF V1(1)]
  have i: "queue_inv (V1, u, F)" "v_pc V1 = At_resume"
    using same_queue_inv [OF q assms(1)] q assms(2) by (simp_all add: same_queue_def del: queue_inv.simps)
  show ?thesis
  proof (cases b)
    case True
    with V1(2) obtain V2 where V2: "dump_finish V1 = Done V2" "V' = V2\<lparr>v_pc := At_wait\<rparr>" by (auto simp: obind_eq_Done)
    from same_queue_inv [OF dump_finish_queue [OF V2(1)] i(1)] dump_finish_queue [OF V2(1)] i(2) V2(2)
    show ?thesis by (simp add: same_queue_def in_switch_def)
  next
    case False
    with V1(2) i take_job_inv [OF i(1)] show ?thesis by (auto split: if_splits simp del: queue_inv.simps)
  qed
qed

lemma service_step_inv:
  assumes "queue_inv (V, u, F)" and "service_step can_open W magic at V = Done V'"
  shows "queue_inv (V', u, F)"
proof (cases "v_pc V")
  case At_wait
  with assms take_job_inv [OF assms(1)] show ?thesis
    by (auto simp: service_step_def Let_def split: if_splits simp del: queue_inv.simps)
next
  case At_switch
  then show ?thesis by (rule switch_inv [OF assms(1) _ assms(2)])
next
  case At_sync
  with assms(2) obtain V1 where V1: "service_sync (q_jobs (v_queue V) ! v_pos V) V = Done V1" "V' = V1\<lparr>v_pc := At_post\<rparr>"
    by (auto simp: service_step_def Let_def obind_eq_Done)
  from same_queue_inv [OF service_sync_queue [OF V1(1)] assms(1)] service_sync_queue [OF V1(1)] At_sync V1(2)
  show ?thesis by (simp add: same_queue_def in_switch_def)
next
  case At_post
  let ?V = "post_lock (q_jobs (v_queue V) ! v_pos V) V"
  have "queue_inv (?V, u, F)" by (rule same_queue_inv [OF post_lock_queue assms(1)])
  moreover have "V' = ?V\<lparr>v_pc := At_resume, v_pos := v_pos ?V + 1\<rparr>"
    using At_post assms(2) by (simp add: service_step_def Let_def)
  moreover have "in_switch ?V" "v_pos ?V \<notin> F" using At_post assms(1) by (simp_all add: in_switch_def)
  ultimately show ?thesis using job_done_inv by blast
next
  case At_resume
  then show ?thesis by (rule resume_inv [OF assms(1) _ assms(2)])
qed (use assms in \<open>auto simp: in_switch_def\<close>)

lemma queue_step_inv: "queue_step can_open at S S' \<Longrightarrow> queue_inv S \<Longrightarrow> queue_inv S'"
proof (induction rule: queue_step.induct)
  case (link J V u F)
  then show ?case by (auto simp: queue_link_def in_switch_def nth_append)
next
  case (post V u F)
  then show ?case by (simp add: queue_post_def in_switch_def)
next
  case (fill k F f V u)
  have "o_type (q_jobs (upd_job k f (v_queue V)) ! j) = o_type (q_jobs (v_queue V) ! j)
      \<and> o_ready (q_jobs (upd_job k f (v_queue V)) ! j) = o_ready (q_jobs (v_queue V) ! j)" for j
    using fill by (cases "j = k") auto
  with fill.prems show ?case by (simp add: in_switch_def)
next
  case (ready k F V u)
  then show ?case by (auto simp: in_switch_def)
next
  case (wait x V Q u F)
  with sem_wait_queue [OF wait.hyps] show ?case by (simp add: in_switch_def)
next
  case (work W magic V V' u F)
  then show ?case using service_step_inv by blast
qed

text \<open>
  C36: the output queue is never used after it is freed. The service thread frees a job when it
  has the next one, and jobs are linked, posted, filled and marked ready by any number of
  threads in between. In every state they can reach, the thread is inside its loop (it never
  meets a null pointer for the next job); the job it works on exists and is not freed, and
  neither is, after the switch, the one whose \<open>next\<close> field it is going to read; the last
  job, whose \<open>next\<close> field the next push will write, is not freed; nor is any job its committer
  still fills; and no job is freed twice or before its switch is done.
\<close>

theorem queue_never_dangles:
  assumes "queue_reachable can_open at (V, u, F)"
  shows "(in_switch V \<or> v_pc V \<in> {At_wait, At_resume})
    \<and> (in_switch V \<longrightarrow> v_pos V < length (q_jobs (v_queue V)) \<and> v_pos V \<notin> set (q_freed (v_queue V)))
    \<and> (\<not> in_switch V \<and> v_pos V \<noteq> 0 \<longrightarrow> v_pos V - 1 \<notin> set (q_freed (v_queue V)))
    \<and> (q_jobs (v_queue V) \<noteq> [] \<longrightarrow> length (q_jobs (v_queue V)) - 1 \<notin> set (q_freed (v_queue V)))
    \<and> (\<forall>k \<in> F. k < length (q_jobs (v_queue V)) \<and> k \<notin> set (q_freed (v_queue V)))
    \<and> distinct (q_freed (v_queue V)) \<and> set (q_freed (v_queue V)) \<subseteq> {..<v_pos V}"
proof -
  have "queue_inv S" if "queue_reachable can_open at S" for S
    using that
  proof (induction rule: queue_reachable.induct)
    case (start V)
    then show ?case by (simp add: in_switch_def)
  next
    case (step S S')
    then show ?case using queue_step_inv by blast
  qed
  from this [OF assms] have inv: "queue_inv (V, u, F)" .
  have "k \<notin> set (q_freed (v_queue V))" if "k \<in> F" for k
  proof -
    have "v_pos V \<le> k" using inv that by simp
    then have "\<not> k < v_pos V" "\<not> k < v_pos V - 1" by simp_all
    with inv show ?thesis by simp
  qed
  moreover have "q_jobs (v_queue V) \<noteq> [] \<longrightarrow> length (q_jobs (v_queue V)) - 1 \<notin> set (q_freed (v_queue V))"
    using inv by (cases "q_jobs (v_queue V)") auto
  ultimately show ?thesis using inv by auto
qed

section \<open>Instances\<close>

text \<open>A thread at rest with one data file, and handles with a new node in the log.\<close>

definition demo_service :: "byte list \<Rightarrow> Service" where
  "demo_service bs = \<lparr>v_pc = At_wait, v_pos = 0, v_W = writer_init (\<lambda>_. 0),
     v_queue = \<lparr>q_jobs = [], q_freed = [], q_counter = 0, q_sems = (\<lambda>_. 0)\<rparr>,
     v_disk = \<lparr>k_files = [1 \<mapsto> bs], k_synced = (\<lambda>_. 0)\<rparr>, v_fd = Data_file 1, v_file_index = 1, v_read_only = False,
     v_db = ld_db demo_loader, v_dump_running = False, v_dump_type = None, v_allocs = [], v_answers = Map.empty,
     v_mem = \<lparr>m_tm = \<lparr>ga_gc_threshold = 4096, ga_counter = 0, ga_free_list = []\<rparr>, m_outputs = SimpleAllocatorInit 96 320,
       m_vpages = vpage_allocator_init 128, m_pages = page_allocator_init 128, m_start_times = []\<rparr>\<rparr>"

definition demo_handle :: "lock_ref list \<Rightarrow> Handle" where
  "demo_handle rs = (fst (db_handle_init 2 []))\<lparr>h_log := [LI_TYPE_NODE_ALLOC 64], h_read_set := rs\<rparr>"

lemma demo_writer: "w_ready (writer_init (\<lambda>_. 0))" "w_out (writer_init (\<lambda>_. 0)) = []"
  by (simp_all add: w_ready_def w_inv_writer_init)

lemma demo_quiet: "queue_quiet 1 bs 0 [] x (demo_service bs)"
  by (simp add: queue_quiet_def at_point_def demo_service_def writing_def file_at_def demo_writer jobs_bytes_def posts_def)

lemma demo_handle_sel: "h_log (demo_handle rs) \<noteq> []" "h_ptr (demo_handle rs) = 2"
  "log_entries D (rev (h_log (demo_handle rs))) = Some [Created (n_type (d_nodes D 64)) (n_id (d_nodes D 64))]"
  by (simp_all add: demo_handle_def db_handle_init_def)

lemma demo_valid: "valid_at_commit (demo_handle [], D)"
  by (simp add: valid_at_commit_def tr_validate_def demo_handle_def)

lemma demo_invalid: "\<not> valid_at_commit (demo_handle [Node_lock 64], v_db (demo_service bs))"
  by (simp add: valid_at_commit_def tr_validate_def demo_handle_def demo_service_def demo_loader_def
      lock_check_def l_check_def l_init_def db_handle_init_def)

theorem sync_commit_durable_witness:
  "\<exists>H' D' Q' m V'. tr_commit_main (writer_init (\<lambda>_. 0)) CT_SYNC (demo_handle [], v_db (demo_service [5])) (v_queue (demo_service [5]))
      = Done (True, (H', D'), Q', Some (Write_finished 2))
    \<and> service_steps (\<lambda>_. True) (writer_init (\<lambda>_. 0)) 1 (\<lambda>k. node_address 64) m (with_session (demo_service [5]) D' Q') = Done V'
    \<and> (\<exists>c. k_files (v_disk V') 1 = Some c \<and> take (k_synced (v_disk V') 1) c = [5] @ jobs_bytes [] @ enc_item (Committed [Created 0 0]))"
proof -
  have e: "log_entries (v_db (demo_service [5])) (rev (h_log (demo_handle []))) = Some [Created 0 0]"
    by (simp add: demo_handle_sel demo_service_def demo_loader_def)
  show ?thesis
    using sync_commit_durable [OF demo_quiet demo_handle_sel(1) demo_valid demo_writer e,
        of "\<lambda>_. True" "writer_init (\<lambda>_. 0)" 1 "\<lambda>k. node_address 64"]
    unfolding demo_handle_sel(2) by blast
qed

theorem failed_commit_spoils_sync_witness:
  "\<exists>H' D' Q' m V'. tr_commit_main (writer_init (\<lambda>_. 0)) CT_SYNC (demo_handle [Node_lock 64], v_db (demo_service [5])) (v_queue (demo_service [5]))
      = Done (False, (H', D'), Q', None)
    \<and> service_steps (\<lambda>_. True) (writer_init (\<lambda>_. 0)) 1 (\<lambda>k. node_address 64) m (with_session (demo_service [5]) D' Q') = Done V'
    \<and> (\<exists>s2 Q2. tr_commit_main (writer_init (\<lambda>_. 0)) CT_SYNC (demo_handle [], v_db V') (v_queue V') = Done (True, s2, Q2, Some (Write_finished 2))
        \<and> sem_wait (Write_finished 2) Q2 \<noteq> None \<and> v_pos V' < length (q_jobs Q2))"
  using failed_commit_spoils_sync [OF demo_quiet demo_handle_sel(1) demo_invalid demo_writer,
      of "[5]" "\<lambda>_. True" "writer_init (\<lambda>_. 0)" 1 "\<lambda>k. node_address 64"]
    demo_handle_sel demo_valid demo_writer
  by metis

theorem commits_survive_restart_witness:
  "\<exists>V V1 V2 file L'. length (q_jobs (v_queue V)) = 1
    \<and> service_steps (\<lambda>_. True) (writer_init (\<lambda>_. 0)) 1 (\<lambda>k. node_address 64) 5 V = Done V1
    \<and> service_steps (\<lambda>_. True) (writer_init (\<lambda>_. 0)) 1 (\<lambda>k. node_address 64) 2 (request_stop V1) = Done V2 \<and> k_files (v_disk V2) 1 = Some file
    \<and> load_file (\<lambda>H n. Some (first_free (\<lambda>p. H p \<noteq> None))) (\<lambda>D k. first_free (\<lambda>n. n_id (d_nodes D n) \<noteq> 0))
        (file_reader_init (\<lambda>_. Some 4096) file) 0 True demo_loader = (Done (LOAD_UNFINISHED_FILE, 0), L')
    \<and> represents L' [7 \<mapsto> (0, [DBytes [9], DBytes []])]"
proof -
  let ?es = "[Created 0 7, Modified 7 0 Int8 (DBytes [9])]"
  let ?its = "[Dump_begin, Dump_end]"
  obtain W where W: "w_ready W" "w_out W = enc_item (Committed ?es)"
    using w_ready_direct [OF demo_writer(1), of "enc_item (Committed ?es)"] demo_writer(2) by auto
  define J where "J = (output_list W DB_SERVICE__COMMIT None 3)\<lparr>o_ready := 1\<rparr>"
  let ?V = "demo_service (enc_file demo_type 5 ?its)"
  let ?V1 = "with_session ?V (v_db ?V) (output_queue_push J (v_queue ?V))"
  have J: "job_ready J" "map job_bytes [J] = map (\<lambda>es. enc_item (Committed es)) [?es]"
    using W by (simp_all add: job_ready_def J_def output_list_def)
  have q: "queue_quiet 1 (enc_file demo_type 5 ?its) 0 [] Service_thread_pause ?V" by (rule demo_quiet)
  have start: "at_point 1 (enc_file demo_type 5 ?its) 0 (q_sems (v_queue ?V1)) [J] (v_pos ?V1) 0 At_wait ?V1" "\<forall>K \<in> set [J]. job_ready K"
    using quiet_push(1) [OF q J(1), of "v_db ?V"] J(1) by (simp_all add: output_queue_push_eq)
  have items: "?its @ map Committed [?es] = demo_items" by (simp add: demo_items_def)
  have st: "file_starts True ?its" by (simp add: file_starts_def)
  have f: "fold (apply_entries demo_type) [?es] (fold (apply_item demo_type True) ?its Map.empty) = [7 \<mapsto> (0, [DBytes [9], DBytes []])]"
    using demo_file(3) by (simp add: demo_items_def)
  have n: "length (q_jobs (v_queue ?V1)) = 1" "5 * length [J] = 5" by (simp_all add: output_queue_push_eq demo_service_def)
  note t = commits_survive_restart [OF start J(2) demo_header st _ demo_items_fit [folded items] demo_loads_items [folded items] malloc_ok_const,
      where old = 0 and can_open = "\<lambda>_. True" and W = "writer_init (\<lambda>_. 0)" and magic' = 1 and at = "\<lambda>k. node_address 64", unfolded f n(2)]
  then obtain V1 V2 file_bytes L' where
    "service_steps (\<lambda>_. True) (writer_init (\<lambda>_. 0)) 1 (\<lambda>k. node_address 64) 5 ?V1 = Done V1"
    "service_steps (\<lambda>_. True) (writer_init (\<lambda>_. 0)) 1 (\<lambda>k. node_address 64) 2 (request_stop V1) = Done V2"
    "k_files (v_disk V2) 1 = Some file_bytes"
    "load_file (\<lambda>H n. Some (first_free (\<lambda>p. H p \<noteq> None))) (\<lambda>D k. first_free (\<lambda>n. n_id (d_nodes D n) \<noteq> 0))
        (file_reader_init (\<lambda>_. Some 4096) file_bytes) 0 True demo_loader = (Done (LOAD_UNFINISHED_FILE, 0), L')"
    "represents L' [7 \<mapsto> (0, [DBytes [9], DBytes []])]" by blast
  with n(1) show ?thesis by blast
qed

theorem queue_never_dangles_witness:
  "\<exists>V u F. queue_reachable (\<lambda>_. True) (\<lambda>k. node_address 64) (V, u, F) \<and> length (q_jobs (v_queue V)) = 1
    \<and> v_pc V = At_switch \<and> 0 \<notin> set (q_freed (v_queue V))"
proof -
  let ?J = "output_list (writer_init (\<lambda>_. 0)) DB_SERVICE__SYNC_ME None 0"
  have 0: "queue_reachable (\<lambda>_. True) (\<lambda>k. node_address 64) (demo_service [], 0, {})"
    by (rule queue_reachable.start) (simp_all add: demo_service_def)
  define V where "V = (demo_service [])\<lparr>v_queue := queue_link ?J (v_queue (demo_service []))\<rparr>"
  have 1: "queue_reachable (\<lambda>_. True) (\<lambda>k. node_address 64) (V, Suc 0, {})"
    using queue_reachable.step [OF 0 queue_step.link [of ?J]] by (simp add: V_def output_list_def)
  define V2 where "V2 = V\<lparr>v_queue := queue_post (v_queue V)\<rparr>"
  have 2: "queue_reachable (\<lambda>_. True) (\<lambda>k. node_address 64) (V2, 0, {})"
    unfolding V2_def by (rule queue_reachable.step [OF 1 queue_step.post])
  have w: "service_step (\<lambda>_. True) (writer_init (\<lambda>_. 0)) 1 (\<lambda>k. node_address 64) V2 = Done (take_job V2)"
    by (simp add: service_step_def V2_def V_def queue_post_def queue_link_def demo_service_def)
  have 3: "queue_reachable (\<lambda>_. True) (\<lambda>k. node_address 64) (take_job V2, 0, {})"
    by (rule queue_reachable.step [OF 2 queue_step.work [OF w]])
  have pc: "v_pc (take_job V2) = At_switch" "v_pos (take_job V2) = 0" "length (q_jobs (v_queue (take_job V2))) = 1"
    by (simp_all add: take_job_def V2_def V_def queue_post_def queue_link_def demo_service_def Let_def)
  with queue_never_dangles [OF 3] have "0 \<notin> set (q_freed (v_queue (take_job V2)))"
    by (simp add: in_switch_def)
  with 3 pc show ?thesis by blast
qed

end
