(* ===== verification/Dump.thy ===== *)
theory Dump
  imports Service
begin

text \<open>
  What a dump does from its job to its end marker: \<open>DB_SERVICE__START_DUMP\<close> and \<open>do_dump\<close> of
  \<open>threads.c\<close> on top of \<open>node_allocator_dump_init\<close> and \<open>_dump_next\<close>, while no transaction
  runs. The nodes written are those the allocators' traversals have before them.
\<close>

section \<open>What is left to dump\<close>

definition dump_rest :: "NodeAllocator list \<Rightarrow> nat \<Rightarrow> (nat \<times> node_ref) list" where
  "dump_rest As k = concat (map (\<lambda>j. map (Pair j) (all_live (As ! j))) [k..<length As])"

definition dump_todo :: "Service \<Rightarrow> (nat \<times> node_ref) list" where
  "dump_todo V = (case v_dump_type V of
      None \<Rightarrow> []
    | Some k \<Rightarrow> map (Pair k) (remaining (v_allocs V ! k)) @ dump_rest (v_allocs V) (Suc k))"

definition traversable :: "NodeAllocator \<Rightarrow> bool" where
  "traversable A \<longleftrightarrow> distinct (na_dump_blocks A) \<and> 0 < na_slots A"

definition dump_ok :: "Service \<Rightarrow> bool" where
  "dump_ok V \<longleftrightarrow> list_all traversable (v_allocs V)
     \<and> (case v_dump_type V of None \<Rightarrow> True | Some k \<Rightarrow> k < length (v_allocs V) \<and> ptr_ok (v_allocs V ! k))"

lemma traversable_ptr [simp]: "traversable (A\<lparr>na_dump_ptr := p\<rparr>) = traversable A"
  by (simp add: traversable_def)

lemma all_live_ptr [simp]: "all_live (A\<lparr>na_dump_ptr := p\<rparr>) = all_live A"
  by (simp add: all_live_def)

lemma dump_init_form: "\<exists>p. node_allocator_dump_init A = A\<lparr>na_dump_ptr := p\<rparr>"
  by (auto simp: node_allocator_dump_init_def Let_def)

lemma dump_init_traversable [simp]: "traversable (node_allocator_dump_init A) = traversable A"
  using dump_init_form [of A] by auto

lemma dump_rest_update: "j < k \<Longrightarrow> dump_rest (As[j := A]) k = dump_rest As k"
  by (auto simp: dump_rest_def intro!: arg_cong [where f = concat] map_cong)

lemma dump_rest_unfold:
  "k < length As \<Longrightarrow> dump_rest As k = map (Pair k) (all_live (As ! k)) @ dump_rest As (Suc k)"
  by (simp add: dump_rest_def upt_conv_Cons)

lemma dump_rest_end: "length As \<le> k \<Longrightarrow> dump_rest As k = []"
  by (simp add: dump_rest_def)

lemma remaining_None: "na_dump_ptr A = None \<Longrightarrow> remaining A = []"
  by (simp add: remaining_def)

lemma remaining_Some: "ptr_ok A \<Longrightarrow> na_dump_ptr A = Some r \<Longrightarrow> \<exists>rs. remaining A = r # rs"
  using remaining_ptr(2) [of A "fst r" "snd r"] by auto

text \<open>\<open>get_node\<close> finds the next one.\<close>

lemma dump_get_node_ok:
  "dump_ok V \<Longrightarrow> \<exists>ty As. let V' = V\<lparr>v_dump_type := ty, v_allocs := As\<rparr> in
     dump_get_node V = (case dump_todo V of [] \<Rightarrow> None | x # _ \<Rightarrow> Some x, V') \<and> dump_todo V' = dump_todo V \<and> dump_ok V'
     \<and> (dump_todo V = [] \<or> ty = Some (fst (hd (dump_todo V))) \<and> na_dump_ptr (As ! fst (hd (dump_todo V))) = Some (snd (hd (dump_todo V))))"
proof (induction V rule: dump_get_node.induct)
  case (1 V)
  show ?case
  proof (cases "v_dump_type V")
    case None
    then show ?thesis using 1(3)
      by (subst dump_get_node.simps) (intro exI [of _ None] exI [of _ "v_allocs V"], simp add: dump_todo_def dump_ok_def Let_def)
  next
    case (Some k)
    let ?A = "v_allocs V ! k"
    have k: "k < length (v_allocs V)" "ptr_ok ?A" "list_all traversable (v_allocs V)"
      using 1(3) Some by (simp_all add: dump_ok_def)
    show ?thesis
    proof (cases "na_dump_ptr ?A")
      case (Some r)
      note ptr = this
      obtain rs where "remaining ?A = r # rs" using remaining_Some [OF k(2) ptr] by blast
      then show ?thesis using \<open>v_dump_type V = Some k\<close> ptr 1(3)
        by (subst dump_get_node.simps) (intro exI [of _ "Some k"] exI [of _ "v_allocs V"], simp add: dump_todo_def dump_ok_def Let_def)
    next
      case None
      note ptr = this
      show ?thesis
      proof (cases "k + 1 < length (v_allocs V)")
        case True
        let ?B = "node_allocator_dump_init (v_allocs V ! (k + 1))"
        define V1 where "V1 = V\<lparr>v_dump_type := Some (k + 1), v_allocs := (v_allocs V)[k + 1 := ?B]\<rparr>"
        have e: "dump_get_node V = dump_get_node V1"
          using Some ptr True by (subst dump_get_node.simps) (simp add: V1_def)
        have B: "remaining ?B = all_live (v_allocs V ! (k + 1))" "ptr_ok ?B"
          using dump_init_remaining [of "v_allocs V ! (k + 1)"] k(3) True
          by (auto simp: list_all_length traversable_def)
        have todo: "dump_todo V1 = dump_todo V"
          using Some ptr True B(1) dump_rest_unfold [of "k + 1" "v_allocs V"] dump_rest_update [of "k + 1" "Suc (k + 1)" "v_allocs V"]
          by (simp add: dump_todo_def V1_def remaining_None)
        have "dump_ok V1"
          using k(3) True B(2) by (auto simp: dump_ok_def V1_def list_all_length nth_list_update)
        moreover have "\<exists>ty As. V1\<lparr>v_dump_type := ty', v_allocs := As'\<rparr> = V\<lparr>v_dump_type := ty, v_allocs := As\<rparr> \<and> ty = ty' \<and> As = As'"
          for ty' As' by (simp add: V1_def)
        ultimately show ?thesis
          using 1(1) [OF Some ptr True, folded V1_def] unfolding e todo by (simp add: Let_def V1_def)
      next
        case False
        define V1 where "V1 = V\<lparr>v_dump_type := None\<rparr>"
        have e: "dump_get_node V = dump_get_node V1"
          using Some ptr False by (subst dump_get_node.simps) (simp add: V1_def)
        have todo: "dump_todo V = []" using Some ptr False by (simp add: dump_todo_def remaining_None dump_rest_end)
        have "dump_get_node V1 = (None, V1)" by (subst dump_get_node.simps) (simp add: V1_def)
        then show ?thesis unfolding e todo
          by (intro exI [of _ None] exI [of _ "v_allocs V"]) (use k(3) in \<open>simp add: V1_def dump_todo_def dump_ok_def\<close>)
      qed
    qed
  qed
qed

section \<open>One node\<close>

text \<open>Output so far, as \<open>writing\<close> has it, whether or not a dump is running.\<close>

definition sent :: "nat \<Rightarrow> byte list \<Rightarrow> nat \<Rightarrow> Service \<Rightarrow> bool" where
  "sent i s n V \<longleftrightarrow> v_fd V = Data_file i \<and> w_ready (v_W V)
     \<and> (\<exists>c. file_at i c n (v_disk V) \<and> n \<le> length c \<and> c @ w_out (v_W V) = s)"

text \<open>The row a node stands for: its type, identifier and the values of its attributes.\<close>

definition node_row :: "Database \<Rightarrow> addr \<Rightarrow> dumped \<Rightarrow> bool" where
  "node_row D n = (\<lambda>(k, nid, vs). n_type (d_nodes D n) = k \<and> n_id (d_nodes D n) = nid
     \<and> list_all2 (\<lambda>(t, c) v. cell_value t (d_tmem D) (node_ids D) c = Some v \<and> value_ok t v)
         (zip (attr_types (node_get_type D n)) (n_cells (d_nodes D n))) vs)"

text \<open>A node nobody has locked.\<close>

definition unlocked :: "Database \<Rightarrow> addr \<Rightarrow> bool" where
  "unlocked D n \<longleftrightarrow> l_value (n_lock (d_nodes D n)) AND 1 \<noteq> 0"

lemma writes_values:
  "list_all2 (\<lambda>(t, c) v. cell_value t M ids c = Some v \<and> value_ok t v) tcs vs \<Longrightarrow>
    writes (w_for (\<lambda>(t, c) W. attribute_store t M ids W c) tcs) (concat (map enc_value vs))"
proof (induction tcs vs rule: list_all2_induct)
  case Nil
  then show ?case by (simp add: writes_def w_appends_def)
next
  case (Cons tc tcs v vs)
  then have "writes (w_then (\<lambda>W. attribute_store (fst tc) M ids W (snd tc)) (w_for (\<lambda>(t, c) W. attribute_store t M ids W c) tcs))
      (enc_value v @ concat (map enc_value vs))"
    by (intro writes_then writes_attribute) auto
  then show ?case by (cases tc) (simp add: w_then_def writes_def)
qed

lemma writes_node_store:
  assumes "node_row D n d"
  shows "writes (w_array (w_then (w_number 0) (write_node_store D n))) (arr (dump_contents [d]))"
proof -
  obtain k nid vs where d: "d = (k, nid, vs)" by (cases d)
  have "writes (w_array (w_then (w_number 0) (write_node_store D n)))
      (arr (enc_number 0 @ arr (enc_number (of_nat k) @ enc_number nid @ concat (map enc_value vs))))"
    using assms unfolding write_node_store_def node_store_def node_row_def d prod.case
    by (intro writes_array writes_then writes_number) (auto intro: writes_values writes_number)
  then show ?thesis by (simp add: dump_contents_def enc_dumped_def d)
qed

lemma node_row_lock: "node_row (set_lock r l D) m d = node_row D m d"
proof -
  have "n_id (d_nodes (set_lock r l D) x) = n_id (d_nodes D x)" "n_type (d_nodes (set_lock r l D) x) = n_type (d_nodes D x)" for x
    by (cases r; simp)+
  then show ?thesis
    by (simp add: node_row_def node_get_type_def node_ids_def [abs_def])
qed


lemma lock_there_and_back:
  assumes "unlocked D n"
  shows "l_lock_version [(n_lock (d_nodes D n), n_lock (d_nodes D n))] 0 (NOT 0)
      = Some (l_value (n_lock (d_nodes D n)), \<lparr>l_value = 0\<rparr>)"
    and "l_value (n_lock (d_nodes D n)) \<noteq> 0"
    and "set_lock (Node_lock n) (snd (l_unlock (get_lock (set_lock (Node_lock n) \<lparr>l_value = 0\<rparr> D) (Node_lock n)) 0 (l_value (n_lock (d_nodes D n)))))
      (set_lock (Node_lock n) \<lparr>l_value = 0\<rparr> D) = D"
proof -
  have p: "l_permits (l_value (n_lock (d_nodes D n))) 0 (NOT 0)"
    using assms by (simp add: unlocked_def l_permits_def)
  then show "l_lock_version [(n_lock (d_nodes D n), n_lock (d_nodes D n))] 0 (NOT 0)
      = Some (l_value (n_lock (d_nodes D n)), \<lparr>l_value = 0\<rparr>)"
    by (simp add: l_lock_version_Cons l_lock_eq del: l_lock_version.simps)
  show "l_value (n_lock (d_nodes D n)) \<noteq> 0" using assms by (auto simp: unlocked_def)
  have same: "(d_nodes D n)\<lparr>n_lock := \<lparr>l_value = l_value (n_lock (d_nodes D n))\<rparr>\<rparr> = d_nodes D n" by simp
  have "set_lock (Node_lock n) (snd (l_unlock (get_lock (set_lock (Node_lock n) \<lparr>l_value = 0\<rparr> D) (Node_lock n)) 0 (l_value (n_lock (d_nodes D n)))))
      (set_lock (Node_lock n) \<lparr>l_value = 0\<rparr> D)
      = D\<lparr>d_nodes := (d_nodes D)(n := (d_nodes D n)\<lparr>n_lock := \<lparr>l_value = l_value (n_lock (d_nodes D n))\<rparr>\<rparr>)\<rparr>"
    by (simp add: l_unlock_def atomic_cmpswp_def)
  also have "\<dots> = D" unfolding same by simp
  finally show "set_lock (Node_lock n) (snd (l_unlock (get_lock (set_lock (Node_lock n) \<lparr>l_value = 0\<rparr> D) (Node_lock n)) 0 (l_value (n_lock (d_nodes D n)))))
      (set_lock (Node_lock n) \<lparr>l_value = 0\<rparr> D) = D" .
qed

lemma dump_node_ok:
  assumes "sent i s n V" and "unlocked (v_db V) (at k r)" and "node_row (v_db V) (at k r) d"
    and "node_allocator_dump_next (v_allocs V ! k) = Done A"
  shows "\<exists>W K. dump_node at k r V = Done (V\<lparr>v_W := W, v_disk := K, v_allocs := (v_allocs V)[k := A]\<rparr>)
    \<and> sent i (s @ enc_item (Dumped [d])) n (V\<lparr>v_W := W, v_disk := K, v_allocs := (v_allocs V)[k := A]\<rparr>)"
proof -
  let ?n = "at k r" and ?D = "v_db V"
  let ?D1 = "set_lock (Node_lock ?n) \<lparr>l_value = 0\<rparr> ?D"
  obtain c where c: "file_at i c n (v_disk V)" "n \<le> length c" "c @ w_out (v_W V) = s" "w_ready (v_W V)" "v_fd V = Data_file i"
    using assms(1) by (auto simp: sent_def)
  have "writes (w_array (w_then (w_number 0) (write_node_store ?D1 ?n))) (arr (dump_contents [d]))"
    by (rule writes_node_store) (simp add: node_row_lock assms(3) del: set_lock.simps)
  from writes_finish [OF this, of "v_W V" True] c(4) obtain W1 W2 where
    W: "w_array (w_then (w_number 0) (write_node_store ?D1 ?n)) (v_W V) = Done W1" "writer_finish W1 True = Done W2"
      "w_closed (v_W V) (enc_item (Dumped [d])) W2"
    by (auto simp: w_ready_def obind_eq_Done)
  have r: "w_ready W2" "w_out W2 = w_out (v_W V) @ enc_item (Dumped [d])"
    using W(3) c(4) by (simp_all add: w_ready_def w_closed_def)
  obtain W' K' out where b: "buffered_write [] (Data_file i) W2 (v_disk V) = Done (W', K')" "w_ready W'" "file_at i (c @ out) n K'"
      "out @ w_out W' = w_out W2"
    using buffered_write_ok [OF r(1) c(1), of "[]"] by auto
  note lk = lock_there_and_back [OF assms(2)]
  have "dump_node at k r V = Done (V\<lparr>v_W := W', v_disk := K', v_db := ?D, v_allocs := (v_allocs V)[k := A]\<rparr>)"
    unfolding dump_node_def Let_def lk(1) option.case prod.case W(1)
    using lk(2,3) W(2) b(1) c(5) assms(4) by (simp del: set_lock.simps get_lock.simps)
  moreover have "sent i (s @ enc_item (Dumped [d])) n (V\<lparr>v_W := W', v_disk := K', v_allocs := (v_allocs V)[k := A]\<rparr>)"
    using b(2-4) c r(2) by (auto simp: sent_def intro!: exI [of _ "c @ out"])
  ultimately show ?thesis by (intro exI [of _ W'] exI [of _ K']) simp
qed

section \<open>All of them\<close>

text \<open>The nodes left to dump are unlocked and stand for the rows \<open>ds\<close>.\<close>

definition dumpable :: "(nat \<Rightarrow> node_ref \<Rightarrow> addr) \<Rightarrow> Database \<Rightarrow> (nat \<times> node_ref) list \<Rightarrow> dumped list \<Rightarrow> bool" where
  "dumpable at D todo ds \<longleftrightarrow> list_all2 (\<lambda>(k, r) d. unlocked D (at k r) \<and> node_row D (at k r) d) todo ds"

definition enc_dump :: "dumped list \<Rightarrow> byte list" where
  "enc_dump ds = concat (map (\<lambda>d. enc_item (Dumped [d])) ds)"

lemma enc_dump_simps [simp]: "enc_dump [] = []" "enc_dump (d # ds) = enc_item (Dumped [d]) @ enc_dump ds"
  "enc_dump (xs @ ys) = enc_dump xs @ enc_dump ys"
  by (simp_all add: enc_dump_def)

lemma sent_eq: "sent i s n (V\<lparr>v_dump_type := ty, v_allocs := As\<rparr>) = sent i s n V"
  by (simp add: sent_def)

lemma dump_next_ok:
  assumes "dump_ok V" and "v_dump_type V = Some k" and "na_dump_ptr (v_allocs V ! k) = Some r"
  shows "\<exists>A. node_allocator_dump_next (v_allocs V ! k) = Done A
    \<and> dump_ok (V\<lparr>v_W := W, v_disk := K, v_allocs := (v_allocs V)[k := A]\<rparr>)
    \<and> (k, r) # dump_todo (V\<lparr>v_W := W, v_disk := K, v_allocs := (v_allocs V)[k := A]\<rparr>) = dump_todo V"
proof -
  have k: "k < length (v_allocs V)" "ptr_ok (v_allocs V ! k)" "list_all traversable (v_allocs V)"
    using assms(1,2) by (simp_all add: dump_ok_def)
  then have t: "traversable (v_allocs V ! k)" by (simp add: list_all_length)
  obtain p where p: "node_allocator_dump_next (v_allocs V ! k) = Done ((v_allocs V ! k)\<lparr>na_dump_ptr := p\<rparr>)"
      "r # remaining ((v_allocs V ! k)\<lparr>na_dump_ptr := p\<rparr>) = remaining (v_allocs V ! k)" "ptr_ok ((v_allocs V ! k)\<lparr>na_dump_ptr := p\<rparr>)"
    using dump_next_remaining [OF k(2) _ assms(3)] t unfolding traversable_def by blast
  show ?thesis
  proof (intro exI conjI)
    show "node_allocator_dump_next (v_allocs V ! k) = Done ((v_allocs V ! k)\<lparr>na_dump_ptr := p\<rparr>)" by (rule p(1))
    show "dump_ok (V\<lparr>v_W := W, v_disk := K, v_allocs := (v_allocs V)[k := (v_allocs V ! k)\<lparr>na_dump_ptr := p\<rparr>]\<rparr>)"
      using assms(2) k p(3) by (auto simp: dump_ok_def list_all_length nth_list_update)
    show "(k, r) # dump_todo (V\<lparr>v_W := W, v_disk := K, v_allocs := (v_allocs V)[k := (v_allocs V ! k)\<lparr>na_dump_ptr := p\<rparr>]\<rparr>) = dump_todo V"
      using assms(2) k(1) by (simp add: dump_todo_def dump_rest_update flip: p(2))
  qed
qed

text \<open>What a step of a dump leaves alone.\<close>

definition dump_frame :: "Service \<Rightarrow> Service \<Rightarrow> bool" where
  "dump_frame V V' \<longleftrightarrow> v_pc V' = v_pc V \<and> v_pos V' = v_pos V \<and> v_queue V' = v_queue V \<and> v_db V' = v_db V
     \<and> v_dump_running V' = v_dump_running V \<and> v_file_index V' = v_file_index V"

lemma dump_nodes_ok:
  "dump_ok V \<Longrightarrow> sent i s n V \<Longrightarrow> dumpable at (v_db V) (dump_todo V) ds \<Longrightarrow>
    \<exists>V'. dump_nodes at m V = Done (length ds < m, V') \<and> dump_ok V' \<and> sent i (s @ enc_dump (take m ds)) n V'
      \<and> dumpable at (v_db V') (dump_todo V') (drop m ds) \<and> dump_frame V V'"
proof (induction m arbitrary: V s ds)
  case 0
  then show ?case by (intro exI [of _ V]) (simp add: dump_frame_def)
next
  case (Suc m)
  obtain ty As where g: "dump_get_node V = (case dump_todo V of [] \<Rightarrow> None | x # _ \<Rightarrow> Some x, V\<lparr>v_dump_type := ty, v_allocs := As\<rparr>)"
      "dump_todo (V\<lparr>v_dump_type := ty, v_allocs := As\<rparr>) = dump_todo V" "dump_ok (V\<lparr>v_dump_type := ty, v_allocs := As\<rparr>)"
      "dump_todo V = [] \<or> ty = Some (fst (hd (dump_todo V))) \<and> na_dump_ptr (As ! fst (hd (dump_todo V))) = Some (snd (hd (dump_todo V)))"
    using dump_get_node_ok [OF Suc.prems(1)] unfolding Let_def by blast
  let ?V1 = "V\<lparr>v_dump_type := ty, v_allocs := As\<rparr>"
  show ?case
  proof (cases ds)
    case Nil
    then have todo: "dump_todo V = []" using Suc.prems(3) by (simp add: dumpable_def)
    with g Nil Suc.prems(2) show ?thesis
      by (intro exI [of _ ?V1]) (simp add: dump_frame_def dumpable_def sent_eq)
  next
    case (Cons d ds')
    then obtain k r todo where x: "dump_todo V = (k, r) # todo" "unlocked (v_db V) (at k r)" "node_row (v_db V) (at k r) d"
        "dumpable at (v_db V) todo ds'"
      using Suc.prems(3) by (auto simp: dumpable_def list_all2_Cons2)
    have ty: "v_dump_type ?V1 = Some k" "na_dump_ptr (v_allocs ?V1 ! k) = Some r" using g(4) x(1) by simp_all
    obtain A where A: "node_allocator_dump_next (v_allocs ?V1 ! k) = Done A"
      using dump_next_ok [OF g(3) ty] by blast
    have s1: "sent i s n ?V1" using Suc.prems(2) by (simp add: sent_eq)
    have db: "unlocked (v_db ?V1) (at k r)" "node_row (v_db ?V1) (at k r) d" using x(2,3) by simp_all
    obtain W K where dn: "dump_node at k r ?V1 = Done (?V1\<lparr>v_W := W, v_disk := K, v_allocs := (v_allocs ?V1)[k := A]\<rparr>)"
        "sent i (s @ enc_item (Dumped [d])) n (?V1\<lparr>v_W := W, v_disk := K, v_allocs := (v_allocs ?V1)[k := A]\<rparr>)"
      using dump_node_ok [where V = ?V1 and at = at and k = k and r = r, OF s1 db A] by blast
    let ?V2 = "?V1\<lparr>v_W := W, v_disk := K, v_allocs := (v_allocs ?V1)[k := A]\<rparr>"
    have V2: "dump_ok ?V2" "(k, r) # dump_todo ?V2 = dump_todo ?V1"
      using dump_next_ok [where W = W and K = K, OF g(3) ty] A by auto
    have "dumpable at (v_db ?V2) (dump_todo ?V2) ds'"
      using x(1,4) V2(2) g(2) by simp
    from Suc.IH [OF V2(1) dn(2) this] obtain V' where V': "dump_nodes at m ?V2 = Done (length ds' < m, V')" "dump_ok V'"
        "sent i ((s @ enc_item (Dumped [d])) @ enc_dump (take m ds')) n V'"
        "dumpable at (v_db V') (dump_todo V') (drop m ds')" "dump_frame ?V2 V'" by blast
    have "dump_nodes at (Suc m) V = Done (length ds < Suc m, V')"
      using g(1) x(1) dn(1) V'(1) Cons by simp
    moreover have "dump_frame V V'" using V'(5) by (simp add: dump_frame_def)
    ultimately show ?thesis using V'(2-4) Cons by auto
  qed
qed

section \<open>From the job to the end marker\<close>

lemma dump_finish_ok:
  assumes "sent i s n V"
  shows "\<exists>V'. dump_finish V = Done V' \<and> k_files (v_disk V') i = Some (s @ enc_item Dump_end)
    \<and> k_synced (v_disk V') i = length (s @ enc_item Dump_end) \<and> \<not> v_dump_running V' \<and> v_db V' = v_db V"
proof -
  obtain c where c: "file_at i c n (v_disk V)" "c @ w_out (v_W V) = s" "w_ready (v_W V)" "v_fd V = Data_file i"
    using assms by (auto simp: sent_def)
  obtain W where W: "write_dump_end (v_W V) = Done W" "w_closed (v_W V) (enc_item Dump_end) W"
    using writes_mark [of "''DUMP END''" "v_W V"] c(3) by (auto simp: write_dump_end_def w_ready_def)
  then have r: "w_ready W" "w_out W = w_out (v_W V) @ enc_item Dump_end"
    using c(3) by (simp_all add: w_ready_def w_closed_def)
  obtain W' K' where b: "buffered_sync (Data_file i) W (v_disk V) = Done (W', K')" "file_at i (c @ w_out W) (length (c @ w_out W)) K'"
    using buffered_sync_ok [OF r(1) c(1)] by blast
  have e: "c @ w_out W = s @ enc_item Dump_end" using r(2) c(2) by auto
  show ?thesis using b(2) W(1) b(1) c(4) unfolding e by (auto simp: dump_finish_def file_at_def)
qed

lemma dump_steps:
  "v_pc V = At_resume \<Longrightarrow> v_dump_running V \<Longrightarrow> q_counter (v_queue V) = 0 \<Longrightarrow> dump_ok V \<Longrightarrow> sent i s n V \<Longrightarrow>
    dumpable at (v_db V) (dump_todo V) ds \<Longrightarrow>
    \<exists>V'. service_steps can_open W magic at (Suc (length ds div 5)) V = Done V' \<and> v_pc V' = At_wait \<and> \<not> v_dump_running V'
      \<and> k_files (v_disk V') i = Some (s @ enc_dump ds @ enc_item Dump_end)
      \<and> k_synced (v_disk V') i = length (s @ enc_dump ds @ enc_item Dump_end) \<and> v_db V' = v_db V"
proof (induction "length ds div 5" arbitrary: V s ds)
  case 0
  then have len: "length ds < 5" by simp
  obtain V1 where V1: "dump_nodes at 5 V = Done (length ds < 5, V1)" "sent i (s @ enc_dump (take 5 ds)) n V1" "dump_frame V V1"
    using dump_nodes_ok [OF 0(5,6,7), of 5] by blast
  obtain V2 where V2: "dump_finish V1 = Done V2" "k_files (v_disk V2) i = Some ((s @ enc_dump ds) @ enc_item Dump_end)"
      "k_synced (v_disk V2) i = length ((s @ enc_dump ds) @ enc_item Dump_end)" "\<not> v_dump_running V2" "v_db V2 = v_db V1"
    using dump_finish_ok [OF V1(2)] len by auto
  have "service_step can_open W magic at V = Done (V2\<lparr>v_pc := At_wait\<rparr>)"
    using 0(2,3) V1(1) V2(1) len by (simp add: service_step_def DUMP__NODES_PER_TRANSACTION_def)
  with V2 V1(3) 0(1) show ?case by (intro exI [of _ "V2\<lparr>v_pc := At_wait\<rparr>"]) (simp add: dump_frame_def)
next
  case (Suc m)
  then have len: "\<not> length ds < 5" by auto
  obtain V1 where V1: "dump_nodes at 5 V = Done (False, V1)" "dump_ok V1" "sent i (s @ enc_dump (take 5 ds)) n V1"
      "dumpable at (v_db V1) (dump_todo V1) (drop 5 ds)" "dump_frame V V1"
    using dump_nodes_ok [OF Suc(6,7,8), of 5] len by auto
  have st: "service_step can_open W magic at V = Done V1"
    using Suc(3-5) V1(1,5) by (simp add: service_step_def DUMP__NODES_PER_TRANSACTION_def dump_frame_def)
  have m: "m = length (drop 5 ds) div 5" using Suc(2) by auto
  have f: "v_pc V1 = At_resume" "v_dump_running V1" "q_counter (v_queue V1) = 0" "v_db V1 = v_db V"
    using V1(5) Suc(3-5) by (simp_all add: dump_frame_def)
  have e: "enc_dump (take 5 ds) @ enc_dump (drop 5 ds) = enc_dump ds" by (simp flip: enc_dump_simps(3))
  then have "length (enc_dump (take 5 ds)) + length (enc_dump (drop 5 ds)) = length (enc_dump ds)" by (metis length_append)
  moreover
  obtain V' where "service_steps can_open W magic at (Suc m) V1 = Done V'" "v_pc V' = At_wait" "\<not> v_dump_running V'"
      "k_files (v_disk V') i = Some ((s @ enc_dump (take 5 ds)) @ enc_dump (drop 5 ds) @ enc_item Dump_end)"
      "k_synced (v_disk V') i = length ((s @ enc_dump (take 5 ds)) @ enc_dump (drop 5 ds) @ enc_item Dump_end)" "v_db V' = v_db V1"
    using Suc(1) [OF m f(1-3) V1(2-4)] unfolding m [symmetric] by blast
  moreover have "(s @ enc_dump (take 5 ds)) @ enc_dump (drop 5 ds) @ enc_item Dump_end = s @ enc_dump ds @ enc_item Dump_end"
    using e by (metis append.assoc)
  moreover have "Suc (length ds div 5) = Suc (Suc m)" using Suc(2) by simp
  ultimately show ?case using st f(4) by simp
qed

text \<open>The new file a dump begins with.\<close>

lemma new_dump_file:
  assumes "sent i s n V" and "\<not> v_read_only V" and "can_open (v_file_index V + 1)"
    and "k_files (v_disk V) (v_file_index V + 1) = None" and "w_ready W" and "w_out W = []"
    and "length (dt_name (d_type (v_db V))) < 2 ^ 58" and "length (dt_version (d_type (v_db V))) < 2 ^ 58"
  shows "\<exists>K. database_new_file can_open W True magic V
        = Done (True, V\<lparr>v_disk := K, v_fd := Data_file (v_file_index V + 1), v_file_index := v_file_index V + 1\<rparr>)
    \<and> file_at (v_file_index V + 1) (enc_file (d_type (v_db V)) magic [Dump_begin]) (length (enc_file (d_type (v_db V)) magic [Dump_begin])) K"
proof -
  let ?T = "d_type (v_db V)" and ?i = "v_file_index V + 1"
  obtain c where c: "file_at i c n (v_disk V)" "v_fd V = Data_file i" using assms(1) by (auto simp: sent_def)
  obtain W1 where m1: "write_mark ''END OF FILE'' W = Done W1" "w_closed W (enc_mark ''END OF FILE'') W1"
    using writes_mark [of "''END OF FILE''" W] assms(5) by (auto simp: w_ready_def)
  obtain W2 where m2: "obind (w_number magic W1) (\<lambda>W. writer_finish W False) = Done W2" "w_closed W1 (enc_magic magic) W2"
    using writes_magic [of W1 magic] w_closed_ready [OF m1(2)] by blast
  with m1(1) have f: "write_file_footer magic W = Done W2" by (simp add: write_file_footer_def)
  have W2: "w_ready W2" using w_closed_ready [OF m2(2)] by (simp add: w_ready_def)
  let ?K = "(v_disk V)\<lparr>k_files := (k_files (v_disk V))(i \<mapsto> c @ w_out W2)\<rparr>"
  have out: "write_out W2 (Data_file i) (v_disk V) = Done (writer_discart W2, ?K)"
    using c(1) W2 by (simp add: write_out_def w_ready_simps util_fd_write_def file_at_def)
  have d: "w_ready (writer_discart W2)" "w_out (writer_discart W2) = []" using w_ready_simps(3) [OF W2] by simp_all
  obtain W3 where W3: "write_file_header ?T magic (writer_discart W2) = Done W3"
      "w_closed (writer_discart W2) (root_element True (enc_header ?T) @ enc_magic magic) W3"
    using writes_file_header [OF assms(7,8), of "writer_discart W2" magic] d(1) by (auto simp: w_ready_def)
  obtain W4 where W4: "write_dump_begin W3 = Done W4" "w_closed W3 (enc_mark ''DUMP BEGIN'') W4"
    using writes_mark [of "''DUMP BEGIN''" W3] w_closed_ready [OF W3(2)] by (auto simp: write_dump_begin_def)
  have "writer_contents W4 = Done (enc_file ?T magic [Dump_begin])"
    using W4(2) W3(2) d(2) by (simp add: w_closed_def writer_contents_ok enc_file_def)
  moreover have "i \<noteq> ?i" using c(1) assms(4) by (auto simp: file_at_def)
  ultimately show ?thesis
    using f out W3(1) W4(1) c(2) assms(2-4)
    by (intro exI [of _ "?K\<lparr>k_files := (k_files ?K)(?i \<mapsto> enc_file ?T magic [Dump_begin]),
        k_synced := (k_synced ?K)(?i := length (enc_file ?T magic [Dump_begin]))\<rparr>"])
      (cases V, simp add: database_new_file_def Let_def file_at_def)
qed

lemma buffered_sync_other:
  "buffered_sync (Data_file i) W K = Done (W', K') \<Longrightarrow> j \<noteq> i \<Longrightarrow> k_files K' j = k_files K j"
  by (auto simp: buffered_sync_def write_out_def util_fd_write_def fsync_def obind_eq_Done split: if_splits option.splits)


text \<open>The nodes that exist, type by type.\<close>

definition live_list :: "Service \<Rightarrow> (nat \<times> node_ref) list" where
  "live_list V = dump_rest (v_allocs V) 0"

lemma start_dump_ok:
  assumes "writing i s n V" and "v_pc V = At_switch" and "o_type (q_jobs (v_queue V) ! v_pos V) = DB_SERVICE__START_DUMP"
    and "list_all na_inv (v_allocs V)" and "v_dump_type V = None" and "\<not> v_read_only V" and "can_open (v_file_index V + 1)"
    and "k_files (v_disk V) (v_file_index V + 1) = None" and "w_ready W" and "w_out W = []"
    and "schema_fits (d_type (v_db V))"
  shows "\<exists>V'. service_step can_open W magic at V = Done V' \<and> v_pc V' = At_resume \<and> v_dump_running V'
    \<and> q_counter (v_queue V') = q_counter (v_queue V) \<and> v_db V' = v_db V \<and> dump_ok V' \<and> dump_todo V' = live_list V
    \<and> sent (v_file_index V + 1) (enc_file (d_type (v_db V)) magic [Dump_begin]) (length (enc_file (d_type (v_db V)) magic [Dump_begin])) V'"
proof -
  let ?i = "v_file_index V + 1" and ?f = "enc_file (d_type (v_db V)) magic [Dump_begin]"
  obtain c where c: "file_at i c n (v_disk V)" "c @ w_out (v_W V) = s" "w_ready (v_W V)" "v_fd V = Data_file i"
    using assms(1) by (auto simp: writing_def)
  obtain W1 K1 where b: "buffered_sync (Data_file i) (v_W V) (v_disk V) = Done (W1, K1)" "w_ready W1" "w_out W1 = []"
      "file_at i (c @ w_out (v_W V)) (length (c @ w_out (v_W V))) K1"
    using buffered_sync_ok [OF c(3,1)] by blast
  define V1 where "V1 = V\<lparr>v_W := W1, v_disk := K1\<rparr>"
  have "?i \<noteq> i" using c(1) assms(8) by (auto simp: file_at_def)
  then have none: "k_files (v_disk V1) (v_file_index V1 + 1) = None"
    using buffered_sync_other [OF b(1)] assms(8) by (simp add: V1_def)
  have sync: "v_sync V = Done V1" using b(1) c(4) by (simp add: v_sync_def V1_def)
  have s1: "sent i (c @ w_out (v_W V)) (length (c @ w_out (v_W V))) V1"
    using b(2-4) c(4) by (simp add: sent_def V1_def)
  have T: "length (dt_name (d_type (v_db V1))) < 2 ^ 58" "length (dt_version (d_type (v_db V1))) < 2 ^ 58"
    using assms(11) by (simp_all add: schema_fits_def V1_def)
  have V1: "\<not> v_read_only V1" "can_open (v_file_index V1 + 1)" "\<not> v_dump_running V1"
    using assms(1,6,7) by (simp_all add: V1_def writing_def)
  obtain K where K: "database_new_file can_open W True magic V1
        = Done (True, V1\<lparr>v_disk := K, v_fd := Data_file (v_file_index V1 + 1), v_file_index := v_file_index V1 + 1\<rparr>)"
      "file_at ?i ?f (length ?f) K"
    using new_dump_file [where V = V1 and can_open = can_open and magic = magic, OF s1 V1(1,2) none assms(9,10) T] by (auto simp: V1_def)
  define V2 where "V2 = (answer DB_SUCCESS (V1\<lparr>v_disk := K, v_fd := Data_file (v_file_index V1 + 1), v_file_index := v_file_index V1 + 1\<rparr>))\<lparr>v_dump_running := True\<rparr>"
  define V3 where "V3 = (if v_allocs V2 \<noteq> []
            then V2\<lparr>v_dump_type := Some 0, v_allocs := (v_allocs V2)[0 := node_allocator_dump_init (v_allocs V2 ! 0)]\<rparr>
            else V2)"
  define V4 where "V4 = (post_lock (q_jobs (v_queue V) ! v_pos V) V3)\<lparr>v_pc := At_resume, v_pos := v_pos (post_lock (q_jobs (v_queue V) ! v_pos V) V3) + 1\<rparr>"
  have step: "service_step can_open W magic at V = Done V4"
    using assms(2,3) sync V1(3) K(1)
    by (simp add: service_step_def service_unusual_def service_start_dump_def Let_def V4_def V3_def V2_def)
  have V2: "v_allocs V2 = v_allocs V" "v_dump_type V2 = None" "v_db V2 = v_db V" "v_queue V2 = v_queue V" "v_W V2 = W1"
    "v_disk V2 = K" "v_fd V2 = Data_file ?i" "v_dump_running V2"
    using assms(5) by (simp_all add: V2_def V1_def answer_def)
  have V3: "v_db V3 = v_db V" "v_queue V3 = v_queue V" "v_W V3 = W1" "v_disk V3 = K" "v_fd V3 = Data_file ?i" "v_dump_running V3"
    using V2 by (simp_all add: V3_def)
  have tr: "list_all traversable (v_allocs V)"
    using assms(4) by (auto simp: list_all_iff na_inv_def na_core_def traversable_def)
  have todo: "dump_ok V3 \<and> dump_todo V3 = live_list V"
  proof (cases "v_allocs V = []")
    case True
    then show ?thesis using V2 by (simp add: V3_def dump_ok_def dump_todo_def live_list_def dump_rest_def)
  next
    case False
    then have z: "0 < length (v_allocs V)" by simp
    have A: "remaining (node_allocator_dump_init (v_allocs V ! 0)) = all_live (v_allocs V ! 0)" "ptr_ok (node_allocator_dump_init (v_allocs V ! 0))"
      using dump_init_remaining [of "v_allocs V ! 0"] tr z by (auto simp: list_all_length traversable_def)
    have "dump_ok V3" using False tr A(2) V2 z by (auto simp: V3_def dump_ok_def list_all_length nth_list_update)
    moreover have "dump_todo V3 = live_list V"
      using False A(1) V2 z dump_rest_unfold [OF z] by (simp add: V3_def dump_todo_def live_list_def dump_rest_update)
    ultimately show ?thesis ..
  qed
  have same: "dump_ok V4 = dump_ok V3" "dump_todo V4 = dump_todo V3" "v_W V4 = v_W V3" "v_disk V4 = v_disk V3" "v_fd V4 = v_fd V3"
    "v_db V4 = v_db V3" "v_dump_running V4 = v_dump_running V3" "q_counter (v_queue V4) = q_counter (v_queue V3)" "v_pc V4 = At_resume"
    by (simp_all add: V4_def post_lock_def dump_ok_def dump_todo_def sem_post_def split: option.split)
  have "sent ?i ?f (length ?f) V4" using same V3 b(2,3) K(2) by (simp add: sent_def)
  with step same V3 todo show ?thesis by simp
qed


section \<open>And back\<close>

definition dump_items :: "dumped list \<Rightarrow> file_item list" where
  "dump_items ds = Dump_begin # map (\<lambda>d. Dumped [d]) ds @ [Dump_end]"

lemma dump_items_file: "enc_file T magic [Dump_begin] @ enc_dump ds @ enc_item Dump_end = enc_file T magic (dump_items ds)"
  by (simp add: enc_file_def dump_items_def enc_dump_def comp_def)

lemma dump_items_cost: "items_cost (dump_items ds) = dump_cost ds"
  by (induction ds) (simp_all add: dump_items_def items_cost_def dump_cost_def)

lemma dump_items_fit:
  assumes "dump_fits T A ds" and "\<forall>d \<in> set ds. length (arr (dump_contents [d])) < 2 ^ 60"
  shows "items_fit T True True A (map (\<lambda>d. Dumped [d]) ds @ [Dump_end])"
  using assms by (induction ds arbitrary: A) simp_all

lemma dump_items_apply: "fold (apply_item T True) (dump_items ds) A = fold apply_dumped ds A"
  by (induction ds arbitrary: A) (simp_all add: dump_items_def)

text \<open>The database the rows make up.\<close>

definition rows_of :: "dumped list \<Rightarrow> adb" where
  "rows_of ds = map_of (map (\<lambda>(k, nid, vs). (nid, (k, vs))) ds)"

lemma dump_fits_rows:
  "dump_fits T A ds \<Longrightarrow> fold apply_dumped ds A = A ++ rows_of ds \<and> (\<forall>nid \<in> dom (rows_of ds). A nid = None)"
proof (induction ds arbitrary: A)
  case Nil
  then show ?case by (simp add: rows_of_def)
next
  case (Cons d ds)
  obtain k nid vs where d: "d = (k, nid, vs)" by (cases d)
  have fits: "dump_fits T (apply_dumped d A) ds" and new: "A nid = None"
    using Cons.prems by (simp_all add: d dumped_fits_def)
  have ad: "apply_dumped d A = A(nid \<mapsto> (k, vs))" by (simp add: d apply_dumped_def)
  note IH0 = Cons.IH [OF fits, unfolded ad]
  then have IH: "fold apply_dumped ds (A(nid \<mapsto> (k, vs))) = A(nid \<mapsto> (k, vs)) ++ rows_of ds"
      "\<forall>j \<in> dom (rows_of ds). (A(nid \<mapsto> (k, vs))) j = None" by blast+
  have out: "nid \<notin> dom (rows_of ds)"
  proof
    assume "nid \<in> dom (rows_of ds)"
    with IH(2) have "(A(nid \<mapsto> (k, vs))) nid = None" by blast
    then show False by simp
  qed
  have r: "rows_of (d # ds) = (rows_of ds)(nid \<mapsto> (k, vs))" by (simp add: rows_of_def d)
  have "A(nid \<mapsto> (k, vs)) ++ rows_of ds = A ++ rows_of (d # ds)"
    unfolding r using out by (auto simp: map_add_def fun_eq_iff dom_def split: option.split)
  moreover have "\<forall>j \<in> dom (rows_of (d # ds)). A j = None"
  proof
    fix j assume "j \<in> dom (rows_of (d # ds))"
    then have "j = nid \<or> j \<in> dom (rows_of ds)" unfolding r by auto
    moreover have "A j = None" if "j \<noteq> nid" "j \<in> dom (rows_of ds)"
    proof -
      have "(A(nid \<mapsto> (k, vs))) j = None" using IH(2) that(2) by blast
      with that(1) show ?thesis by simp
    qed
    ultimately show "A j = None" using new by blast
  qed
  ultimately show ?case using IH(1) ad by simp
qed

text \<open>
  C34: a dump is complete and can be loaded. When the thread takes a request for a dump while
  no other job waits and no transaction holds a node, it closes the data file, opens the next
  one, and after \<open>length ds div 5 + 2\<close> steps is back in its wait: the new file is on the disk
  to its last byte, the dump is no longer running, the database is as before; and loading that
  file into an empty database gives exactly the nodes that existed, each with its identifier,
  its type and the values of its attributes.
\<close>

theorem dump_roundtrip:
  assumes "writing i s n V" and "v_pc V = At_switch" and "o_type (q_jobs (v_queue V) ! v_pos V) = DB_SERVICE__START_DUMP"
    and "q_counter (v_queue V) = 0" and "list_all na_inv (v_allocs V)" and "v_dump_type V = None"
    and "\<not> v_read_only V" and "can_open (v_file_index V + 1)" and "k_files (v_disk V) (v_file_index V + 1) = None"
    and "w_ready W" and "w_out W = []" and "T = d_type (v_db V)" and "schema_fits T" and "length (enc_header T) < 2 ^ 60"
    and "dumpable at (v_db V) (live_list V) ds" and "dump_fits T Map.empty ds"
    and "\<forall>d \<in> set ds. length (arr (dump_contents [d])) < 2 ^ 60"
    and "loads malloc na T (dump_cost ds) Map.empty L" and "malloc_ok m"
  shows "\<exists>V' file L'. service_steps can_open W magic at (length ds div 5 + 2) V = Done V'
    \<and> v_pc V' = At_wait \<and> \<not> v_dump_running V' \<and> v_db V' = v_db V
    \<and> k_files (v_disk V') (v_file_index V + 1) = Some file \<and> k_synced (v_disk V') (v_file_index V + 1) = length file
    \<and> load_file malloc na (file_reader_init m file) 0 True L = (Done (LOAD_UNFINISHED_FILE, 0), L')
    \<and> represents L' (rows_of ds)"
proof -
  let ?i = "v_file_index V + 1" and ?file = "enc_file T magic (dump_items ds)"
  obtain V1 where V1: "service_step can_open W magic at V = Done V1" "v_pc V1 = At_resume" "v_dump_running V1"
      "q_counter (v_queue V1) = 0" "v_db V1 = v_db V" "dump_ok V1" "dump_todo V1 = live_list V"
      "sent ?i (enc_file T magic [Dump_begin]) (length (enc_file T magic [Dump_begin])) V1"
    using start_dump_ok [where V = V and can_open = can_open and magic = magic and at = at, OF assms(1-3,5-11)] assms(4,12,13) by auto
  have "dumpable at (v_db V1) (dump_todo V1) ds" using assms(15) V1(5,7) by simp
  from dump_steps [OF V1(2-4,6,8) this] obtain V' where
    V': "service_steps can_open W magic at (Suc (length ds div 5)) V1 = Done V'" "v_pc V' = At_wait" "\<not> v_dump_running V'"
      "k_files (v_disk V') ?i = Some ?file" "k_synced (v_disk V') ?i = length ?file" "v_db V' = v_db V1"
    unfolding dump_items_file by blast
  have run: "service_steps can_open W magic at (length ds div 5 + 2) V = Done V'"
    using V1(1) V'(1) by simp
  have fit: "items_fit T True False Map.empty (dump_items ds)"
    using dump_items_fit [OF assms(16,17)] by (simp add: dump_items_def)
  have l: "loads malloc na T (items_cost (dump_items ds)) Map.empty L"
    using assms(18) by (simp add: dump_items_cost)
  have st: "file_starts True (dump_items ds)" by (simp add: file_starts_def dump_items_def)
  obtain L' where "load_file malloc na (file_reader_init m ?file) 0 True L = (Done (LOAD_UNFINISHED_FILE, 0), L')"
      "represents L' (fold (apply_item T True) (dump_items ds) Map.empty)"
    using load_file_replays_lemma [OF assms(14) st _ fit l assms(19), of 0 magic] by blast
  moreover have "fold (apply_item T True) (dump_items ds) Map.empty = rows_of ds"
    unfolding dump_items_apply using dump_fits_rows [OF assms(16)] by simp
  ultimately show ?thesis using run V'(2-6) V1(5) by auto
qed


text \<open>A database of one type with one attribute, and one node.\<close>

definition demo_one :: DatabaseType where
  "demo_one = \<lparr>dt_name = [68], dt_version = [49], dt_node_types =
     [\<lparr>nt_name = [78], nt_attributes = [\<lparr>at_name = [97], at_type = Int8\<rparr>]\<rparr>]\<rparr>"

definition demo_dumping :: "Service" where
  "demo_dumping = (demo_service [])\<lparr>v_pc := At_switch,
     v_queue := \<lparr>q_jobs = [output_list (writer_init (\<lambda>_. 0)) DB_SERVICE__START_DUMP None 0], q_freed = [], q_counter = 0, q_sems = (\<lambda>_. 0)\<rparr>,
     v_db := demo_database\<lparr>d_type := demo_one, d_nodes := (d_nodes demo_database)(4096 := (d_nodes demo_database 4096)\<lparr>n_cells := [Bits [5]]\<rparr>)\<rparr>,
     v_allocs := [\<lparr>na_slots = 2, na_blocks = [8192], na_dump_blocks = [8192], na_dump_ptr = None,
       na_block = (\<lambda>_. \<lparr>nb_free = [1], nb_used = 1\<rparr>), na_id = (\<lambda>r. if r = (8192, 0) then 1 else 0)\<rparr>]\<rparr>"

lemma demo_dumping_ok:
  "writing 1 [] 0 demo_dumping" "list_all na_inv (v_allocs demo_dumping)"
  "dumpable (\<lambda>k r. 4096) (v_db demo_dumping) (live_list demo_dumping) [(0, 1, [DBytes [5]])]"
proof -
  show "writing 1 [] 0 demo_dumping"
    by (simp add: writing_def demo_dumping_def demo_service_def file_at_def demo_writer)
  show "list_all na_inv (v_allocs demo_dumping)"
    by (simp add: demo_dumping_def na_inv_def na_core_def na_sorted_def ptr_ok_def block_ok_def)
  have "live_list demo_dumping = [(0, (8192, 0))]"
    by (simp add: live_list_def dump_rest_def demo_dumping_def all_live_def block_nodes_def numeral_2_eq_2)
  then show "dumpable (\<lambda>k r. 4096) (v_db demo_dumping) (live_list demo_dumping) [(0, 1, [DBytes [5]])]"
    by (simp add: dumpable_def unlocked_def node_row_def demo_dumping_def demo_database_def demo_one_def l_init_def
        node_get_type_def attr_types_def)
qed

lemma demo_one_fits:
  "schema_fits demo_one" "length (enc_header demo_one) < 2 ^ 60"
  "dump_fits demo_one Map.empty [(0, 1, [DBytes [5]])]"
  "length (arr (dump_contents [(0, 1, [DBytes [5]])])) < 2 ^ 60"
proof -
  have n: "length (enc_number n) < 10" for n using length_enc_number [of n] by simp
  show "length (enc_header demo_one) < 2 ^ 60"
    by (simp add: enc_header_def arr_def demo_one_def length_enc_string_small)
  show "schema_fits demo_one"
    using n [of 0] by (simp add: schema_fits_def enc_schema_def enc_type_def enc_attribute_def arr_def demo_one_def length_enc_string_small c_str_def)
  show "dump_fits demo_one Map.empty [(0, 1, [DBytes [5]])]"
    by (simp add: dumped_fits_def demo_one_def type_at_def attr_types_def)
  show "length (arr (dump_contents [(0, 1, [DBytes [5]])])) < 2 ^ 60"
    using n [of 0] n [of 1] by (simp add: dump_contents_def arr_def enc_dumped_def length_enc_string_small)
qed

theorem dump_roundtrip_witness:
  "\<exists>V' file L'. service_steps (\<lambda>_. True) (writer_init (\<lambda>_. 0)) 3 (\<lambda>k r. 4096) 2 demo_dumping = Done V'
    \<and> \<not> v_dump_running V' \<and> k_files (v_disk V') 2 = Some file
    \<and> load_file (\<lambda>H n. Some (first_free (\<lambda>p. H p \<noteq> None))) (\<lambda>D k. first_free (\<lambda>n. n_id (d_nodes D n) \<noteq> 0))
        (file_reader_init (\<lambda>_. Some 4096) file) 0 True (demo_loader\<lparr>ld_db := (ld_db demo_loader)\<lparr>d_type := demo_one\<rparr>\<rparr>)
      = (Done (LOAD_UNFINISHED_FILE, 0), L')
    \<and> represents L' [1 \<mapsto> (0, [DBytes [5]])]"
proof -
  let ?V = demo_dumping and ?ds = "[(0, 1, [DBytes [5]])] :: dumped list"
  let ?L = "demo_loader\<lparr>ld_db := (ld_db demo_loader)\<lparr>d_type := demo_one\<rparr>\<rparr>"
  have l: "loads (\<lambda>H n. Some (first_free (\<lambda>p. H p \<noteq> None))) (\<lambda>D k. first_free (\<lambda>n. n_id (d_nodes D n) \<noteq> 0)) demo_one (dump_cost ?ds) Map.empty ?L"
    using fresh_loads [of ?L] live_demo by (simp add: live_nodes_def demo_loader_def demo_database_def dump_cost_def numeral_2_eq_2)
  have v: "v_pc ?V = At_switch" "o_type (q_jobs (v_queue ?V) ! v_pos ?V) = DB_SERVICE__START_DUMP" "q_counter (v_queue ?V) = 0"
    "v_dump_type ?V = None" "\<not> v_read_only ?V" "k_files (v_disk ?V) (v_file_index ?V + 1) = None" "demo_one = d_type (v_db ?V)"
    by (simp_all add: demo_dumping_def demo_service_def output_list_def)
  have i: "v_file_index ?V + 1 = 2" "length ?ds div 5 + 2 = 2" "rows_of ?ds = [1 \<mapsto> (0, [DBytes [5]])]"
    by (simp_all add: demo_dumping_def demo_service_def rows_of_def)
  have small: "\<forall>d \<in> set ?ds. length (arr (dump_contents [d])) < 2 ^ 60" using demo_one_fits(4) by simp
  from dump_roundtrip [where can_open = "\<lambda>_. True" and magic = 3, OF demo_dumping_ok(1) v(1-3) demo_dumping_ok(2) v(4,5) TrueI v(6) demo_writer v(7)
      demo_one_fits(1,2) demo_dumping_ok(3) demo_one_fits(3) small l malloc_ok_const]
  show ?thesis unfolding i by blast
qed

end
