(* ===== verification/Opening.thy ===== *)
theory Opening
  imports Service
begin

text \<open>
  Opening a database: finding its data files, checking the schema, loading the files in turn
  and choosing the one to write to (\<open>get_db_files\<close> and \<open>load_data\<close> of
  \<open>database.include/database_create.c\<close>), with what follows for closing and opening again.
\<close>

section \<open>Opening a database\<close>

text \<open>
  \<open>get_db_files\<close>: the entries of the directory named by the given prefix and digits behind it,
  in the order of the numbers.
\<close>

definition is_digit :: "byte \<Rightarrow> bool" where
  "is_digit c \<longleftrightarrow> 48 \<le> c \<and> c \<le> 57"

definition db_files_select :: "byte list \<Rightarrow> byte list \<Rightarrow> bool" where
  "db_files_select db_name d_name \<longleftrightarrow> take (length db_name) d_name = db_name \<and> list_all is_digit (drop (length db_name) d_name)"

definition atol :: "byte list \<Rightarrow> nat" where
  "atol ds = fold (\<lambda>c n. 10 * n + (unat c - 48)) ds 0"

definition get_db_files :: "byte list \<Rightarrow> byte list list \<Rightarrow> byte list list" where
  "get_db_files db_name entries =
    sort_key (\<lambda>d_name. atol (drop (length db_name) d_name)) (filter (db_files_select db_name) entries)"

text \<open>
  The schema: written when there is neither a schema nor a data file and the flag \<open>DB_CREATE\<close>
  is set, and read back in any case.
\<close>

definition check_schema :: "(nat \<Rightarrow> nat option) \<Rightarrow> Writer \<Rightarrow> DatabaseType \<Rightarrow> bool \<Rightarrow> nat list \<Rightarrow> byte list option \<Rightarrow> byte list outcome" where
  "check_schema m W T create files schema =
    obind (case schema of
        Some bs \<Rightarrow> Done bs
      | None \<Rightarrow> if files \<noteq> [] \<or> \<not> create then Failed
               else obind (write_schema T W) writer_contents) (\<lambda>bs.
    obind (read_schema T (file_reader_init m bs)) (\<lambda>_. Done bs))"

text \<open>
  The loop over the files, given by their numbers. The answer is the magic number for the next
  file, \<open>create_new_file\<close>, and whether the database became read-only.
\<close>

fun load_each :: "(nat \<Rightarrow> nat option) \<Rightarrow> malloc \<Rightarrow> node_source \<Rightarrow> Disk \<Rightarrow> nat list \<Rightarrow> bool \<Rightarrow> u64 \<Rightarrow> bool
    \<Rightarrow> (u64 \<times> bool \<times> bool) load" where
  "load_each m malloc na K [] first magic_nr create_new_file L = (Done (magic_nr, create_new_file, False), L)"
| "load_each m malloc na K (f # fs) first magic_nr create_new_file L =
    (case k_files K f of
      None \<Rightarrow> (Failed, L)
    | Some bs \<Rightarrow>
        lbind (load_file malloc na (file_reader_init m bs) magic_nr first) (\<lambda>(st, magic_nr).
        case st of
          LOAD_CORRUPTED_FILE \<Rightarrow> lift_load (Done (magic_nr, create_new_file, True))
        | LOAD_UNFINISHED_FILE \<Rightarrow>
            if fs \<noteq> [] then lift_load (Done (magic_nr, create_new_file, True))
            else load_each m malloc na K fs False magic_nr False
        | LOAD_SUCCESS \<Rightarrow> load_each m malloc na K fs False magic_nr create_new_file) L)"

text \<open>
  The file to write to. The \<open>else\<close> that opens the last one belongs, in spite of its indentation, to \<open>if (!files_count)\<close>, not to
  \<open>if (create_new_file)\<close>.
\<close>

definition open_for_writing :: "(nat \<Rightarrow> bool) \<Rightarrow> Writer \<Rightarrow> nat list \<Rightarrow> u64 \<Rightarrow> bool \<Rightarrow> Service \<Rightarrow> Service outcome" where
  "open_for_writing can_open W files magic_nr create_new_file V =
    (if v_read_only V then Done (V\<lparr>v_fd := Dev_null\<rparr>)
     else
       obind (if create_new_file
         then obind (database_new_file can_open W (files = []) magic_nr V) (\<lambda>(ok, V). obind (check ok) (\<lambda>_. Done V))
         else Done V) (\<lambda>V.
       if files = [] then
         obind (write_dump_end W) (\<lambda>W.
         obind (writer_contents W) (\<lambda>bs.
         obind (util_fd_write (v_fd V) bs (v_disk V)) (\<lambda>K. Done (V\<lparr>v_disk := K\<rparr>))))
       else
         obind (check (k_files (v_disk V) (last files) \<noteq> None)) (\<lambda>_.
         Done (V\<lparr>v_fd := Data_file (last files)\<rparr>))))"

text \<open>
  \<open>load_data\<close>, for a database with a file name; \<open>files\<close> are the numbers \<open>get_db_files\<close> found.
  The results are the state, the dictionary of nodes and the contents of the schema file;
  \<open>Failed\<close> stands for \<open>false\<close>.
\<close>

definition load_data :: "(nat \<Rightarrow> bool) \<Rightarrow> Writer \<Rightarrow> (nat \<Rightarrow> nat option) \<Rightarrow> malloc \<Rightarrow> node_source \<Rightarrow> bool \<Rightarrow> nat list
    \<Rightarrow> byte list option \<Rightarrow> Service \<Rightarrow> (Service \<times> (u64 \<rightharpoonup> addr) \<times> byte list) outcome" where
  "load_data can_open W m malloc na create files schema V =
    obind (check_schema m W (d_type (v_db V)) create files schema) (\<lambda>schema.
    obind (check (files = [] \<or> last files - hd files = length files - 1)) (\<lambda>_.
    let V = (if files = [] then V else V\<lparr>v_file_index := last files\<rparr>) in
    (case load_each m malloc na (v_disk V) files True 0 True \<lparr>ld_db = v_db V, ld_nodes = Map.empty\<rparr> of
      (Done (magic_nr, create_new_file, corrupted), L) \<Rightarrow>
        obind (open_for_writing can_open W files magic_nr create_new_file
          (V\<lparr>v_db := ld_db L, v_read_only := v_read_only V \<or> corrupted\<rparr>)) (\<lambda>V.
        Done (V, ld_nodes L, schema))
    | (Failed, L) \<Rightarrow> Failed
    | (Fault, L) \<Rightarrow> Fault)))"

text \<open>Without a file name: nothing is loaded, and what is written is lost.\<close>

definition load_nothing :: "Service \<Rightarrow> Service" where
  "load_nothing V = V\<lparr>v_read_only := True, v_fd := Dev_null\<rparr>"

section \<open>Creating the database object\<close>

text \<open>
  \<open>database_alloc\<close>, with \<open>init_node_types\<close>: \<open>sizes\<close> are the sizes of the node types, \<open>nodes\<close>
  what the memory of nodes and \<open>words\<close> what that of the indexes holds.
\<close>

definition init_node_types :: "nat list \<Rightarrow> NodeAllocator list" where
  "init_node_types sizes = map (\<lambda>sz. node_allocator_init sz (\<lambda>_. 0)) sizes"

definition database_alloc :: "DatabaseType \<Rightarrow> nat list \<Rightarrow> (addr \<Rightarrow> Node) \<Rightarrow> (addr \<Rightarrow> u64) \<Rightarrow> Memory \<Rightarrow> Writer \<Rightarrow> Service" where
  "database_alloc type sizes nodes words M W = \<lparr>v_pc = At_wait, v_pos = 0, v_W = W,
     v_queue = \<lparr>q_jobs = [], q_freed = [], q_counter = 0, q_sems = (\<lambda>_. 0)\<rparr>,
     v_disk = \<lparr>k_files = Map.empty, k_synced = (\<lambda>_. 0)\<rparr>, v_fd = No_file, v_file_index = 0, v_read_only = False,
     v_db = \<lparr>d_type = type, d_time = 1, d_node_id_counter = 1, d_nodes = nodes, d_fields = words,
       d_obj_locks = (\<lambda>_. l_init), d_tmem = Map.empty, d_freed = [], d_nodes_freed = []\<rparr>,
     v_dump_running = False, v_dump_type = None, v_allocs = init_node_types sizes, v_answers = Map.empty,
     v_mem = M\<lparr>m_tm := generic_allocator_init 4096, m_vpages := vpage_allocator_init 128, m_start_times := []\<rparr>\<rparr>"

text \<open>
  \<open>database_create\<close> on the files of a disk. \<open>order\<close> is the order in which the dictionary is
  visited, \<open>visited\<close> that of the nodes, \<open>ptr\<close> the address of the local handle.
\<close>

definition database_create :: "(nat \<Rightarrow> bool) \<Rightarrow> (nat \<Rightarrow> nat option) \<Rightarrow> malloc \<Rightarrow> node_source \<Rightarrow> callback \<Rightarrow> u64
    \<Rightarrow> ((u64 \<rightharpoonup> addr) \<Rightarrow> addr list) \<Rightarrow> (Database \<Rightarrow> addr list) \<Rightarrow> bool \<Rightarrow> bool \<Rightarrow> nat list \<Rightarrow> byte list option
    \<Rightarrow> Writer \<Rightarrow> Disk \<Rightarrow> Service \<Rightarrow> (Service \<times> byte list) outcome" where
  "database_create can_open m malloc na cb ptr order visited read_only create files schema W K V =
    obind (load_data can_open W m malloc na create files schema (V\<lparr>v_disk := K, v_read_only := read_only\<rparr>)) (\<lambda>(V, nodes, schema).
    obind (fix_pointers nodes (order nodes) (v_db V)) (\<lambda>D.
    obind (fill_indexes cb ptr (visited D) D) (\<lambda>D.
    Done (V\<lparr>v_db := D\<rparr>, schema))))"

section \<open>What opening does\<close>

lemma loader_eta [simp]: "\<lparr>ld_db = ld_db L, ld_nodes = ld_nodes L\<rparr> = L"
  by (cases L) simp

lemma load_file_unfinished:
  assumes "length (enc_header T) < 2 ^ 60" and "file_starts first its" and "old = 0 \<or> old = magic"
    and "items_fit T first False A its" and "loads malloc na T (items_cost its + k) A L" and "malloc_ok m"
  shows "\<exists>L'. load_file malloc na (file_reader_init m (enc_file T magic its)) old first L
      = (Done (LOAD_UNFINISHED_FILE, old), L') \<and> loads malloc na T k (fold (apply_item T first) its A) L'"
proof -
  let ?R = "file_reader_init m (enc_file T magic its)"
  have R: "r_idle ?R" "r_file ?R = enc_file T magic its @ []"
    using assms(6) by (simp_all add: file_reader_init_def r_idle_def)
  obtain R' L' where f: "load_file malloc na ?R old first L
      = lbind (load_loop malloc na first (fold (\<lambda>it d. item_dump d it) its False) R') (\<lambda>(st, m).
          lift_load (Done (st, case m of Some magic \<Rightarrow> magic | None \<Rightarrow> old))) L'"
    "r_idle R'" "r_file R' = []" "loads malloc na T k (fold (apply_item T first) its A) L'"
    using load_file_items [OF assms(1-5) R] by blast
  from load_loop_end [OF f(2,3)] f(1,4) show ?thesis by (simp add: lbind_def lift_load_def)
qed

text \<open>Behind the footer nothing is read.\<close>

definition footer :: "u64 \<Rightarrow> byte list" where
  "footer n = enc_mark ''END OF FILE'' @ enc_magic n"

lemma load_file_closed:
  assumes "length (enc_header T) < 2 ^ 60" and "file_starts first its" and "old = 0 \<or> old = magic"
    and "items_fit T first False A its" and "loads malloc na T (items_cost its + k) A L" and "malloc_ok m"
  shows "\<exists>L'. load_file malloc na (file_reader_init m (enc_file T magic its @ footer n @ later)) old first L
      = (Done (LOAD_SUCCESS, n), L') \<and> loads malloc na T k (fold (apply_item T first) its A) L'"
proof -
  let ?R = "file_reader_init m (enc_file T magic its @ footer n @ later)"
  have R: "r_idle ?R" "r_file ?R = enc_file T magic its @ (footer n @ later)"
    using assms(6) by (simp_all add: file_reader_init_def r_idle_def)
  obtain R' L' where f: "load_file malloc na ?R old first L
      = lbind (load_loop malloc na first (fold (\<lambda>it d. item_dump d it) its False) R') (\<lambda>(st, m).
          lift_load (Done (st, case m of Some magic \<Rightarrow> magic | None \<Rightarrow> old))) L'"
    "r_idle R'" "r_file R' = footer n @ later" "loads malloc na T k (fold (apply_item T first) its A) L'"
    using load_file_items [OF assms(1-5) R] by blast
  have "r_file R' = enc_mark ''END OF FILE'' @ enc_magic n @ later" using f(3) by (simp add: footer_def)
  from load_loop_footer [OF f(2) this] f(1,4) show ?thesis by (simp add: lbind_def lift_load_def)
qed

text \<open>A session about to open: a schema file that fits, no descriptor, an empty dictionary.\<close>

definition fresh_start :: "malloc \<Rightarrow> node_source \<Rightarrow> (nat \<Rightarrow> nat option) \<Rightarrow> DatabaseType \<Rightarrow> nat \<Rightarrow> Service \<Rightarrow> bool" where
  "fresh_start malloc na m T k V \<longleftrightarrow> v_fd V = No_file \<and> \<not> v_read_only V \<and> malloc_ok m
     \<and> schema_fits T \<and> length (enc_header T) < 2 ^ 60
     \<and> loads malloc na T k Map.empty \<lparr>ld_db = v_db V, ld_nodes = Map.empty\<rparr>"

lemma schema_accepted:
  assumes "schema_fits T" and "malloc_ok m"
  shows "check_schema m W T create files (Some (root_element True (enc_schema T))) = Done (root_element True (enc_schema T))"
proof -
  let ?R = "file_reader_init m (root_element True (enc_schema T))"
  have "length (enc_schema T) < 2 ^ 60" "r_idle ?R" "r_file ?R = root_element True (enc_schema T) @ []"
    using assms by (simp_all add: schema_fits_def file_reader_init_def r_idle_def)
  then obtain R' where "read_schema T ?R = Done R'" using reads_schema by blast
  then show ?thesis by (simp add: check_schema_def)
qed

lemma new_file_first:
  assumes "v_fd V = No_file" and "\<not> v_read_only V" and "can_open (v_file_index V + 1)" and "k_files (v_disk V) (v_file_index V + 1) = None"
    and "w_ready W" and "w_out W = []" and "schema_fits (d_type (v_db V))"
  shows "\<exists>V'. database_new_file can_open W False n V = Done (True, V') \<and> v_fd V' = Data_file (v_file_index V + 1)
    \<and> k_files (v_disk V') = (k_files (v_disk V))(v_file_index V + 1 \<mapsto> enc_file (d_type (v_db V)) n []) \<and> v_db V' = v_db V"
proof -
  obtain W' where W': "write_file_header (d_type (v_db V)) n W = Done W'"
      "w_closed W (root_element True (enc_header (d_type (v_db V))) @ enc_magic n) W'"
    using writes_file_header [of "d_type (v_db V)" W n] assms(5,7) by (auto simp: schema_fits_def w_ready_def)
  then have "writer_contents W' = Done (enc_file (d_type (v_db V)) n [])"
    using assms(6) by (simp add: w_closed_def writer_contents_ok enc_file_def)
  with W'(1) assms(1-4) show ?thesis by (simp add: database_new_file_def Let_def)
qed

text \<open>
  C38: opening a database whose last data file is unfinished goes on where it stopped: the
  nodes loaded stand for the items of the file, and further commits are appended to it.
\<close>

theorem opening_continues_file:
  assumes "fresh_start malloc na m T (items_cost its) V" and "k_files (v_disk V) f = Some (enc_file T magic its)"
    and "file_starts True its" and "items_fit T True False Map.empty its"
  shows "\<exists>V' nodes schema. load_data can_open W m malloc na create [f] (Some (root_element True (enc_schema T))) V = Done (V', nodes, schema)
    \<and> represents \<lparr>ld_db = v_db V', ld_nodes = nodes\<rparr> (fold (apply_item T True) its Map.empty)
    \<and> v_fd V' = Data_file f \<and> v_file_index V' = f \<and> \<not> v_read_only V' \<and> v_disk V' = v_disk V"
proof -
  have fs: "malloc_ok m" "schema_fits T" "length (enc_header T) < 2 ^ 60" "\<not> v_read_only V"
    and l: "loads malloc na T (items_cost its + 0) Map.empty \<lparr>ld_db = v_db V, ld_nodes = Map.empty\<rparr>"
    using assms(1) by (simp_all add: fresh_start_def)
  have T: "d_type (v_db V) = T" using l by (simp add: loads_def)
  obtain L' where L': "load_file malloc na (file_reader_init m (enc_file T magic its)) 0 True \<lparr>ld_db = v_db V, ld_nodes = Map.empty\<rparr>
      = (Done (LOAD_UNFINISHED_FILE, 0), L')" "represents L' (fold (apply_item T True) its Map.empty)"
    using load_file_unfinished [OF fs(3) assms(3) _ assms(4) l fs(1), of 0 magic] by (auto simp: loads_def)
  have "load_each m malloc na (v_disk V) [f] True 0 True \<lparr>ld_db = v_db V, ld_nodes = Map.empty\<rparr> = (Done (0, False, False), L')"
    using assms(2) L'(1) by (simp add: lbind_eq)
  with L'(2) assms(2) fs(4) schema_accepted [OF fs(2,1)] T show ?thesis
    by (simp add: load_data_def open_for_writing_def Let_def del: load_each.simps)
qed

text \<open>
  C39: a database whose last data file is closed (its footer is the last thing that was
  written) is reopened wrongly, and silently loses what is committed then: \<open>load_data\<close> creates
  the next file but goes on to open the closed one for writing. Whatever the new session
  appends, the session after it loads the closed file up to the footer and the new file, which
  holds a header only, and ends up with the database of the old one.
\<close>

theorem closed_file_loses_commits:
  assumes "fresh_start malloc na m T (items_cost its) V" and "k_files (v_disk V) f = Some (enc_file T magic its @ footer n)"
    and "file_starts True its" and "items_fit T True False Map.empty its"
    and "k_files (v_disk V) (f + 1) = None" and "can_open (f + 1)" and "w_ready W" and "w_out W = []"
  shows "\<exists>V' nodes schema. load_data can_open W m malloc na create [f] (Some (root_element True (enc_schema T))) V = Done (V', nodes, schema)
    \<and> v_fd V' = Data_file f \<and> k_files (v_disk V') f = Some (enc_file T magic its @ footer n)
    \<and> (\<forall>later. \<exists>V2 nodes2 schema2.
        load_data can_open W m malloc na create [f, f + 1] (Some schema)
          (V\<lparr>v_disk := (v_disk V')\<lparr>k_files := (k_files (v_disk V'))(f \<mapsto> (enc_file T magic its @ footer n) @ later)\<rparr>\<rparr>) = Done (V2, nodes2, schema2)
        \<and> represents \<lparr>ld_db = v_db V2, ld_nodes = nodes2\<rparr> (fold (apply_item T True) its Map.empty))"
proof -
  have fs: "malloc_ok m" "schema_fits T" "length (enc_header T) < 2 ^ 60" "\<not> v_read_only V" "v_fd V = No_file"
    and l: "loads malloc na T (items_cost its + 0) Map.empty \<lparr>ld_db = v_db V, ld_nodes = Map.empty\<rparr>"
    using assms(1) by (simp_all add: fresh_start_def)
  have T: "d_type (v_db V) = T" using l by (simp add: loads_def)
  note closed = load_file_closed [OF fs(3) assms(3) _ assms(4) l fs(1), of 0 magic n]
  note schema = schema_accepted [OF fs(2,1)]
  obtain L1 where L1: "load_file malloc na (file_reader_init m (enc_file T magic its @ footer n @ [])) 0 True \<lparr>ld_db = v_db V, ld_nodes = Map.empty\<rparr>
      = (Done (LOAD_SUCCESS, n), L1)" "loads malloc na T 0 (fold (apply_item T True) its Map.empty) L1"
    using closed [of "[]"] by auto
  have each: "load_each m malloc na (v_disk V) [f] True 0 True \<lparr>ld_db = v_db V, ld_nodes = Map.empty\<rparr> = (Done (n, True, False), L1)"
    using assms(2) L1(1) by (simp add: lbind_eq lift_load_def)
  let ?V = "V\<lparr>v_file_index := f, v_db := ld_db L1, v_read_only := False\<rparr>"
  have "schema_fits (d_type (v_db ?V))" using fs(2) L1(2) by (simp add: loads_def)
  then obtain V1 where V1: "database_new_file can_open W False n ?V = Done (True, V1)"
      "k_files (v_disk V1) = (k_files (v_disk V))(f + 1 \<mapsto> enc_file (d_type (v_db ?V)) n [])"
    using new_file_first [of ?V can_open W n] assms(5-8) fs(4,5) by auto
  have type1: "d_type (v_db ?V) = T" using L1(2) by (simp add: loads_def)
  let ?V1 = "V1\<lparr>v_fd := Data_file f\<rparr>"
  have first: "load_data can_open W m malloc na create [f] (Some (root_element True (enc_schema T))) V
      = Done (?V1, ld_nodes L1, root_element True (enc_schema T))"
    using schema T each V1 assms(2) fs(4)
    by (simp add: load_data_def open_for_writing_def Let_def del: load_each.simps)
  have second: "\<exists>V2 nodes2 schema2. load_data can_open W m malloc na create [f, f + 1] (Some (root_element True (enc_schema T)))
          (V\<lparr>v_disk := (v_disk ?V1)\<lparr>k_files := (k_files (v_disk ?V1))(f \<mapsto> (enc_file T magic its @ footer n) @ later)\<rparr>\<rparr>) = Done (V2, nodes2, schema2)
        \<and> represents \<lparr>ld_db = v_db V2, ld_nodes = nodes2\<rparr> (fold (apply_item T True) its Map.empty)" for later
  proof -
    let ?K = "(v_disk ?V1)\<lparr>k_files := (k_files (v_disk ?V1))(f \<mapsto> (enc_file T magic its @ footer n) @ later)\<rparr>"
    have K: "k_files ?K f = Some (enc_file T magic its @ footer n @ later)" "k_files ?K (f + 1) = Some (enc_file T n [])"
      using V1(2) type1 by simp_all
    obtain L2 where L2: "load_file malloc na (file_reader_init m (enc_file T magic its @ footer n @ later)) 0 True \<lparr>ld_db = v_db V, ld_nodes = Map.empty\<rparr>
        = (Done (LOAD_SUCCESS, n), L2)" "loads malloc na T (items_cost [] + 0) (fold (apply_item T True) its Map.empty) L2"
      using closed [of later] by (auto simp: items_cost_def)
    obtain L3 where L3: "load_file malloc na (file_reader_init m (enc_file T n [])) n False L2 = (Done (LOAD_UNFINISHED_FILE, n), L3)"
        "represents L3 (fold (apply_item T True) its Map.empty)"
      using load_file_unfinished [OF fs(3) _ _ _ L2(2) fs(1), of False n n] by (auto simp: loads_def file_starts_def)
    have "load_each m malloc na ?K [f, f + 1] True 0 True \<lparr>ld_db = v_db V, ld_nodes = Map.empty\<rparr> = (Done (n, False, False), L3)"
      using K L2(1) L3(1) by (simp add: lbind_eq lift_load_def)
    then show ?thesis
      using schema T L3(2) fs(4) K
      by (simp add: load_data_def open_for_writing_def Let_def del: load_each.simps)
  qed
  have "k_files (v_disk ?V1) f = Some (enc_file T magic its @ footer n)" using V1(2) assms(2) by simp
  with first second show ?thesis by fastforce
qed

section \<open>Instances\<close>

abbreviation demo_alloc :: malloc where
  "demo_alloc \<equiv> \<lambda>H n. Some (first_free (\<lambda>p. H p \<noteq> None))"

abbreviation demo_source :: node_source where
  "demo_source \<equiv> \<lambda>D k. first_free (\<lambda>n. n_id (d_nodes D n) \<noteq> 0)"

lemma demo_schema: "schema_fits demo_type"
proof -
  have "length (enc_number n) \<le> 9" for n by (rule length_enc_number)
  from this [of 0] this [of "of_nat (attr_number Int8)"] this [of "of_nat (attr_number String)"] show ?thesis
    by (auto simp: schema_fits_def enc_schema_def enc_type_def enc_attribute_def arr_def demo_type_def length_enc_string_small)
qed

lemma demo_fresh: "fresh_start demo_alloc demo_source (\<lambda>_. Some 4096) demo_type 2 ((demo_service bs)\<lparr>v_fd := No_file\<rparr>)"
proof -
  have "\<lparr>ld_db = v_db (demo_service bs), ld_nodes = Map.empty\<rparr> = demo_loader"
    by (simp add: demo_service_def demo_loader_def)
  with demo_loads demo_schema demo_header show ?thesis
    by (simp add: fresh_start_def malloc_ok_const demo_service_def)
qed

theorem opening_continues_file_witness:
  "\<exists>V' nodes schema. load_data (\<lambda>_. True) (writer_init (\<lambda>_. 0)) (\<lambda>_. Some 4096) demo_alloc demo_source False [1]
      (Some (root_element True (enc_schema demo_type))) ((demo_service (enc_file demo_type 5 demo_items))\<lparr>v_fd := No_file\<rparr>) = Done (V', nodes, schema)
    \<and> represents \<lparr>ld_db = v_db V', ld_nodes = nodes\<rparr> [7 \<mapsto> (0, [DBytes [9], DBytes []])] \<and> v_fd V' = Data_file 1"
proof -
  have "k_files (v_disk ((demo_service (enc_file demo_type 5 demo_items))\<lparr>v_fd := No_file\<rparr>)) 1 = Some (enc_file demo_type 5 demo_items)"
    by (simp add: demo_service_def)
  from opening_continues_file [OF demo_fresh [folded demo_file(2)] this demo_file(1) demo_items_fit,
      of "\<lambda>_. True" "writer_init (\<lambda>_. 0)" False]
  show ?thesis unfolding demo_file(3) by blast
qed

theorem closed_file_loses_commits_witness:
  "\<exists>V' nodes schema V2 nodes2 schema2.
      load_data (\<lambda>_. True) (writer_init (\<lambda>_. 0)) (\<lambda>_. Some 4096) demo_alloc demo_source False [1]
        (Some (root_element True (enc_schema demo_type))) ((demo_service (enc_file demo_type 5 demo_items @ footer 6))\<lparr>v_fd := No_file\<rparr>) = Done (V', nodes, schema)
    \<and> v_fd V' = Data_file 1
    \<and> load_data (\<lambda>_. True) (writer_init (\<lambda>_. 0)) (\<lambda>_. Some 4096) demo_alloc demo_source False [1, 2] (Some schema)
        (((demo_service (enc_file demo_type 5 demo_items @ footer 6))\<lparr>v_fd := No_file\<rparr>)\<lparr>v_disk := (v_disk V')\<lparr>k_files := (k_files (v_disk V'))
          (1 \<mapsto> (enc_file demo_type 5 demo_items @ footer 6) @ enc_item (Committed [Deleted 7]))\<rparr>\<rparr>) = Done (V2, nodes2, schema2)
    \<and> represents \<lparr>ld_db = v_db V2, ld_nodes = nodes2\<rparr> [7 \<mapsto> (0, [DBytes [9], DBytes []])]"
proof -
  let ?V = "(demo_service (enc_file demo_type 5 demo_items @ footer 6))\<lparr>v_fd := No_file\<rparr>"
  have V: "k_files (v_disk ?V) 1 = Some (enc_file demo_type 5 demo_items @ footer 6)" "k_files (v_disk ?V) (1 + 1) = None"
    by (simp_all add: demo_service_def)
  have W: "w_ready (writer_init (\<lambda>_. 0))" "w_out (writer_init (\<lambda>_. 0)) = []" by (simp_all add: w_ready_def w_inv_writer_init)
  have two: "[1, 1 + 1] = [1, 2 :: nat]" by simp
  note t = closed_file_loses_commits [OF demo_fresh [folded demo_file(2)] V(1) demo_file(1) demo_items_fit V(2) TrueI W,
      where create = False, unfolded demo_file(3) two]
  then obtain V' nodes schema where 1: "load_data (\<lambda>_. True) (writer_init (\<lambda>_. 0)) (\<lambda>_. Some 4096) demo_alloc demo_source False [1]
        (Some (root_element True (enc_schema demo_type))) ?V = Done (V', nodes, schema)" "v_fd V' = Data_file 1"
    and 2: "\<forall>later. \<exists>V2 nodes2 schema2. load_data (\<lambda>_. True) (writer_init (\<lambda>_. 0)) (\<lambda>_. Some 4096) demo_alloc demo_source False [1, 2] (Some schema)
        (?V\<lparr>v_disk := (v_disk V')\<lparr>k_files := (k_files (v_disk V'))(1 \<mapsto> (enc_file demo_type 5 demo_items @ footer 6) @ later)\<rparr>\<rparr>) = Done (V2, nodes2, schema2)
      \<and> represents \<lparr>ld_db = v_db V2, ld_nodes = nodes2\<rparr> [7 \<mapsto> (0, [DBytes [9], DBytes []])]"
    by blast
  from 2 [rule_format, of "enc_item (Committed [Deleted 7])"] 1 show ?thesis by blast
qed

end
