(* ===== verification/Closing.thy ===== *)
theory Closing
  imports Dump Sync
begin

text \<open>
  \<open>database_close\<close>: the handles that still exist are destroyed, the sync thread and then the
  service thread are stopped, and the nodes are destroyed. The loop over the handles takes
  each of them out of the stack it runs over.
\<close>

section \<open>Handles\<close>

lemma length_remove_handle: "length (remove_handle h hs) \<le> length hs"
  by (induction hs) auto

text \<open>
  \<open>stack_for_each(H, D->handles)\<close> by position, as long as the stack, which shrinks only above
  its minimal size, stays where it is. \<open>hm\<close> is the memory of the handles; \<open>Failed\<close> says
  that \<open>db_handle_destroy\<close> waits for a commit that is not written yet.
\<close>

function close_handles :: "nat \<Rightarrow> u64 list \<Rightarrow> (u64 \<Rightarrow> Handle) \<Rightarrow> Database \<times> Queue
    \<Rightarrow> (u64 list \<times> (u64 \<Rightarrow> Handle) \<times> Database \<times> Queue) outcome" where
  "close_handles i hs hm (D, Q) =
    (if i < length hs then
       obind (db_handle_destroy hs (hm (hs ! i), D)) (\<lambda>(hs', H, D).
       case wait_for_pending (hs ! i) BD_MAX_PENDING_TRANSACTIONS_PER_HANDLER Q of
         None \<Rightarrow> Failed
       | Some Q \<Rightarrow> close_handles (Suc i) hs' (hm(hs ! i := H)) (D, Q))
     else Done (hs, hm, D, Q))"
  by pat_completeness auto
termination
proof (relation "measure (\<lambda>(i, hs, hm, D, Q). length hs - i)")
  fix i hs hm D Q x hs' y H D' Q'
  assume "i < length hs" and "db_handle_destroy hs (hm (hs ! i), D) = Done x"
    and "(hs', y) = x" and "(H, D') = y"
  then have "length hs' \<le> length hs" using length_remove_handle by (auto simp: db_handle_destroy_def elim!: obindE)
  with \<open>i < length hs\<close> show "((Suc i, hs', hm(hs ! i := H), D', Q'), i, hs, hm, D, Q) \<in> measure (\<lambda>(i, hs, hm, D, Q). length hs - i)"
    by auto
qed simp

declare close_handles.simps [simp del]

lemma remove_handle_at:
  "x \<notin> set A \<Longrightarrow> remove_handle x (A @ x # M) = A @ (if M = [] then [] else last M # butlast M)"
  by (induction A) auto

lemma wait_for_pending_ok:
  "n \<le> q_sems Q (Pending_transactions p) \<Longrightarrow>
    \<exists>Q'. wait_for_pending p n Q = Some Q' \<and> (\<forall>x. x \<noteq> Pending_transactions p \<longrightarrow> q_sems Q' x = q_sems Q x)"
proof (induction n arbitrary: Q)
  case (Suc n)
  let ?Q = "Q\<lparr>q_sems := (q_sems Q)(Pending_transactions p := q_sems Q (Pending_transactions p) - 1)\<rparr>"
  have "sem_wait (Pending_transactions p) Q = Some ?Q" using Suc.prems by (simp add: sem_wait_def)
  moreover have "n \<le> q_sems ?Q (Pending_transactions p)" using Suc.prems by simp
  ultimately show ?case using Suc.IH [of ?Q] by auto
qed simp

text \<open>A handle taken down has no transaction; its neighbours are as they were.\<close>

lemma db_handle_destroy_ok:
  assumes "h_ptr H = p"
  shows "\<exists>H' D'. db_handle_destroy hs (H, D) = Done (remove_handle p hs, H', D') \<and> h_start_time H' = 0"
proof (cases "h_start_time H = 0")
  case True
  with assms show ?thesis by (simp add: db_handle_destroy_def)
next
  case False
  obtain H' D' where a: "tr_abort_main (H, D) = Done (H', D')" "h_ptr H' = h_ptr H" using tr_abort_main_ok by blast
  then have "h_start_time H' = 0"
    by (auto simp: tr_abort_main_def atomic_simps handle_cleanup_def elim!: obindE split: prod.splits)
  with a False assms show ?thesis by (simp add: db_handle_destroy_def)
qed

definition handles_ok :: "u64 list \<Rightarrow> (u64 \<Rightarrow> Handle) \<Rightarrow> Queue \<Rightarrow> bool" where
  "handles_ok hs hm Q \<longleftrightarrow> distinct hs
     \<and> (\<forall>p \<in> set hs. h_ptr (hm p) = p \<and> BD_MAX_PENDING_TRANSACTIONS_PER_HANDLER \<le> q_sems Q (Pending_transactions p))"

text \<open>One round: the handle at hand goes, the last one takes its place.\<close>

lemma close_handles_step:
  assumes "handles_ok (x # M) hm Q" and "x \<notin> set A"
  shows "\<exists>H D1 Q1. close_handles (length A) (A @ x # M) hm (D, Q)
      = close_handles (Suc (length A)) (A @ (if M = [] then [] else last M # butlast M)) (hm(x := H)) (D1, Q1)
    \<and> h_start_time H = 0 \<and> handles_ok M (hm(x := H)) Q1"
proof -
  let ?hs = "A @ (if M = [] then [] else last M # butlast M)"
  have x: "h_ptr (hm x) = x" "BD_MAX_PENDING_TRANSACTIONS_PER_HANDLER \<le> q_sems Q (Pending_transactions x)" "x \<notin> set M"
    using assms(1) by (simp_all add: handles_ok_def)
  obtain H D1 where d: "db_handle_destroy (A @ x # M) (hm x, D) = Done (?hs, H, D1)" "h_start_time H = 0"
    using db_handle_destroy_ok [OF x(1), of "A @ x # M" D] remove_handle_at [OF assms(2), of M] by auto
  obtain Q1 where q: "wait_for_pending x BD_MAX_PENDING_TRANSACTIONS_PER_HANDLER Q = Some Q1"
      "\<forall>s. s \<noteq> Pending_transactions x \<longrightarrow> q_sems Q1 s = q_sems Q s"
    using wait_for_pending_ok [OF x(2)] by blast
  have "handles_ok M (hm(x := H)) Q1"
    using assms(1) x(3) q(2) unfolding handles_ok_def by (metis distinct.simps(2) fun_upd_apply list.set_intros(2) sem.inject(2))
  moreover have "close_handles (length A) (A @ x # M) hm (D, Q) = close_handles (Suc (length A)) ?hs (hm(x := H)) (D1, Q1)"
    using d(1) q(1) by (subst close_handles.simps) (simp add: nth_append)
  ultimately show ?thesis using d(2) by blast
qed

lemma handles_ok_butlast: "handles_ok M hm Q \<Longrightarrow> handles_ok (butlast M) hm Q"
  by (auto simp: handles_ok_def distinct_butlast dest: in_set_butlastD)

text \<open>The first half goes; each time the last handle moves to where the loop has been.\<close>

lemma close_handles_half:
  assumes "handles_ok M hm Q" and "set A \<inter> set M = {}"
  shows "\<exists>hm' D' Q'. close_handles (length A) (A @ M) hm (D, Q)
      = Done (A @ rev (drop ((length M + 1) div 2) M), hm', D', Q')
    \<and> (\<forall>p \<in> set (take ((length M + 1) div 2) M). h_start_time (hm' p) = 0)
    \<and> (\<forall>p. p \<notin> set (take ((length M + 1) div 2) M) \<longrightarrow> hm' p = hm p)"
  using assms
proof (induction "length M" arbitrary: M A hm D Q rule: less_induct)
  case less
  show ?case
  proof (cases M)
    case Nil
    then show ?thesis by (subst close_handles.simps) simp
  next
    case (Cons x M1)
    with less.prems have ok: "handles_ok (x # M1) hm Q" "x \<notin> set A" "x \<notin> set M1" by (auto simp: handles_ok_def)
    obtain H D1 Q1 where step: "close_handles (length A) (A @ x # M1) hm (D, Q)
        = close_handles (Suc (length A)) (A @ (if M1 = [] then [] else last M1 # butlast M1)) (hm(x := H)) (D1, Q1)"
      and H: "h_start_time H = 0" "handles_ok M1 (hm(x := H)) Q1"
      using close_handles_step [OF ok(1,2)] by blast
    show ?thesis
    proof (cases M1 rule: rev_cases)
      case Nil
      then show ?thesis unfolding Cons step using H(1) by (subst close_handles.simps) simp
    next
      case (snoc N y)
      let ?k = "(length N + 1) div 2"
      have N: "handles_ok N (hm(x := H)) Q1" using handles_ok_butlast [OF H(2)] snoc by simp
      have disj: "set (A @ [y]) \<inter> set N = {}" using less.prems Cons snoc by (auto simp: handles_ok_def)
      obtain hm' D' Q' where
        IH: "close_handles (length (A @ [y])) ((A @ [y]) @ N) (hm(x := H)) (D1, Q1) = Done ((A @ [y]) @ rev (drop ?k N), hm', D', Q')"
          "\<forall>p \<in> set (take ?k N). h_start_time (hm' p) = 0" "\<forall>p. p \<notin> set (take ?k N) \<longrightarrow> hm' p = (hm(x := H)) p"
        using less.hyps [OF _ N disj, of D1] Cons snoc by auto
      have k: "(length M + 1) div 2 = Suc ?k" "?k \<le> length N" using Cons snoc by simp_all
      have "x \<notin> set (take ?k N)" using ok(3) snoc set_take_subset [of ?k N] by auto
      with IH H(1) k show ?thesis unfolding Cons step by (auto simp: Cons snoc)
    qed
  qed
qed

section \<open>Nodes\<close>

text \<open>
  \<open>type->destroy(D->tm_allocator, node, 0)\<close> for every node of every type; \<open>place\<close> gives the
  address of the node at a position of an allocator. The number of slots bounds the traversal.
\<close>

definition close_node :: "addr \<Rightarrow> Database \<Rightarrow> Database" where
  "close_node n D = (case node_destroy D n 0 of (cs, fr) \<Rightarrow>
     (upd_node n (\<lambda>N. N\<lparr>n_cells := cs\<rparr>) D)\<lparr>d_freed := rev fr @ d_freed D\<rparr>)"

fun close_nodes :: "(nat \<Rightarrow> node_ref \<Rightarrow> addr) \<Rightarrow> nat \<Rightarrow> NodeAllocator list \<Rightarrow> Database \<Rightarrow> Database" where
  "close_nodes place k [] D = D"
| "close_nodes place k (A # As) D = close_nodes place (Suc k) As
    (fold (\<lambda>r. close_node (place k r))
      (node_for_each_from (node_allocator_dump_init A) (length (na_dump_blocks A) * na_slots A)) D)"

definition destroy_node_types :: "NodeAllocator list \<Rightarrow> addr list" where
  "destroy_node_types As = concat (map node_allocator_destroy As)"

text \<open>
  The two halves of \<open>database_close\<close>, before and after \<open>pthread_join\<close> of the service thread.
  The second answers with the pages given back.
\<close>

definition database_close :: "Writer \<Rightarrow> u64 list \<Rightarrow> (u64 \<Rightarrow> Handle) \<Rightarrow> Sync \<Rightarrow> Service
    \<Rightarrow> (u64 list \<times> (u64 \<Rightarrow> Handle) \<times> Sync \<times> Service) outcome" where
  "database_close W hs hm S V =
    obind (close_handles 0 hs hm (v_db V, v_queue V)) (\<lambda>(hs, hm, D, Q).
    let S = database_set_sync_period W 0 (S\<lparr>sy_queue := Q\<rparr>) in
    Done (hs, hm, S, request_stop (V\<lparr>v_db := D, v_queue := sy_queue S\<rparr>)))"

definition database_close_joined :: "(nat \<Rightarrow> node_ref \<Rightarrow> addr) \<Rightarrow> Service \<Rightarrow> Service \<times> addr list" where
  "database_close_joined place V =
    (V\<lparr>v_db := close_nodes place 0 (v_allocs V) (v_db V), v_fd := No_file\<rparr>, destroy_node_types (v_allocs V))"

lemma node_for_each_all: "traversable A \<Longrightarrow>
  node_for_each_from (node_allocator_dump_init A) (length (na_dump_blocks A) * na_slots A) = all_live A"
proof -
  assume A: "traversable A"
  let ?I = "node_allocator_dump_init A"
  have I: "remaining ?I = all_live A" "ptr_ok ?I" "na_dump_blocks ?I = na_dump_blocks A"
    using dump_init_remaining [of A] dump_init_form [of A] A by (auto simp: traversable_def)
  have "length (all_live A) \<le> length (concat (map (block_nodes (na_slots A)) (na_dump_blocks A)))"
    unfolding all_live_def by (rule length_filter_le)
  also have "\<dots> = length (na_dump_blocks A) * na_slots A"
    by (simp add: length_concat o_def block_nodes_def sum_list_triv)
  finally show ?thesis using node_for_each_remaining [OF I(2)] I(1,3) A by (simp add: traversable_def)
qed

text \<open>What the destructors ask the allocator to free, node by node.\<close>

definition node_frees :: "Database \<Rightarrow> addr \<Rightarrow> (addr \<times> u64) list" where
  "node_frees D n = snd (node_destroy D n 0)"

lemma node_frees_other [simp]: "m \<noteq> n \<Longrightarrow> node_frees (close_node n D) m = node_frees D m"
  by (simp add: node_frees_def node_destroy_def close_node_def node_get_type_def upd_node_def)

lemma close_node_freed: "d_freed (close_node n D) = rev (node_frees D n) @ d_freed D"
  by (simp add: close_node_def node_frees_def split: prod.split)

lemma fold_close_nodes:
  "distinct ns \<Longrightarrow> d_freed (fold close_node ns D) = rev (concat (map (node_frees D) ns)) @ d_freed D
    \<and> (\<forall>m. m \<notin> set ns \<longrightarrow> node_frees (fold close_node ns D) m = node_frees D m)"
proof (induction ns arbitrary: D)
  case (Cons n ns)
  then have n: "map (node_frees (close_node n D)) ns = map (node_frees D) ns" by (intro map_cong refl node_frees_other) auto
  show ?case using Cons.IH [of "close_node n D"] Cons.prems by (simp add: close_node_freed n)
qed simp

lemma close_nodes_fold:
  "list_all traversable As \<Longrightarrow> close_nodes place k As D
    = fold close_node (concat (map (\<lambda>j. map (place (k + j)) (all_live (As ! j))) [0..<length As])) D"
proof (induction As arbitrary: k D)
  case (Cons A As)
  have "map (\<lambda>j. map (place (k + j)) (all_live ((A # As) ! j))) [0..<length (A # As)]
      = map (place k) (all_live A) # map (\<lambda>j. map (place (Suc k + j)) (all_live (As ! j))) [0..<length As]"
    by (simp add: upt_conv_Cons map_Suc_upt [symmetric] del: upt_Suc)
  then show ?case using Cons by (simp add: node_for_each_all fold_map o_def del: upt_Suc)
qed simp

section \<open>What closing does\<close>

text \<open>Every node that exists is destroyed once, and every string of it is given back once.\<close>

lemma close_frees_strings:
  assumes "list_all traversable (v_allocs V)" and "distinct (map (\<lambda>(k, r). place k r) (live_list V))"
  shows "d_freed (v_db (fst (database_close_joined place V)))
    = rev (concat (map (\<lambda>(k, r). node_frees (v_db V) (place k r)) (live_list V))) @ d_freed (v_db V)"
proof -
  let ?ns = "map (\<lambda>(k, r). place k r) (live_list V)"
  have "concat (map (\<lambda>j. map (place (0 + j)) (all_live (v_allocs V ! j))) [0..<length (v_allocs V)]) = ?ns"
    by (simp add: live_list_def dump_rest_def map_concat o_def)
  then have "close_nodes place 0 (v_allocs V) (v_db V) = fold close_node ?ns (v_db V)"
    using close_nodes_fold [OF assms(1), of place 0] by simp
  then show ?thesis using fold_close_nodes [OF assms(2)]
    by (simp add: database_close_joined_def o_def case_prod_unfold)
qed

lemma sync_stopped:
  assumes "sync_ok rnd (S, t)"
  shows "sy_thread (database_set_sync_period W 0 (S\<lparr>sy_queue := Q\<rparr>)) = Stopped"
    and "sy_period (database_set_sync_period W 0 (S\<lparr>sy_queue := Q\<rparr>)) = 0"
  using assms set_period_form(1,2) [where q = 0 and p = 0 and W = W and S = "S\<lparr>sy_queue := Q\<rparr>"] by (auto simp: sync_ok_def)

text \<open>
  C40: \<open>database_close\<close> leaves handles behind. With \<open>n\<close> handles still registered the loop that
  is to destroy them all, each of which moves the last one to its own place, reaches only the
  first half: these have no transaction any more, but the others stay registered and are not
  touched -- their transactions are neither aborted nor committed, the locks they hold are not
  released, and their memory is lost with the stack. The sync thread is stopped in any case.
\<close>

theorem close_skips_handles:
  assumes "handles_ok hs hm (v_queue V)" and "sync_ok rnd (S, t)"
  shows "\<exists>hm' S' V'. database_close W hs hm S V = Done (rev (drop ((length hs + 1) div 2) hs), hm', S', V')
    \<and> (\<forall>p \<in> set (take ((length hs + 1) div 2) hs). h_start_time (hm' p) = 0)
    \<and> (\<forall>p \<in> set (drop ((length hs + 1) div 2) hs). hm' p = hm p)
    \<and> sy_thread S' = Stopped"
proof -
  let ?k = "(length hs + 1) div 2"
  obtain hm' D' Q' where c: "close_handles 0 hs hm (v_db V, v_queue V) = Done (rev (drop ?k hs), hm', D', Q')"
      "\<forall>p \<in> set (take ?k hs). h_start_time (hm' p) = 0" "\<forall>p. p \<notin> set (take ?k hs) \<longrightarrow> hm' p = hm p"
    using close_handles_half [OF assms(1), of "[]" "v_db V"] by auto
  have "distinct hs" using assms(1) by (simp add: handles_ok_def)
  then have "set (take ?k hs) \<inter> set (drop ?k hs) = {}" by (simp add: set_take_disj_set_drop_if_distinct)
  with c sync_stopped(1) [OF assms(2)] show ?thesis by (auto simp: database_close_def Let_def)
qed

text \<open>Two handles, the second in the middle of a transaction.\<close>

definition demo_handles :: "u64 \<Rightarrow> Handle" where
  "demo_handles p = (fst (db_handle_init p []))\<lparr>h_start_time := (if p = 6 then 3 else 0)\<rparr>"

definition demo_closing :: "Service" where
  "demo_closing = (demo_service [])\<lparr>v_queue := \<lparr>q_jobs = [], q_freed = [], q_counter = 0, q_sems = (\<lambda>_. 128)\<rparr>\<rparr>"

theorem close_skips_handles_witness:
  "\<exists>hm' S' V'. database_close (writer_init (\<lambda>_. 0)) [2, 6] demo_handles (sync_init (v_queue demo_closing)) demo_closing
      = Done ([6], hm', S', V')
    \<and> h_start_time (hm' 6) = 3"
proof -
  have "handles_ok [2, 6] demo_handles (v_queue demo_closing)"
    by (simp add: handles_ok_def demo_handles_def db_handle_init_def demo_closing_def BD_MAX_PENDING_TRANSACTIONS_PER_HANDLER_def)
  moreover have "sync_ok (\<lambda>x. x) (sync_init (v_queue demo_closing), 0)" by (simp add: sync_ok_def sync_init_def)
  moreover have "h_start_time (demo_handles 6) = 3" by (simp add: demo_handles_def)
  ultimately show ?thesis
    using close_skips_handles [of "[2, 6]" demo_handles demo_closing "\<lambda>x. x" "sync_init (v_queue demo_closing)" 0 "writer_init (\<lambda>_. 0)"]
    by fastforce
qed

end
