(* ===== verification/Spec2Isabelle.thy ===== *)
theory Spec2Isabelle
  imports Crc Writer Reader Storage Rescuer Show_File Lock Stm Stacks Bit_Array Single_List Double_List Num_Dictionary Allocators Node_Allocator Database_Types Attributes Transaction Typing Data_File Loader Pointers Commit Retry Sync Service Dump Opening Closing
begin

text \<open>
  HybridDatabase is an embedded, transactional, in-memory graph database in C: a program
  declares node types with typed attributes, works on nodes in (nestable) transactions, and
  every committed transaction is appended to a data file from which the database is loaded
  again. This library models the default configuration of \<open>database.types/enums.h\<close>
  (\<open>SIMPLE_SERVICE_THREAD\<close>, \<open>FAST_COMMIT\<close>, \<open>DB_DEFER_DEALLOC\<close>, \<open>INPLACE_NODE_LOCKS\<close> and
  \<open>INPLACE_INDEX_LOCKS\<close> all 1), function by function, and proves what makes the parts correct.

  \<^bold>\<open>Conventions.\<close> A C function is a HOL function of the same name on explicit state.
  \<open>Prelude\<close> has the results of fallible functions: \<open>Done\<close>, \<open>Failed\<close> (the function reported
  failure; in the service thread: it waits for a semaphore), \<open>Fault\<close> (an assertion, \<open>abort\<close> or
  \<open>utilDie\<close>, or an access outside an object). Machine integers are words. Memory is abstracted
  as far as a component allows: a writer's buffer is a byte memory with offsets, a list node a
  pair of links, a node of the database a record of cells. \<open>malloc\<close>, \<open>mmap\<close>, \<open>rand\<close>, what \<open>open\<close>
  answers, index callbacks (generated code) and the order of directory entries are arguments.

  \<^bold>\<open>Storage\<close> (\<open>storage/\<close>).
  \<^item> \<open>Crc\<close>: \<open>crc.c\<close>; the table-driven loop is polynomial division, every burst of at most 32
    bits changes the checksum.
  \<^item> \<open>Writer\<close>: \<open>writer.c\<close> and the writing half of \<open>inline.h\<close>; a refinement of a writer that
    only knows the bytes of finished and unfinished elements (\<open>w_out\<close>, \<open>w_cur\<close>).
  \<^item> \<open>Reader\<close>: \<open>reader.c\<close> and the reading half; what it accepts, what makes it leave its buffer.
  \<^item> \<open>Storage\<close>: the locale \<open>codec\<close> (a writing and a reading function that fit), its pairing, and
    files: round trips, damage, torn writes. A reader that insists on the checksum notices
    damage wherever it stands; one that does not may swallow the mark (\<open>swallowed_checksum\<close>).
  \<^item> \<open>Rescuer\<close>: the program \<open>rescuer.c\<close>, which copies the elements of a damaged file.
  \<^item> \<open>Show_File\<close>: the program \<open>show_file.c\<close>; what it prints for an undamaged file, and where its
    output is ambiguous or blames the checksum wrongly.

  \<^bold>\<open>Utilities and allocators\<close> (\<open>utils/\<close>, \<open>allocators/\<close>).
  \<^item> \<open>Lock\<close>: versioned locks. Each loop iteration is its read, its compare-and-swap and its
    verdict, so \<open>lock_step\<close> interleaves the threads at every atomic access; \<open>lock_protocol\<close> holds
    for all interleavings. \<open>l_lock\<close> is the run nobody disturbs, which the other theories use.
  \<^item> \<open>Stacks\<close>, \<open>Bit_Array\<close>, \<open>Single_List\<close>,
    \<open>Double_List\<close>, \<open>Num_Dictionary\<close>: each against the abstract structure it implements, through
    the locales declared there; concurrent operations are shown linearizable.
  \<^item> \<open>Allocators\<close> (pages, pages and memory released with a delay, cached objects) and
    \<open>Node_Allocator\<close> (nodes in pages, with the traversal a dump uses).

  \<^bold>\<open>Transactions\<close> (\<open>database.types/\<close>, \<open>attributes/\<close>, \<open>database.include/\<close>).
  \<^item> \<open>Database_Types\<close>, \<open>Attributes\<close>: records, cells and the four functions of each attribute
    type; a cell stored and loaded keeps its value.
  \<^item> \<open>Transaction\<close>: what a session can do between \<open>tr_begin\<close> and the end: reading and writing
    attributes, creating and deleting nodes, nested transactions and their abort.
    \<open>tr_execs\<close> runs any sequence of operations; every change is logged (\<open>logged\<close>), so undoing
    restores what the session saw (\<open>same_view\<close>).
  \<^item> \<open>Typing\<close>: the cells of a node have the types its schema gives them, and a string lies in a
    block that no one has asked to release (\<open>live_mem\<close>); \<open>keeps\<close> is that invariant together with
    what undoing the log returns, so it survives rollback and abort.
  \<^item> \<open>Stm\<close>: many sessions at once, as a transition system over locks, versions and read sets,
    down to the steps of a single read or validation; opacity, serializability, ownership.
  \<^item> \<open>Commit\<close>: \<open>_tr_commit_main\<close> with \<open>FAST_COMMIT\<close>: the job takes its place in the output queue
    first, then the transaction is validated, written into the job and the job marked ready.
  \<^item> \<open>Retry\<close>: the brackets \<open>trBegin\<close> and \<open>trCommit\<close> around a program (\<open>stmt\<close>), with restarts,
    nested blocks and restart actions; a block commits once or leaves no trace. Also the length
    of the pause before a restart.

  \<^bold>\<open>Persistence\<close> (\<open>database.include/\<close>).
  \<^item> \<open>Data_File\<close>: everything \<open>write.c\<close> writes and \<open>process_transaction_log\<close> makes of a log;
    contracts \<open>writes f bs\<close> and \<open>reads f bs\<close> with introduction rules for sequence, loop and array,
    so that a function's encoding follows by \<open>intro writes_intros\<close>.
  \<^item> \<open>Loader\<close>: \<open>read.c\<close> and \<open>load_file\<close>. \<open>represents\<close> relates the nodes in memory to an abstract
    database (identifiers, types, values); loading a file is the fold of its items over it.
  \<^item> \<open>Pointers\<close>: the two passes a load makes over pointers. A loaded cell holds an identifier;
    \<open>fix_pointers\<close> resolves it and counts it, which establishes the precondition \<open>counts_ok\<close>
    of pointer writes in \<open>Transaction\<close>.
  \<^item> \<open>Service\<close>: \<open>threads.c\<close>, the service thread as a machine with one step per stage
    (\<open>service_step\<close>), the buffered output and the data files with their synced prefix. Writing a
    commit, \<open>fsync\<close> and the post to the waiting committer are steps of their own; \<open>at_point\<close> is the
    invariant of the way through a queue of commits. \<open>queue_step\<close> interleaves the thread with the
    two halves of \<open>output_queue_push\<close> and with committers that fill their jobs; \<open>q_freed\<close> records
    which jobs the thread has freed.
  \<^item> \<open>Sync\<close>: the thread that asks for a sync periodically, and the changes of its period.
  \<^item> \<open>Dump\<close>: a dump from its request to its end marker. \<open>dump_todo\<close> is what the traversals have
    before them, \<open>sent\<close> the output so far; the file written loads again as the nodes dumped.
  \<^item> \<open>Opening\<close>: \<open>load_data\<close>, \<open>database_create\<close> and the choice of the file to write to.
  \<^item> \<open>Closing\<close>: \<open>database_close\<close>, before and after the service thread has ended. Every node is
    destroyed once (\<open>close_frees_strings\<close>); of the handles only the first half is reached.

  How the parts meet: a transaction of \<open>Transaction\<close> ends in \<open>Commit\<close>, whose job holds the bytes
  \<open>Data_File\<close> describes; \<open>Service\<close> carries them to the file; \<open>Loader\<close> and \<open>Opening\<close> bring the file
  back into nodes. \<open>commits_survive_restart\<close>, \<open>dump_roundtrip\<close> and \<open>sync_commit_durable\<close> are
  statements about the whole chain.

  \<^bold>\<open>Bounds and fuel.\<close> Loops are total functions with measures (the bytes left in a file or an
  element, the buckets of a table). Fuel occurs in \<open>node_for_each_from\<close> (the number of nodes is
  enough, \<open>node_for_each_visits\<close>), \<open>generate_magic_nr\<close> (every attempt fails with probability
  \<open>2^-64\<close>) and \<open>service_steps\<close>, which counts steps and is used for every number of them; five
  steps per queued commit suffice (\<open>service_runs\<close>). The fuel of \<open>exec\<close> bounds the restarts of a block, which the
  code does not; more of it never changes an answer (\<open>exec_more_fuel\<close>). Retry loops on atomic operations run over
  the list of what they find. Loading assumes memory for its strings and nodes (\<open>budget\<close>);
  encodings are assumed shorter than \<open>2^60\<close> bytes.

  \<^bold>\<open>Not modelled.\<close> Indexes: \<open>database.types/index.h\<close> and the code \<open>generate_index.pl\<close> makes are
  a callback argument. The macros of \<open>database.h\<close>, \<open>type_magic.h\<close> and \<open>static_if.h\<close> that
  choose functions and cast pointers at compile time, \<open>busy_wait\<close>, debugging
  output, the code generators, and the example \<open>text/priklad.c\<close>. Weak memory: atomic operations
  are taken as sequentially consistent, as on amd64 with the locked instructions used. \<open>xrealloc\<close>
  does not fail, the bracket depth of readers and writers is an unbounded integer where C has
  \<open>int\<close>, and \<open>Stm\<close> has no nested transactions and validates the read set latest entry first
  (the code: earliest first).
\<close>

end
